(* ===== verification/Prelude.thy ===== *)
theory Prelude
  imports Main "HOL-Library.AList"
begin

text \<open>
  What the component theories share: the errors Python code raises, results that are an
  error or a value, insertion-ordered dictionaries and sets as lists, and the induction
  principles for loops that the components use.

  \<^item> A \<open>dict\<close> keeps its insertion order: it is an association list, read with \<open>map_of\<close>,
    written with \<open>AList.update\<close> (which overwrites in place or appends) and \<open>AList.delete\<close>.
  \<^item> A \<open>set\<close> is a list without duplicates. Python leaves the iteration order open; the
    theorems quantify over the list, so they hold for every order.
  \<^item> A \<open>raise\<close> is an \<open>Inl\<close> of a \<open>pyerr\<close>, and \<open>bindE\<close> runs the rest of a function only
    after a value.
\<close>

section \<open>Collections of facts\<close>

named_theorems dict_simps \<open>lookups and keys of dictionaries after an update\<close>
named_theorems res_simps \<open>results: which value or error a sequence of steps gives\<close>

section \<open>Errors and results\<close>

datatype pyerr =
    IndexError
  | KeyError
  | ValueError
  | TypeError
  | RuntimeError
  | AssertionError
  | AttributeError
  | NotImplementedError
  | ZeroDivisionError
  | UnsupportedError
  | PyException
  | NameError
  | VerificationError
  | OverflowError
  | RedefinedError
  | CompilerError

type_synonym 'a res = "pyerr + 'a"

definition bindE :: "'e + 'a \<Rightarrow> ('a \<Rightarrow> 'e + 'b) \<Rightarrow> 'e + 'b" where
  "bindE m f = (case m of Inl e \<Rightarrow> Inl e | Inr x \<Rightarrow> f x)"

lemma bindE_simps [simp]:
  "bindE (Inl e) f = Inl e"
  "bindE (Inr x) f = f x"
  by (simp_all add: bindE_def)

lemma bindE_Inr_iff [res_simps]:
  "bindE m f = Inr y \<longleftrightarrow> (\<exists>x. m = Inr x \<and> f x = Inr y)"
  by (cases m) auto

lemma bindE_Inl_iff [res_simps]:
  "bindE m f = Inl e \<longleftrightarrow> m = Inl e \<or> (\<exists>x. m = Inr x \<and> f x = Inl e)"
  by (cases m) auto

text \<open>A loop whose body may raise: the first error stops it.\<close>

fun mapE :: "('a \<Rightarrow> 'e + 'b) \<Rightarrow> 'a list \<Rightarrow> 'e + 'b list" where
  "mapE f [] = Inr []"
| "mapE f (x # xs) = bindE (f x) (\<lambda>y. bindE (mapE f xs) (\<lambda>ys. Inr (y # ys)))"

fun foldE :: "('a \<Rightarrow> 's \<Rightarrow> 'e + 's) \<Rightarrow> 'a list \<Rightarrow> 's \<Rightarrow> 'e + 's" where
  "foldE f [] s = Inr s"
| "foldE f (x # xs) s = bindE (f x s) (foldE f xs)"

lemma mapE_length: "mapE f xs = Inr ys \<Longrightarrow> length ys = length xs"
  by (induction xs arbitrary: ys) (auto simp: res_simps)

lemma mapE_nth: "mapE f xs = Inr ys \<Longrightarrow> i < length xs \<Longrightarrow> f (xs ! i) = Inr (ys ! i)"
  by (induction xs arbitrary: ys i) (auto simp: res_simps nth_Cons split: nat.splits)

lemma mapE_total: "(\<And>x. x \<in> set xs \<Longrightarrow> f x = Inr (g x)) \<Longrightarrow> mapE f xs = Inr (map g xs)"
  by (induction xs) auto

lemma foldE_append: "foldE f (xs @ ys) s = bindE (foldE f xs s) (foldE f ys)"
  by (induction xs arbitrary: s) (auto simp: bindE_def split: sum.splits)

lemma foldE_invariant:
  assumes "foldE f xs s = Inr s'" and "P s"
    and "\<And>x s s'. x \<in> set xs \<Longrightarrow> P s \<Longrightarrow> f x s = Inr s' \<Longrightarrow> P s'"
  shows "P s'"
  using assms
proof (induction xs arbitrary: s)
  case Nil
  then show ?case by simp
next
  case (Cons x xs)
  then obtain s1 where "f x s = Inr s1" and "foldE f xs s1 = Inr s'"
    by (auto simp: res_simps)
  with Cons.prems Cons.IH[of s1] show ?case by auto
qed

section \<open>Dictionaries\<close>

type_synonym ('k, 'v) dict = "('k \<times> 'v) list"

abbreviation dkeys :: "('k, 'v) dict \<Rightarrow> 'k list" where
  "dkeys d \<equiv> map fst d"

abbreviation dvalues :: "('k, 'v) dict \<Rightarrow> 'v list" where
  "dvalues d \<equiv> map snd d"

abbreviation dset :: "'k \<Rightarrow> 'v \<Rightarrow> ('k, 'v) dict \<Rightarrow> ('k, 'v) dict" where
  "dset \<equiv> AList.update"

definition dget :: "('k, 'v) dict \<Rightarrow> 'k \<Rightarrow> 'v res" where
  "dget d k = (case map_of d k of None \<Rightarrow> Inl KeyError | Some v \<Rightarrow> Inr v)"

lemma dset_lookup [dict_simps, simp]:
  "map_of (dset k v d) k' = (if k' = k then Some v else map_of d k')"
  by (simp add: update_conv')

lemma dset_keys [dict_simps, simp]: "fst ` set (dset k v d) = insert k (fst ` set d)"
  by (simp add: dom_update flip: dom_map_of_conv_image_fst)
     (auto simp: dom_map_of_conv_image_fst update_conv' split: if_splits)

lemma ddelete_keys [dict_simps, simp]: "fst ` set (AList.delete k d) = fst ` set d - {k}"
proof -
  have "set (map fst (AList.delete k d)) = set (removeAll k (map fst d))"
    by (simp only: delete_keys)
  then show ?thesis by simp
qed

lemma dset_keys_present: "k \<in> fst ` set d \<Longrightarrow> dkeys (dset k v d) = dkeys d"
  by (induction d) auto

lemma map_of_outside: "k \<notin> set (dkeys d) \<Longrightarrow> map_of d k = None"
  by (simp add: map_of_eq_None_iff)

lemma fold_dset_fresh:
  "distinct (dkeys t @ map f xs) \<Longrightarrow> fold (\<lambda>x t. dset (f x) (g x) t) xs t = t @ map (\<lambda>x. (f x, g x)) xs"
proof (induction xs arbitrary: t)
  case Nil
  then show ?case by simp
next
  case (Cons x xs)
  then have "f x \<notin> set (dkeys t)" by auto
  then have "dset (f x) (g x) t = t @ [(f x, g x)]"
    by (induction t) auto
  with Cons show ?case by simp
qed

section \<open>Python sequences and decimal numerals\<close>

text \<open>\<open>xs[i]\<close>: a negative index counts from the end; out of range is an \<open>IndexError\<close>.\<close>

definition py_index :: "'a list \<Rightarrow> int \<Rightarrow> 'a res" where
  "py_index xs i =
     (if - int (length xs) \<le> i \<and> i < int (length xs)
      then Inr (xs ! nat (if i < 0 then i + int (length xs) else i))
      else Inl IndexError)"

lemma py_index_mem: "py_index xs i = Inr x \<Longrightarrow> x \<in> set xs"
  by (auto simp: py_index_def split: if_splits intro!: nth_mem)

lemma py_index_nat: "n < length xs \<Longrightarrow> py_index xs (int n) = Inr (xs ! n)"
  by (simp add: py_index_def)

lemma find_mem: "List.find P xs = Some x \<Longrightarrow> x \<in> set xs \<and> P x"
  by (induction xs) (auto split: if_splits)

text \<open>The decimal numeral of a number, as \<open>str.format\<close> writes it.\<close>

definition digit :: "nat \<Rightarrow> char" where
  "digit d = char_of (48 + d)"

fun show_nat :: "nat \<Rightarrow> string" where
  "show_nat n = (if n < 10 then [digit n] else show_nat (n div 10) @ [digit (n mod 10)])"

declare show_nat.simps [simp del]

definition show_int :: "int \<Rightarrow> string" where
  "show_int i = (if i < 0 then CHR ''-'' # show_nat (nat (- i)) else show_nat (nat i))"

definition is_digit :: "char \<Rightarrow> bool" where
  "is_digit c \<longleftrightarrow> 48 \<le> (of_char c :: nat) \<and> (of_char c :: nat) \<le> 57"

lemma digit_of_char: "d < 10 \<Longrightarrow> (of_char (digit d) :: nat) = 48 + d"
  by (simp add: digit_def of_char_of)

lemma digit_inject: "d < 10 \<Longrightarrow> e < 10 \<Longrightarrow> digit d = digit e \<longleftrightarrow> d = e"
  by (metis digit_of_char add_left_cancel)

lemma is_digit_digit: "d < 10 \<Longrightarrow> is_digit (digit d)"
  by (simp add: is_digit_def digit_of_char)

lemma show_nat_digits: "c \<in> set (show_nat n) \<Longrightarrow> is_digit c"
proof (induction n rule: show_nat.induct)
  case (1 n)
  show ?case
  proof (cases "n < 10")
    case True
    with "1.prems" show ?thesis by (simp add: show_nat.simps[of n] is_digit_digit)
  next
    case False
    with "1.prems" have "c \<in> set (show_nat (n div 10)) \<or> c = digit (n mod 10)"
      by (auto simp: show_nat.simps[of n])
    with "1.IH"[OF False] show ?thesis by (auto simp: is_digit_digit)
  qed
qed

lemma show_nat_nonempty [simp]: "show_nat n \<noteq> []" "[] \<noteq> show_nat n"
  by (subst show_nat.simps, simp)+

lemma show_nat_inject [simp]: "show_nat m = show_nat n \<longleftrightarrow> m = n"
proof (induction m arbitrary: n rule: show_nat.induct)
  case (1 m)
  show ?case
  proof (cases "m < 10")
    case True
    then show ?thesis
      by (subst (1 2) show_nat.simps) (auto simp: digit_inject)
  next
    case False
    show ?thesis
    proof (cases "n < 10")
      case True
      with False show ?thesis by (subst (1 2) show_nat.simps) auto
    next
      case ge: False
      have "show_nat m = show_nat n \<longleftrightarrow> m div 10 = n div 10 \<and> m mod 10 = n mod 10"
        using False ge "1.IH"[OF False, of "n div 10"]
        by (subst (1 2) show_nat.simps) (auto simp: digit_inject)
      also have "\<dots> \<longleftrightarrow> m = n"
        by (metis div_mult_mod_eq)
      finally show ?thesis .
    qed
  qed
qed

section \<open>Sets as lists\<close>

definition set_add :: "'a \<Rightarrow> 'a list \<Rightarrow> 'a list" where
  "set_add x xs = (if x \<in> set xs then xs else xs @ [x])"

definition set_update :: "'a list \<Rightarrow> 'a list \<Rightarrow> 'a list" where
  "set_update xs ys = fold set_add ys xs"

lemma set_set_add [simp]: "set (set_add x xs) = insert x (set xs)"
  by (auto simp: set_add_def)

lemma distinct_set_add [simp]: "distinct (set_add x xs) = distinct xs"
  by (auto simp: set_add_def)

lemma set_set_update [simp]: "set (set_update xs ys) = set xs \<union> set ys"
  unfolding set_update_def by (induction ys arbitrary: xs) auto

lemma distinct_set_update [simp]: "distinct (set_update xs ys) = distinct xs"
  unfolding set_update_def by (induction ys arbitrary: xs) auto

section \<open>Loops\<close>

text \<open>
  An invariant of a loop body is an invariant of the loop; a fact that the body
  establishes for its own element, and that later iterations keep, holds for every element
  at the end.
\<close>

lemma fold_invariant:
  assumes "P s" and "\<And>x s. x \<in> set xs \<Longrightarrow> P s \<Longrightarrow> P (f x s)"
  shows "P (fold f xs s)"
  using assms by (induction xs arbitrary: s) auto

lemma fold_establish:
  assumes "x \<in> set xs" and "I s"
    and "\<And>y s. y \<in> set xs \<Longrightarrow> I s \<Longrightarrow> I (f y s)"
    and "\<And>s. I s \<Longrightarrow> Q (f x s)"
    and "\<And>y s. y \<in> set xs \<Longrightarrow> I s \<Longrightarrow> Q s \<Longrightarrow> Q (f y s)"
  shows "Q (fold f xs s)"
  using assms
proof (induction xs arbitrary: s)
  case Nil
  then show ?case by simp
next
  case (Cons y ys)
  show ?case
  proof (cases "x \<in> set ys")
    case True
    with Cons show ?thesis by auto
  next
    case False
    with Cons.prems have "y = x" by simp
    with Cons.prems have "I (f y s) \<and> Q (f y s)" by auto
    then have "I (fold f ys (f y s)) \<and> Q (fold f ys (f y s))"
      by (rule fold_invariant[where P = "\<lambda>s. I s \<and> Q s"]) (use Cons.prems in auto)
    then show ?thesis by simp
  qed
qed

text \<open>
  Code that may neither end nor succeed: \<open>None\<close> is a loop that runs forever. \<open>loopE\<close> is
  \<open>while b(s): s = c(s)\<close> for such code.
\<close>

definition bindO :: "('e + 'a) option \<Rightarrow> ('a \<Rightarrow> ('e + 'b) option) \<Rightarrow> ('e + 'b) option" where
  "bindO m f =
     (case m of None \<Rightarrow> None | Some r \<Rightarrow> (case r of Inl e \<Rightarrow> Some (Inl e) | Inr x \<Rightarrow> f x))"

lemma bindO_simps [simp]:
  "bindO None f = None" "bindO (Some (Inl e)) f = Some (Inl e)" "bindO (Some (Inr x)) f = f x"
  by (simp_all add: bindO_def)

lemma bindO_Some_iff [res_simps]: "bindO m f = Some (Inr y) \<longleftrightarrow> (\<exists>x. m = Some (Inr x) \<and> f x = Some (Inr y))"
  by (simp add: bindO_def split: option.splits sum.splits)

fun foldO :: "('a \<Rightarrow> 's \<Rightarrow> ('e + 's) option) \<Rightarrow> 'a list \<Rightarrow> 's \<Rightarrow> ('e + 's) option" where
  "foldO f [] s = Some (Inr s)"
| "foldO f (x # xs) s = bindO (f x s) (foldO f xs)"

partial_function (option) loopE :: "('s \<Rightarrow> bool) \<Rightarrow> ('s \<Rightarrow> ('e + 's) option) \<Rightarrow> 's \<Rightarrow> ('e + 's) option" where
  "loopE b c s =
     (if b s
      then (case c s of
              None \<Rightarrow> None
            | Some r \<Rightarrow> (case r of Inl e \<Rightarrow> Some (Inl e) | Inr s' \<Rightarrow> loopE b c s'))
      else Some (Inr s))"

declare loopE.simps [code]

lemma loopE_unfold: "loopE b c s = (if b s then bindO (c s) (loopE b c) else Some (Inr s))"
  by (subst loopE.simps) (simp add: bindO_def)

lemma loopE_done: "\<not> b s \<Longrightarrow> loopE b c s = Some (Inr s)"
  by (subst loopE.simps) simp

lemma loopE_rule:
  assumes "P s" and wf: "wf r"
    and step: "\<And>s. P s \<Longrightarrow> b s \<Longrightarrow> \<exists>s'. c s = Some (Inr s') \<and> P s' \<and> (s', s) \<in> r"
  shows "\<exists>s'. loopE b c s = Some (Inr s') \<and> P s' \<and> \<not> b s'"
  using wf assms(1)
proof (induction s rule: wf_induct_rule)
  case (less s)
  show ?case
  proof (cases "b s")
    case True
    with step[OF less.prems] obtain s' where "c s = Some (Inr s')" "P s'" "(s', s) \<in> r" by blast
    with less.IH[of s'] True show ?thesis by (simp add: loopE_unfold[of b c s])
  next
    case False
    with less.prems show ?thesis by (simp add: loopE_done)
  qed
qed

lemma loopE_invariant:
  assumes "loopE b c s = Some (Inr s')" and "P s"
    and step: "\<And>s s'. P s \<Longrightarrow> b s \<Longrightarrow> c s = Some (Inr s') \<Longrightarrow> P s'"
  shows "P s' \<and> \<not> b s'"
proof -
  let ?Q = "\<lambda>b c s r. \<forall>s'. r = Inr s' \<longrightarrow> P s \<longrightarrow> (\<forall>s s'. P s \<longrightarrow> b s \<longrightarrow> c s = Some (Inr s') \<longrightarrow> P s')
    \<longrightarrow> P s' \<and> \<not> b s'"
  have "?Q b c s r" if "loopE b c s = Some r" for s r
  proof (rule loopE.raw_induct[where P = ?Q, OF _ that], intro allI impI)
    fix self b c s r s'
    assume IH: "\<And>b c s r. self b c s = Some r \<Longrightarrow> ?Q b c s r"
      and run: "(if b s then case c s of None \<Rightarrow> None
          | Some r \<Rightarrow> (case r of Inl e \<Rightarrow> Some (Inl e) | Inr s' \<Rightarrow> self b c s') else Some (Inr s)) = Some r"
      and r: "r = Inr s'" and P: "P s" and step: "\<forall>s s'. P s \<longrightarrow> b s \<longrightarrow> c s = Some (Inr s') \<longrightarrow> P s'"
    show "P s' \<and> \<not> b s'"
    proof (cases "b s")
      case True
      with run r obtain s1 where s1: "c s = Some (Inr s1)" "self b c s1 = Some (Inr s')" by (auto split: option.splits sum.splits)
      from step P True s1(1) have "P s1" by blast
      with IH[OF s1(2)] step show ?thesis by blast
    qed (use run r P in simp)
  qed
  from this[OF assms(1)] assms(2) step show ?thesis by blast
qed

lemma foldO_rule:
  assumes "P xs s"
    and "\<And>x xs s. P (x # xs) s \<Longrightarrow> \<exists>s'. f x s = Some (Inr s') \<and> P xs s'"
  shows "\<exists>s'. foldO f xs s = Some (Inr s') \<and> P [] s'"
  using assms(1)
proof (induction xs arbitrary: s)
  case Nil
  then show ?case by simp
next
  case (Cons x xs)
  from assms(2)[OF Cons.prems] obtain s' where "f x s = Some (Inr s')" "P xs s'" by blast
  with Cons.IH[of s'] show ?case by simp
qed

lemma foldO_invariant:
  assumes "foldO f xs s = Some (Inr s')" and "P s"
    and "\<And>x s s'. P s \<Longrightarrow> f x s = Some (Inr s') \<Longrightarrow> P s'"
  shows "P s'"
  using assms(1,2)
proof (induction xs arbitrary: s)
  case (Cons x xs)
  then obtain s1 where "f x s = Some (Inr s1)" "foldO f xs s1 = Some (Inr s')" by (auto simp: res_simps)
  with Cons.IH[of s1] assms(3)[OF Cons.prems(2)] show ?case by blast
qed simp

lemma foldE_total:
  assumes "P s" and "\<And>x s. x \<in> set xs \<Longrightarrow> P s \<Longrightarrow> \<exists>s'. f x s = Inr s' \<and> P s'"
  shows "\<exists>s'. foldE f xs s = Inr s' \<and> P s'"
  using assms
proof (induction xs arbitrary: s)
  case (Cons x xs)
  from Cons.prems(2)[of x s] Cons.prems(1) obtain s1 where s1: "f x s = Inr s1" "P s1" by auto
  from Cons.IH[OF s1(2)] Cons.prems(2) s1(1) show ?case by auto
qed simp

lemma mapE_some: "(\<And>x. x \<in> set xs \<Longrightarrow> \<exists>y. f x = Inr y) \<Longrightarrow> \<exists>ys. mapE f xs = Inr ys"
proof (induction xs)
  case (Cons x xs)
  from Cons.prems[of x] obtain y where "f x = Inr y" by auto
  with Cons show ?case by auto
qed simp

lemma dget_some: "l \<in> set (dkeys d) \<Longrightarrow> \<exists>y. dget d l = Inr y"
  by (cases "map_of d l") (auto simp: dget_def map_of_eq_None_iff)

lemma dset_entry: "(k, w) \<in> set (dset x v d) \<Longrightarrow> w = v \<or> (k, w) \<in> set d"
  by (induction d) (auto split: if_splits)

end
