(* ===== verification/CastGraph.thy ===== *)
theory CastGraph
  imports Prelude
begin

text \<open>
  The casting rules between types: \<open>numba_cuda/typeconv/castgraph.py\<close>. A
  \<open>conversion\<close> says how strict a conversion is, a \<open>castset\<close> holds one rule per target
  type, and a \<open>typegraph\<close> propagates every inserted rule to all types connected through
  it. The \<open>emitted\<close> field is the sequence of callback calls the graph makes
  (\<open>typeconv.TypeCastingRules\<close> turns each into a type manager entry).
\<close>

section \<open>Conversion kinds\<close>

datatype conversion = Exact | Promote | Safe | Unsafe | NilConv

primrec conv_value :: "conversion \<Rightarrow> int" where
  "conv_value Exact = 1"
| "conv_value Promote = 2"
| "conv_value Safe = 3"
| "conv_value Unsafe = 4"
| "conv_value NilConv = 99"

lemma conv_value_inject [simp]: "conv_value a = conv_value b \<longleftrightarrow> a = b"
  by (cases a; cases b) auto

text \<open>\<open>Conversion\<close> is an \<open>IntEnum\<close>: its members compare by value.\<close>

instantiation conversion :: linorder
begin

definition less_eq_conversion :: "conversion \<Rightarrow> conversion \<Rightarrow> bool" where
  "less_eq_conversion a b \<longleftrightarrow> conv_value a \<le> conv_value b"

definition less_conversion :: "conversion \<Rightarrow> conversion \<Rightarrow> bool" where
  "less_conversion a b \<longleftrightarrow> conv_value a < conv_value b"

instance
  by standard (auto simp: less_eq_conversion_def less_conversion_def)

end

lemma conv_le_Nil [simp]: "c \<le> NilConv"
  by (cases c) (auto simp: less_eq_conversion_def)

lemma conv_Nil_le [simp]: "NilConv \<le> c \<longleftrightarrow> c = NilConv"
  by (cases c) (auto simp: less_eq_conversion_def)

lemma conv_Nil_less [simp]: "\<not> NilConv < c"
  by (simp add: not_less)

lemma conv_less_Nil [simp]: "c < NilConv \<longleftrightarrow> c \<noteq> NilConv"
  by (cases c) (auto simp: less_conversion_def)

section \<open>Cast sets\<close>

type_synonym 'a castset = "('a, conversion) dict"

definition castset_get :: "'a castset \<Rightarrow> 'a \<Rightarrow> conversion" where
  "castset_get s item = (case map_of s item of None \<Rightarrow> NilConv | Some rel \<Rightarrow> rel)"

definition castset_insert :: "'a castset \<Rightarrow> 'a \<Rightarrow> conversion \<Rightarrow> 'a castset \<times> bool" where
  "castset_insert s to rel =
     (let old = castset_get s to; setrel = min rel old
      in (dset to setrel s, old \<noteq> setrel))"

section \<open>The type graph\<close>

text \<open>
  \<open>_forwards\<close> and \<open>_backwards\<close> are \<open>defaultdict\<close>s: a missing key reads as an empty
  container, so they are total functions here.
\<close>

record 'a typegraph =
  forwards :: "'a \<Rightarrow> 'a castset"
  backwards :: "'a \<Rightarrow> 'a list"
  emitted :: "('a \<times> 'a \<times> conversion) list"

definition empty_typegraph :: "'a typegraph" where
  "empty_typegraph = \<lparr>forwards = (\<lambda>_. []), backwards = (\<lambda>_. []), emitted = []\<rparr>"

definition tg_get :: "'a typegraph \<Rightarrow> 'a \<Rightarrow> 'a castset" where
  "tg_get g ty = forwards g ty"

text \<open>
  The step that \<open>propagate\<close> repeats: insert a rule, call back when it changed the set,
  and record the backward edge.
\<close>

definition tg_relate :: "'a \<Rightarrow> 'a \<Rightarrow> conversion \<Rightarrow> 'a typegraph \<Rightarrow> 'a typegraph" where
  "tg_relate x y rel g =
     (let (s, changed) = castset_insert (forwards g x) y rel
      in g\<lparr>forwards := (forwards g)(x := s),
           emitted := (if changed then emitted g @ [(x, y, rel)] else emitted g),
           backwards := (backwards g)(y := set_add x (backwards g y))\<rparr>)"

text \<open>The loop over the nodes that \<open>b\<close> leads to, with its inner loop over \<open>backset\<close>.\<close>

definition propagate_back :: "'a \<Rightarrow> 'a \<Rightarrow> conversion \<Rightarrow> 'a \<Rightarrow> 'a typegraph \<Rightarrow> 'a typegraph" where
  "propagate_back a child rel backnode g =
     (if backnode \<noteq> child
      then tg_relate backnode child (max rel (castset_get (forwards g backnode) a)) g
      else g)"

definition propagate_child :: "'a \<Rightarrow> 'a \<Rightarrow> conversion \<Rightarrow> 'a \<Rightarrow> 'a typegraph \<Rightarrow> 'a typegraph" where
  "propagate_child a b baserel child g =
     (let rel = max baserel (castset_get (forwards g b) child);
          g1 = (if a \<noteq> child then tg_relate a child rel g else g)
      in fold (propagate_back a child rel) (backwards g1 a) g1)"

text \<open>Every node that leads to \<open>a\<close> connects to \<open>b\<close>.\<close>

definition propagate_source :: "'a \<Rightarrow> 'a \<Rightarrow> conversion \<Rightarrow> 'a \<Rightarrow> 'a typegraph \<Rightarrow> 'a typegraph" where
  "propagate_source a b baserel child g =
     (if b \<noteq> child
      then tg_relate child b (max baserel (castset_get (forwards g child) a)) g
      else g)"

definition propagate :: "'a \<Rightarrow> 'a \<Rightarrow> conversion \<Rightarrow> 'a typegraph \<Rightarrow> 'a typegraph" where
  "propagate a b baserel g =
     (let g1 = fold (propagate_child a b baserel) (dkeys (forwards g b)) g
      in fold (propagate_source a b baserel) (backwards g1 a) g1)"

definition insert_rule :: "'a \<Rightarrow> 'a \<Rightarrow> conversion \<Rightarrow> 'a typegraph \<Rightarrow> 'a typegraph" where
  "insert_rule a b rel g =
     propagate a b rel
       (g\<lparr>forwards := (forwards g)(a := fst (castset_insert (forwards g a) b rel)),
          emitted := emitted g @ [(a, b, rel)],
          backwards := (backwards g)(b := set_add a (backwards g b))\<rparr>)"

definition tg_promote :: "'a \<Rightarrow> 'a \<Rightarrow> 'a typegraph \<Rightarrow> 'a typegraph" where
  "tg_promote a b = insert_rule a b Promote"

definition tg_safe :: "'a \<Rightarrow> 'a \<Rightarrow> 'a typegraph \<Rightarrow> 'a typegraph" where
  "tg_safe a b = insert_rule a b Safe"

definition tg_unsafe :: "'a \<Rightarrow> 'a \<Rightarrow> 'a typegraph \<Rightarrow> 'a typegraph" where
  "tg_unsafe a b = insert_rule a b Unsafe"

section \<open>What a step does\<close>

abbreviation cost :: "'a typegraph \<Rightarrow> 'a \<Rightarrow> 'a \<Rightarrow> conversion" where
  "cost g x y \<equiv> castset_get (forwards g x) y"

lemma castset_get_insert [simp]:
  "castset_get (fst (castset_insert s to rel)) t =
     (if t = to then min rel (castset_get s to) else castset_get s t)"
  by (simp add: castset_insert_def castset_get_def Let_def)

lemma castset_keys_insert [simp]:
  "fst ` set (fst (castset_insert s to rel)) = insert to (fst ` set s)"
  by (simp add: castset_insert_def Let_def)

lemma castset_insert_changed [simp]:
  "snd (castset_insert s to rel) \<longleftrightarrow> rel < castset_get s to"
  by (auto simp: castset_insert_def Let_def min_def)

lemma castset_get_keys: "castset_get s x \<noteq> NilConv \<Longrightarrow> x \<in> fst ` set s"
  by (auto simp: castset_get_def split: option.splits dest: map_of_SomeD)
     (metis fst_conv image_eqI map_of_SomeD)

lemma tg_relate_forwards [simp]:
  "forwards (tg_relate x y rel g) =
     (forwards g)(x := fst (castset_insert (forwards g x) y rel))"
  by (simp add: tg_relate_def Let_def split: prod.splits)

lemma tg_relate_backwards [simp]:
  "backwards (tg_relate x y rel g) = (backwards g)(y := set_add x (backwards g y))"
  by (simp add: tg_relate_def Let_def split: prod.splits)

lemma tg_relate_emitted [simp]:
  "emitted (tg_relate x y rel g) =
     (if rel < cost g x y then emitted g @ [(x, y, rel)] else emitted g)"
  using castset_insert_changed[of "forwards g x" y rel]
  by (cases "castset_insert (forwards g x) y rel") (simp add: tg_relate_def)

lemma tg_relate_cost:
  "cost (tg_relate x y rel g) u v =
     (if u = x \<and> v = y then min rel (cost g x y) else cost g u v)"
  by simp

text \<open>Costs only decrease and edges are only added, step by step.\<close>

definition refines :: "'a typegraph \<Rightarrow> 'a typegraph \<Rightarrow> bool" where
  "refines g h \<longleftrightarrow>
     (\<forall>x y. cost h x y \<le> cost g x y) \<and>
     (\<forall>x. fst ` set (forwards g x) \<subseteq> fst ` set (forwards h x)) \<and>
     (\<forall>y. set (backwards g y) \<subseteq> set (backwards h y))"

lemma refines_refl [simp, intro]: "refines g g"
  by (simp add: refines_def)

lemma refines_trans [trans]: "refines g h \<Longrightarrow> refines h k \<Longrightarrow> refines g k"
  unfolding refines_def by (meson order_trans)

lemma refines_relate [simp, intro]: "refines g (tg_relate x y rel g)"
  unfolding refines_def by auto

lemma refines_fold:
  assumes "\<And>x h. refines h (f x h)"
  shows "refines g (fold f xs g)"
  by (rule fold_invariant) (use assms refines_trans in blast)+

lemma refines_back [intro]: "refines g (propagate_back a child rel n g)"
  by (auto simp: propagate_back_def)

lemma refines_child [intro]: "refines g (propagate_child a b r c g)"
  unfolding propagate_child_def Let_def
  by (auto intro: refines_fold refines_trans[OF refines_relate])

lemma refines_source [intro]: "refines g (propagate_source a b r c g)"
  by (auto simp: propagate_source_def)

lemma refines_propagate [intro]: "refines g (propagate a b r g)"
  unfolding propagate_def Let_def
  by (rule refines_trans; rule refines_fold) auto

lemma refines_cost: "refines g h \<Longrightarrow> cost h x y \<le> cost g x y"
  by (simp add: refines_def)

lemma refines_backwards: "refines g h \<Longrightarrow> z \<in> set (backwards g y) \<Longrightarrow> z \<in> set (backwards h y)"
  by (auto simp: refines_def)

section \<open>The graph computes the loosest step of the strictest path\<close>

text \<open>
  The specification: \<open>edges R k\<close> are the inserted rules no looser than \<open>k\<close>, and a type
  converts to another within \<open>k\<close> exactly when a chain of such rules leads there.
\<close>

type_synonym 'a rule = "'a \<times> 'a \<times> conversion"

definition edges :: "'a rule set \<Rightarrow> conversion \<Rightarrow> ('a \<times> 'a) set" where
  "edges R k = {(x, y). \<exists>r. (x, y, r) \<in> R \<and> r \<le> k}"

lemma edges_insert:
  "edges (insert (a, b, r) R) k = (if r \<le> k then insert (a, b) (edges R k) else edges R k)"
  by (auto simp: edges_def)

lemma edges_mono: "k \<le> l \<Longrightarrow> edges R k \<subseteq> edges R l"
  unfolding edges_def by (auto intro: order_trans)

lemma edges_rule_mono: "R \<subseteq> S \<Longrightarrow> edges R k \<subseteq> edges S k"
  unfolding edges_def by auto

definition tg_sound :: "'a rule set \<Rightarrow> 'a typegraph \<Rightarrow> bool" where
  "tg_sound R g \<longleftrightarrow> (\<forall>x y. cost g x y \<noteq> NilConv \<longrightarrow> (x, y) \<in> (edges R (cost g x y))\<^sup>+)"

definition tg_complete :: "'a rule set \<Rightarrow> 'a typegraph \<Rightarrow> bool" where
  "tg_complete R g \<longleftrightarrow>
     (\<forall>x y k. x \<noteq> y \<longrightarrow> k \<noteq> NilConv \<longrightarrow> (x, y) \<in> (edges R k)\<^sup>+ \<longrightarrow> cost g x y \<le> k)"

definition tg_linked :: "'a typegraph \<Rightarrow> bool" where
  "tg_linked g \<longleftrightarrow> (\<forall>x y. y \<in> fst ` set (forwards g x) \<longrightarrow> x \<in> set (backwards g y))"

lemma tg_soundD:
  "tg_sound R g \<Longrightarrow> cost g x y \<le> k \<Longrightarrow> k \<noteq> NilConv \<Longrightarrow> (x, y) \<in> (edges R k)\<^sup>+"
  unfolding tg_sound_def by (metis conv_Nil_le edges_mono trancl_mono)

subsection \<open>Soundness: no rule is stricter than the chain it comes from\<close>

lemma tg_sound_relate:
  assumes "tg_sound R g" and "rel \<noteq> NilConv \<Longrightarrow> (x, y) \<in> (edges R rel)\<^sup>+"
  shows "tg_sound R (tg_relate x y rel g)"
  using assms unfolding tg_sound_def by (auto simp: min_def)

lemma max_conv_path:
  assumes "(x, y) \<in> (edges R r)\<^sup>+" and "(y, z) \<in> (edges R s)\<^sup>+"
  shows "(x, z) \<in> (edges R (max r s))\<^sup>+"
  using assms edges_mono[of r "max r s" R] edges_mono[of s "max r s" R]
  by (meson max.cobounded1 max.cobounded2 trancl_mono trancl_trans)

lemma max_conv_Nil [simp]: "max r s \<noteq> NilConv \<longleftrightarrow> r \<noteq> NilConv \<and> s \<noteq> NilConv"
  by (cases r; cases s) (auto simp: max_def less_eq_conversion_def)

lemma tg_sound_cost:
  "tg_sound R g \<Longrightarrow> cost g x y \<noteq> NilConv \<Longrightarrow> (x, y) \<in> (edges R (cost g x y))\<^sup>+"
  by (simp add: tg_sound_def)

lemma tg_sound_back:
  assumes g: "tg_sound R g" and rel: "rel \<noteq> NilConv \<Longrightarrow> (a, child) \<in> (edges R rel)\<^sup>+"
  shows "tg_sound R (propagate_back a child rel n g)"
proof -
  have "(n, child) \<in> (edges R (max rel (cost g n a)))\<^sup>+" if "max rel (cost g n a) \<noteq> NilConv"
    using max_conv_path[OF tg_sound_cost[OF g] rel] that by (metis max.commute max_conv_Nil)
  from tg_sound_relate[OF g this] g show ?thesis
    by (simp add: propagate_back_def del: max_conv_Nil)
qed

lemma tg_sound_child:
  assumes g: "tg_sound R g" and base: "(a, b) \<in> (edges R r)\<^sup>+"
  shows "tg_sound R (propagate_child a b r c g)"
proof -
  let ?rel = "max r (cost g b c)"
  have path: "(a, c) \<in> (edges R ?rel)\<^sup>+" if "?rel \<noteq> NilConv"
    using max_conv_path[OF base tg_sound_cost[OF g]] that by (metis max_conv_Nil)
  from tg_sound_relate[OF g this] g
  have "tg_sound R (if a \<noteq> c then tg_relate a c ?rel g else g)" by (simp del: max_conv_Nil)
  then show ?thesis
    unfolding propagate_child_def Let_def
    by (rule fold_invariant) (rule tg_sound_back[OF _ path])
qed

lemma tg_sound_source:
  assumes g: "tg_sound R g" and base: "(a, b) \<in> (edges R r)\<^sup>+"
  shows "tg_sound R (propagate_source a b r c g)"
proof -
  have "(c, b) \<in> (edges R (max r (cost g c a)))\<^sup>+" if "max r (cost g c a) \<noteq> NilConv"
    using max_conv_path[OF tg_sound_cost[OF g] base] that by (metis max.commute max_conv_Nil)
  from tg_sound_relate[OF g this] g show ?thesis
    by (simp add: propagate_source_def del: max_conv_Nil)
qed

lemma tg_sound_propagate:
  assumes g: "tg_sound R g" and base: "(a, b) \<in> (edges R r)\<^sup>+"
  shows "tg_sound R (propagate a b r g)"
proof -
  have "tg_sound R (fold (propagate_child a b r) xs g)" for xs
    using g by (rule fold_invariant) (rule tg_sound_child[OF _ base])
  then show ?thesis
    unfolding propagate_def Let_def by (rule fold_invariant) (rule tg_sound_source[OF _ base])
qed

subsection \<open>Completeness: every chain is covered\<close>

lemma tg_linked_relate [intro]: "tg_linked g \<Longrightarrow> tg_linked (tg_relate x y rel g)"
  unfolding tg_linked_def by auto

lemma tg_linked_back: "tg_linked g \<Longrightarrow> tg_linked (propagate_back a child rel n g)"
  by (auto simp: propagate_back_def simp del: tg_relate_forwards)

lemma tg_linked_child: "tg_linked g \<Longrightarrow> tg_linked (propagate_child a b r c g)"
  unfolding propagate_child_def Let_def
  by (rule fold_invariant) (auto intro: tg_linked_back)

lemma tg_linked_source: "tg_linked g \<Longrightarrow> tg_linked (propagate_source a b r c g)"
  by (auto simp: propagate_source_def simp del: tg_relate_forwards)

lemma tg_linked_propagate:
  assumes "tg_linked g" shows "tg_linked (propagate a b r g)"
proof -
  have "tg_linked (fold (propagate_child a b r) xs g)" for xs
    using assms by (rule fold_invariant) (rule tg_linked_child)
  then show ?thesis
    unfolding propagate_def Let_def by (rule fold_invariant) (rule tg_linked_source)
qed

text \<open>
  Each of the three positions in which a new chain can start and end is covered by one of
  the loops: from \<open>a\<close> to a child of \<open>b\<close>, from a node before \<open>a\<close> to such a child, and from
  a node before \<open>a\<close> to \<open>b\<close> itself.
\<close>

lemma child_covers_a:
  assumes "a \<noteq> c" shows "cost (propagate_child a b r c g) a c \<le> max r (cost g b c)"
proof -
  let ?g1 = "tg_relate a c (max r (cost g b c)) g"
  have "refines ?g1 (propagate_child a b r c g)"
    unfolding propagate_child_def Let_def using assms
    by (simp add: refines_fold refines_back)
  then have "cost (propagate_child a b r c g) a c \<le> cost ?g1 a c"
    by (rule refines_cost)
  then show ?thesis by (simp del: max.bounded_iff)
qed

lemma child_covers_back:
  assumes x: "x \<in> set (backwards g a)" and "x \<noteq> c"
  shows "cost (propagate_child a b r c g) x c \<le> max (max r (cost g b c)) (cost g x a)"
proof -
  let ?rel = "max r (cost g b c)"
  let ?g1 = "if a \<noteq> c then tg_relate a c ?rel g else g"
  have g1: "refines g ?g1" by auto
  have "cost (fold (propagate_back a c ?rel) (backwards ?g1 a) ?g1) x c
      \<le> max ?rel (cost g x a)"
  proof (rule fold_establish[where I = "refines g"])
    show "x \<in> set (backwards ?g1 a)" using g1 x by (rule refines_backwards)
    show "refines g ?g1" by (rule g1)
    show "refines g (propagate_back a c ?rel y s)" if "refines g s" for y s
      using that refines_back by (rule refines_trans)
    show "cost (propagate_back a c ?rel x s) x c \<le> max ?rel (cost g x a)"
      if "refines g s" for s
      using refines_cost[OF that, of x a] \<open>x \<noteq> c\<close>
      by (auto simp: propagate_back_def min_le_iff_disj le_max_iff_disj)
    show "cost (propagate_back a c ?rel y s) x c \<le> max ?rel (cost g x a)"
      if "cost s x c \<le> max ?rel (cost g x a)" for y s
      using refines_cost[OF refines_back, of a c ?rel y s x c] that by (rule order_trans)
  qed
  then show ?thesis by (simp add: propagate_child_def Let_def)
qed

lemma source_covers:
  assumes "x \<noteq> b"
  shows "cost (propagate_source a b r x g) x b \<le> max r (cost g x a)"
  using assms by (auto simp: propagate_source_def min_le_iff_disj)

lemma propagate_covers_child:
  assumes z: "z \<in> fst ` set (forwards g b)"
    and step: "\<And>h. refines g h \<Longrightarrow> cost (propagate_child a b r z h) x z \<le> m"
  shows "cost (propagate a b r g) x z \<le> m"
proof -
  let ?g1 = "fold (propagate_child a b r) (dkeys (forwards g b)) g"
  have "cost ?g1 x z \<le> m"
  proof (rule fold_establish[where I = "refines g"])
    show "z \<in> set (dkeys (forwards g b))" using z by simp
    show "refines g g" by simp
    show "refines g (propagate_child a b r y s)" if "refines g s" for y s
      using that refines_child by (rule refines_trans)
    show "cost (propagate_child a b r z s) x z \<le> m" if "refines g s" for s
      using that by (rule step)
    show "cost (propagate_child a b r y s) x z \<le> m" if "cost s x z \<le> m" for y s
      using refines_cost[OF refines_child, of a b r y s x z] that by (rule order_trans)
  qed
  moreover have "refines ?g1 (propagate a b r g)"
    unfolding propagate_def Let_def by (rule refines_fold) (rule refines_source)
  ultimately show ?thesis by (meson order_trans refines_cost)
qed

lemma propagate_covers_a:
  assumes "z \<in> fst ` set (forwards g b)" and "a \<noteq> z"
  shows "cost (propagate a b r g) a z \<le> max r (cost g b z)"
proof (rule propagate_covers_child[OF assms(1)])
  fix h assume "refines g h"
  then have "max r (cost h b z) \<le> max r (cost g b z)"
    by (intro max.mono refines_cost) auto
  with child_covers_a[OF assms(2), of b r h]
  show "cost (propagate_child a b r z h) a z \<le> max r (cost g b z)" by (rule order_trans)
qed

lemma propagate_covers_back:
  assumes "z \<in> fst ` set (forwards g b)" and x: "x \<in> set (backwards g a)" and "x \<noteq> z"
  shows "cost (propagate a b r g) x z \<le> max (max r (cost g b z)) (cost g x a)"
proof (rule propagate_covers_child[OF assms(1)])
  fix h assume h: "refines g h"
  then have "max (max r (cost h b z)) (cost h x a) \<le> max (max r (cost g b z)) (cost g x a)"
    by (intro max.mono refines_cost) auto
  with child_covers_back[OF refines_backwards[OF h x] \<open>x \<noteq> z\<close>, of b r]
  show "cost (propagate_child a b r z h) x z \<le> max (max r (cost g b z)) (cost g x a)"
    by (rule order_trans)
qed

lemma propagate_covers_source:
  assumes x: "x \<in> set (backwards g a)" and "x \<noteq> b"
  shows "cost (propagate a b r g) x b \<le> max r (cost g x a)"
proof -
  let ?g1 = "fold (propagate_child a b r) (dkeys (forwards g b)) g"
  have g1: "refines g ?g1" by (rule refines_fold) (rule refines_child)
  show ?thesis
    unfolding propagate_def Let_def
  proof (rule fold_establish[where I = "refines g"])
    show "x \<in> set (backwards ?g1 a)" using g1 x by (rule refines_backwards)
    show "refines g ?g1" by (rule g1)
    show "refines g (propagate_source a b r y s)" if "refines g s" for y s
      using that refines_source by (rule refines_trans)
    show "cost (propagate_source a b r x s) x b \<le> max r (cost g x a)" if "refines g s" for s
    proof -
      have "max r (cost s x a) \<le> max r (cost g x a)"
        using that by (intro max.mono refines_cost) auto
      with source_covers[OF \<open>x \<noteq> b\<close>, of a r s] show ?thesis by (rule order_trans)
    qed
    show "cost (propagate_source a b r y s) x b \<le> max r (cost g x a)"
      if "cost s x b \<le> max r (cost g x a)" for y s
      using refines_cost[OF refines_source, of a b r y s x b] that by (rule order_trans)
  qed
qed

subsection \<open>The invariant of the graph\<close>

definition tg_inv :: "'a rule set \<Rightarrow> 'a typegraph \<Rightarrow> bool" where
  "tg_inv R g \<longleftrightarrow> tg_sound R g \<and> tg_complete R g \<and> tg_linked g"

lemma tg_inv_empty: "tg_inv {} empty_typegraph"
  by (simp add: tg_inv_def tg_sound_def tg_complete_def tg_linked_def empty_typegraph_def
      castset_get_def edges_def)

lemma tg_linkedD: "tg_linked g \<Longrightarrow> y \<in> fst ` set (forwards g x) \<Longrightarrow> x \<in> set (backwards g y)"
  by (simp add: tg_linked_def)

lemma tg_linked_back_cost:
  "tg_linked g \<Longrightarrow> cost g x a \<noteq> NilConv \<Longrightarrow> x \<in> set (backwards g a)"
  by (erule tg_linkedD) (erule castset_get_keys)

lemma insert_rule_sound:
  assumes "tg_sound R g" and "r \<noteq> NilConv"
  shows "tg_sound (insert (a, b, r) R) (insert_rule a b r g)"
proof -
  let ?R = "insert (a, b, r) R"
  let ?g = "g\<lparr>forwards := (forwards g)(a := fst (castset_insert (forwards g a) b r)),
          emitted := emitted g @ [(a, b, r)],
          backwards := (backwards g)(b := set_add a (backwards g b))\<rparr>"
  have new: "(a, b) \<in> (edges ?R r)\<^sup>+" by (auto simp: edges_def)
  have "tg_sound ?R g"
    using assms(1) edges_rule_mono[of R ?R] unfolding tg_sound_def
    by (meson subset_insertI trancl_mono)
  then have "tg_sound ?R ?g"
    using new by (auto simp: tg_sound_def min_def)
  with new show ?thesis unfolding insert_rule_def by (intro tg_sound_propagate)
qed

lemma insert_rule_linked:
  assumes "tg_linked g" shows "tg_linked (insert_rule a b r g)"
  unfolding insert_rule_def
  by (rule tg_linked_propagate) (use assms in \<open>auto simp: tg_linked_def\<close>)

lemma insert_rule_complete:
  assumes c: "tg_complete R g" and l: "tg_linked g" and "r \<noteq> NilConv"
  shows "tg_complete (insert (a, b, r) R) (insert_rule a b r g)"
  unfolding tg_complete_def
proof (intro allI impI)
  fix x z k
  assume xz: "x \<noteq> z" and k: "k \<noteq> NilConv"
    and path: "(x, z) \<in> (edges (insert (a, b, r) R) k)\<^sup>+"
  let ?g = "g\<lparr>forwards := (forwards g)(a := fst (castset_insert (forwards g a) b r)),
          emitted := emitted g @ [(a, b, r)],
          backwards := (backwards g)(b := set_add a (backwards g b))\<rparr>"
  let ?h = "insert_rule a b r g"
  have h: "?h = propagate a b r ?g" by (simp add: insert_rule_def)
  have gg: "refines g ?g" by (auto simp: refines_def)
  have lg: "tg_linked ?g" using l by (auto simp: tg_linked_def)
  have gh: "refines ?g ?h" unfolding h by (rule refines_propagate)
  have old: "cost ?g u v \<le> k" if "u \<noteq> v" "(u, v) \<in> (edges R k)\<^sup>+" for u v
    using that c k refines_cost[OF gg, of u v] unfolding tg_complete_def
    by (meson order_trans)
  have reach: "u = v \<or> cost ?g u v \<le> k" if "(u, v) \<in> (edges R k)\<^sup>*" for u v
    using that old[of u v] by (auto simp: rtrancl_eq_or_trancl)
  from path consider "(x, z) \<in> (edges R k)\<^sup>+"
    | "r \<le> k" "(x, a) \<in> (edges R k)\<^sup>*" "(b, z) \<in> (edges R k)\<^sup>*"
    by (auto simp: edges_insert trancl_insert split: if_splits)
  then show "cost ?h x z \<le> k"
  proof cases
    case 1
    with xz old refines_cost[OF gh, of x z] show ?thesis by (meson order_trans)
  next
    case 2
    have le_Nil: "cost ?g u v \<le> k \<Longrightarrow> cost ?g u v \<noteq> NilConv" for u v
      using k by auto
    have pre: "x = a \<or> x \<in> set (backwards ?g a) \<and> cost ?g x a \<le> k"
      using reach[OF 2(2)] le_Nil tg_linked_back_cost[OF lg, of x a] by blast
    have post: "z = b \<or> z \<in> fst ` set (forwards ?g b) \<and> cost ?g b z \<le> k"
      using reach[OF 2(3)] le_Nil castset_get_keys[of "forwards ?g b" z] by blast
    have ab: "cost ?g a b \<le> k"
      using \<open>r \<le> k\<close> by (simp add: min_le_iff_disj)
    show ?thesis
    proof (cases "x = a"; cases "z = b")
      assume "x = a" "z = b"
      with order_trans[OF refines_cost[OF gh, of a b] ab] show ?thesis by simp
    next
      assume "x = a" "z \<noteq> b"
      with post xz have "cost ?h a z \<le> max r (cost ?g b z)"
        unfolding h by (intro propagate_covers_a) auto
      also have "\<dots> \<le> k" using post \<open>z \<noteq> b\<close> \<open>r \<le> k\<close> by simp
      finally show ?thesis using \<open>x = a\<close> by simp
    next
      assume "x \<noteq> a" "z = b"
      with pre xz have "cost ?h x b \<le> max r (cost ?g x a)"
        unfolding h by (intro propagate_covers_source) auto
      also have "\<dots> \<le> k" using pre \<open>x \<noteq> a\<close> \<open>r \<le> k\<close> by simp
      finally show ?thesis using \<open>z = b\<close> by simp
    next
      assume "x \<noteq> a" "z \<noteq> b"
      with pre post xz have "cost ?h x z \<le> max (max r (cost ?g b z)) (cost ?g x a)"
        unfolding h by (intro propagate_covers_back) auto
      also have "\<dots> \<le> k" using pre post \<open>x \<noteq> a\<close> \<open>z \<noteq> b\<close> \<open>r \<le> k\<close> by simp
      finally show ?thesis .
    qed
  qed
qed

lemma insert_rule_inv:
  "tg_inv R g \<Longrightarrow> r \<noteq> NilConv \<Longrightarrow> tg_inv (insert (a, b, r) R) (insert_rule a b r g)"
  by (simp add: tg_inv_def insert_rule_sound insert_rule_complete insert_rule_linked)

lemma tg_inv_cost:
  assumes "tg_inv R g" and "x \<noteq> y" and "k \<noteq> NilConv"
  shows "cost g x y \<le> k \<longleftrightarrow> (x, y) \<in> (edges R k)\<^sup>+"
proof
  show "(x, y) \<in> (edges R k)\<^sup>+" if "cost g x y \<le> k"
    using assms that by (intro tg_soundD) (auto simp: tg_inv_def)
  show "cost g x y \<le> k" if "(x, y) \<in> (edges R k)\<^sup>+"
    using assms that by (simp add: tg_inv_def tg_complete_def)
qed

section \<open>Sequences of rules\<close>

fun insert_rules :: "'a rule list \<Rightarrow> 'a typegraph \<Rightarrow> 'a typegraph" where
  "insert_rules [] g = g"
| "insert_rules ((a, b, r) # rs) g = insert_rules rs (insert_rule a b r g)"

lemma insert_rules_inv:
  assumes "tg_inv R g" and "NilConv \<notin> (snd \<circ> snd) ` set rs"
  shows "tg_inv (set rs \<union> R) (insert_rules rs g)"
  using assms
proof (induction rs g arbitrary: R rule: insert_rules.induct)
  case (1 g)
  then show ?case by simp
next
  case (2 a b r rs g)
  then have "tg_inv (insert (a, b, r) R) (insert_rule a b r g)"
    by (intro insert_rule_inv) auto
  from "2.IH"[OF this] "2.prems" show ?case by simp
qed

lemma insert_rules_append: "insert_rules (rs @ rs') g = insert_rules rs' (insert_rules rs g)"
  by (induction rs g rule: insert_rules.induct) auto

section \<open>The callback calls\<close>

text \<open>
  A consumer of the calls keeps the last relation it was told for each pair. It agrees with
  the graph after a rule that is not looser than what the graph already knows:
  \<open>insert_rule\<close> calls back with the rule as given, while the graph keeps the stricter one.
\<close>

definition told :: "'a rule list \<Rightarrow> 'a \<Rightarrow> 'a \<Rightarrow> conversion option" where
  "told es x y = map_of (rev (map (\<lambda>(a, b, r). ((a, b), r)) es)) (x, y)"

lemma told_simps [simp]:
  "told [] x y = None"
  "told (es @ [(a, b, r)]) x y = (if x = a \<and> y = b then Some r else told es x y)"
  by (auto simp: told_def)

definition tg_told :: "'a typegraph \<Rightarrow> bool" where
  "tg_told g \<longleftrightarrow>
     (\<forall>x y. told (emitted g) x y = (if cost g x y = NilConv then None else Some (cost g x y)))"

lemma tg_told_relate:
  assumes "tg_told g" shows "tg_told (tg_relate x y rel g)"
proof (cases "rel < cost g x y")
  case True
  then have "min rel (cost g x y) = rel" and "rel \<noteq> NilConv" by (auto simp: min_def)
  with assms True show ?thesis unfolding tg_told_def by simp
next
  case False
  then have "min rel (cost g x y) = cost g x y" by (simp add: min_def)
  with assms False show ?thesis unfolding tg_told_def by auto
qed

lemma tg_told_propagate:
  assumes "tg_told g" shows "tg_told (propagate a b r g)"
proof -
  have child: "tg_told (propagate_child a b r c h)" if "tg_told h" for c h
    unfolding propagate_child_def Let_def
    by (rule fold_invariant)
       (use that in \<open>auto simp: propagate_back_def tg_told_relate simp del: tg_relate_forwards\<close>)
  have "tg_told (fold (propagate_child a b r) xs g)" for xs
    using assms by (rule fold_invariant) (rule child)
  then show ?thesis
    unfolding propagate_def Let_def
    by (rule fold_invariant)
       (auto simp: propagate_source_def tg_told_relate simp del: tg_relate_forwards)
qed

lemma insert_rule_told:
  assumes "tg_told g" and "r \<le> cost g a b" and "r \<noteq> NilConv"
  shows "tg_told (insert_rule a b r g)"
  unfolding insert_rule_def
  by (rule tg_told_propagate)
     (use assms in \<open>auto simp: tg_told_def min_def\<close>)

lemma tg_told_empty: "tg_told empty_typegraph"
  by (simp add: tg_told_def empty_typegraph_def castset_get_def)

text \<open>All calls of one insertion are no stricter than the inserted rule, and never \<open>nil\<close>.\<close>

definition emits_from :: "conversion \<Rightarrow> 'a typegraph \<Rightarrow> 'a typegraph \<Rightarrow> bool" where
  "emits_from r g h \<longleftrightarrow>
     (\<exists>es. emitted h = emitted g @ es \<and> (\<forall>(x, y, s) \<in> set es. r \<le> s \<and> s \<noteq> NilConv))"

lemma emits_from_refl [simp, intro]: "emits_from r g g"
  by (simp add: emits_from_def)

lemma emits_from_trans: "emits_from r g h \<Longrightarrow> emits_from r h k \<Longrightarrow> emits_from r g k"
  unfolding emits_from_def by (fastforce simp: ball_Un)

lemma emits_from_relate [intro]: "r \<le> rel \<Longrightarrow> emits_from r g (tg_relate x y rel g)"
  by (auto simp: emits_from_def)

lemma emits_from_fold:
  assumes "\<And>x h. emits_from r h (f x h)" shows "emits_from r g (fold f xs g)"
  by (rule fold_invariant) (use assms emits_from_trans in blast)+

lemma emits_from_back: "emits_from r g (propagate_back a c (max r s) n g)"
  by (simp add: propagate_back_def emits_from_relate le_max_iff_disj)

lemma emits_from_child: "emits_from r g (propagate_child a b r c g)"
proof -
  let ?g1 = "if a \<noteq> c then tg_relate a c (max r (cost g b c)) g else g"
  have "emits_from r g ?g1" by (simp add: emits_from_relate)
  moreover have "emits_from r ?g1 (propagate_child a b r c g)"
    unfolding propagate_child_def Let_def by (rule emits_from_fold) (rule emits_from_back)
  ultimately show ?thesis by (rule emits_from_trans)
qed

lemma emits_from_source: "emits_from r g (propagate_source a b r c g)"
  by (simp add: propagate_source_def emits_from_relate)

lemma emits_from_propagate: "emits_from r g (propagate a b r g)"
proof -
  let ?g1 = "fold (propagate_child a b r) (dkeys (forwards g b)) g"
  have "emits_from r g ?g1" by (rule emits_from_fold) (rule emits_from_child)
  moreover have "emits_from r ?g1 (propagate a b r g)"
    unfolding propagate_def Let_def by (rule emits_from_fold) (rule emits_from_source)
  ultimately show ?thesis by (rule emits_from_trans)
qed

lemma insert_rule_emits:
  assumes "r \<noteq> NilConv" shows "emits_from r g (insert_rule a b r g)"
proof -
  let ?g = "g\<lparr>forwards := (forwards g)(a := fst (castset_insert (forwards g a) b r)),
          emitted := emitted g @ [(a, b, r)],
          backwards := (backwards g)(b := set_add a (backwards g b))\<rparr>"
  have "emits_from r g ?g" using assms by (simp add: emits_from_def)
  then show ?thesis
    unfolding insert_rule_def using emits_from_propagate by (rule emits_from_trans)
qed

text \<open>
  A static check that no rule of a list is looser than a chain of the others: types carry a
  \<open>level\<close> that every rule up to \<open>safe\<close> raises and no \<open>unsafe\<close> rule raises, and a
  \<open>family\<close> that every \<open>promote\<close> rule keeps and every \<open>safe\<close> rule leaves.
\<close>

definition graded :: "('a \<Rightarrow> nat) \<Rightarrow> ('a \<Rightarrow> nat) \<Rightarrow> 'a rule set \<Rightarrow> bool" where
  "graded level family R \<longleftrightarrow>
     (\<forall>(a, b, r) \<in> R.
        (r = Promote \<and> level a < level b \<and> family a = family b) \<or>
        (r = Safe \<and> level a < level b \<and> family a \<noteq> family b) \<or>
        (r = Unsafe \<and> level b \<le> level a))"

lemma graded_level:
  assumes "graded level family R" and "(a, b) \<in> (edges R Safe)\<^sup>+"
  shows "level a < level b"
  using assms(2)
proof induction
  case (base b)
  with assms(1) show ?case by (fastforce simp: graded_def edges_def less_eq_conversion_def)
next
  case (step b c)
  from step.hyps(2) assms(1) have "level b < level c"
    by (fastforce simp: graded_def edges_def less_eq_conversion_def)
  with step.IH show ?case by simp
qed

lemma graded_family:
  assumes "graded level family R" and "(a, b) \<in> (edges R Promote)\<^sup>+"
  shows "family a = family b"
  using assms(2)
proof induction
  case (base b)
  with assms(1) show ?case by (fastforce simp: graded_def edges_def less_eq_conversion_def)
next
  case (step b c)
  from step.hyps(2) assms(1) have "family b = family c"
    by (fastforce simp: graded_def edges_def less_eq_conversion_def)
  with step.IH show ?case by simp
qed

lemma graded_Exact:
  assumes "graded level family R" shows "(edges R Exact)\<^sup>+ = {}"
proof -
  have "edges R Exact = {}"
    using assms by (fastforce simp: graded_def edges_def less_eq_conversion_def)
  then show ?thesis by simp
qed

lemma graded_rule_strict:
  assumes g: "graded level family R" and "(a, b, r) \<in> R" and inv: "tg_inv S h" and "S \<subseteq> R"
  shows "r \<le> cost h a b"
proof (rule ccontr)
  assume "\<not> r \<le> cost h a b"
  then have less: "cost h a b < r" by simp
  then have "cost h a b \<noteq> NilConv" using conv_le_Nil leD by metis
  then have "(a, b) \<in> (edges S (cost h a b))\<^sup>+"
    using inv by (intro tg_soundD) (auto simp: tg_inv_def)
  then have path: "(a, b) \<in> (edges R (cost h a b))\<^sup>+"
    by (rule trancl_mono) (rule edges_rule_mono[OF \<open>S \<subseteq> R\<close>])
  from g \<open>(a, b, r) \<in> R\<close> consider
      "r = Promote" | "r = Safe" "family a \<noteq> family b" | "r = Unsafe" "level b \<le> level a"
    by (auto simp: graded_def)
  then show False
  proof cases
    case 1
    with less have "cost h a b = Exact"
      by (cases "cost h a b") (auto simp: less_conversion_def)
    with path graded_Exact[OF g] show False by simp
  next
    case 2
    with less have "cost h a b \<le> Promote"
      by (cases "cost h a b") (auto simp: less_conversion_def less_eq_conversion_def)
    with path have "(a, b) \<in> (edges R Promote)\<^sup>+" by (meson edges_mono trancl_mono)
    with 2 graded_family[OF g] show False by blast
  next
    case 3
    with less have "cost h a b \<le> Safe"
      by (cases "cost h a b") (auto simp: less_conversion_def less_eq_conversion_def)
    with path have "(a, b) \<in> (edges R Safe)\<^sup>+" by (meson edges_mono trancl_mono)
    with 3 graded_level[OF g] show False by (meson leD)
  qed
qed

section \<open>Properties\<close>

text \<open>
  C4. However the rules are ordered, and whatever order the sets are iterated in, the type
  graph converts one type to another within a strictness \<open>k\<close> exactly when a chain of
  inserted rules, none looser than \<open>k\<close>, leads from the one to the other.
\<close>

theorem typegraph_paths:
  assumes "NilConv \<notin> (snd \<circ> snd) ` set rs" and "x \<noteq> y" and "k \<noteq> NilConv"
  shows "castset_get (tg_get (insert_rules rs empty_typegraph) x) y \<le> k
     \<longleftrightarrow> (x, y) \<in> (edges (set rs) k)\<^sup>+"
  using tg_inv_cost[OF insert_rules_inv[OF tg_inv_empty assms(1)] assms(2,3)]
  by (simp add: tg_get_def)

theorem typegraph_paths_witness:
  "castset_get (tg_get (insert_rules
     [(2, 3, Promote), (1, 2, Safe), (3, 1, Unsafe)] empty_typegraph) (1::nat)) 3 \<le> Safe"
proof -
  let ?rs = "[(2, 3, Promote), (1, 2, Safe), (3, 1, Unsafe)] :: nat rule list"
  have "(1, 2) \<in> edges (set ?rs) Safe" and "(2, 3) \<in> edges (set ?rs) Safe"
    by (auto simp: edges_def less_eq_conversion_def)
  then have "(1, 3) \<in> (edges (set ?rs) Safe)\<^sup>+" by (meson trancl.simps)
  with typegraph_paths[of ?rs 1 3 Safe] show ?thesis by simp
qed

end
