(* ===== verification/TypeConv.thy ===== *)
theory TypeConv
  imports CastGraph
begin

text \<open>
  The type manager and the built-in casting rules: \<open>numba_cuda/typeconv/typeconv.py\<close>,
  \<open>numba_cuda/typeconv/rules.py\<close> and the C++ table behind them
  (\<open>cext/typeconv/typeconv.cpp\<close>). The table is a hash map of 512 bins; the hash of a pair of
  type codes is the parameter \<open>h\<close>. A type is its code, so two types are equal when their
  codes are. The interface \<open>compat_table\<close> is what the callers rely on.
\<close>

section \<open>The interface of a compatibility table\<close>

locale compat_table =
  fixes empty :: 't
    and insert :: "'k \<Rightarrow> 'v \<Rightarrow> 't \<Rightarrow> 't"
    and find :: "'k \<Rightarrow> 't \<Rightarrow> 'v option"
  assumes find_empty [simp]: "find k empty = None"
    and find_insert [simp]: "find k (insert k' v t) = (if k = k' then Some v else find k t)"
begin

definition insert_all :: "('k \<times> 'v) list \<Rightarrow> 't \<Rightarrow> 't" where
  "insert_all kvs t = fold (\<lambda>(k, v). insert k v) kvs t"

lemma insert_all_simps [simp]:
  "insert_all [] t = t"
  "insert_all ((k, v) # kvs) t = insert_all kvs (insert k v t)"
  "insert_all (kvs @ kvs') t = insert_all kvs' (insert_all kvs t)"
  by (simp_all add: insert_all_def)

lemma find_insert_all_last:
  "find k (insert_all (kvs @ [(k', v)]) t) = (if k = k' then Some v else find k (insert_all kvs t))"
  by simp

lemma find_insert_all_other: "k \<notin> fst ` set kvs \<Longrightarrow> find k (insert_all kvs t) = find k t"
  by (induction kvs arbitrary: t) auto

end

section \<open>TCCMap\<close>

type_synonym 'a typepair = "'a \<times> 'a"

record 'a tccmap =
  records :: "nat \<Rightarrow> ('a typepair, conversion) dict"
  nb_records :: nat

definition TCCMAP_SIZE :: nat where
  "TCCMAP_SIZE = 512"

definition tcc_empty :: "'a tccmap" where
  "tcc_empty = \<lparr>records = (\<lambda>_. []), nb_records = 0\<rparr>"

text \<open>\<open>hash(key) & (TCCMAP_SIZE - 1)\<close> is the remainder: the size is a power of two.\<close>

definition tcc_insert ::
  "('a typepair \<Rightarrow> nat) \<Rightarrow> 'a typepair \<Rightarrow> conversion \<Rightarrow> 'a tccmap \<Rightarrow> 'a tccmap" where
  "tcc_insert h key val t =
     (let i = h key mod TCCMAP_SIZE; bin = records t i
      in if key \<in> fst ` set bin
         then t\<lparr>records := (records t)(i := dset key val bin)\<rparr>
         else t\<lparr>records := (records t)(i := bin @ [(key, val)]), nb_records := nb_records t + 1\<rparr>)"

definition tcc_find :: "('a typepair \<Rightarrow> nat) \<Rightarrow> 'a typepair \<Rightarrow> 'a tccmap \<Rightarrow> conversion option" where
  "tcc_find h key t = map_of (records t (h key mod TCCMAP_SIZE)) key"

lemma map_of_append_new:
  "k \<notin> fst ` set d \<Longrightarrow> map_of (d @ [(k, v)]) k' = (if k' = k then Some v else map_of d k')"
  by (induction d) auto

interpretation tcc: compat_table tcc_empty "tcc_insert h" "tcc_find h"
  for h :: "'a typepair \<Rightarrow> nat"
  by unfold_locales
     (auto simp: tcc_find_def tcc_insert_def tcc_empty_def Let_def map_of_append_new
        simp del: map_of_append)

section \<open>TypeManager\<close>

definition is_compatible ::
  "('a typepair \<Rightarrow> nat) \<Rightarrow> 'a tccmap \<Rightarrow> 'a \<Rightarrow> 'a \<Rightarrow> conversion option" where
  "is_compatible h tm fromty toty =
     (if fromty = toty then Some Exact else tcc_find h (fromty, toty) tm)"

definition check_compatible ::
  "('a typepair \<Rightarrow> nat) \<Rightarrow> 'a tccmap \<Rightarrow> 'a \<Rightarrow> 'a \<Rightarrow> conversion option res" where
  "check_compatible h tm fromty toty =
     (let conv = is_compatible h tm fromty toty
      in if conv = Some NilConv then Inl AssertionError else Inr conv)"

definition set_compatible ::
  "('a typepair \<Rightarrow> nat) \<Rightarrow> 'a \<Rightarrow> 'a \<Rightarrow> conversion \<Rightarrow> 'a tccmap \<Rightarrow> 'a tccmap res" where
  "set_compatible h fromty toty by_conv tm =
     (if by_conv \<in> {Safe, Unsafe, Promote} then Inr (tcc_insert h (fromty, toty) by_conv tm)
      else Inl KeyError)"

definition set_promote :: "('a typepair \<Rightarrow> nat) \<Rightarrow> 'a \<Rightarrow> 'a \<Rightarrow> 'a tccmap \<Rightarrow> 'a tccmap res" where
  "set_promote h fromty toty = set_compatible h fromty toty Promote"

definition set_unsafe_convert :: "('a typepair \<Rightarrow> nat) \<Rightarrow> 'a \<Rightarrow> 'a \<Rightarrow> 'a tccmap \<Rightarrow> 'a tccmap res" where
  "set_unsafe_convert h fromty toty = set_compatible h fromty toty Unsafe"

definition set_safe_convert :: "('a typepair \<Rightarrow> nat) \<Rightarrow> 'a \<Rightarrow> 'a \<Rightarrow> 'a tccmap \<Rightarrow> 'a tccmap res" where
  "set_safe_convert h fromty toty = set_compatible h fromty toty Safe"

section \<open>TypeCastingRules\<close>

record 'a castingrules =
  tcr_tm :: "'a tccmap"
  tcr_tg :: "'a typegraph"

definition new_casting_rules :: "'a tccmap \<Rightarrow> 'a castingrules" where
  "new_casting_rules tm = \<lparr>tcr_tm = tm, tcr_tg = empty_typegraph\<rparr>"

definition cb_update ::
  "('a typepair \<Rightarrow> nat) \<Rightarrow> 'a rule \<Rightarrow> 'a tccmap \<Rightarrow> 'a tccmap res" where
  "cb_update h = (\<lambda>(a, b, rel) tm.
     if rel = Promote then set_promote h a b tm
     else if rel = Safe then set_safe_convert h a b tm
     else if rel = Unsafe then set_unsafe_convert h a b tm
     else Inl AssertionError)"

text \<open>
  Every call on the graph runs \<open>_cb_update\<close> on the calls the graph emits, in order.
\<close>

definition tcr_call ::
  "('a typepair \<Rightarrow> nat) \<Rightarrow> ('a typegraph \<Rightarrow> 'a typegraph) \<Rightarrow> 'a castingrules \<Rightarrow> 'a castingrules res" where
  "tcr_call h f tcr =
     (let tg = f (tcr_tg tcr)
      in bindE (foldE (cb_update h) (drop (length (emitted (tcr_tg tcr))) (emitted tg)) (tcr_tm tcr))
           (\<lambda>tm. Inr \<lparr>tcr_tm = tm, tcr_tg = tg\<rparr>))"

definition tcr_promote where
  "tcr_promote h a b = tcr_call h (tg_promote a b)"

definition tcr_unsafe where
  "tcr_unsafe h a b = tcr_call h (tg_unsafe a b)"

definition tcr_safe where
  "tcr_safe h a b = tcr_call h (tg_safe a b)"

definition tcr_promote_unsafe where
  "tcr_promote_unsafe h a b tcr = bindE (tcr_promote h a b tcr) (tcr_unsafe h b a)"

definition tcr_safe_unsafe where
  "tcr_safe_unsafe h a b tcr = bindE (tcr_call h (tg_safe a b) tcr) (tcr_call h (tg_unsafe b a))"

definition tcr_unsafe_unsafe where
  "tcr_unsafe_unsafe h a b tcr = bindE (tcr_call h (tg_unsafe a b) tcr) (tcr_call h (tg_unsafe b a))"

section \<open>The built-in rules\<close>

text \<open>\<open>types.uintp\<close> is \<open>uint64\<close> on the 64-bit hosts the package supports.\<close>

datatype numtype =
    T_boolean
  | T_int8 | T_int16 | T_int32 | T_int64
  | T_uint8 | T_uint16 | T_uint32 | T_uint64
  | T_float16 | T_float32 | T_float64
  | T_complex32 | T_complex64 | T_complex128
  | T_voidptr

definition T_uintp :: numtype where
  "T_uintp = T_uint64"

definition init_casting_rules ::
  "(numtype typepair \<Rightarrow> nat) \<Rightarrow> numtype tccmap \<Rightarrow> numtype castingrules res" where
  "init_casting_rules h tm = foldE (\<lambda>f. f)
     [tcr_safe_unsafe h T_boolean T_int8,
      tcr_safe_unsafe h T_boolean T_uint8,
      tcr_promote_unsafe h T_int8 T_int16,
      tcr_promote_unsafe h T_uint8 T_uint16,
      tcr_promote_unsafe h T_int16 T_int32,
      tcr_promote_unsafe h T_uint16 T_uint32,
      tcr_promote_unsafe h T_int32 T_int64,
      tcr_promote_unsafe h T_uint32 T_uint64,
      tcr_safe_unsafe h T_uint8 T_int16,
      tcr_safe_unsafe h T_uint16 T_int32,
      tcr_safe_unsafe h T_uint32 T_int64,
      tcr_safe_unsafe h T_int8 T_float16,
      tcr_safe_unsafe h T_int16 T_float32,
      tcr_safe_unsafe h T_int32 T_float64,
      tcr_unsafe_unsafe h T_int16 T_float16,
      tcr_unsafe_unsafe h T_int32 T_float32,
      tcr_safe_unsafe h T_int64 T_float64,
      tcr_safe_unsafe h T_uint64 T_float64,
      tcr_promote_unsafe h T_float16 T_float32,
      tcr_promote_unsafe h T_float32 T_float64,
      tcr_safe h T_float16 T_complex32,
      tcr_safe h T_float32 T_complex64,
      tcr_safe h T_float64 T_complex128,
      tcr_promote_unsafe h T_complex32 T_complex64,
      tcr_promote_unsafe h T_complex64 T_complex128,
      tcr_unsafe_unsafe h T_uintp T_voidptr]
     (new_casting_rules tm)"

text \<open>The graph insertions of each of these calls, and all of them in order.\<close>

definition builtin_calls :: "numtype rule list list" where
  "builtin_calls =
     [[(T_boolean, T_int8, Safe), (T_int8, T_boolean, Unsafe)],
      [(T_boolean, T_uint8, Safe), (T_uint8, T_boolean, Unsafe)],
      [(T_int8, T_int16, Promote), (T_int16, T_int8, Unsafe)],
      [(T_uint8, T_uint16, Promote), (T_uint16, T_uint8, Unsafe)],
      [(T_int16, T_int32, Promote), (T_int32, T_int16, Unsafe)],
      [(T_uint16, T_uint32, Promote), (T_uint32, T_uint16, Unsafe)],
      [(T_int32, T_int64, Promote), (T_int64, T_int32, Unsafe)],
      [(T_uint32, T_uint64, Promote), (T_uint64, T_uint32, Unsafe)],
      [(T_uint8, T_int16, Safe), (T_int16, T_uint8, Unsafe)],
      [(T_uint16, T_int32, Safe), (T_int32, T_uint16, Unsafe)],
      [(T_uint32, T_int64, Safe), (T_int64, T_uint32, Unsafe)],
      [(T_int8, T_float16, Safe), (T_float16, T_int8, Unsafe)],
      [(T_int16, T_float32, Safe), (T_float32, T_int16, Unsafe)],
      [(T_int32, T_float64, Safe), (T_float64, T_int32, Unsafe)],
      [(T_int16, T_float16, Unsafe), (T_float16, T_int16, Unsafe)],
      [(T_int32, T_float32, Unsafe), (T_float32, T_int32, Unsafe)],
      [(T_int64, T_float64, Safe), (T_float64, T_int64, Unsafe)],
      [(T_uint64, T_float64, Safe), (T_float64, T_uint64, Unsafe)],
      [(T_float16, T_float32, Promote), (T_float32, T_float16, Unsafe)],
      [(T_float32, T_float64, Promote), (T_float64, T_float32, Unsafe)],
      [(T_float16, T_complex32, Safe)],
      [(T_float32, T_complex64, Safe)],
      [(T_float64, T_complex128, Safe)],
      [(T_complex32, T_complex64, Promote), (T_complex64, T_complex32, Unsafe)],
      [(T_complex64, T_complex128, Promote), (T_complex128, T_complex64, Unsafe)],
      [(T_uintp, T_voidptr, Unsafe), (T_voidptr, T_uintp, Unsafe)]]"

definition builtin_rules :: "numtype rule list" where
  "builtin_rules = concat builtin_calls"

section \<open>The table the rules build\<close>

definition table_of :: "('a typepair \<Rightarrow> nat) \<Rightarrow> 'a rule list \<Rightarrow> 'a tccmap \<Rightarrow> 'a tccmap" where
  "table_of h es tm = tcc.insert_all h (map (\<lambda>(a, b, r). ((a, b), r)) es) tm"

lemma table_of_simps [simp]:
  "table_of h [] tm = tm"
  "table_of h ((a, b, r) # es) tm = table_of h es (tcc_insert h (a, b) r tm)"
  "table_of h (es @ es') tm = table_of h es' (table_of h es tm)"
  by (simp_all add: table_of_def)

lemma find_table_of:
  "tcc_find h (x, y) (table_of h es tm) =
     (case told es x y of None \<Rightarrow> tcc_find h (x, y) tm | Some r \<Rightarrow> Some r)"
proof (induction es rule: rev_induct)
  case Nil
  then show ?case by simp
next
  case (snoc e es)
  obtain a b r where e: "e = (a, b, r)" by (cases e)
  with snoc show ?case by simp
qed

lemma foldE_cb_update:
  assumes "\<forall>(a, b, r) \<in> set es. Promote \<le> r \<and> r \<noteq> NilConv"
  shows "foldE (cb_update h) es tm = Inr (table_of h es tm)"
  using assms
proof (induction es arbitrary: tm)
  case Nil
  then show ?case by simp
next
  case (Cons e es)
  obtain a b r where e: "e = (a, b, r)" by (cases e)
  with Cons.prems have "r \<in> {Promote, Safe, Unsafe}"
    by (cases r) (auto simp: less_eq_conversion_def)
  then have "cb_update h e tm = Inr (tcc_insert h (a, b) r tm)"
    unfolding e by (auto simp: cb_update_def set_promote_def set_safe_convert_def
      set_unsafe_convert_def set_compatible_def)
  with Cons.IH Cons.prems e show ?case by auto
qed

text \<open>A call never fails, and the manager has been told what the graph emitted.\<close>

definition tcr_synced :: "('a typepair \<Rightarrow> nat) \<Rightarrow> 'a tccmap \<Rightarrow> 'a castingrules \<Rightarrow> bool" where
  "tcr_synced h tm0 tcr \<longleftrightarrow> tcr_tm tcr = table_of h (emitted (tcr_tg tcr)) tm0"

lemma tcr_call_rule:
  assumes "tcr_synced h tm0 tcr" and "Promote \<le> r" and "r \<noteq> NilConv"
  shows "\<exists>tcr'. tcr_call h (insert_rule a b r) tcr = Inr tcr' \<and> tcr_synced h tm0 tcr' \<and>
     tcr_tg tcr' = insert_rule a b r (tcr_tg tcr)"
proof -
  from insert_rule_emits[OF assms(3), of "tcr_tg tcr" a b]
  obtain es where es: "emitted (insert_rule a b r (tcr_tg tcr)) = emitted (tcr_tg tcr) @ es"
    and "\<forall>(x, y, s) \<in> set es. r \<le> s \<and> s \<noteq> NilConv"
    by (auto simp: emits_from_def)
  then have "\<forall>(x, y, s) \<in> set es. Promote \<le> s \<and> s \<noteq> NilConv"
    using assms(2) by fastforce
  from foldE_cb_update[OF this] es assms(1) show ?thesis
    by (auto simp: tcr_call_def tcr_synced_def)
qed

text \<open>A list of calls \<open>(a, b, r)\<close> run in sequence, as the methods of the class run them.\<close>

definition tcr_rules ::
  "('a typepair \<Rightarrow> nat) \<Rightarrow> 'a rule list \<Rightarrow> 'a castingrules \<Rightarrow> 'a castingrules res" where
  "tcr_rules h = foldE (\<lambda>(a, b, r). tcr_call h (insert_rule a b r))"

lemma tcr_rules_synced:
  assumes "tcr_synced h tm0 tcr" and "\<forall>(a, b, r) \<in> set rs. Promote \<le> r \<and> r \<noteq> NilConv"
  shows "\<exists>tcr'. tcr_rules h rs tcr = Inr tcr' \<and> tcr_synced h tm0 tcr' \<and>
     tcr_tg tcr' = insert_rules rs (tcr_tg tcr)"
  using assms
proof (induction rs arbitrary: tcr)
  case Nil
  then show ?case by (simp add: tcr_rules_def)
next
  case (Cons e rs)
  obtain a b r where e: "e = (a, b, r)" by (cases e)
  with tcr_call_rule[of h tm0 tcr r a b] Cons.prems obtain tcr1 where
    "tcr_call h (insert_rule a b r) tcr = Inr tcr1" "tcr_synced h tm0 tcr1"
    "tcr_tg tcr1 = insert_rule a b r (tcr_tg tcr)" by auto
  with Cons.IH[of tcr1] Cons.prems e show ?case by (auto simp: tcr_rules_def)
qed

lemmas tcr_method_defs = tcr_promote_def tcr_unsafe_def tcr_safe_def tcr_promote_unsafe_def
  tcr_safe_unsafe_def tcr_unsafe_unsafe_def tg_promote_def tg_safe_def tg_unsafe_def

lemma tcr_methods_as_rules:
  "tcr_promote h a b = tcr_rules h [(a, b, Promote)]"
  "tcr_unsafe h a b = tcr_rules h [(a, b, Unsafe)]"
  "tcr_safe h a b = tcr_rules h [(a, b, Safe)]"
  "tcr_promote_unsafe h a b = tcr_rules h [(a, b, Promote), (b, a, Unsafe)]"
  "tcr_safe_unsafe h a b = tcr_rules h [(a, b, Safe), (b, a, Unsafe)]"
  "tcr_unsafe_unsafe h a b = tcr_rules h [(a, b, Unsafe), (b, a, Unsafe)]"
  by (auto simp: tcr_rules_def tcr_method_defs bindE_def fun_eq_iff split: sum.splits)

lemma foldE_rules: "foldE (\<lambda>f. f) (map (tcr_rules h) rss) t = tcr_rules h (concat rss) t"
  by (induction rss arbitrary: t)
     (auto simp: tcr_rules_def foldE_append bindE_def split: sum.splits)

lemma init_casting_rules_rules:
  "init_casting_rules h tm = tcr_rules h builtin_rules (new_casting_rules tm)"
  unfolding builtin_rules_def foldE_rules[symmetric]
  by (simp only: init_casting_rules_def tcr_methods_as_rules builtin_calls_def list.map)

text \<open>The rules are graded: no rule is looser than what the others already give.\<close>

fun type_level :: "numtype \<Rightarrow> nat" where
  "type_level T_boolean = 0"
| "type_level T_int8 = 1" | "type_level T_uint8 = 1"
| "type_level T_int16 = 2" | "type_level T_uint16 = 2" | "type_level T_float16 = 2"
| "type_level T_int32 = 3" | "type_level T_uint32 = 3" | "type_level T_float32 = 3"
| "type_level T_complex32 = 3"
| "type_level T_int64 = 4" | "type_level T_uint64 = 4" | "type_level T_complex64 = 4"
| "type_level T_voidptr = 4"
| "type_level T_float64 = 5"
| "type_level T_complex128 = 6"

fun type_family :: "numtype \<Rightarrow> nat" where
  "type_family T_boolean = 0"
| "type_family T_int8 = 1" | "type_family T_int16 = 1"
| "type_family T_int32 = 1" | "type_family T_int64 = 1"
| "type_family T_uint8 = 2" | "type_family T_uint16 = 2"
| "type_family T_uint32 = 2" | "type_family T_uint64 = 2"
| "type_family T_float16 = 3" | "type_family T_float32 = 3" | "type_family T_float64 = 3"
| "type_family T_complex32 = 4" | "type_family T_complex64 = 4" | "type_family T_complex128 = 4"
| "type_family T_voidptr = 5"

lemma builtin_rules_graded: "graded type_level type_family (set builtin_rules)"
  by (simp add: graded_def builtin_rules_def builtin_calls_def T_uintp_def)

lemma builtin_rules_kinds: "\<forall>(a, b, r) \<in> set builtin_rules. Promote \<le> r \<and> r \<noteq> NilConv"
  by (simp add: builtin_rules_def builtin_calls_def less_eq_conversion_def)

lemma insert_rules_told:
  assumes "graded level family R" and "set rs \<subseteq> R" and "S \<subseteq> R"
    and "tg_inv S g" and "tg_told g"
  shows "tg_told (insert_rules rs g)"
  using assms
proof (induction rs g arbitrary: S rule: insert_rules.induct)
  case (1 g)
  then show ?case by simp
next
  case (2 a b r rs g)
  then have "(a, b, r) \<in> R" by simp
  then have "r \<noteq> NilConv" using "2.prems"(1) by (auto simp: graded_def)
  have "r \<le> castset_get (forwards g a) b"
    using "2.prems" \<open>(a, b, r) \<in> R\<close> by (intro graded_rule_strict[of level family R, where S = S]) auto
  then have "tg_told (insert_rule a b r g)"
    using "2.prems" \<open>r \<noteq> NilConv\<close> by (intro insert_rule_told) auto
  moreover have "tg_inv (insert (a, b, r) S) (insert_rule a b r g)"
    using "2.prems" \<open>r \<noteq> NilConv\<close> by (intro insert_rule_inv) auto
  ultimately show ?case
    using "2.IH"[of "insert (a, b, r) S"] "2.prems" \<open>(a, b, r) \<in> R\<close> by simp
qed

lemma init_casting_rules_ok:
  obtains tcr where "init_casting_rules h tcc_empty = Inr tcr"
    and "tcr_synced h tcc_empty tcr" and "tcr_tg tcr = insert_rules builtin_rules empty_typegraph"
proof -
  have "tcr_synced h tcc_empty (new_casting_rules tcc_empty)"
    by (simp add: tcr_synced_def new_casting_rules_def empty_typegraph_def)
  from tcr_rules_synced[OF this builtin_rules_kinds] that show thesis
    by (auto simp: init_casting_rules_rules new_casting_rules_def)
qed

lemma builtin_table:
  assumes "tcr_synced h tcc_empty tcr" and "tcr_tg tcr = insert_rules builtin_rules empty_typegraph"
    and "x \<noteq> y"
  shows "is_compatible h (tcr_tm tcr) x y =
    (let c = castset_get (forwards (tcr_tg tcr) x) y in if c = NilConv then None else Some c)"
proof -
  have "tg_told (tcr_tg tcr)"
    unfolding assms(2) using builtin_rules_graded
    by (rule insert_rules_told[where S = "{}"]) (auto simp: tg_inv_empty tg_told_empty)
  with assms(1,3) show ?thesis
    by (simp add: is_compatible_def tcr_synced_def find_table_of tg_told_def tcc.find_empty)
qed

text \<open>
  C5. Building the default type manager never fails, and it converts one built-in type to
  another within \<open>k\<close> exactly when a chain of built-in rules no looser than \<open>k\<close> connects
  them: the manager's table, written only through the callbacks, agrees with the graph.
\<close>

theorem default_type_manager:
  "\<exists>tcr. init_casting_rules h tcc_empty = Inr tcr \<and>
     (\<forall>x y k. x \<noteq> y \<and> k \<noteq> NilConv \<longrightarrow>
        ((\<exists>c. check_compatible h (tcr_tm tcr) x y = Inr (Some c) \<and> c \<le> k)
           \<longleftrightarrow> (x, y) \<in> (edges (set builtin_rules) k)\<^sup>+))"
proof -
  obtain tcr where tcr: "init_casting_rules h tcc_empty = Inr tcr"
    "tcr_synced h tcc_empty tcr" "tcr_tg tcr = insert_rules builtin_rules empty_typegraph"
    by (rule init_casting_rules_ok)
  have nil: "NilConv \<notin> (snd \<circ> snd) ` set builtin_rules"
    using builtin_rules_kinds by auto
  have "(\<exists>c. check_compatible h (tcr_tm tcr) x y = Inr (Some c) \<and> c \<le> k)
      \<longleftrightarrow> castset_get (forwards (tcr_tg tcr) x) y \<le> k" if "x \<noteq> y" "k \<noteq> NilConv" for x y k
    using that by (auto simp: check_compatible_def builtin_table[OF tcr(2,3)] Let_def)
  with tcr tg_inv_cost[OF insert_rules_inv[OF tg_inv_empty nil]] show ?thesis
    by auto
qed


theorem default_type_manager_witness:
  "T_int8 \<noteq> T_float64 \<and> Safe \<noteq> NilConv \<and>
   (\<exists>tcr. init_casting_rules (\<lambda>p. 0) tcc_empty = Inr tcr \<and>
     ((\<exists>c. check_compatible (\<lambda>p. 0) (tcr_tm tcr) T_int8 T_float64 = Inr (Some c) \<and> c \<le> Safe)
        \<longleftrightarrow> (T_int8, T_float64) \<in> (edges (set builtin_rules) Safe)\<^sup>+))"
proof -
  obtain tcr where tcr: "init_casting_rules (\<lambda>p. 0) tcc_empty = Inr tcr"
    and iff: "\<forall>x y k. x \<noteq> y \<and> k \<noteq> NilConv \<longrightarrow>
        ((\<exists>c. check_compatible (\<lambda>p. 0) (tcr_tm tcr) x y = Inr (Some c) \<and> c \<le> k)
           \<longleftrightarrow> (x, y) \<in> (edges (set builtin_rules) k)\<^sup>+)"
    using default_type_manager[of "\<lambda>p. 0"] by (elim exE conjE)
  from iff[rule_format, of T_int8 T_float64 Safe] tcr show ?thesis by auto
qed

end
