(* ===== verification/Overload.thy ===== *)
theory Overload
  imports TypeConv "HOL-Library.Product_Lexorder"
begin

text \<open>
  Overload resolution: \<open>Rating\<close> and the resolution methods of \<open>BaseContext\<close> in
  \<open>numba_cuda/typing/context.py\<close>, and the C++ selector of the type manager
  (\<open>cext/typeconv/typeconv.cpp\<close>), which must choose the same overload. The type-specific
  rules \<open>can_convert_to\<close> and \<open>can_convert_from\<close> of the type classes are the parameters
  \<open>to_rule\<close> and \<open>from_rule\<close>.
\<close>

section \<open>Ratings\<close>

record rating =
  promote :: nat
  safe_convert :: nat
  unsafe_convert :: nat

definition new_rating :: rating where
  "new_rating = \<lparr>promote = 0, safe_convert = 0, unsafe_convert = 0\<rparr>"

definition astuple :: "rating \<Rightarrow> nat \<times> nat \<times> nat" where
  "astuple r = (unsafe_convert r, safe_convert r, promote r)"

definition rating_add :: "rating \<Rightarrow> rating \<Rightarrow> rating" where
  "rating_add a b =
     \<lparr>promote = promote a + promote b,
      safe_convert = safe_convert a + safe_convert b,
      unsafe_convert = unsafe_convert a + unsafe_convert b\<rparr>"

lemma astuple_inject [simp]: "astuple a = astuple b \<longleftrightarrow> a = b"
  by (cases a; cases b) (auto simp: astuple_def)

section \<open>Convertibility\<close>

definition can_convert ::
  "('a typepair \<Rightarrow> nat) \<Rightarrow> ('a \<Rightarrow> 'a \<Rightarrow> conversion option) \<Rightarrow> ('a \<Rightarrow> 'a \<Rightarrow> conversion option)
    \<Rightarrow> 'a tccmap \<Rightarrow> 'a \<Rightarrow> 'a \<Rightarrow> conversion option res" where
  "can_convert h to_rule from_rule tm fromty toty =
     (if fromty = toty then Inr (Some Exact)
      else bindE (check_compatible h tm fromty toty) (\<lambda>conv.
        if conv \<noteq> None then Inr conv
        else
          (let forward = to_rule fromty toty; backward = from_rule toty fromty
           in Inr (case backward of
                None \<Rightarrow> forward
              | Some b \<Rightarrow> (case forward of None \<Rightarrow> backward | Some f \<Rightarrow> Some (min f b))))))"

section \<open>Rating arguments\<close>

text \<open>The loop over \<open>zip(actualargs, formalargs)\<close>; \<open>None\<close> is an incompatible argument.\<close>

fun rate_loop ::
  "('a \<Rightarrow> 'a \<Rightarrow> conversion option res) \<Rightarrow> bool \<Rightarrow> bool \<Rightarrow> ('a \<times> 'a) list \<Rightarrow> rating
    \<Rightarrow> rating option res" where
  "rate_loop cc unsafe_casting exact_match_required [] rate = Inr (Some rate)"
| "rate_loop cc unsafe_casting exact_match_required ((actual, formal) # rest) rate =
     bindE (cc actual formal) (\<lambda>conv.
       case conv of
         None \<Rightarrow> Inr None
       | Some c \<Rightarrow>
           if \<not> unsafe_casting \<and> Unsafe \<le> c then Inr None
           else if exact_match_required \<and> c \<noteq> Exact then Inr None
           else if c = Promote then
             rate_loop cc unsafe_casting exact_match_required rest (rate\<lparr>promote := promote rate + 1\<rparr>)
           else if c = Safe then
             rate_loop cc unsafe_casting exact_match_required rest
               (rate\<lparr>safe_convert := safe_convert rate + 1\<rparr>)
           else if c = Unsafe then
             rate_loop cc unsafe_casting exact_match_required rest
               (rate\<lparr>unsafe_convert := unsafe_convert rate + 1\<rparr>)
           else if c = Exact then rate_loop cc unsafe_casting exact_match_required rest rate
           else Inl AssertionError)"

definition rate_arguments ::
  "('a \<Rightarrow> 'a \<Rightarrow> conversion option res) \<Rightarrow> bool \<Rightarrow> bool \<Rightarrow> 'a list \<Rightarrow> 'a list
    \<Rightarrow> rating option res" where
  "rate_arguments cc unsafe_casting exact_match_required actualargs formalargs =
     (if length actualargs \<noteq> length formalargs then Inr None
      else rate_loop cc unsafe_casting exact_match_required (zip actualargs formalargs) new_rating)"

text \<open>
  \<open>install_possible_conversions\<close> writes into the type manager as it goes, also when it
  gives up on a later argument.
\<close>

fun install_loop ::
  "('a typepair \<Rightarrow> nat) \<Rightarrow> ('a \<Rightarrow> 'a \<Rightarrow> conversion option) \<Rightarrow> ('a \<Rightarrow> 'a \<Rightarrow> conversion option)
    \<Rightarrow> ('a \<times> 'a) list \<Rightarrow> 'a tccmap \<Rightarrow> (bool \<times> 'a tccmap) res" where
  "install_loop h to_rule from_rule [] tm = Inr (True, tm)"
| "install_loop h to_rule from_rule ((actual, formal) # rest) tm =
     bindE (check_compatible h tm actual formal) (\<lambda>known.
       if known \<noteq> None then install_loop h to_rule from_rule rest tm
       else bindE (can_convert h to_rule from_rule tm actual formal) (\<lambda>conv.
         case conv of
           None \<Rightarrow> Inr (False, tm)
         | Some c \<Rightarrow>
             if c = Exact then Inl AssertionError
             else bindE (set_compatible h actual formal c tm)
                    (install_loop h to_rule from_rule rest)))"

definition install_possible_conversions ::
  "('a typepair \<Rightarrow> nat) \<Rightarrow> ('a \<Rightarrow> 'a \<Rightarrow> conversion option) \<Rightarrow> ('a \<Rightarrow> 'a \<Rightarrow> conversion option)
    \<Rightarrow> 'a list \<Rightarrow> 'a list \<Rightarrow> 'a tccmap \<Rightarrow> (bool \<times> 'a tccmap) res" where
  "install_possible_conversions h to_rule from_rule actualargs formalargs tm =
     (if length actualargs \<noteq> length formalargs then Inr (False, tm)
      else install_loop h to_rule from_rule (zip actualargs formalargs) tm)"

text \<open>
  \<open>_search_new_conversions\<close> of the dispatcher, which the native dispatcher calls when no
  compiled signature matches, installs the conversions of every compiled signature.
\<close>

fun search_new_conversions ::
  "('a typepair \<Rightarrow> nat) \<Rightarrow> ('a \<Rightarrow> 'a \<Rightarrow> conversion option) \<Rightarrow> ('a \<Rightarrow> 'a \<Rightarrow> conversion option)
    \<Rightarrow> 'a list \<Rightarrow> 'a list list \<Rightarrow> bool \<Rightarrow> 'a tccmap \<Rightarrow> (bool \<times> 'a tccmap) res" where
  "search_new_conversions h to_rule from_rule args [] found tm = Inr (found, tm)"
| "search_new_conversions h to_rule from_rule args (sig # sigs) found tm =
     bindE (install_possible_conversions h to_rule from_rule args sig tm) (\<lambda>(conv, tm').
       search_new_conversions h to_rule from_rule args sigs (if conv then True else found) tm')"

section \<open>Resolving an overload\<close>

record 'a signature =
  sig_args :: "'a list"
  sig_return :: 'a

text \<open>The candidates in the order of the cases, each with its rating as a tuple.\<close>

fun rate_cases ::
  "('a \<Rightarrow> 'a \<Rightarrow> conversion option res) \<Rightarrow> bool \<Rightarrow> bool \<Rightarrow> 'a list \<Rightarrow> 'a signature list
    \<Rightarrow> ((nat \<times> nat \<times> nat) \<times> 'a signature) list res" where
  "rate_cases cc unsafe_casting exact_match_required args [] = Inr []"
| "rate_cases cc unsafe_casting exact_match_required args (c # cases) =
     (if length args = length (sig_args c) then
        bindE (rate_arguments cc unsafe_casting exact_match_required args (sig_args c)) (\<lambda>rating.
        bindE (rate_cases cc unsafe_casting exact_match_required args cases) (\<lambda>rest.
        case rating of None \<Rightarrow> Inr rest | Some r \<Rightarrow> Inr ((astuple r, c) # rest)))
      else rate_cases cc unsafe_casting exact_match_required args cases)"

definition resolve_overload ::
  "('a \<Rightarrow> 'a \<Rightarrow> conversion option res) \<Rightarrow> 'a signature list \<Rightarrow> 'a list \<Rightarrow> 'a list \<Rightarrow> bool \<Rightarrow> bool
    \<Rightarrow> bool \<Rightarrow> 'a signature option res" where
  "resolve_overload cc cases args kws allow_ambiguous unsafe_casting exact_match_required =
     (if kws \<noteq> [] then Inl AssertionError
      else bindE (rate_cases cc unsafe_casting exact_match_required args cases) (\<lambda>candidates.
        case sort_key fst candidates of
          [] \<Rightarrow> Inr None
        | (best_rate, best) # _ \<Rightarrow>
            (let tied = takeWhile (\<lambda>(rate, c). rate = best_rate) (sort_key fst candidates)
             in if \<not> allow_ambiguous \<and> length tied > 1 then Inl TypeError
                else Inr (Some best))))"

text \<open>
  Unification. \<open>unify\<close> is the method of the first type on the second; \<open>undef\<close> is
  \<open>types.undefined\<close>. The first argument is the number of nested calls Python still allows.
\<close>

fun unify_pairs ::
  "('a \<Rightarrow> 'a \<Rightarrow> conversion option res) \<Rightarrow> ('a \<Rightarrow> 'a \<Rightarrow> 'a option) \<Rightarrow> 'a \<Rightarrow> ('a \<Rightarrow> bool) \<Rightarrow> ('a \<Rightarrow> 'a)
    \<Rightarrow> nat \<Rightarrow> 'a \<Rightarrow> 'a \<Rightarrow> 'a option res"
and unify_backwards ::
  "('a \<Rightarrow> 'a \<Rightarrow> conversion option res) \<Rightarrow> ('a \<Rightarrow> 'a \<Rightarrow> 'a option) \<Rightarrow> 'a \<Rightarrow> ('a \<Rightarrow> bool) \<Rightarrow> ('a \<Rightarrow> 'a)
    \<Rightarrow> nat \<Rightarrow> 'a \<Rightarrow> 'a \<Rightarrow> 'a option res"
where
  "unify_pairs cc unify undef is_literal unliteral 0 a b = Inl RuntimeError"
| "unify_pairs cc unify undef is_literal unliteral (Suc depth) a b =
     (if a = b then Inr (Some a)
      else if a = undef then Inr (Some b)
      else if b = undef then Inr (Some a)
      else if unify a b \<noteq> None then Inr (unify a b)
      else if unify b a \<noteq> None then Inr (unify b a)
      else bindE (cc a b) (\<lambda>conv.
        case conv of
          Some c \<Rightarrow> if c \<le> Safe then Inr (Some b)
            else unify_backwards cc unify undef is_literal unliteral depth a b
        | None \<Rightarrow> unify_backwards cc unify undef is_literal unliteral depth a b))"
| "unify_backwards cc unify undef is_literal unliteral depth a b =
     bindE (cc b a) (\<lambda>conv.
       if (case conv of Some c \<Rightarrow> c \<le> Safe | None \<Rightarrow> False) then Inr (Some a)
       else if is_literal a \<or> is_literal b then
         unify_pairs cc unify undef is_literal unliteral depth (unliteral a) (unliteral b)
       else Inr None)"

text \<open>The types are unified pairwise, in the order of their bit width.\<close>

fun unify_loop :: "('a \<Rightarrow> 'a \<Rightarrow> 'a option res) \<Rightarrow> 'a list \<Rightarrow> 'a \<Rightarrow> 'a option res" where
  "unify_loop up [] unified = Inr (Some unified)"
| "unify_loop up (tp # tps) unified =
     bindE (up unified tp) (\<lambda>u. case u of None \<Rightarrow> Inr None | Some u' \<Rightarrow> unify_loop up tps u')"

definition unify_types :: "('a \<Rightarrow> int) \<Rightarrow> ('a \<Rightarrow> 'a \<Rightarrow> 'a option res) \<Rightarrow> 'a list \<Rightarrow> 'a option res" where
  "unify_types bitwidth up typelist =
     (case sort_key bitwidth typelist of
        [] \<Rightarrow> Inl IndexError
      | t # ts \<Rightarrow> unify_loop up ts t)"

section \<open>The C++ selector\<close>

fun cpp_rate ::
  "('a \<Rightarrow> 'a \<Rightarrow> conversion option) \<Rightarrow> bool \<Rightarrow> bool \<Rightarrow> ('a \<times> 'a) list \<Rightarrow> rating \<Rightarrow> rating option" where
  "cpp_rate isc allow_unsafe exact_match_required [] rate = Some rate"
| "cpp_rate isc allow_unsafe exact_match_required ((s, e) # rest) rate =
     (let tcc = isc s e
      in if tcc = None \<or> (tcc = Some Unsafe \<and> \<not> allow_unsafe)
            \<or> (tcc \<noteq> Some Exact \<and> exact_match_required)
         then None
         else cpp_rate isc allow_unsafe exact_match_required rest
           (case the tcc of
              Promote \<Rightarrow> rate\<lparr>promote := promote rate + 1\<rparr>
            | Safe \<Rightarrow> rate\<lparr>safe_convert := safe_convert rate + 1\<rparr>
            | Unsafe \<Rightarrow> rate\<lparr>unsafe_convert := unsafe_convert rate + 1\<rparr>
            | _ \<Rightarrow> rate))"

fun cpp_candidates ::
  "('a \<Rightarrow> 'a \<Rightarrow> conversion option) \<Rightarrow> bool \<Rightarrow> bool \<Rightarrow> 'a list \<Rightarrow> nat \<Rightarrow> 'a list list
    \<Rightarrow> (rating \<times> nat) list" where
  "cpp_candidates isc allow_unsafe exact_match_required sig i [] = []"
| "cpp_candidates isc allow_unsafe exact_match_required sig i (entry # ovsigs) =
     (case cpp_rate isc allow_unsafe exact_match_required (zip sig entry) new_rating of
        None \<Rightarrow> cpp_candidates isc allow_unsafe exact_match_required sig (i + 1) ovsigs
      | Some rate \<Rightarrow>
          (rate, i) # cpp_candidates isc allow_unsafe exact_match_required sig (i + 1) ovsigs)"

definition rating_less :: "rating \<Rightarrow> rating \<Rightarrow> bool" where
  "rating_less a b =
     (if unsafe_convert a < unsafe_convert b then True
      else if unsafe_convert a > unsafe_convert b then False
      else if safe_convert a < safe_convert b then True
      else if safe_convert a > safe_convert b then False
      else promote a < promote b)"

fun cpp_lowest :: "(rating \<times> nat) list \<Rightarrow> rating \<Rightarrow> nat \<Rightarrow> nat \<Rightarrow> nat \<times> nat" where
  "cpp_lowest [] best selected matchcount = (matchcount, selected)"
| "cpp_lowest ((rate, i) # rest) best selected matchcount =
     (if rating_less rate best then cpp_lowest rest rate i 1
      else if rate = best then cpp_lowest rest best selected (matchcount + 1)
      else cpp_lowest rest best selected matchcount)"

text \<open>
  The number of best matches, and the selected index where there is a match. The Python
  wrapper raises \<open>TypeError\<close> on no match and on an ambiguous one.
\<close>

definition cpp_select_overload ::
  "('a \<Rightarrow> 'a \<Rightarrow> conversion option) \<Rightarrow> 'a list \<Rightarrow> 'a list list \<Rightarrow> bool \<Rightarrow> bool \<Rightarrow> nat \<times> nat option" where
  "cpp_select_overload isc sig ovsigs allow_unsafe exact_match_required =
     (case cpp_candidates isc allow_unsafe exact_match_required sig 0 ovsigs of
        [] \<Rightarrow> (0, None)
      | (rate, i) # rest \<Rightarrow> map_prod id Some (cpp_lowest rest rate i 1))"

definition select_overload ::
  "('a typepair \<Rightarrow> nat) \<Rightarrow> 'a tccmap \<Rightarrow> 'a list \<Rightarrow> 'a list list \<Rightarrow> bool \<Rightarrow> bool \<Rightarrow> nat res" where
  "select_overload h tm sig overloads allow_unsafe exact_match_required =
     (case cpp_select_overload (is_compatible h tm) sig overloads allow_unsafe exact_match_required of
        (matches, selected) \<Rightarrow>
          if matches > 1 then Inl TypeError
          else (case selected of None \<Rightarrow> Inl TypeError | Some i \<Rightarrow> Inr i))"

section \<open>The first of the least elements\<close>

definition least_by :: "('b \<Rightarrow> 'k::linorder) \<Rightarrow> 'b list \<Rightarrow> 'b list" where
  "least_by key xs = filter (\<lambda>x. \<forall>y \<in> set xs. key x \<le> key y) xs"

lemma least_by_nonempty:
  assumes "xs \<noteq> []"
  obtains x ys where "least_by key xs = x # ys"
proof -
  have "Min (key ` set xs) \<in> key ` set xs" using assms by (intro Min_in) auto
  then obtain x where "x \<in> set xs" "key x = Min (key ` set xs)" by auto
  then have "x \<in> set (least_by key xs)" by (auto simp: least_by_def)
  with that show thesis by (cases "least_by key xs") auto
qed

lemma least_by_filter:
  assumes "x \<in> set (least_by key xs)"
  shows "least_by key xs = filter (\<lambda>y. key y = key x) xs"
  unfolding least_by_def
proof (rule filter_cong)
  fix y assume "y \<in> set xs"
  from assms have "x \<in> set xs" "\<And>z. z \<in> set xs \<Longrightarrow> key x \<le> key z" by (auto simp: least_by_def)
  note x = this
  show "(\<forall>z \<in> set xs. key y \<le> key z) \<longleftrightarrow> key y = key x"
  proof
    assume "\<forall>z \<in> set xs. key y \<le> key z"
    from bspec[OF this x(1)] have "key y \<le> key x" .
    then show "key y = key x" using x(2)[OF \<open>y \<in> set xs\<close>] by (rule antisym)
  next
    assume "key y = key x"
    with x(2) show "\<forall>z \<in> set xs. key y \<le> key z" by (intro ballI) simp
  qed
qed simp

lemma takeWhile_sorted_least:
  assumes "sorted (map key (x # xs))"
  shows "takeWhile (\<lambda>y. key y = key x) (x # xs) = filter (\<lambda>y. key y = key x) (x # xs)"
proof -
  have "takeWhile (\<lambda>y. key y = k) ys = filter (\<lambda>y. key y = k) ys"
    if "sorted (map key ys)" "\<forall>y \<in> set ys. k \<le> key y" for ys k
    using that
  proof (induction ys)
    case (Cons y ys)
    have "key z \<noteq> k" if "key y \<noteq> k" "z \<in> set ys" for z
      using Cons.prems that by fastforce
    with Cons show ?case by (auto simp: filter_empty_conv)
  qed simp
  from this[of "x # xs" "key x"] assms show ?thesis by auto
qed

text \<open>A stable sort puts the least elements first, in their original order.\<close>

lemma sort_key_least:
  assumes "sort_key key xs = x # ys"
  shows "takeWhile (\<lambda>y. key y = key x) (sort_key key xs) = least_by key xs"
    and "hd (least_by key xs) = x"
proof -
  have sorted: "sorted (map key (x # ys))" by (metis assms sorted_sort_key)
  have "set (x # ys) = set xs" by (metis assms set_sort)
  with sorted have "x \<in> set (least_by key xs)" by (auto simp: least_by_def)
  then have "least_by key xs = filter (\<lambda>y. key y = key x) xs" by (rule least_by_filter)
  also have "\<dots> = filter (\<lambda>y. key y = key x) (sort_key key xs)" by (simp add: sort_key_stable)
  also have "\<dots> = takeWhile (\<lambda>y. key y = key x) (sort_key key xs)"
    using takeWhile_sorted_least[OF sorted] assms by simp
  finally show *: "takeWhile (\<lambda>y. key y = key x) (sort_key key xs) = least_by key xs" by simp
  from arg_cong[OF *, of hd] show "hd (least_by key xs) = x" by (simp add: assms)
qed

lemma least_by_snoc:
  assumes "x \<in> set (least_by key xs)"
  shows "least_by key (xs @ [y]) =
    (if key y < key x then [y] else if key y = key x then least_by key xs @ [y] else least_by key xs)"
proof -
  have x: "x \<in> set xs" "\<And>z. z \<in> set xs \<Longrightarrow> key x \<le> key z" using assms by (auto simp: least_by_def)
  show ?thesis
  proof (cases "key y < key x")
    case True
    then have "\<not> key z \<le> key y" if "z \<in> set xs" for z using x(2)[OF that] by simp
    with x True show ?thesis by (auto simp: least_by_def filter_empty_conv intro: order.strict_implies_order dest: x(2))
  next
    case False
    then have keep: "(\<forall>w \<in> set xs. key z \<le> key w) \<and> key z \<le> key y \<longleftrightarrow> (\<forall>w \<in> set xs. key z \<le> key w)" for z
      using x by (auto simp: not_less intro: order.trans)
    have y: "(\<forall>w \<in> set xs. key y \<le> key w) \<longleftrightarrow> key y = key x" using x False by (auto intro: antisym)
    have "least_by key (xs @ [y]) = filter (\<lambda>z. (\<forall>w \<in> set xs. key z \<le> key w) \<and> key z \<le> key y) (xs @ [y])"
      unfolding least_by_def by (rule filter_cong) auto
    also have "\<dots> = least_by key xs @ (if key y = key x then [y] else [])"
      unfolding keep by (simp add: least_by_def y)
    finally show ?thesis using False by simp
  qed
qed

section \<open>Candidates\<close>

lemma resolve_overload_least_by:
  assumes "rate_cases cc u e args cases = Inr cands"
  shows "resolve_overload cc cases args [] amb u e =
    (case least_by fst cands of
       [] \<Rightarrow> Inr None
     | (_, best) # others \<Rightarrow> if \<not> amb \<and> others \<noteq> [] then Inl TypeError else Inr (Some best))"
proof (cases "sort_key fst cands")
  case Nil
  then have "cands = []" by (metis length_0_conv length_sort)
  with Nil assms show ?thesis by (simp add: resolve_overload_def least_by_def)
next
  case (Cons x xs)
  obtain r c where x: "x = (r, c)" by (cases x)
  have tw: "takeWhile (\<lambda>(rate, c). rate = r) (sort_key fst cands) = least_by fst cands"
    using sort_key_least(1)[OF Cons] by (simp add: x split_def)
  from Cons have "cands \<noteq> []" by auto
  then obtain y ys where y: "least_by fst cands = y # ys" by (rule least_by_nonempty)
  with sort_key_least(2)[OF Cons] x have "y = (r, c)" by simp
  with y assms Cons x tw show ?thesis by (simp add: resolve_overload_def Let_def)
qed
text \<open>The candidates are the cases that rate, in the order of the cases.\<close>

lemma rate_cases_total:
  assumes "\<And>c. c \<in> set cases \<Longrightarrow> rate_arguments cc u e args (sig_args c) = Inr (rating_of c)"
  shows "rate_cases cc u e args cases =
    Inr (map (\<lambda>c. (astuple (the (rating_of c)), c)) (filter (\<lambda>c. rating_of c \<noteq> None) cases))"
  using assms
proof (induction cases)
  case (Cons c cases)
  have "rating_of c = None" if "length args \<noteq> length (sig_args c)"
    using Cons.prems[of c] that by (simp add: rate_arguments_def)
  with Cons show ?case by (cases "rating_of c") auto
qed simp

text \<open>Where the callback is a function of the types, Python rates arguments as C++ does.\<close>

lemma rate_loop_cpp:
  assumes "\<And>a b. (a, b) \<in> set ps \<Longrightarrow> cc a b = Inr (isc a b) \<and> isc a b \<noteq> Some NilConv"
  shows "rate_loop cc u e ps rate = Inr (cpp_rate isc u e ps rate)"
  using assms
proof (induction ps arbitrary: rate)
  case (Cons p ps)
  obtain a b where p: "p = (a, b)" by (cases p)
  then have cc: "cc a b = Inr (isc a b)" "isc a b \<noteq> Some NilConv" using Cons.prems by auto
  show ?case
  proof (cases "isc a b")
    case None
    with p cc show ?thesis by simp
  next
    case (Some c)
    have "rate_loop cc u e ps r = Inr (cpp_rate isc u e ps r)" for r
      using Cons by simp
    with Some cc p show ?thesis
      by (cases c; cases e; cases u) (simp_all add: Let_def less_eq_conversion_def)
  qed
qed simp

lemma rating_less_iff: "rating_less a b \<longleftrightarrow> astuple a < astuple b"
  by (auto simp: rating_less_def astuple_def)

lemma cpp_lowest_least:
  assumes "least_by (\<lambda>x. astuple (fst x)) xs = (best, selected) # rst" and "length rst + 1 = n"
  shows "\<exists>b s rst'. least_by (\<lambda>x. astuple (fst x)) (xs @ ys) = (b, s) # rst' \<and>
     cpp_lowest ys best selected n = (length rst' + 1, s)"
  using assms
proof (induction ys arbitrary: xs best selected n rst)
  case (Cons y ys)
  obtain r i where y: "y = (r, i)" by (cases y)
  have "(best, selected) \<in> set (least_by (\<lambda>x. astuple (fst x)) xs)"
    unfolding Cons.prems(1) by simp
  from least_by_snoc[OF this, of y] Cons.prems(1)
  have step: "least_by (\<lambda>x. astuple (fst x)) (xs @ [y]) =
     (if rating_less r best then [(r, i)]
      else if r = best then (best, selected) # (rst @ [(r, i)]) else (best, selected) # rst)"
    by (auto simp: y rating_less_iff)
  show ?case
    using Cons.IH[of "xs @ [y]"] step Cons.prems(2) y
    by (cases "rating_less r best"; cases "r = best") auto
qed simp

lemma cpp_select_least:
  "cpp_select_overload isc args ovs u e =
    (case least_by (\<lambda>x. astuple (fst x)) (cpp_candidates isc u e args 0 ovs) of
       [] \<Rightarrow> (0, None)
     | (_, i) # others \<Rightarrow> (length others + 1, Some i))"
proof (cases "cpp_candidates isc u e args 0 ovs")
  case Nil
  then show ?thesis by (simp add: cpp_select_overload_def least_by_def)
next
  case (Cons x xs)
  obtain r i where x: "x = (r, i)" by (cases x)
  have "least_by (\<lambda>x. astuple (fst x)) [x] = (r, i) # []" by (simp add: least_by_def x)
  from cpp_lowest_least[OF this, of 1 xs] Cons x show ?thesis
    by (auto simp: cpp_select_overload_def)
qed

lemma least_by_map: "least_by key (map f xs) = map f (least_by (key \<circ> f) xs)"
  by (simp add: least_by_def filter_map comp_def)

lemma least_by_cong:
  "(\<And>x. x \<in> set xs \<Longrightarrow> key x = key' x) \<Longrightarrow> least_by key xs = least_by key' xs"
  by (auto simp: least_by_def intro: filter_cong)

lemma cpp_candidates_enumerate:
  "cpp_candidates isc u e args i ovs =
    map (\<lambda>(j, entry). (the (cpp_rate isc u e (zip args entry) new_rating), j))
      (filter (\<lambda>(j, entry). cpp_rate isc u e (zip args entry) new_rating \<noteq> None) (enumerate i ovs))"
  by (induction ovs arbitrary: i) (auto split: option.splits)

lemma cpp_candidates_indices:
  "cpp_candidates isc u e args 0 ovs =
    map (\<lambda>j. (the (cpp_rate isc u e (zip args (ovs ! j)) new_rating), j))
      (filter (\<lambda>j. cpp_rate isc u e (zip args (ovs ! j)) new_rating \<noteq> None) [0..<length ovs])"
proof -
  have "enumerate 0 ovs = map (\<lambda>j. (j, ovs ! j)) [0..<length ovs]"
    by (rule nth_equalityI) (auto simp: nth_enumerate_eq)
  then show ?thesis by (simp add: cpp_candidates_enumerate filter_map comp_def)
qed

lemma resolve_cpp_candidates:
  fixes cases :: "'a signature list"
  assumes cc: "\<And>a b. cc a b = Inr (isc a b) \<and> isc a b \<noteq> Some NilConv"
    and len: "\<And>c. c \<in> set cases \<Longrightarrow> length (sig_args c) = length args"
  shows "rate_cases cc u e args cases =
    Inr (map (\<lambda>(r, i). (astuple r, cases ! i))
      (cpp_candidates isc u e args 0 (map sig_args cases)))"
proof -
  define rating_of where "rating_of c = cpp_rate isc u e (zip args (sig_args c)) new_rating"
    for c :: "'a signature"
  have "rate_arguments cc u e args (sig_args c) = Inr (rating_of c)" if "c \<in> set cases" for c
    using len[OF that] rate_loop_cpp[of "zip args (sig_args c)" cc isc u e new_rating] cc
    by (simp add: rate_arguments_def rating_of_def)
  from rate_cases_total[where rating_of = rating_of, OF this]
  have "rate_cases cc u e args cases = Inr (map (\<lambda>c. (astuple (the (rating_of c)), c))
      (filter (\<lambda>c. rating_of c \<noteq> None) (map (\<lambda>i. cases ! i) [0..<length cases])))"
    by (simp add: map_nth)
  also have "\<dots> = Inr (map (\<lambda>(r, i). (astuple r, cases ! i))
      (cpp_candidates isc u e args 0 (map sig_args cases)))"
  proof -
    have "filter (\<lambda>i. cpp_rate isc u e (zip args (map sig_args cases ! i)) new_rating \<noteq> None) [0..<length cases]
        = filter (\<lambda>i. rating_of (cases ! i) \<noteq> None) [0..<length cases]"
      by (rule filter_cong) (auto simp: rating_of_def)
    then show ?thesis
      by (simp add: cpp_candidates_indices filter_map comp_def rating_of_def)
  qed
  finally show ?thesis .
qed

section \<open>Properties\<close>

text \<open>
  C6. Overload resolution returns a case that accepts the arguments, whose rating is least
  in the order of (unsafe, safe, promotions) among all the cases that accept them, and
  which stands before every equally rated case; without ambiguity allowed it is the only
  such case.
\<close>

theorem resolve_overload_least:
  assumes "\<And>c. c \<in> set cases \<Longrightarrow> rate_arguments cc u e args (sig_args c) = Inr (rating_of c)"
    and "resolve_overload cc cases args [] allow_ambiguous u e = Inr (Some best)"
  shows "\<exists>i r. i < length cases \<and> cases ! i = best \<and> rating_of best = Some r \<and>
    (\<forall>j r'. j < length cases \<and> rating_of (cases ! j) = Some r' \<longrightarrow>
       astuple r \<le> astuple r' \<and> (r' = r \<longrightarrow> i \<le> j \<and> (allow_ambiguous \<or> i = j)))"
proof -
  let ?f = "\<lambda>i. (astuple (the (rating_of (cases ! i))), cases ! i)"
  let ?is = "filter (\<lambda>i. rating_of (cases ! i) \<noteq> None) [0..<length cases]"
  let ?key = "\<lambda>i. astuple (the (rating_of (cases ! i)))"
  have "rate_cases cc u e args cases = Inr (map (\<lambda>c. (astuple (the (rating_of c)), c))
      (filter (\<lambda>c. rating_of c \<noteq> None) (map (\<lambda>i. cases ! i) [0..<length cases])))"
    using rate_cases_total[where rating_of = rating_of, OF assms(1)] by (simp add: map_nth)
  then have "rate_cases cc u e args cases = Inr (map ?f ?is)"
    by (simp add: filter_map comp_def)
  from resolve_overload_least_by[OF this] assms(2)
  obtain i rest where i: "least_by ?key ?is = i # rest" "best = cases ! i"
    and amb: "allow_ambiguous \<or> rest = []"
    by (auto simp: least_by_map comp_def split: list.splits if_splits)
  have "i \<in> set (least_by ?key ?is)" unfolding i(1) by simp
  then have mem: "i \<in> set ?is" and least: "\<And>j. j \<in> set ?is \<Longrightarrow> ?key i \<le> ?key j"
    and filt: "filter (\<lambda>j. ?key j = ?key i) ?is = i # rest"
    using least_by_filter[of i ?key ?is] i(1) by (simp_all add: least_by_def)
  have "sorted (i # rest)" unfolding filt[symmetric] by (simp add: sorted_wrt_filter)
  then have first: "i \<le> j \<and> (allow_ambiguous \<or> i = j)" if "j \<in> set ?is" "?key j = ?key i" for j
  proof -
    have "j \<in> set (i # rest)" unfolding filt[symmetric] using that by simp
    with \<open>sorted (i # rest)\<close> amb show ?thesis by auto
  qed
  from mem obtain r where r: "i < length cases" "rating_of (cases ! i) = Some r" by auto
  have "astuple r \<le> astuple r' \<and> (r' = r \<longrightarrow> i \<le> j \<and> (allow_ambiguous \<or> i = j))"
    if "j < length cases \<and> rating_of (cases ! j) = Some r'" for j r'
    using least[of j] first[of j] that r by auto
  with r i(2) show ?thesis by metis
qed

definition small_cases :: "nat signature list" where
  "small_cases = [\<lparr>sig_args = [3, 3], sig_return = 0\<rparr>, \<lparr>sig_args = [2, 3], sig_return = 1\<rparr>]"

definition small_cc :: "nat \<Rightarrow> nat \<Rightarrow> conversion option res" where
  "small_cc a b = Inr (if a \<le> b then Some (if a = b then Exact else Promote) else None)"

definition small_rating :: "nat signature \<Rightarrow> rating option" where
  "small_rating c = Some \<lparr>promote = (if c = small_cases ! 0 then 2 else 1), safe_convert = 0,
     unsafe_convert = 0\<rparr>"

theorem resolve_overload_least_witness:
  "resolve_overload small_cc small_cases [2, 2] [] False True False = Inr (Some (small_cases ! 1)) \<and>
   (\<exists>i r. i < length small_cases \<and> small_cases ! i = small_cases ! 1 \<and>
      small_rating (small_cases ! 1) = Some r \<and>
      (\<forall>j r'. j < length small_cases \<and> small_rating (small_cases ! j) = Some r' \<longrightarrow>
         astuple r \<le> astuple r' \<and> (r' = r \<longrightarrow> i \<le> j \<and> (False \<or> i = j))))"
proof -
  have run: "resolve_overload small_cc small_cases [2, 2] [] False True False = Inr (Some (small_cases ! 1))"
    by code_simp
  have rates: "rate_arguments small_cc True False [2, 2] (sig_args c) = Inr (small_rating c)"
    if "c \<in> set small_cases" for c
    using that by (auto simp: small_cases_def small_rating_def small_cc_def rate_arguments_def
      new_rating_def less_eq_conversion_def)
  from resolve_overload_least[where rating_of = small_rating, OF rates run] run
  show ?thesis by (intro conjI)
qed

section \<open>Installing conversions\<close>

lemma tcc_find_set_compatible:
  "set_compatible h a b c tm = Inr tm' \<Longrightarrow>
    tcc_find h p tm' = (if p = (a, b) then Some c else tcc_find h p tm) \<and> c \<in> {Safe, Unsafe, Promote}"
  by (auto simp: set_compatible_def tcc.find_insert split: if_splits)

text \<open>
  Tables without the \<open>nil\<close> code; and a table that has only grown by what \<open>can_convert\<close>
  answered already.
\<close>

definition tcc_valid :: "('a typepair \<Rightarrow> nat) \<Rightarrow> 'a tccmap \<Rightarrow> bool" where
  "tcc_valid h tm \<longleftrightarrow> (\<forall>p. tcc_find h p tm \<noteq> Some NilConv)"

definition conversion_of ::
  "('a typepair \<Rightarrow> nat) \<Rightarrow> ('a \<Rightarrow> 'a \<Rightarrow> conversion option) \<Rightarrow> ('a \<Rightarrow> 'a \<Rightarrow> conversion option)
    \<Rightarrow> 'a tccmap \<Rightarrow> 'a \<Rightarrow> 'a \<Rightarrow> conversion option" where
  "conversion_of h to_rule from_rule tm a b =
     (case is_compatible h tm a b of
        Some c \<Rightarrow> Some c
      | None \<Rightarrow>
          (case (from_rule b a, to_rule a b) of
             (None, f) \<Rightarrow> f | (Some b, None) \<Rightarrow> Some b | (Some b, Some f) \<Rightarrow> Some (min f b)))"

definition installed ::
  "('a typepair \<Rightarrow> nat) \<Rightarrow> ('a \<Rightarrow> 'a \<Rightarrow> conversion option) \<Rightarrow> ('a \<Rightarrow> 'a \<Rightarrow> conversion option)
    \<Rightarrow> 'a tccmap \<Rightarrow> 'a tccmap \<Rightarrow> bool" where
  "installed h to_rule from_rule tm tm' \<longleftrightarrow> tcc_valid h tm' \<and>
     conversion_of h to_rule from_rule tm' = conversion_of h to_rule from_rule tm \<and>
     (\<forall>a b. is_compatible h tm a b \<noteq> None \<longrightarrow> is_compatible h tm' a b = is_compatible h tm a b)"

lemma can_convert_conversion_of:
  "tcc_valid h tm \<Longrightarrow> can_convert h to_rule from_rule tm a b = Inr (conversion_of h to_rule from_rule tm a b)"
  by (auto simp: can_convert_def conversion_of_def check_compatible_def is_compatible_def
      tcc_valid_def Let_def split: option.splits)

lemma check_compatible_valid:
  "tcc_valid h tm \<Longrightarrow> check_compatible h tm a b = Inr (is_compatible h tm a b)"
  by (auto simp: check_compatible_def is_compatible_def tcc_valid_def Let_def)

lemma installed_refl: "tcc_valid h tm \<Longrightarrow> installed h to_rule from_rule tm tm"
  by (simp add: installed_def)

lemma installed_trans:
  "installed h to_rule from_rule tm tm' \<Longrightarrow> installed h to_rule from_rule tm' tm''
    \<Longrightarrow> installed h to_rule from_rule tm tm''"
  by (auto simp: installed_def)

lemma installed_step:
  assumes "tcc_valid h tm" and "is_compatible h tm a b = None"
    and "conversion_of h to_rule from_rule tm a b = Some c"
    and "set_compatible h a b c tm = Inr tm'"
  shows "installed h to_rule from_rule tm tm'" and "is_compatible h tm' a b = Some c"
proof -
  have find: "tcc_find h p tm' = (if p = (a, b) then Some c else tcc_find h p tm)" for p
    using tcc_find_set_compatible[OF assms(4)] by blast
  have "a \<noteq> b" using assms(2) by (auto simp: is_compatible_def)
  then have isc: "is_compatible h tm' x y = (if (x, y) = (a, b) then Some c else is_compatible h tm x y)" for x y
    unfolding is_compatible_def find by (cases "x = y") auto
  have valid: "tcc_valid h tm'"
    using tcc_find_set_compatible[OF assms(4)] assms(1) by (auto simp: tcc_valid_def)
  have conv: "conversion_of h to_rule from_rule tm' x y = conversion_of h to_rule from_rule tm x y" for x y
  proof (cases "(x, y) = (a, b)")
    case True
    have "conversion_of h to_rule from_rule tm' a b = Some c"
      unfolding conversion_of_def isc by simp
    with True assms(3) show ?thesis by simp
  next
    case False
    then show ?thesis unfolding conversion_of_def isc by (simp only: if_False)
  qed
  have keep: "is_compatible h tm' x y = is_compatible h tm x y" if "is_compatible h tm x y \<noteq> None" for x y
    using that assms(2) isc[of x y] by (cases "(x, y) = (a, b)") simp_all
  have "conversion_of h to_rule from_rule tm' = conversion_of h to_rule from_rule tm"
    by (intro ext) (rule conv)
  with valid keep show "installed h to_rule from_rule tm tm'"
    unfolding installed_def by blast
  show "is_compatible h tm' a b = Some c" by (simp add: isc)
qed

lemma install_loop_installed:
  assumes "install_loop h to_rule from_rule ps tm = Inr (ok, tm')" and "tcc_valid h tm"
  shows "installed h to_rule from_rule tm tm' \<and>
    (ok \<longrightarrow> (\<forall>(a, b) \<in> set ps. is_compatible h tm' a b = conversion_of h to_rule from_rule tm a b)) \<and>
    (\<not> ok \<longrightarrow> (\<exists>(a, b) \<in> set ps. conversion_of h to_rule from_rule tm a b = None))"
  using assms
proof (induction ps arbitrary: tm)
  case Nil
  then show ?case by (auto simp: installed_refl)
next
  case (Cons p ps)
  obtain a b where p: "p = (a, b)" by (cases p)
  show ?case
  proof (cases "is_compatible h tm a b")
    case (Some c)
    then have "conversion_of h to_rule from_rule tm a b = Some c" by (simp add: conversion_of_def)
    with Cons p Some show ?thesis by (fastforce simp: check_compatible_valid installed_def)
  next
    case None
    note step = Cons.prems(1)[unfolded p] None check_compatible_valid[OF Cons.prems(2)]
      can_convert_conversion_of[OF Cons.prems(2)]
    show ?thesis
    proof (cases "conversion_of h to_rule from_rule tm a b")
      case None
      with step Cons.prems(2) p show ?thesis by (auto simp: installed_refl)
    next
      case (Some c)
      with step obtain tm1 where tm1: "set_compatible h a b c tm = Inr tm1"
        "install_loop h to_rule from_rule ps tm1 = Inr (ok, tm')"
        by (auto simp: res_simps split: if_splits)
      note first = installed_step[OF Cons.prems(2) \<open>is_compatible h tm a b = None\<close> Some tm1(1)]
      with Cons.IH[OF tm1(2)] have
        IH: "installed h to_rule from_rule tm1 tm'"
          "ok \<longrightarrow> (\<forall>(a, b) \<in> set ps. is_compatible h tm' a b = conversion_of h to_rule from_rule tm a b)"
          "\<not> ok \<longrightarrow> (\<exists>(a, b) \<in> set ps. conversion_of h to_rule from_rule tm a b = None)"
        by (auto simp: installed_def)
      have "is_compatible h tm' a b = conversion_of h to_rule from_rule tm a b"
        using IH(1) first(2) Some by (simp add: installed_def)
      with IH first(1) p show ?thesis by (auto intro: installed_trans)
    qed
  qed
qed

text \<open>
  After the search every signature is settled: each of its conversions is in the table, or
  some argument has no conversion at all.
\<close>

definition settled ::
  "('a typepair \<Rightarrow> nat) \<Rightarrow> ('a \<Rightarrow> 'a \<Rightarrow> conversion option) \<Rightarrow> 'a tccmap \<Rightarrow> 'a list \<Rightarrow> 'a list \<Rightarrow> bool" where
  "settled h conv tm' args sig \<longleftrightarrow>
     (\<forall>(a, b) \<in> set (zip args sig). is_compatible h tm' a b = conv a b) \<or>
     (\<exists>(a, b) \<in> set (zip args sig). conv a b = None)"

lemma is_compatible_conversion_of:
  "is_compatible h tm a b \<in> {None, conversion_of h to_rule from_rule tm a b}"
  by (auto simp: conversion_of_def split: option.splits)

lemma settled_installed:
  assumes "settled h (conversion_of h to_rule from_rule tm) tm' args sig"
    and "installed h to_rule from_rule tm tm'" and "installed h to_rule from_rule tm' tm''"
  shows "settled h (conversion_of h to_rule from_rule tm) tm'' args sig"
proof -
  have "is_compatible h tm'' a b = conversion_of h to_rule from_rule tm a b"
    if "is_compatible h tm' a b = conversion_of h to_rule from_rule tm a b"
      "conversion_of h to_rule from_rule tm a b \<noteq> None" for a b
    using that assms(3) by (auto simp: installed_def)
  with assms(1) show ?thesis unfolding settled_def by fastforce
qed

lemma search_settled:
  assumes "search_new_conversions h to_rule from_rule args sigs found tm = Inr (found', tm')"
    and "tcc_valid h tm" and "\<forall>sig \<in> set sigs. length sig = length args"
  shows "installed h to_rule from_rule tm tm' \<and>
    (\<forall>sig \<in> set sigs. settled h (conversion_of h to_rule from_rule tm) tm' args sig)"
  using assms
proof (induction sigs arbitrary: found tm)
  case Nil
  then show ?case by (auto simp: installed_refl)
next
  case (Cons sig sigs)
  then obtain conv tm1 where
    step: "install_loop h to_rule from_rule (zip args sig) tm = Inr (conv, tm1)"
    and rest: "search_new_conversions h to_rule from_rule args sigs (if conv then True else found) tm1
       = Inr (found', tm')"
    by (auto simp: res_simps install_possible_conversions_def split: prod.splits)
  note first = install_loop_installed[OF step Cons.prems(2)]
  then have s1: "installed h to_rule from_rule tm tm1"
    "settled h (conversion_of h to_rule from_rule tm) tm1 args sig"
    by (auto simp: settled_def)
  then have "tcc_valid h tm1" and same: "conversion_of h to_rule from_rule tm1 = conversion_of h to_rule from_rule tm"
    by (auto simp: installed_def)
  with Cons.IH[OF rest] Cons.prems(3) have
    s2: "installed h to_rule from_rule tm1 tm'"
      "\<forall>sig \<in> set sigs. settled h (conversion_of h to_rule from_rule tm) tm' args sig"
    by auto
  with s1 show ?case by (auto intro: installed_trans settled_installed)
qed

lemma cpp_rate_None: "(a, b) \<in> set ps \<Longrightarrow> isc a b = None \<Longrightarrow> cpp_rate isc u e ps rate = None"
proof (induction ps arbitrary: rate)
  case (Cons p ps)
  then show ?case by (cases p) (auto simp: Let_def)
qed simp

lemma cpp_rate_cong:
  "(\<And>a b. (a, b) \<in> set ps \<Longrightarrow> isc a b = isc' a b) \<Longrightarrow> cpp_rate isc u e ps rate = cpp_rate isc' u e ps rate"
  by (induction ps arbitrary: rate) (auto simp: Let_def)

lemma cpp_rate_settled:
  assumes "settled h (conversion_of h to_rule from_rule tm) tm' args sig"
    and "installed h to_rule from_rule tm tm'"
  shows "cpp_rate (is_compatible h tm') u e (zip args sig) rate =
    cpp_rate (conversion_of h to_rule from_rule tm) u e (zip args sig) rate"
proof -
  have "is_compatible h tm' a b = None" if "conversion_of h to_rule from_rule tm a b = None" for a b
    using that assms(2) is_compatible_conversion_of[of h tm' a b to_rule from_rule]
    by (auto simp: installed_def)
  with assms(1) consider
      "\<forall>(a, b) \<in> set (zip args sig). is_compatible h tm' a b = conversion_of h to_rule from_rule tm a b"
    | a b where "(a, b) \<in> set (zip args sig)" "conversion_of h to_rule from_rule tm a b = None"
        "is_compatible h tm' a b = None"
    unfolding settled_def by blast
  then show ?thesis
  proof cases
    case 1
    then show ?thesis by (intro cpp_rate_cong) auto
  next
    case 2
    then show ?thesis by (simp add: cpp_rate_None)
  qed
qed

lemma cpp_candidates_cong:
  "(\<And>sig rate. sig \<in> set ovs \<Longrightarrow> cpp_rate isc u e (zip args sig) rate = cpp_rate isc' u e (zip args sig) rate)
    \<Longrightarrow> cpp_candidates isc u e args i ovs = cpp_candidates isc' u e args i ovs"
proof (induction ovs arbitrary: i)
  case (Cons sig ovs)
  have "cpp_candidates isc u e args j ovs = cpp_candidates isc' u e args j ovs" for j
    using Cons by simp
  with Cons.prems show ?case by (simp split: option.split)
qed simp

text \<open>
  C7. Once the dispatcher's search has installed the conversions of the compiled
  signatures, the native selector makes the choice of the Python one, which still asked
  the type-specific rules: the same case, no match in the same calls, and an ambiguity
  exactly where Python raises \<open>TypeError\<close>.
\<close>

theorem selector_equivalence:
  assumes "tcc_valid h tm"
    and "\<And>a b. to_rule a b \<noteq> Some NilConv" and "\<And>a b. from_rule a b \<noteq> Some NilConv"
    and "\<forall>c \<in> set cases. length (sig_args c) = length args"
    and "search_new_conversions h to_rule from_rule args (map sig_args cases) False tm = Inr (found, tm')"
  shows "resolve_overload (can_convert h to_rule from_rule tm) cases args [] False u e =
    (case cpp_select_overload (is_compatible h tm') args (map sig_args cases) u e of
       (n, None) \<Rightarrow> Inr None
     | (n, Some i) \<Rightarrow> if n > 1 then Inl TypeError else Inr (Some (cases ! i)))"
proof -
  let ?conv = "conversion_of h to_rule from_rule tm"
  have "?conv a b \<noteq> Some NilConv" for a b
    using assms(1-3) by (auto simp: conversion_of_def is_compatible_def tcc_valid_def min_def
      split: option.splits)
  then have cc: "can_convert h to_rule from_rule tm a b = Inr (?conv a b) \<and> ?conv a b \<noteq> Some NilConv" for a b
    by (simp add: can_convert_conversion_of[OF assms(1)])
  let ?cands = "cpp_candidates (is_compatible h tm') u e args 0 (map sig_args cases)"
  have "installed h to_rule from_rule tm tm'" "\<forall>sig \<in> set (map sig_args cases). settled h ?conv tm' args sig"
    using search_settled[OF assms(5,1)] assms(4) by auto
  then have "?cands = cpp_candidates ?conv u e args 0 (map sig_args cases)"
    by (intro cpp_candidates_cong cpp_rate_settled) auto
  then have "rate_cases (can_convert h to_rule from_rule tm) u e args cases =
      Inr (map (\<lambda>(r, i). (astuple r, cases ! i)) ?cands)"
    using resolve_cpp_candidates[of "can_convert h to_rule from_rule tm" ?conv cases args u e] cc assms(4)
    by simp
  from resolve_overload_least_by[OF this] show ?thesis
    by (simp add: cpp_select_least least_by_map comp_def split_def split: list.splits)
qed

text \<open>A manager that promotes code 1 to code 2, type-specific rules that let code 1 go to 3.\<close>

definition small_hash :: "nat typepair \<Rightarrow> nat" where
  "small_hash = (\<lambda>(a, b). 31 * a + b)"

definition small_tm :: "nat tccmap" where
  "small_tm = tcc_insert small_hash (1, 2) Promote tcc_empty"

definition small_to_rule :: "nat \<Rightarrow> nat \<Rightarrow> conversion option" where
  "small_to_rule a b = (if a = 1 \<and> b = 3 then Some Safe else None)"

definition small_sigs :: "nat signature list" where
  "small_sigs = [\<lparr>sig_args = [3], sig_return = 0\<rparr>, \<lparr>sig_args = [2], sig_return = 1\<rparr>,
     \<lparr>sig_args = [4], sig_return = 2\<rparr>]"

definition small_tm' :: "nat tccmap" where
  "small_tm' = tcc_insert small_hash (1, 3) Safe small_tm"

lemma small_tm_valid: "tcc_valid small_hash small_tm"
  by (simp add: tcc_valid_def small_tm_def)

lemma small_search:
  "search_new_conversions small_hash small_to_rule (\<lambda>a b. None) [1] (map sig_args small_sigs) False small_tm
     = Inr (True, small_tm')"
  by (simp add: small_sigs_def install_possible_conversions_def small_tm_def small_tm'_def
      check_compatible_def is_compatible_def can_convert_def small_to_rule_def set_compatible_def
      Let_def tcc.find_insert)

theorem selector_equivalence_witness:
  "resolve_overload (can_convert small_hash small_to_rule (\<lambda>a b. None) small_tm) small_sigs [1] []
      False True False
    = (case cpp_select_overload (is_compatible small_hash small_tm') [1] (map sig_args small_sigs)
         True False of
         (n, None) \<Rightarrow> Inr None
       | (n, Some i) \<Rightarrow> if n > 1 then Inl TypeError else Inr (Some (small_sigs ! i)))"
  by (rule selector_equivalence[OF small_tm_valid _ _ _ small_search])
     (auto simp: small_to_rule_def small_sigs_def)

section \<open>Unification\<close>

definition unifies_to ::
  "('a \<Rightarrow> 'a \<Rightarrow> conversion option) \<Rightarrow> 'a \<Rightarrow> 'a \<Rightarrow> 'a \<Rightarrow> 'a \<Rightarrow> bool" where
  "unifies_to conv undef a b t \<longleftrightarrow> t \<in> {a, b} \<and>
     (\<forall>x \<in> {a, b}. x = t \<or> x = undef \<or> (\<exists>c. conv x t = Some c \<and> c \<le> Safe))"

lemma unify_pairs_unifies:
  assumes "\<And>a b. cc a b = Inr (conv a b)" and "\<And>a b. unify a b = None"
    and "unify_pairs cc unify undef is_literal unliteral n a b = Inr (Some t)"
  shows "\<exists>i < n. unifies_to conv undef ((unliteral ^^ i) a) ((unliteral ^^ i) b) t"
  using assms(3)
proof (induction n arbitrary: a b)
  case 0
  then show ?case by simp
next
  case (Suc n)
  have later: "\<exists>i < Suc n. unifies_to conv undef ((unliteral ^^ i) a) ((unliteral ^^ i) b) t"
    if "unify_pairs cc unify undef is_literal unliteral n (unliteral a) (unliteral b) = Inr (Some t)"
  proof -
    from Suc.IH[OF that] obtain i where "i < n"
      "unifies_to conv undef ((unliteral ^^ i) (unliteral a)) ((unliteral ^^ i) (unliteral b)) t" by blast
    then show ?thesis by (intro exI[of _ "Suc i"]) (simp add: funpow_swap1)
  qed
  have now: "\<exists>i < Suc n. unifies_to conv undef ((unliteral ^^ i) a) ((unliteral ^^ i) b) t"
    if "unifies_to conv undef a b t"
    using that by (intro exI[of _ 0]) simp
  show ?case
  proof (cases "unifies_to conv undef a b t")
    case True
    then show ?thesis by (rule now)
  next
    case False
    have eqs: "cc = (\<lambda>a b. Inr (conv a b))" "unify = (\<lambda>a b. None)"
      by (intro ext assms)+
    from False Suc.prems have
      "unify_pairs cc unify undef is_literal unliteral n (unliteral a) (unliteral b) = Inr (Some t)"
      by (auto simp: eqs unifies_to_def split: if_splits option.splits)
    then show ?thesis by (rule later)
  qed
qed

lemma unify_pairs_returns:
  assumes "\<And>a b. cc a b = Inr (conv a b)" and "\<And>x. \<not> is_literal (unliteral x)"
  shows "\<exists>r. unify_pairs cc unify undef is_literal unliteral (Suc (Suc n)) a b = Inr r"
proof -
  have "\<exists>r. unify_pairs cc unify undef is_literal unliteral (Suc n) (unliteral a) (unliteral b) = Inr r"
    for n a b by (auto simp: assms split: option.splits)
  from this[of n a b] show ?thesis by (auto simp: assms(1) split: option.splits)
qed

text \<open>
  C8. Unifying two types without special rules returns within two nested calls, and a type
  it finds is one of the two (literals taken off as often as it recursed) to which both of
  them convert no worse than safely.
\<close>

theorem unify_pairs_sound:
  assumes "\<And>a b. cc a b = Inr (conv a b)" and "\<And>a b. unify a b = None"
    and "\<And>x. \<not> is_literal (unliteral x)" and "2 \<le> n"
  shows "\<exists>r. unify_pairs cc unify undef is_literal unliteral n a b = Inr r \<and>
    (\<forall>t. r = Some t \<longrightarrow>
       (\<exists>i < n. unifies_to conv undef ((unliteral ^^ i) a) ((unliteral ^^ i) b) t))"
proof -
  from assms(4) obtain m where "n = Suc (Suc m)" by (metis Suc_le_D numeral_2_eq_2 Suc_le_mono)
  with unify_pairs_returns[of cc conv is_literal unliteral unify undef m a b, OF assms(1,3)]
  obtain r where "unify_pairs cc unify undef is_literal unliteral n a b = Inr r" by auto
  with unify_pairs_unifies[of cc conv unify undef is_literal unliteral n a b, OF assms(1,2)] show ?thesis
    by auto
qed

theorem unify_pairs_sound_witness:
  "\<exists>r. unify_pairs small_cc (\<lambda>a b. None) 0 (\<lambda>x. 10 \<le> x) (\<lambda>x. x mod 10) 2 13 5 = Inr r \<and>
    (\<forall>t. r = Some t \<longrightarrow>
       (\<exists>i < 2. unifies_to (\<lambda>a b. if a \<le> b then Some (if a = b then Exact else Promote) else None) 0
          (((\<lambda>x. x mod 10) ^^ i) 13) (((\<lambda>x. x mod 10) ^^ i) 5) t))"
  by (rule unify_pairs_sound) (auto simp: small_cc_def not_le)

end
