(* ===== verification/Worklist.thy ===== *)
theory Worklist
  imports Prelude "HOL-Library.While_Combinator"
begin

text \<open>
  The two graph traversals that the control flow code is built on. Both run a \<open>while\<close> loop
  over an explicit stack, with \<open>while_option\<close>: \<open>None\<close> would be a loop that never ends.

  \<^item> \<open>dfs\<close> visits a node when it is popped for the first time, as the \<open>_dfs\<close> generator
    and the loop body search of \<open>numba_cuda/core/controlflow.py\<close> do.
  \<^item> \<open>postorder\<close> runs the stack of callbacks of \<open>_immediate_dominators\<close> and
    \<open>_find_topo_order\<close>: a visit pushes the node's own append callback, then its successors.

  A stack is a list with its top first, so \<open>extend\<close> pushes the reversed list. The graphs are
  functions to successor lists that stay inside a finite set of nodes.
\<close>

section \<open>Edges and reachability\<close>

definition arcs :: "('n \<Rightarrow> 'n list) \<Rightarrow> ('n \<times> 'n) set" where
  "arcs nxt = {(a, b). b \<in> set (nxt a)}"

definition reachable :: "('n \<Rightarrow> 'n list) \<Rightarrow> 'n list \<Rightarrow> 'n set" where
  "reachable nxt roots = (arcs nxt)\<^sup>* `` set roots"

definition stays_in :: "('n \<Rightarrow> 'n list) \<Rightarrow> 'n list \<Rightarrow> bool" where
  "stays_in nxt ns \<longleftrightarrow> (\<forall>n \<in> set ns. set (nxt n) \<subseteq> set ns)"

lemma arcs_iff [simp]: "(a, b) \<in> arcs nxt \<longleftrightarrow> b \<in> set (nxt a)"
  by (simp add: arcs_def)

lemma reachable_root [intro]: "r \<in> set roots \<Longrightarrow> r \<in> reachable nxt roots"
  by (auto simp: reachable_def)

lemma reachable_step: "a \<in> reachable nxt roots \<Longrightarrow> b \<in> set (nxt a) \<Longrightarrow> b \<in> reachable nxt roots"
proof -
  assume "a \<in> reachable nxt roots" "b \<in> set (nxt a)"
  then obtain r where "r \<in> set roots" "(r, a) \<in> (arcs nxt)\<^sup>*" "(a, b) \<in> arcs nxt"
    by (auto simp: reachable_def)
  then have "(r, b) \<in> (arcs nxt)\<^sup>*" by (rule_tac rtrancl.rtrancl_into_rtrancl)
  with \<open>r \<in> set roots\<close> show ?thesis unfolding reachable_def by (rule ImageI[rotated])
qed

lemma reachable_rtrancl:
  "a \<in> reachable nxt roots \<Longrightarrow> (a, b) \<in> (arcs nxt)\<^sup>* \<Longrightarrow> b \<in> reachable nxt roots"
  unfolding reachable_def by (blast intro: rtrancl_trans)

lemma reachable_least:
  assumes "set roots \<subseteq> S" and "\<And>a. a \<in> S \<Longrightarrow> set (nxt a) \<subseteq> S"
  shows "reachable nxt roots \<subseteq> S"
proof
  fix x assume "x \<in> reachable nxt roots"
  then obtain r where "r \<in> set roots" "(r, x) \<in> (arcs nxt)\<^sup>*" by (auto simp: reachable_def)
  from this(2,1) show "x \<in> S"
    by (induction rule: rtrancl_induct) (use assms in auto)
qed

lemma reachable_induct [consumes 1, case_names root step]:
  assumes "x \<in> reachable nxt roots"
    and "\<And>r. r \<in> set roots \<Longrightarrow> P r"
    and "\<And>a b. a \<in> reachable nxt roots \<Longrightarrow> P a \<Longrightarrow> b \<in> set (nxt a) \<Longrightarrow> P b"
  shows "P x"
proof -
  have "reachable nxt roots \<subseteq> {x \<in> reachable nxt roots. P x}"
    using assms(2,3) by (intro reachable_least) (auto intro: reachable_step)
  with assms(1) show ?thesis by auto
qed

lemma reachable_in: "stays_in nxt ns \<Longrightarrow> set roots \<subseteq> set ns \<Longrightarrow> reachable nxt roots \<subseteq> set ns"
  by (rule reachable_least) (auto simp: stays_in_def)

section \<open>Depth-first search\<close>

definition dfs_step :: "('n \<Rightarrow> 'n list) \<Rightarrow> 'n list \<times> 'n list \<Rightarrow> 'n list \<times> 'n list" where
  "dfs_step nxt = (\<lambda>(seen, stack).
     case stack of
       [] \<Rightarrow> (seen, stack)
     | node # rest \<Rightarrow>
         if node \<in> set seen then (seen, rest)
         else (seen @ [node], rev (nxt node) @ rest))"

text \<open>The nodes in the order of their visit, from a stack and some nodes seen before.\<close>

definition dfs :: "('n \<Rightarrow> 'n list) \<Rightarrow> 'n list \<Rightarrow> 'n list \<Rightarrow> 'n list option" where
  "dfs nxt seen entries =
     map_option fst (while_option (\<lambda>(seen, stack). stack \<noteq> []) (dfs_step nxt) (seen, rev entries))"

text \<open>
  What is seen or still on the stack: everything reached so far, and every successor of a
  node visited here.
\<close>

definition dfs_inv ::
  "('n \<Rightarrow> 'n list) \<Rightarrow> 'n list \<Rightarrow> 'n list \<Rightarrow> 'n list \<times> 'n list \<Rightarrow> bool" where
  "dfs_inv nxt seen0 entries = (\<lambda>(seen, stack).
     (\<exists>new. seen = seen0 @ new \<and> (distinct seen0 \<longrightarrow> distinct seen) \<and>
       (\<forall>n \<in> set new. set (nxt n) \<subseteq> set seen \<union> set stack)) \<and>
     set entries \<subseteq> set seen \<union> set stack \<and>
     set seen \<union> set stack \<subseteq> set seen0 \<union> reachable (\<lambda>n. if n \<in> set seen0 then [] else nxt n) entries)"

lemma dfs_step_inv:
  assumes "dfs_inv nxt seen0 entries s" and "snd s \<noteq> []"
  shows "dfs_inv nxt seen0 entries (dfs_step nxt s)"
proof -
  let ?R = "reachable (\<lambda>n. if n \<in> set seen0 then [] else nxt n) entries"
  obtain seen node rest where s: "s = (seen, node # rest)"
    using assms(2) by (cases s; cases "snd s") auto
  from assms(1)[unfolded s dfs_inv_def] obtain new where
    new: "seen = seen0 @ new" "distinct seen0 \<longrightarrow> distinct seen"
      "\<forall>n \<in> set new. set (nxt n) \<subseteq> set seen \<union> set (node # rest)"
    and entries: "set entries \<subseteq> set seen \<union> set (node # rest)"
    and sub: "set seen \<union> set (node # rest) \<subseteq> set seen0 \<union> ?R" by auto
  show ?thesis
  proof (cases "node \<in> set seen")
    case True
    with new entries sub show ?thesis
      by (auto simp: s dfs_step_def dfs_inv_def)
  next
    case False
    then have "node \<in> ?R" "node \<notin> set seen0" using sub new(1) by auto
    then have "set (nxt node) \<subseteq> ?R"
      using reachable_step[of node "\<lambda>n. if n \<in> set seen0 then [] else nxt n" entries] by auto
    with False new entries sub show ?thesis
      by (auto simp: s dfs_step_def dfs_inv_def intro!: exI[of _ "new @ [node]"])
  qed
qed

lemma dfs_inv_init: "dfs_inv nxt seen0 entries (seen0, rev entries)"
  by (auto simp: dfs_inv_def)

text \<open>Every step visits a node of the finite graph or shortens the stack.\<close>

lemma dfs_returns:
  assumes "stays_in nxt ns" and "set entries \<subseteq> set ns"
  shows "\<exists>seen. dfs nxt seen0 entries = Some seen"
proof -
  let ?P = "\<lambda>s :: 'a list \<times> 'a list. set (snd s) \<subseteq> set ns"
  let ?f = "\<lambda>s :: 'a list \<times> 'a list. (card (set ns - set (fst s)), length (snd s))"
  have "\<exists>t. while_option (\<lambda>(seen, stack). stack \<noteq> []) (dfs_step nxt) (seen0, rev entries) = Some t"
  proof (rule wf_rel_while_option_Some[where P = ?P and R = "inv_image (less_than <*lex*> less_than) ?f"])
    show "wf (inv_image (less_than <*lex*> less_than) ?f)" by auto
    show "?P (seen0, rev entries)" using assms(2) by simp
    fix s assume "?P s \<and> (\<lambda>(seen, stack). stack \<noteq> []) s"
    then obtain seen node rest where s: "s = (seen, node # rest)" "set (node # rest) \<subseteq> set ns"
      by (cases s; cases "snd s") auto
    show "?P (dfs_step nxt s)"
      using s assms(1) by (auto simp: dfs_step_def stays_in_def)
    show "(dfs_step nxt s, s) \<in> inv_image (less_than <*lex*> less_than) ?f"
    proof (cases "node \<in> set seen")
      case False
      with s have "card (set ns - insert node (set seen)) < card (set ns - set seen)"
        by (intro psubset_card_mono) auto
      with False s show ?thesis by (auto simp: dfs_step_def)
    qed (use s in \<open>auto simp: dfs_step_def\<close>)
  qed
  then show ?thesis by (auto simp: dfs_def)
qed

lemma dfs_result:
  assumes "dfs nxt seen0 entries = Some seen"
  shows "set seen = set seen0 \<union> reachable (\<lambda>n. if n \<in> set seen0 then [] else nxt n) entries"
    and "distinct seen0 \<Longrightarrow> distinct seen"
proof -
  let ?nxt = "\<lambda>n. if n \<in> set seen0 then [] else nxt n"
  from assms obtain stack where
    run: "while_option (\<lambda>(seen, stack). stack \<noteq> []) (dfs_step nxt) (seen0, rev entries) = Some (seen, stack)"
    by (auto simp: dfs_def)
  then have "stack = []" by (auto dest: while_option_stop)
  have "dfs_inv nxt seen0 entries (seen, stack)"
    by (rule while_option_rule[where P = "dfs_inv nxt seen0 entries", OF _ run dfs_inv_init])
       (auto intro: dfs_step_inv)
  with \<open>stack = []\<close> obtain new where
    new: "seen = seen0 @ new" "distinct seen0 \<longrightarrow> distinct seen"
      "\<forall>n \<in> set new. set (nxt n) \<subseteq> set seen"
    and ends: "set entries \<subseteq> set seen" "set seen \<subseteq> set seen0 \<union> reachable ?nxt entries"
    by (auto simp: dfs_inv_def)
  have "reachable ?nxt entries \<subseteq> set seen"
    using ends(1) new by (intro reachable_least) auto
  with ends(2) new(1) show "set seen = set seen0 \<union> reachable ?nxt entries" by auto
  show "distinct seen0 \<Longrightarrow> distinct seen" using new(2) by simp
qed

lemma dfs_reachable:
  assumes "stays_in nxt ns" and "set entries \<subseteq> set ns"
  obtains seen where "dfs nxt [] entries = Some seen" and "set seen = reachable nxt entries"
    and "distinct seen"
  using dfs_returns[OF assms, of "[]"] dfs_result[of nxt "[]" entries] by auto

section \<open>Postorder\<close>

datatype 'n task = Visit 'n | Emit 'n

fun task_node :: "'n task \<Rightarrow> 'n" where
  "task_node (Visit n) = n"
| "task_node (Emit n) = n"

definition po_step ::
  "('n \<Rightarrow> 'n list) \<Rightarrow> 'n list \<times> 'n list \<times> 'n task list \<Rightarrow> 'n list \<times> 'n list \<times> 'n task list" where
  "po_step nxt = (\<lambda>(order, seen, stack).
     case stack of
       [] \<Rightarrow> (order, seen, stack)
     | Emit node # rest \<Rightarrow> (order @ [node], seen, rest)
     | Visit node # rest \<Rightarrow>
         if node \<in> set seen then (order, seen, rest)
         else (order, seen @ [node], rev (map Visit (nxt node)) @ Emit node # rest))"

definition postorder :: "('n \<Rightarrow> 'n list) \<Rightarrow> 'n list \<Rightarrow> 'n list option" where
  "postorder nxt roots =
     map_option fst (while_option (\<lambda>(order, seen, stack). stack \<noteq> []) (po_step nxt)
       ([], [], rev (map Visit roots)))"

fun emits :: "'n task list \<Rightarrow> 'n list" where
  "emits [] = []"
| "emits (Visit n # ts) = emits ts"
| "emits (Emit n # ts) = n # emits ts"

lemma emits_append [simp]: "emits (xs @ ys) = emits xs @ emits ys"
  by (induction xs rule: emits.induct) auto

lemma emits_visits [simp]: "emits (map Visit ns) = []" "emits (rev (map Visit ns)) = []"
proof -
  show "emits (map Visit ns) = []" for ns :: "'n list" by (induction ns) auto
  from this[of "rev ns"] show "emits (rev (map Visit ns)) = []" by (simp add: rev_map)
qed

lemma set_emits: "n \<in> set (emits ts) \<longleftrightarrow> Emit n \<in> set ts"
  by (induction ts rule: emits.induct) auto

text \<open>
  The successors of a node that waits to be emitted are seen or wait above it on the stack;
  everything above it is a proper descendant of it; every task but the roots' has a parent
  waiting below it.
\<close>

fun po_cover :: "('n \<Rightarrow> 'n list) \<Rightarrow> 'n set \<Rightarrow> 'n task list \<Rightarrow> bool" where
  "po_cover nxt A [] \<longleftrightarrow> True"
| "po_cover nxt A (Visit n # ts) \<longleftrightarrow> po_cover nxt (insert n A) ts"
| "po_cover nxt A (Emit n # ts) \<longleftrightarrow> set (nxt n) \<subseteq> A \<and> po_cover nxt A ts"

fun po_below :: "('n \<Rightarrow> 'n list) \<Rightarrow> 'n task \<Rightarrow> 'n task \<Rightarrow> bool" where
  "po_below nxt t (Visit n) \<longleftrightarrow> True"
| "po_below nxt t (Emit n) \<longleftrightarrow> (n, task_node t) \<in> (arcs nxt)\<^sup>+"

fun po_parents :: "('n \<Rightarrow> 'n list) \<Rightarrow> 'n list \<Rightarrow> 'n task list \<Rightarrow> bool" where
  "po_parents nxt roots [] \<longleftrightarrow> True"
| "po_parents nxt roots (t # ts) \<longleftrightarrow>
     (task_node t \<in> set roots \<or> (\<exists>m. task_node t \<in> set (nxt m) \<and> Emit m \<in> set ts)) \<and>
     po_parents nxt roots ts"

lemma po_cover_mono: "po_cover nxt A ts \<Longrightarrow> A \<subseteq> B \<Longrightarrow> po_cover nxt B ts"
  by (induction nxt A ts arbitrary: B rule: po_cover.induct) (auto dest: insert_mono)

lemma po_cover_visits: "po_cover nxt A (rev (map Visit ns) @ ts) = po_cover nxt (A \<union> set ns) ts"
proof -
  have "po_cover nxt A (map Visit ns @ ts) = po_cover nxt (A \<union> set ns) ts" for A ns
    by (induction ns arbitrary: A) auto
  from this[of A "rev ns"] show ?thesis by (simp add: rev_map)
qed

lemma po_parents_append:
  "po_parents nxt roots ts \<Longrightarrow> \<forall>t \<in> set us. \<exists>m. task_node t \<in> set (nxt m) \<and> Emit m \<in> set ts
    \<Longrightarrow> po_parents nxt roots (us @ ts)"
  by (induction us) auto

lemma snoc_split:
  "order @ [n] = xs @ m # ys \<longleftrightarrow>
     (ys = [] \<and> xs = order \<and> m = n) \<or> (\<exists>ys'. ys = ys' @ [n] \<and> order = xs @ m # ys')"
  by (cases ys rule: rev_cases) auto

definition po_sorted :: "('n \<Rightarrow> 'n list) \<Rightarrow> 'n list \<Rightarrow> bool" where
  "po_sorted nxt order \<longleftrightarrow>
     (\<forall>xs n ys. order = xs @ n # ys \<longrightarrow> (\<forall>d \<in> set (nxt n). d \<in> set xs \<or> (d, n) \<in> (arcs nxt)\<^sup>+))"

definition po_has_parents :: "('n \<Rightarrow> 'n list) \<Rightarrow> 'n list \<Rightarrow> 'n list \<Rightarrow> 'n task list \<Rightarrow> bool" where
  "po_has_parents nxt roots order stack \<longleftrightarrow>
     (\<forall>xs n ys. order = xs @ n # ys \<longrightarrow>
        n \<in> set roots \<or> (\<exists>m. n \<in> set (nxt m) \<and> (m \<in> set ys \<or> Emit m \<in> set stack)))"

lemma po_has_parents_mono:
  "po_has_parents nxt roots order st \<Longrightarrow> (\<And>m. Emit m \<in> set st \<Longrightarrow> Emit m \<in> set st')
    \<Longrightarrow> po_has_parents nxt roots order st'"
  unfolding po_has_parents_def by blast

definition po_inv :: "('n \<Rightarrow> 'n list) \<Rightarrow> 'n list \<Rightarrow> 'n list \<times> 'n list \<times> 'n task list \<Rightarrow> bool" where
  "po_inv nxt roots = (\<lambda>(order, seen, stack).
     distinct (order @ emits stack) \<and> (\<forall>n. n \<in> set seen \<longleftrightarrow> n \<in> set order \<or> Emit n \<in> set stack) \<and>
     set roots \<subseteq> set seen \<union> task_node ` set stack \<and>
     (\<forall>n \<in> set order. set (nxt n) \<subseteq> set seen) \<and>
     set seen \<union> task_node ` set stack \<subseteq> reachable nxt roots \<and>
     po_cover nxt (set seen) stack \<and> sorted_wrt (po_below nxt) stack \<and>
     po_parents nxt roots stack \<and> po_sorted nxt order \<and> po_has_parents nxt roots order stack)"

lemma po_inv_init: "po_inv nxt roots ([], [], rev (map Visit roots))"
proof -
  have "sorted_wrt (po_below nxt) (map Visit ns)" for ns by (induction ns) auto
  from this[of "rev roots"] have "sorted_wrt (po_below nxt) (rev (map Visit roots))" by (simp add: rev_map)
  moreover have "po_parents nxt roots (map Visit ns)" if "set ns \<subseteq> set roots" for ns
    using that by (induction ns) auto
  from this[of "rev roots"] have "po_parents nxt roots (rev (map Visit roots))" by (simp add: rev_map)
  moreover have "po_cover nxt {} (rev (map Visit roots))"
    using po_cover_visits[of nxt "{}" roots "[]"] by simp
  ultimately show ?thesis
    by (auto simp: po_inv_def po_sorted_def po_has_parents_def image_image)
qed

lemma po_emit_inv:
  assumes "po_inv nxt roots (order, seen, Emit n # rest)"
  shows "po_inv nxt roots (order @ [n], seen, rest)"
proof -
  from assms have inv:
    "distinct (order @ n # emits rest)"
    "\<forall>m. m \<in> set seen \<longleftrightarrow> m \<in> set order \<or> m = n \<or> Emit m \<in> set rest"
    "set (nxt n) \<subseteq> set seen" "\<forall>t \<in> set rest. po_below nxt (Emit n) t"
    "po_sorted nxt order" "po_has_parents nxt roots order (Emit n # rest)"
    "n \<in> set roots \<or> (\<exists>m. n \<in> set (nxt m) \<and> Emit m \<in> set rest)"
    by (auto simp: po_inv_def)
  have "d \<in> set order \<or> (d, n) \<in> (arcs nxt)\<^sup>+" if "d \<in> set (nxt n)" for d
  proof -
    from that inv(2,3) consider "d \<in> set order" | "d = n" | "Emit d \<in> set rest"
      by blast
    then show ?thesis
    proof cases
      case 2
      with that show ?thesis by (auto intro!: trancl.r_into_trancl)
    next
      case 3
      with inv(4) show ?thesis by fastforce
    qed simp
  qed
  then have "po_sorted nxt (order @ [n])"
    using inv(5) by (auto simp: po_sorted_def snoc_split)
  moreover have "po_has_parents nxt roots (order @ [n]) rest"
    unfolding po_has_parents_def snoc_split
  proof (intro allI impI)
    fix xs m ys assume "ys = [] \<and> xs = order \<and> m = n \<or> (\<exists>ys'. ys = ys' @ [n] \<and> order = xs @ m # ys')"
    then show "m \<in> set roots \<or> (\<exists>k. m \<in> set (nxt k) \<and> (k \<in> set ys \<or> Emit k \<in> set rest))"
    proof (elim disjE exE conjE)
      assume "m = n"
      with inv(7) show ?thesis by blast
    next
      fix ys' assume "ys = ys' @ [n]" "order = xs @ m # ys'"
      with inv(6) have "m \<in> set roots \<or>
          (\<exists>k. m \<in> set (nxt k) \<and> (k \<in> set ys' \<or> Emit k \<in> set (Emit n # rest)))"
        unfolding po_has_parents_def by blast
      with \<open>ys = ys' @ [n]\<close> show ?thesis by auto
    qed
  qed
  moreover have "\<forall>m \<in> set (order @ [n]). set (nxt m) \<subseteq> set seen"
    "set roots \<subseteq> set seen \<union> task_node ` set rest"
    using assms inv(2) by (auto simp: po_inv_def)
  moreover have "\<forall>m. m \<in> set seen \<longleftrightarrow> m \<in> set (order @ [n]) \<or> Emit m \<in> set rest"
    using inv(2) by simp blast
  ultimately show ?thesis using assms inv(1) unfolding po_inv_def prod.case by simp
qed

lemma po_visit_inv:
  assumes "po_inv nxt roots (order, seen, Visit n # rest)"
  shows "n \<in> set seen \<Longrightarrow> po_inv nxt roots (order, seen, rest)"
    and "n \<notin> set seen \<Longrightarrow>
      po_inv nxt roots (order, seen @ [n], rev (map Visit (nxt n)) @ Emit n # rest)"
proof -
  show "po_inv nxt roots (order, seen, rest)" if "n \<in> set seen"
  proof -
    from assms that have "set roots \<subseteq> set seen \<union> task_node ` set rest"
      "po_cover nxt (set seen) rest" "po_has_parents nxt roots order rest"
      by (auto simp: po_inv_def insert_absorb po_has_parents_def)
    with assms show ?thesis unfolding po_inv_def by simp
  qed
next
  assume new: "n \<notin> set seen"
  let ?stack = "rev (map Visit (nxt n)) @ Emit n # rest"
  from assms have inv: "n \<in> reachable nxt roots" "sorted_wrt (po_below nxt) rest"
    "\<forall>t \<in> set rest. po_below nxt (Visit n) t" "po_cover nxt (insert n (set seen)) rest"
    "po_parents nxt roots (Visit n # rest)" "po_has_parents nxt roots order (Visit n # rest)"
    "distinct (order @ emits rest)"
    "\<forall>m. m \<in> set seen \<longleftrightarrow> m \<in> set order \<or> Emit m \<in> set rest"
    by (auto simp: po_inv_def)
  have visits: "sorted_wrt (po_below nxt) (rev (map Visit ns))" for ns
  proof -
    have "sorted_wrt (po_below nxt) (map Visit ns)" for ns by (induction ns) auto
    from this[of "rev ns"] show ?thesis by (simp add: rev_map)
  qed
  have below: "po_below nxt (Visit d) t" if "d \<in> set (nxt n)" "t \<in> set rest" for d t
  proof (cases t)
    case (Emit m)
    with inv(3) that(2) have "(m, n) \<in> (arcs nxt)\<^sup>+" by fastforce
    with that(1) Emit show ?thesis by (auto intro: trancl.trancl_into_trancl)
  qed simp
  have "po_below nxt (Emit n) t" if "t \<in> set rest" for t
    using inv(3) that by (cases t) fastforce+
  then have "sorted_wrt (po_below nxt) ?stack"
    using inv(2) visits below by (auto simp: sorted_wrt_append)
  moreover have "po_cover nxt (insert n (set seen)) ?stack"
    using po_cover_mono[OF inv(4)] by (auto simp: po_cover_visits)
  moreover have "po_parents nxt roots ?stack"
    using inv(5) by (intro po_parents_append) auto
  moreover have "po_has_parents nxt roots order ?stack"
    by (rule po_has_parents_mono[OF inv(6)]) auto
  moreover have "set (nxt n) \<subseteq> reachable nxt roots"
    using inv(1) by (auto intro: reachable_step)
  moreover have "distinct (order @ emits ?stack)" using new inv(7,8) by (auto simp: set_emits)
  moreover have "\<forall>m. m \<in> set (seen @ [n]) \<longleftrightarrow> m \<in> set order \<or> Emit m \<in> set ?stack"
    using inv(8) by auto
  moreover have "set roots \<subseteq> set (seen @ [n]) \<union> task_node ` set ?stack"
    "\<forall>m \<in> set order. set (nxt m) \<subseteq> set (seen @ [n])"
    using assms by (auto simp: po_inv_def)
  ultimately show "po_inv nxt roots (order, seen @ [n], ?stack)"
    using assms unfolding po_inv_def by (simp add: image_image image_Un)
qed

lemma po_step_inv:
  assumes "po_inv nxt roots s" and "snd (snd s) \<noteq> []"
  shows "po_inv nxt roots (po_step nxt s)"
proof -
  obtain order seen t rest where s: "s = (order, seen, t # rest)"
    using assms(2) by (cases s; cases "snd (snd s)") auto
  show ?thesis
    using assms(1) unfolding s
    by (cases t) (auto simp: po_step_def intro: po_emit_inv po_visit_inv)
qed

text \<open>
  The result: every reachable node once; a successor of a node stands before it unless it
  leads back to it; and every node but the roots stands before one of its predecessors.
\<close>

lemma postorder_result:
  assumes "postorder nxt roots = Some order"
  shows "distinct order" and "set order = reachable nxt roots" and "po_sorted nxt order"
    and "po_has_parents nxt roots order []"
proof -
  from assms obtain seen stack where run: "while_option (\<lambda>(order, seen, stack). stack \<noteq> []) (po_step nxt)
       ([], [], rev (map Visit roots)) = Some (order, seen, stack)"
    by (auto simp: postorder_def)
  then have "stack = []" by (auto dest: while_option_stop)
  have "po_inv nxt roots (order, seen, stack)"
    by (rule while_option_rule[where P = "po_inv nxt roots", OF _ run po_inv_init])
       (auto intro: po_step_inv)
  with \<open>stack = []\<close> have inv: "distinct order" "\<forall>n. n \<in> set seen \<longleftrightarrow> n \<in> set order" "set roots \<subseteq> set seen"
    "\<forall>n \<in> set order. set (nxt n) \<subseteq> set seen" "set seen \<subseteq> reachable nxt roots"
    "po_sorted nxt order" "po_has_parents nxt roots order []"
    by (auto simp: po_inv_def)
  then have "reachable nxt roots \<subseteq> set order" by (intro reachable_least) blast+
  with inv show "distinct order" "set order = reachable nxt roots" "po_sorted nxt order"
    "po_has_parents nxt roots order []" by auto
qed

lemma postorder_returns:
  assumes "stays_in nxt ns" and "set roots \<subseteq> set ns"
  shows "\<exists>order. postorder nxt roots = Some order"
proof -
  let ?P = "\<lambda>s :: 'a list \<times> 'a list \<times> 'a task list. task_node ` set (snd (snd s)) \<subseteq> set ns"
  let ?f = "\<lambda>s :: 'a list \<times> 'a list \<times> 'a task list.
    (card (set ns - set (fst (snd s))), length (snd (snd s)))"
  have "\<exists>t. while_option (\<lambda>(order, seen, stack). stack \<noteq> []) (po_step nxt)
      ([], [], rev (map Visit roots)) = Some t"
  proof (rule wf_rel_while_option_Some[where P = ?P and R = "inv_image (less_than <*lex*> less_than) ?f"])
    show "wf (inv_image (less_than <*lex*> less_than) ?f)" by auto
    show "?P ([], [], rev (map Visit roots))" using assms(2) by auto
    fix s assume "?P s \<and> (\<lambda>(order, seen, stack). stack \<noteq> []) s"
    then obtain order seen t rest where
      s: "s = (order, seen, t # rest)" "task_node ` set (t # rest) \<subseteq> set ns"
      by (cases s; cases "snd (snd s)") auto
    show "?P (po_step nxt s)"
    proof (cases t)
      case (Visit n)
      with s assms(1) have "set (nxt n) \<subseteq> set ns" by (auto simp: stays_in_def)
      with s Visit show ?thesis by (auto simp: po_step_def)
    qed (use s in \<open>auto simp: po_step_def\<close>)
    show "(po_step nxt s, s) \<in> inv_image (less_than <*lex*> less_than) ?f"
    proof (cases t)
      case (Visit n)
      with s have "card (set ns - insert n (set seen)) < card (set ns - set seen)" if "n \<notin> set seen"
        using that by (intro psubset_card_mono) auto
      with Visit s show ?thesis by (auto simp: po_step_def)
    qed (use s in \<open>auto simp: po_step_def\<close>)
  qed
  then show ?thesis by (auto simp: postorder_def)
qed

end
