(* ===== verification/CFGraph.thy ===== *)
theory CFGraph
  imports Worklist
begin

text \<open>
  The class \<open>CFGraph\<close> of \<open>numba_cuda/core/controlflow.py\<close>: building a graph, eliminating its
  dead blocks, its back edges, topological order, descendents and loops. The adjacency
  tables are \<open>defaultdict\<close>s of sets: functions to duplicate-free lists, where an absent key
  and an empty set are the same, as \<open>_DictOfContainers\<close> compares them. The theorems hold for
  every iteration order of the sets.
\<close>

section \<open>The graph\<close>

record ('n, 'd) cfgraph =
  g_nodes :: "'n list"
  g_preds :: "'n \<Rightarrow> 'n list"
  g_succs :: "'n \<Rightarrow> 'n list"
  edge_data :: "('n \<times> 'n, 'd) dict"
  entry_point :: "'n option"
  dead_nodes :: "'n list"

definition new_cfgraph :: "('n, 'd) cfgraph" where
  "new_cfgraph = \<lparr>g_nodes = [], g_preds = (\<lambda>_. []), g_succs = (\<lambda>_. []), edge_data = [],
     entry_point = None, dead_nodes = []\<rparr>"

definition add_node :: "'n \<Rightarrow> ('n, 'd) cfgraph \<Rightarrow> ('n, 'd) cfgraph" where
  "add_node node g = g\<lparr>g_nodes := set_add node (g_nodes g)\<rparr>"

definition unchecked_add_edge :: "'n \<Rightarrow> 'n \<Rightarrow> 'd \<Rightarrow> ('n, 'd) cfgraph \<Rightarrow> ('n, 'd) cfgraph" where
  "unchecked_add_edge src dest data g =
     g\<lparr>g_preds := (g_preds g)(dest := set_add src (g_preds g dest)),
       g_succs := (g_succs g)(src := set_add dest (g_succs g src)),
       edge_data := dset (src, dest) data (edge_data g)\<rparr>"

definition add_edge :: "'n \<Rightarrow> 'n \<Rightarrow> 'd \<Rightarrow> ('n, 'd) cfgraph \<Rightarrow> ('n, 'd) cfgraph res" where
  "add_edge src dest data g =
     (if src \<notin> set (g_nodes g) then Inl ValueError
      else if dest \<notin> set (g_nodes g) then Inl ValueError
      else Inr (unchecked_add_edge src dest data g))"

definition successors :: "('n, 'd) cfgraph \<Rightarrow> 'n \<Rightarrow> ('n \<times> 'd) list res" where
  "successors g src =
     mapE (\<lambda>dest. bindE (dget (edge_data g) (src, dest)) (\<lambda>d. Inr (dest, d))) (g_succs g src)"

definition predecessors :: "('n, 'd) cfgraph \<Rightarrow> 'n \<Rightarrow> ('n \<times> 'd) list res" where
  "predecessors g dest =
     mapE (\<lambda>src. bindE (dget (edge_data g) (src, dest)) (\<lambda>d. Inr (src, d))) (g_preds g dest)"

definition set_entry_point :: "'n \<Rightarrow> ('n, 'd) cfgraph \<Rightarrow> ('n, 'd) cfgraph res" where
  "set_entry_point node g =
     (if node \<in> set (g_nodes g) then Inr (g\<lparr>entry_point := Some node\<rparr>) else Inl AssertionError)"

section \<open>Dead block elimination\<close>

text \<open>\<open>set.remove\<close> and \<open>del\<close> raise \<open>KeyError\<close> on a missing element.\<close>

definition set_remove :: "'a \<Rightarrow> 'a list \<Rightarrow> 'a list res" where
  "set_remove x xs = (if x \<in> set xs then Inr (removeAll x xs) else Inl KeyError)"

definition ddel :: "'k \<Rightarrow> ('k, 'v) dict \<Rightarrow> ('k, 'v) dict res" where
  "ddel k d = (case map_of d k of None \<Rightarrow> Inl KeyError | Some _ \<Rightarrow> Inr (AList.delete k d))"

definition drop_succ :: "'n \<Rightarrow> 'n \<Rightarrow> ('n, 'd) cfgraph \<Rightarrow> ('n, 'd) cfgraph res" where
  "drop_succ node succ g =
     bindE (set_remove node (g_preds g succ)) (\<lambda>ps.
     bindE (ddel (node, succ) (edge_data g)) (\<lambda>ed.
       Inr (g\<lparr>g_preds := (g_preds g)(succ := ps), edge_data := ed\<rparr>)))"

definition drop_pred :: "'n \<Rightarrow> 'n \<Rightarrow> ('n, 'd) cfgraph \<Rightarrow> ('n, 'd) cfgraph res" where
  "drop_pred node pred g =
     bindE (set_remove node (g_succs g pred)) (\<lambda>ss.
     bindE (ddel (pred, node) (edge_data g)) (\<lambda>ed.
       Inr (g\<lparr>g_succs := (g_succs g)(pred := ss), edge_data := ed\<rparr>)))"

definition remove_node_edges :: "'n \<Rightarrow> ('n, 'd) cfgraph \<Rightarrow> ('n, 'd) cfgraph res" where
  "remove_node_edges node g =
     bindE (foldE (drop_succ node) (g_succs g node) (g\<lparr>g_succs := (g_succs g)(node := [])\<rparr>)) (\<lambda>g1.
       foldE (drop_pred node) (g_preds g1 node) (g1\<lparr>g_preds := (g_preds g1)(node := [])\<rparr>))"

text \<open>\<open>None\<close> is a search that does not end.\<close>

definition eliminate_dead_blocks :: "('n, 'd) cfgraph \<Rightarrow> ('n, 'd) cfgraph res option" where
  "eliminate_dead_blocks g =
     map_option (\<lambda>live.
       let dead = filter (\<lambda>n. n \<notin> set live) (g_nodes g)
       in foldE remove_node_edges dead (g\<lparr>dead_nodes := dead, g_nodes := live\<rparr>))
     (dfs (g_succs g) [] [the (entry_point g)])"

definition process :: "('n, 'd) cfgraph \<Rightarrow> ('n, 'd) cfgraph res option" where
  "process g = (if entry_point g = None then Some (Inl RuntimeError) else eliminate_dead_blocks g)"

definition find_exit_points :: "('n, 'd) cfgraph \<Rightarrow> 'n list" where
  "find_exit_points g = filter (\<lambda>n. g_succs g n = []) (g_nodes g)"

section \<open>Consistent graphs\<close>

text \<open>
  The three tables as relations: successors, predecessors and edge data. They agree, except
  between the two halves of a removal.
\<close>

definition g_edges :: "('n, 'd) cfgraph \<Rightarrow> ('n \<times> 'n) set" where
  "g_edges g = arcs (g_succs g)"

definition tables ::
  "('n \<times> 'n) set \<Rightarrow> ('n \<times> 'n) set \<Rightarrow> ('n \<times> 'n) set \<Rightarrow> ('n, 'd) cfgraph \<Rightarrow> bool" where
  "tables S P D g \<longleftrightarrow>
     (\<forall>a b. b \<in> set (g_succs g a) \<longleftrightarrow> (a, b) \<in> S) \<and> (\<forall>a b. a \<in> set (g_preds g b) \<longleftrightarrow> (a, b) \<in> P) \<and>
     (\<forall>e. e \<in> D \<longleftrightarrow> (\<exists>d. map_of (edge_data g) e = Some d)) \<and>
     (\<forall>a. distinct (g_succs g a)) \<and> (\<forall>a. distinct (g_preds g a)) \<and> distinct (dkeys (edge_data g))"

definition cfg_wf :: "('n, 'd) cfgraph \<Rightarrow> bool" where
  "cfg_wf g \<longleftrightarrow> tables (g_edges g) (g_edges g) (g_edges g) g \<and> distinct (g_nodes g) \<and>
     g_edges g \<subseteq> set (g_nodes g) \<times> set (g_nodes g) \<and>
     (\<forall>n. entry_point g = Some n \<longrightarrow> n \<in> set (g_nodes g))"

lemma tables_edges: "tables S P D g \<Longrightarrow> g_edges g = S"
  by (auto simp: tables_def g_edges_def arcs_def)

lemma cfg_wfI:
  assumes "tables E E E g" and "distinct (g_nodes g)" and "E \<subseteq> set (g_nodes g) \<times> set (g_nodes g)"
    and "\<And>n. entry_point g = Some n \<Longrightarrow> n \<in> set (g_nodes g)"
  shows "cfg_wf g" and "g_edges g = E"
  using assms tables_edges[OF assms(1)] by (auto simp: cfg_wf_def)

lemma cfg_wfD:
  assumes "cfg_wf g"
  shows "tables (g_edges g) (g_edges g) (g_edges g) g" and "distinct (g_nodes g)"
    and "g_edges g \<subseteq> set (g_nodes g) \<times> set (g_nodes g)"
    and "entry_point g = Some n \<Longrightarrow> n \<in> set (g_nodes g)"
    and "b \<in> set (g_succs g a) \<longleftrightarrow> (a, b) \<in> g_edges g"
    and "a \<in> set (g_preds g b) \<longleftrightarrow> (a, b) \<in> g_edges g"
  using assms unfolding cfg_wf_def tables_def by blast+

lemma cfg_wf_new: "cfg_wf new_cfgraph"
  by (rule cfg_wfI(1)[where E = "{}"]) (auto simp: tables_def new_cfgraph_def)

lemma cfg_wf_add_node: "cfg_wf g \<Longrightarrow> cfg_wf (add_node n g) \<and> g_edges (add_node n g) = g_edges g"
proof -
  assume "cfg_wf g"
  note wf = cfg_wfD[OF this]
  have "tables (g_edges g) (g_edges g) (g_edges g) (add_node n g)"
    using wf(1) by (simp add: add_node_def tables_def)
  from cfg_wfI[OF this] wf(2-4) show ?thesis
    by (auto simp: add_node_def)
qed

lemma cfg_wf_add_edge:
  assumes "cfg_wf g" and "a \<in> set (g_nodes g)" and "b \<in> set (g_nodes g)"
  shows "cfg_wf (unchecked_add_edge a b d g)"
    and "g_edges (unchecked_add_edge a b d g) = insert (a, b) (g_edges g)"
proof -
  let ?g = "unchecked_add_edge a b d g" and ?E = "insert (a, b) (g_edges g)"
  note wf = cfg_wfD[OF assms(1)]
  have succs: "y \<in> set (g_succs ?g x) \<longleftrightarrow> (x, y) \<in> ?E" for x y
    using wf(5)[of y x] wf(5)[of y a] by (auto simp: unchecked_add_edge_def)
  have preds: "x \<in> set (g_preds ?g y) \<longleftrightarrow> (x, y) \<in> ?E" for x y
    using wf(6)[of x y] wf(6)[of x b] by (auto simp: unchecked_add_edge_def)
  have data: "e \<in> ?E \<longleftrightarrow> (\<exists>d. map_of (edge_data ?g) e = Some d)" for e
  proof -
    have "e \<in> g_edges g \<longleftrightarrow> (\<exists>d. map_of (edge_data g) e = Some d)"
      using wf(1) unfolding tables_def by blast
    then show ?thesis by (simp add: unchecked_add_edge_def)
  qed
  have "tables ?E ?E ?E ?g"
    unfolding tables_def using succs preds data wf(1)
    by (intro conjI allI) (auto simp: unchecked_add_edge_def tables_def distinct_update)
  from cfg_wfI[OF this] wf(2-4) assms(2,3) show "cfg_wf ?g" "g_edges ?g = ?E"
    by (auto simp: unchecked_add_edge_def)
qed

lemma cfg_wf_set_entry:
  assumes "cfg_wf g" and "set_entry_point n g = Inr g'"
  shows "cfg_wf g'" and "g_edges g' = g_edges g" and "entry_point g' = Some n"
proof -
  from assms(2) have g': "g' = g\<lparr>entry_point := Some n\<rparr>" "n \<in> set (g_nodes g)"
    by (auto simp: set_entry_point_def split: if_splits)
  note wf = cfg_wfD[OF assms(1)]
  have "tables (g_edges g) (g_edges g) (g_edges g) g'"
    using wf(1) by (simp add: g' tables_def)
  from cfg_wfI[OF this] wf(2,3) g'
  show "cfg_wf g'" "g_edges g' = g_edges g" "entry_point g' = Some n" by auto
qed

lemma cfg_wf_stays: "cfg_wf g \<Longrightarrow> stays_in (g_succs g) (g_nodes g)"
  unfolding stays_in_def using cfg_wfD(3,5)[of g] by blast

lemma stays_in_restrict: "stays_in nxt ns \<Longrightarrow> (\<And>n. set (nxt' n) \<subseteq> set (nxt n)) \<Longrightarrow> stays_in nxt' ns"
  by (fastforce simp: stays_in_def)

section \<open>Removing nodes\<close>

text \<open>What a removal leaves alone: nodes, entry point and the data of the remaining edges.\<close>

definition same_frame :: "('n, 'd) cfgraph \<Rightarrow> ('n, 'd) cfgraph \<Rightarrow> bool" where
  "same_frame g g' \<longleftrightarrow> g_nodes g' = g_nodes g \<and> entry_point g' = entry_point g \<and>
     dead_nodes g' = dead_nodes g \<and>
     (\<forall>e d. map_of (edge_data g') e = Some d \<longrightarrow> map_of (edge_data g) e = Some d)"

lemma same_frame_refl [simp]: "same_frame g g"
  by (simp add: same_frame_def)

lemma same_frame_trans: "same_frame g g' \<Longrightarrow> same_frame g' g'' \<Longrightarrow> same_frame g g''"
  by (simp add: same_frame_def)

lemma drop_succ_ok:
  assumes "tables S P D g" and "(node, s) \<in> P" and "(node, s) \<in> D"
  shows "\<exists>g'. drop_succ node s g = Inr g' \<and> tables S (P - {(node, s)}) (D - {(node, s)}) g' \<and>
     same_frame g g'"
  using assms
  by (auto simp: drop_succ_def set_remove_def ddel_def tables_def same_frame_def distinct_removeAll
      delete_keys distinct_delete delete_conv' simp flip: fun_upd_def)

lemma drop_pred_ok:
  assumes "tables S P D g" and "(p, node) \<in> S" and "(p, node) \<in> D"
  shows "\<exists>g'. drop_pred node p g = Inr g' \<and> tables (S - {(p, node)}) P (D - {(p, node)}) g' \<and>
     same_frame g g'"
  using assms
  by (auto simp: drop_pred_def set_remove_def ddel_def tables_def same_frame_def distinct_removeAll
      delete_keys distinct_delete delete_conv' simp flip: fun_upd_def)

lemma drop_succs_ok:
  assumes "tables S P D g" and "{node} \<times> set ss \<subseteq> P \<inter> D" and "distinct ss"
  shows "\<exists>g'. foldE (drop_succ node) ss g = Inr g' \<and>
     tables S (P - {node} \<times> set ss) (D - {node} \<times> set ss) g' \<and> same_frame g g'"
  using assms
proof (induction ss arbitrary: g P D)
  case Nil
  then show ?case by simp
next
  case (Cons s ss)
  then obtain g1 where g1: "drop_succ node s g = Inr g1"
    "tables S (P - {(node, s)}) (D - {(node, s)}) g1" "same_frame g g1"
    using drop_succ_ok[of S P D g node s] by auto
  from Cons.IH[OF g1(2)] Cons.prems obtain g2 where "foldE (drop_succ node) ss g1 = Inr g2"
    "tables S (P - {(node, s)} - {node} \<times> set ss) (D - {(node, s)} - {node} \<times> set ss) g2"
    "same_frame g1 g2" by auto
  moreover have "A - {(node, s)} - {node} \<times> set ss = A - {node} \<times> set (s # ss)" for A by auto
  ultimately show ?case using g1 by (auto intro: same_frame_trans)
qed

lemma drop_preds_ok:
  assumes "tables S P D g" and "set ps \<times> {node} \<subseteq> S \<inter> D" and "distinct ps"
  shows "\<exists>g'. foldE (drop_pred node) ps g = Inr g' \<and>
     tables (S - set ps \<times> {node}) P (D - set ps \<times> {node}) g' \<and> same_frame g g'"
  using assms
proof (induction ps arbitrary: g S D)
  case Nil
  then show ?case by simp
next
  case (Cons p ps)
  then obtain g1 where g1: "drop_pred node p g = Inr g1"
    "tables (S - {(p, node)}) P (D - {(p, node)}) g1" "same_frame g g1"
    using drop_pred_ok[of S P D g p node] by auto
  from Cons.IH[OF g1(2)] Cons.prems obtain g2 where "foldE (drop_pred node) ps g1 = Inr g2"
    "tables (S - {(p, node)} - set ps \<times> {node}) P (D - {(p, node)} - set ps \<times> {node}) g2"
    "same_frame g1 g2" by auto
  moreover have "A - {(p, node)} - set ps \<times> {node} = A - set (p # ps) \<times> {node}" for A by auto
  ultimately show ?case using g1 by (auto intro: same_frame_trans)
qed

lemma remove_node_edges_ok:
  assumes "tables E E E g"
  shows "\<exists>g'. remove_node_edges node g = Inr g' \<and>
    (let E' = E - {node} \<times> UNIV - UNIV \<times> {node} in tables E' E' E' g') \<and> same_frame g g'"
proof -
  let ?S = "E - {node} \<times> UNIV" and ?g = "g\<lparr>g_succs := (g_succs g)(node := [])\<rparr>"
  have succs: "set (g_succs g node) = E `` {node}" "distinct (g_succs g node)"
    using assms by (auto simp: tables_def)
  have "tables ?S E E ?g" using assms by (simp add: tables_def)
  then obtain g1 where g1: "foldE (drop_succ node) (g_succs g node) ?g = Inr g1"
      "tables ?S (E - {node} \<times> set (g_succs g node)) (E - {node} \<times> set (g_succs g node)) g1"
      "same_frame ?g g1"
    using drop_succs_ok[of ?S E E ?g node "g_succs g node"] succs by auto
  moreover have "E - {node} \<times> set (g_succs g node) = ?S" using succs(1) by auto
  ultimately have t1: "tables ?S ?S ?S g1" by simp
  let ?P = "?S - UNIV \<times> {node}" and ?g1 = "g1\<lparr>g_preds := (g_preds g1)(node := [])\<rparr>"
  have preds: "set (g_preds g1 node) = ?S\<inverse> `` {node}" "distinct (g_preds g1 node)"
    using t1 by (auto simp: tables_def)
  have "tables ?S ?P ?S ?g1" using t1 by (simp add: tables_def)
  then obtain g2 where g2: "foldE (drop_pred node) (g_preds g1 node) ?g1 = Inr g2"
      "tables (?S - set (g_preds g1 node) \<times> {node}) ?P (?S - set (g_preds g1 node) \<times> {node}) g2"
      "same_frame ?g1 g2"
    using drop_preds_ok[of ?S ?P ?S ?g1 "g_preds g1 node" node] preds by auto
  moreover have "?S - set (g_preds g1 node) \<times> {node} = ?P" using preds(1) by auto
  ultimately have "tables ?P ?P ?P g2" by simp
  moreover have "same_frame g g2"
    using g1(3) g2(3) by (auto simp: same_frame_def)
  ultimately show ?thesis using g1(1) g2(1) by (simp add: remove_node_edges_def Let_def)
qed

lemma remove_all_ok:
  assumes "tables E E E g"
  shows "\<exists>g'. foldE remove_node_edges dead g = Inr g' \<and>
    (let E' = E - set dead \<times> UNIV - UNIV \<times> set dead in tables E' E' E' g') \<and> same_frame g g'"
  using assms
proof (induction dead arbitrary: g E)
  case Nil
  then show ?case by simp
next
  case (Cons n dead)
  from remove_node_edges_ok[OF Cons.prems, of n] obtain g1 where g1: "remove_node_edges n g = Inr g1"
    "tables (E - {n} \<times> UNIV - UNIV \<times> {n}) (E - {n} \<times> UNIV - UNIV \<times> {n}) (E - {n} \<times> UNIV - UNIV \<times> {n}) g1"
    "same_frame g g1" by (auto simp: Let_def)
  from Cons.IH[OF g1(2)] obtain g2 where "foldE remove_node_edges dead g1 = Inr g2"
    "(let E' = E - {n} \<times> UNIV - UNIV \<times> {n} - set dead \<times> UNIV - UNIV \<times> set dead in tables E' E' E' g2)"
    "same_frame g1 g2" by auto
  moreover have "E - {n} \<times> UNIV - UNIV \<times> {n} - set dead \<times> UNIV - UNIV \<times> set dead =
      E - set (n # dead) \<times> UNIV - UNIV \<times> set (n # dead)" by auto
  ultimately show ?case using g1 by (auto intro: same_frame_trans)
qed

lemma process_live:
  assumes "cfg_wf g" and "entry_point g = Some n"
  shows "\<exists>g'. process g = Some (Inr g') \<and> cfg_wf g' \<and> entry_point g' = Some n \<and>
    set (g_nodes g') = reachable (g_succs g) [n] \<and>
    set (dead_nodes g') = set (g_nodes g) - reachable (g_succs g) [n] \<and>
    g_edges g' = {(a, b) \<in> g_edges g. a \<in> reachable (g_succs g) [n]} \<and>
    (\<forall>e d. map_of (edge_data g') e = Some d \<longrightarrow> map_of (edge_data g) e = Some d)"
proof -
  let ?R = "reachable (g_succs g) [n]"
  note wf = cfg_wfD[OF assms(1)]
  obtain live where live: "dfs (g_succs g) [] [n] = Some live" "set live = ?R" "distinct live"
    using dfs_reachable[OF cfg_wf_stays[OF assms(1)], of "[n]"] wf(4)[OF assms(2)] by auto
  have sub: "?R \<subseteq> set (g_nodes g)"
    using reachable_in[OF cfg_wf_stays[OF assms(1)]] wf(4)[OF assms(2)] by simp
  let ?dead = "filter (\<lambda>m. m \<notin> set live) (g_nodes g)"
  let ?g = "g\<lparr>dead_nodes := ?dead, g_nodes := live\<rparr>"
  have "tables (g_edges g) (g_edges g) (g_edges g) ?g"
    using wf(1) by (simp add: tables_def)
  from remove_all_ok[OF this, of ?dead] obtain g' where
    run: "foldE remove_node_edges ?dead ?g = Inr g'" and frame: "same_frame ?g g'"
    and tab: "let E' = g_edges g - set ?dead \<times> UNIV - UNIV \<times> set ?dead in tables E' E' E' g'"
    by auto
  have closed: "b \<in> ?R" if "(a, b) \<in> g_edges g" "a \<in> ?R" for a b
    using that reachable_step wf(5) by metis
  then have E: "g_edges g - set ?dead \<times> UNIV - UNIV \<times> set ?dead = {(a, b) \<in> g_edges g. a \<in> ?R}"
    using wf(3) live(2) by auto
  have nodes: "g_nodes g' = live" "entry_point g' = Some n" "dead_nodes g' = ?dead"
    and data: "\<forall>e d. map_of (edge_data g') e = Some d \<longrightarrow> map_of (edge_data g) e = Some d"
    using frame assms(2) by (auto simp: same_frame_def)
  let ?E = "{(a, b) \<in> g_edges g. a \<in> ?R}"
  have "tables ?E ?E ?E g'" using tab unfolding E Let_def .
  moreover have "?E \<subseteq> set (g_nodes g') \<times> set (g_nodes g')"
    unfolding nodes(1) live(2) using closed by blast
  moreover have "m \<in> set (g_nodes g')" if "entry_point g' = Some m" for m
    using that unfolding nodes live(2) by (simp add: reachable_root)
  ultimately have "cfg_wf g'" "g_edges g' = ?E"
    using cfg_wfI[of ?E g'] nodes(1) live(3) by simp_all
  moreover have "process g = Some (Inr g')"
    using live(1) run assms(2) by (simp add: process_def eliminate_dead_blocks_def Let_def)
  moreover have "set ?dead = set (g_nodes g) - ?R" using live(2) by auto
  ultimately show ?thesis using nodes data live(2) by (intro exI[of _ g']) simp
qed

text \<open>
  C9. Processing a consistent graph with an entry point always returns a consistent graph:
  its nodes are those reachable from the entry point, the others are reported dead, its
  edges are the edges between live nodes, with the data they had, and the three tables
  still agree.
\<close>

theorem process_keeps_live:
  assumes "cfg_wf g" and "entry_point g = Some n"
  shows "\<exists>g'. process g = Some (Inr g') \<and> cfg_wf g' \<and> entry_point g' = Some n \<and>
    set (g_nodes g') = reachable (g_succs g) [n] \<and>
    set (dead_nodes g') = set (g_nodes g) - reachable (g_succs g) [n] \<and>
    g_edges g' = {(a, b) \<in> g_edges g. a \<in> reachable (g_succs g) [n]} \<and>
    (\<forall>e d. map_of (edge_data g') e = Some d \<longrightarrow> map_of (edge_data g) e = Some d)"
  using assms by (rule process_live)


text \<open>A graph with an edge from a dead node 2 into the live nodes 0 and 1.\<close>

definition small_cfg :: "(nat, nat) cfgraph" where
  "small_cfg = (unchecked_add_edge 0 1 5 (unchecked_add_edge 2 1 7
     (add_node 2 (add_node 1 (add_node 0 new_cfgraph)))))\<lparr>entry_point := Some 0\<rparr>"

lemma small_cfg_wf: "cfg_wf small_cfg"
proof (rule cfg_wfI(1)[where E = "{(0, 1), (2, 1)}"])
  show "tables {(0, 1), (2, 1)} {(0, 1), (2, 1)} {(0, 1), (2, 1)} small_cfg"
    by (auto simp: tables_def small_cfg_def unchecked_add_edge_def add_node_def new_cfgraph_def set_add_def)
qed (auto simp: small_cfg_def unchecked_add_edge_def add_node_def new_cfgraph_def set_add_def)

theorem process_keeps_live_witness:
  "\<exists>g'. process small_cfg = Some (Inr g') \<and> cfg_wf g' \<and> entry_point g' = Some 0 \<and>
    set (g_nodes g') = reachable (g_succs small_cfg) [0] \<and>
    set (dead_nodes g') = set (g_nodes small_cfg) - reachable (g_succs small_cfg) [0] \<and>
    g_edges g' = {(a, b) \<in> g_edges small_cfg. a \<in> reachable (g_succs small_cfg) [0]} \<and>
    (\<forall>e d. map_of (edge_data g') e = Some d \<longrightarrow> map_of (edge_data small_cfg) e = Some d)"
  by (rule process_keeps_live[OF small_cfg_wf]) (simp add: small_cfg_def)

end
