(* ===== verification/BackEdges.thy ===== *)
theory BackEdges
  imports CFGraph
begin

text \<open>
  Back edges and topological order: \<open>_find_back_edges\<close>, \<open>_find_topo_order\<close>, \<open>topo_sort\<close> and
  \<open>_find_descendents\<close> of \<open>numba_cuda/core/controlflow.py\<close>.
\<close>

section \<open>Back edges\<close>

text \<open>The stacks have their top first. \<open>succs_state\<close> holds the successors not yet checked.\<close>

record 'n be_state =
  be_stack :: "'n list"
  on_stack :: "'n list"
  succs_state :: "'n \<Rightarrow> 'n list"
  be_checked :: "'n list"
  be_found :: "('n \<times> 'n) list"

definition push_state :: "('n \<Rightarrow> 'n list) \<Rightarrow> 'n \<Rightarrow> 'n be_state \<Rightarrow> 'n be_state" where
  "push_state succs node st =
     st\<lparr>be_stack := node # be_stack st, on_stack := set_add node (on_stack st),
        succs_state := (succs_state st)(node := succs node)\<rparr>"

definition be_init :: "('n \<Rightarrow> 'n list) \<Rightarrow> 'n \<Rightarrow> 'n be_state" where
  "be_init succs entry = push_state succs entry
     \<lparr>be_stack = [], on_stack = [], succs_state = (\<lambda>_. []), be_checked = [], be_found = []\<rparr>"

definition be_step :: "('n \<Rightarrow> 'n list) \<Rightarrow> 'n be_state \<Rightarrow> 'n be_state" where
  "be_step succs st =
     (case be_stack st of
        [] \<Rightarrow> st
      | tos # rest \<Rightarrow>
          (case succs_state st tos of
             [] \<Rightarrow> st\<lparr>be_stack := rest, on_stack := removeAll tos (on_stack st),
                     be_checked := set_add tos (be_checked st)\<rparr>
           | s # ss \<Rightarrow>
               (let cur = last (s # ss);
                    st' = st\<lparr>succs_state := (succs_state st)(tos := butlast (s # ss))\<rparr>
                in if cur \<in> set (on_stack st) then st'\<lparr>be_found := set_add (tos, cur) (be_found st)\<rparr>
                   else if cur \<notin> set (be_checked st) then push_state succs cur st'
                   else st')))"

definition find_back_edges :: "('n \<Rightarrow> 'n list) \<Rightarrow> 'n \<Rightarrow> ('n \<times> 'n) list option" where
  "find_back_edges succs entry =
     map_option be_found (while_option (\<lambda>st. be_stack st \<noteq> []) (be_step succs) (be_init succs entry))"

section \<open>Topological order\<close>

definition forward :: "('n \<Rightarrow> 'n list) \<Rightarrow> ('n \<times> 'n) list \<Rightarrow> 'n \<Rightarrow> 'n list" where
  "forward succs bes n = filter (\<lambda>d. (n, d) \<notin> set bes) (succs n)"

definition find_topo_order :: "('n \<Rightarrow> 'n list) \<Rightarrow> ('n \<times> 'n) list \<Rightarrow> 'n \<Rightarrow> 'n list option" where
  "find_topo_order succs bes entry =
     map_option rev (postorder (\<lambda>n. rev (forward succs bes n)) [entry])"

definition topo_sort :: "'n list \<Rightarrow> 'n list \<Rightarrow> bool \<Rightarrow> 'n list" where
  "topo_sort topo nodes rv =
     (if nodes = [] then []
      else filter (\<lambda>n. n \<in> set nodes) (if rv then rev topo else topo))"

definition node_descendents ::
  "('n \<Rightarrow> 'n list) \<Rightarrow> ('n \<times> 'n) list \<Rightarrow> ('n, 'n list) dict \<Rightarrow> 'n \<Rightarrow> 'n list res" where
  "node_descendents succs bes descs node =
     foldE (\<lambda>succ node_descs.
       if (node, succ) \<notin> set bes then
         bindE (dget descs succ) (\<lambda>ds. Inr (set_update (set_add succ node_descs) ds))
       else Inr node_descs) (succs node) []"

definition find_descendents ::
  "('n \<Rightarrow> 'n list) \<Rightarrow> ('n \<times> 'n) list \<Rightarrow> 'n list \<Rightarrow> ('n, 'n list) dict res" where
  "find_descendents succs bes topo =
     foldE (\<lambda>node descs.
       bindE (node_descendents succs bes descs node) (\<lambda>ds. Inr (dset node ds descs))) (rev topo) []"

section \<open>The search for back edges\<close>

text \<open>
  Every successor of a finished node was finished before it, or the edge to it is a bes
  edge; the same holds for the successors already checked of the nodes on the stack, where
  the one directly above is still open.
\<close>

definition finished :: "('n \<Rightarrow> 'n list) \<Rightarrow> ('n \<times> 'n) list \<Rightarrow> 'n list \<Rightarrow> bool" where
  "finished succs bes checked \<longleftrightarrow>
     (\<forall>xs n ys. checked = xs @ n # ys \<longrightarrow> (\<forall>d \<in> set (succs n). (n, d) \<in> set bes \<or> d \<in> set xs))"

fun opened ::
  "('n \<Rightarrow> 'n list) \<Rightarrow> ('n \<Rightarrow> 'n list) \<Rightarrow> ('n \<times> 'n) list \<Rightarrow> 'n list \<Rightarrow> 'n option \<Rightarrow> 'n list \<Rightarrow> bool" where
  "opened succs todo bes checked up [] \<longleftrightarrow> True"
| "opened succs todo bes checked up (n # ns) \<longleftrightarrow>
     (\<forall>d \<in> set (succs n). d \<in> set (todo n) \<or> (n, d) \<in> set bes \<or> d \<in> set checked \<or> up = Some d) \<and>
     (\<forall>d. up = Some d \<longrightarrow> d \<in> set (succs n)) \<and>
     opened succs todo bes checked (Some n) ns"

text \<open>Every node found is reached over edges that are not, and will not become, back edges.\<close>

definition tree_edges ::
  "('n \<times> 'n) set \<Rightarrow> ('n \<Rightarrow> 'n list) \<Rightarrow> 'n \<Rightarrow> 'n be_state \<Rightarrow> bool" where
  "tree_edges T succs entry st \<longleftrightarrow> T \<subseteq> arcs succs \<and> T \<inter> set (be_found st) = {} \<and>
     (\<forall>n \<in> set (be_checked st) \<union> set (be_stack st). (entry, n) \<in> T\<^sup>*) \<and>
     (\<forall>(p, c) \<in> T. c \<in> set (be_checked st) \<union> set (be_stack st) \<and>
        (\<forall>xs ys. be_stack st = xs @ c # ys \<longrightarrow> p \<in> set ys))"

definition found_ok ::
  "('n \<Rightarrow> 'n list) \<Rightarrow> 'n \<Rightarrow> 'n list \<Rightarrow> 'n list \<Rightarrow> ('n \<times> 'n) list \<Rightarrow> bool" where
  "found_ok succs entry stack checked found \<longleftrightarrow>
     (\<forall>s d. (s, d) \<in> set found \<longrightarrow> d \<in> set (succs s) \<and> (d, s) \<in> (arcs succs)\<^sup>* \<and>
        s \<in> reachable succs [entry] \<and> s \<in> set (stack @ checked) \<and> d \<in> set (stack @ checked) \<and>
        (\<forall>xs ys. stack = xs @ s # ys \<longrightarrow> d \<in> set (s # ys)))"

definition be_inv :: "('n \<Rightarrow> 'n list) \<Rightarrow> 'n \<Rightarrow> 'n be_state \<Rightarrow> bool" where
  "be_inv succs entry st \<longleftrightarrow>
     set (on_stack st) = set (be_stack st) \<and> distinct (be_stack st @ be_checked st) \<and>
     finished succs (be_found st) (be_checked st) \<and>
     opened succs (succs_state st) (be_found st) (be_checked st) None (be_stack st) \<and>
     (\<forall>n. n \<in> set (be_stack st) \<longrightarrow> set (succs_state st n) \<subseteq> set (succs n)) \<and>
     entry \<in> set (be_stack st @ be_checked st) \<and>
     found_ok succs entry (be_stack st) (be_checked st) (be_found st) \<and>
     (\<exists>T. tree_edges T succs entry st)"

lemma be_init_inv: "be_inv succs entry (be_init succs entry)"
  by (auto simp: be_inv_def be_init_def push_state_def finished_def tree_edges_def found_ok_def)

lemma found_ok_pop:
  assumes "found_ok succs entry (tos # rest) checked found"
  shows "found_ok succs entry rest (checked @ [tos]) found"
  unfolding found_ok_def
proof (intro allI impI)
  fix s d assume "(s, d) \<in> set found"
  then have old: "d \<in> set (succs s)" "(d, s) \<in> (arcs succs)\<^sup>*" "s \<in> reachable succs [entry]"
    "s \<in> set ((tos # rest) @ checked)" "d \<in> set ((tos # rest) @ checked)"
    and below: "\<And>xs ys. tos # rest = xs @ s # ys \<Longrightarrow> d \<in> set (s # ys)"
    using assms unfolding found_ok_def by blast+
  have "d \<in> set (s # ys)" if "rest = xs @ s # ys" for xs ys
    using that by (intro below[of "tos # xs"]) simp
  with old show "d \<in> set (succs s) \<and> (d, s) \<in> (arcs succs)\<^sup>* \<and> s \<in> reachable succs [entry] \<and>
      s \<in> set (rest @ checked @ [tos]) \<and> d \<in> set (rest @ checked @ [tos]) \<and>
      (\<forall>xs ys. rest = xs @ s # ys \<longrightarrow> d \<in> set (s # ys))" by auto
qed

lemma found_ok_push:
  assumes "found_ok succs entry stack checked found" and "cur \<notin> set (stack @ checked)"
  shows "found_ok succs entry (cur # stack) checked found"
  unfolding found_ok_def
proof (intro allI impI)
  fix s d assume "(s, d) \<in> set found"
  then have old: "d \<in> set (succs s)" "(d, s) \<in> (arcs succs)\<^sup>*" "s \<in> reachable succs [entry]"
    "s \<in> set (stack @ checked)" "d \<in> set (stack @ checked)"
    and below: "\<And>xs ys. stack = xs @ s # ys \<Longrightarrow> d \<in> set (s # ys)"
    using assms(1) unfolding found_ok_def by blast+
  have "s \<noteq> cur" using old(4) assms(2) by auto
  have "d \<in> set (s # ys)" if "cur # stack = xs @ s # ys" for xs ys
  proof -
    from that \<open>s \<noteq> cur\<close> obtain xs' where "stack = xs' @ s # ys" by (cases xs) auto
    then show ?thesis by (rule below)
  qed
  with old show "d \<in> set (succs s) \<and> (d, s) \<in> (arcs succs)\<^sup>* \<and> s \<in> reachable succs [entry] \<and>
      s \<in> set ((cur # stack) @ checked) \<and> d \<in> set ((cur # stack) @ checked) \<and>
      (\<forall>xs ys. cur # stack = xs @ s # ys \<longrightarrow> d \<in> set (s # ys))" by simp
qed

lemma found_ok_add:
  assumes "found_ok succs entry (tos # rest) checked found" and "distinct (tos # rest)"
    and "cur \<in> set (tos # rest)" and "cur \<in> set (succs tos)" and "(cur, tos) \<in> (arcs succs)\<^sup>*"
    and "tos \<in> reachable succs [entry]"
  shows "found_ok succs entry (tos # rest) checked (set_add (tos, cur) found)"
proof -
  have "cur \<in> set (tos # ys)" if "tos # rest = xs @ tos # ys" for xs ys
    using that assms(2,3) by (cases xs) auto
  moreover have "cur \<in> set ((tos # rest) @ checked)" using assms(3) by auto
  ultimately have "found_ok succs entry (tos # rest) checked [(tos, cur)]"
    using assms(4-6) unfolding found_ok_def by auto
  with assms(1) show ?thesis unfolding found_ok_def set_set_add by auto
qed

lemma be_invI:
  assumes "be_stack st = stack" and "be_checked st = checked" and "be_found st = found"
    and "succs_state st = todo" and "set (on_stack st) = set stack" and "distinct (stack @ checked)"
    and "finished succs found checked" and "opened succs todo found checked None stack"
    and "\<And>n. n \<in> set stack \<Longrightarrow> set (todo n) \<subseteq> set (succs n)" and "entry \<in> set (stack @ checked)"
    and "found_ok succs entry stack checked found" and "tree_edges T succs entry st"
  shows "be_inv succs entry st"
  unfolding be_inv_def assms(1-4) using assms(5-12) by blast

lemma be_invD:
  assumes "be_inv succs entry st" and "be_stack st = stack"
  shows "set (on_stack st) = set stack" and "distinct (stack @ be_checked st)"
    and "finished succs (be_found st) (be_checked st)"
    and "opened succs (succs_state st) (be_found st) (be_checked st) None stack"
    and "n \<in> set stack \<Longrightarrow> set (succs_state st n) \<subseteq> set (succs n)"
    and "entry \<in> set (stack @ be_checked st)"
    and "found_ok succs entry stack (be_checked st) (be_found st)"
    and "\<exists>T. tree_edges T succs entry st"
  using assms unfolding be_inv_def by blast+

lemma finished_mono: "finished succs bes cs \<Longrightarrow> set bes \<subseteq> set bes' \<Longrightarrow> finished succs bes' cs"
  unfolding finished_def by blast

lemma opened_cong:
  assumes "opened succs todo bes checked up ns"
    and "set bes \<subseteq> set bes'" and "set checked \<subseteq> set checked'"
    and "\<And>n d. n \<in> set ns \<Longrightarrow> d \<in> set (todo n) \<Longrightarrow>
      d \<in> set (todo' n) \<or> (n, d) \<in> set bes' \<or> d \<in> set checked'"
  shows "opened succs todo' bes' checked' up ns"
  using assms
proof (induction ns arbitrary: up)
  case (Cons n ns)
  have "opened succs todo' bes' checked' (Some n) ns"
    using Cons by auto
  with Cons.prems show ?case by simp blast
qed simp

text \<open>From any node of the stack the edges up the stack lead to its top.\<close>

lemma opened_path:
  "opened succs todo bes checked up ns \<Longrightarrow> n \<in> set ns \<Longrightarrow> (n, hd ns) \<in> (arcs succs)\<^sup>*"
proof (induction ns arbitrary: up)
  case (Cons m ns)
  show ?case
  proof (cases "n = m")
    case False
    with Cons have "(n, hd ns) \<in> (arcs succs)\<^sup>*" "ns \<noteq> []" by auto
    moreover have "m \<in> set (succs (hd ns))" using Cons.prems(1) \<open>ns \<noteq> []\<close> by (cases ns) auto
    ultimately show ?thesis by (auto intro: rtrancl.rtrancl_into_rtrancl)
  qed simp
qed simp

lemma tree_edges_reachable:
  assumes "tree_edges T succs entry st" and "n \<in> set (be_checked st) \<union> set (be_stack st)"
  shows "n \<in> reachable succs [entry]"
    and "n \<in> reachable (forward succs (be_found st)) [entry]"
proof -
  from assms have T: "(entry, n) \<in> T\<^sup>*" "T \<subseteq> arcs succs" "T \<inter> set (be_found st) = {}"
    by (auto simp: tree_edges_def)
  then have "T \<subseteq> arcs (forward succs (be_found st))" by (fastforce simp: forward_def arcs_def)
  with T(1) have "(entry, n) \<in> (arcs (forward succs (be_found st)))\<^sup>*" "(entry, n) \<in> (arcs succs)\<^sup>*"
    using T(2) rtrancl_mono by blast+
  then show "n \<in> reachable succs [entry]" "n \<in> reachable (forward succs (be_found st)) [entry]"
    by (auto simp: reachable_def)
qed

section \<open>One step keeps the invariant\<close>

lemma be_pop_inv:
  assumes "be_inv succs entry st" and "be_stack st = tos # rest" and "succs_state st tos = []"
  shows "be_inv succs entry (be_step succs st)"
proof -
  note inv = be_invD[OF assms(1,2)]
  have step: "be_step succs st = st\<lparr>be_stack := rest, on_stack := removeAll tos (on_stack st),
      be_checked := be_checked st @ [tos]\<rparr>"
    using assms(2,3) inv(2) by (simp add: be_step_def set_add_def)
  from inv(8) obtain T where T: "tree_edges T succs entry st" by blast
  have cleared: "\<forall>d \<in> set (succs tos). (tos, d) \<in> set (be_found st) \<or> d \<in> set (be_checked st)"
    using inv(4) assms(3) by simp
  show ?thesis
  proof (rule be_invI)
    show "finished succs (be_found st) (be_checked st @ [tos])"
      using inv(3) cleared by (simp add: finished_def snoc_split)
    show "opened succs (succs_state st) (be_found st) (be_checked st @ [tos]) None rest"
    proof (cases rest)
      case (Cons m ms)
      have "opened succs (succs_state st) (be_found st) (be_checked st @ [tos]) (Some m) ms"
        by (rule opened_cong[where todo = "succs_state st" and bes = "be_found st" and checked = "be_checked st"])
           (use inv(4) Cons in auto)
      with inv(4) Cons show ?thesis by auto
    qed simp
    show "found_ok succs entry rest (be_checked st @ [tos]) (be_found st)"
      using inv(7) by (rule found_ok_pop)
    show "tree_edges T succs entry (be_step succs st)"
      using T assms(2) unfolding step tree_edges_def by (auto split: prod.splits)
  qed (use inv(1,2,6) inv(5) assms(2) in \<open>auto simp: step\<close>)
qed

lemma be_back_inv:
  assumes "be_inv succs entry st" and "be_stack st = tos # rest"
    and "succs_state st tos = ss @ [cur]" and "cur \<in> set (on_stack st)"
  shows "be_inv succs entry (be_step succs st)"
proof -
  note inv = be_invD[OF assms(1,2)]
  let ?todo = "(succs_state st)(tos := ss)" and ?found = "set_add (tos, cur) (be_found st)"
  have step: "be_step succs st = st\<lparr>succs_state := ?todo, be_found := ?found\<rparr>"
    using assms(2-4) by (cases ss) (auto simp: be_step_def Let_def)
  from inv(8) obtain T where T: "tree_edges T succs entry st" by blast
  have cur: "cur \<in> set (tos # rest)" "cur \<in> set (succs tos)"
    using inv(1) assms(3,4) inv(5)[of tos] by auto
  have "(tos, cur) \<notin> T"
  proof
    assume e: "(tos, cur) \<in> T"
    from cur(1) obtain xs ys where split: "tos # rest = xs @ cur # ys" by (metis split_list)
    with T e assms(2) have "tos \<in> set ys" by (fastforce simp: tree_edges_def)
    with split inv(2) show False by (cases xs) auto
  qed
  with T have tree: "tree_edges T succs entry (be_step succs st)" by (auto simp: tree_edges_def step)
  show ?thesis
  proof (rule be_invI)
    show "finished succs ?found (be_checked st)"
      by (rule finished_mono[OF inv(3)]) auto
    show "opened succs ?todo ?found (be_checked st) None (tos # rest)"
      by (rule opened_cong[OF inv(4)]) (use assms(3) in auto)
    show "found_ok succs entry (tos # rest) (be_checked st) ?found"
    proof (rule found_ok_add[OF inv(7)])
      show "(cur, tos) \<in> (arcs succs)\<^sup>*" using opened_path[OF inv(4) cur(1)] by simp
      show "tos \<in> reachable succs [entry]"
        using tree_edges_reachable(1)[OF T, of tos] assms(2) by simp
    qed (use inv(2) cur in auto)
    show "tree_edges T succs entry (be_step succs st)" by (rule tree)
    show "set (?todo n) \<subseteq> set (succs n)" if "n \<in> set (tos # rest)" for n
      using inv(5)[OF that] assms(3) by auto
  qed (use inv(1,2,6) assms(2) in \<open>simp_all add: step\<close>)
qed

lemma be_push_inv:
  assumes "be_inv succs entry st" and "be_stack st = tos # rest"
    and "succs_state st tos = ss @ [cur]" and "cur \<notin> set (on_stack st)" and "cur \<notin> set (be_checked st)"
  shows "be_inv succs entry (be_step succs st)"
proof -
  note inv = be_invD[OF assms(1,2)]
  let ?todo = "(succs_state st)(tos := ss, cur := succs cur)"
  have step: "be_step succs st =
      push_state succs cur (st\<lparr>succs_state := (succs_state st)(tos := ss)\<rparr>)"
    using assms(2-5) by (cases ss) (auto simp: be_step_def Let_def)
  have new: "cur \<notin> set ((tos # rest) @ be_checked st)" using inv(1) assms(4,5) by auto
  have cur: "cur \<in> set (succs tos)" using assms(3) inv(5)[of tos] by auto
  from inv(8) obtain T where T: "tree_edges T succs entry st" by blast
  have shape: "be_stack (be_step succs st) = cur # tos # rest" "be_found (be_step succs st) = be_found st"
    "be_checked (be_step succs st) = be_checked st" "succs_state (be_step succs st) = ?todo"
    "set (on_stack (be_step succs st)) = set (cur # tos # rest)"
    using inv(1) by (simp_all add: step push_state_def assms(2))
  have fresh: "(tos, cur) \<notin> set (be_found st)"
    using inv(7) new unfolding found_ok_def by blast
  have reach: "(entry, n) \<in> (insert (tos, cur) T)\<^sup>*"
    if "n \<in> set (be_checked st) \<union> set (cur # tos # rest)" for n
  proof (cases "n = cur")
    case True
    have "(entry, tos) \<in> T\<^sup>*" using T assms(2) by (auto simp: tree_edges_def)
    then have "(entry, tos) \<in> (insert (tos, cur) T)\<^sup>*" by (rule rtrancl_mono[THEN subsetD, rotated]) auto
    with True show ?thesis by (auto intro: rtrancl.rtrancl_into_rtrancl)
  next
    case False
    with that T assms(2) have "(entry, n) \<in> T\<^sup>*" by (auto simp: tree_edges_def)
    then show ?thesis by (rule rtrancl_mono[THEN subsetD, rotated]) auto
  qed
  have old: "c \<in> set (be_checked st) \<union> set (tos # rest)" "tos # rest = xs @ c # ys \<Longrightarrow> p \<in> set ys"
    if "(p, c) \<in> T" for p c xs ys
    using T that unfolding tree_edges_def assms(2) by blast+
  have below: "p \<in> set ys" if "(p, c) \<in> insert (tos, cur) T" "cur # tos # rest = xs @ c # ys" for p c xs ys
  proof (cases xs)
    case Nil
    with that(2) have "c = cur" "ys = tos # rest" by auto
    with that(1) old(1)[of p cur] new show ?thesis by auto
  next
    case (Cons x xs')
    with that(2) have "tos # rest = xs' @ c # ys" by simp
    moreover have "c \<noteq> cur" using calculation new by auto
    ultimately show ?thesis using that(1) old(2) by blast
  qed
  have tree: "tree_edges (insert (tos, cur) T) succs entry (be_step succs st)"
    unfolding tree_edges_def shape
  proof (intro conjI)
    show "\<forall>(p, c) \<in> insert (tos, cur) T. c \<in> set (be_checked st) \<union> set (cur # tos # rest) \<and>
        (\<forall>xs ys. cur # tos # rest = xs @ c # ys \<longrightarrow> p \<in> set ys)"
    proof (clarify, intro conjI allI impI)
      fix p c xs ys assume e: "(p, c) \<in> insert (tos, cur) T"
      with old(1)[of p c] show "c \<in> set (be_checked st) \<union> set (cur # tos # rest)" by auto
      assume "cur # tos # rest = xs @ c # ys"
      with e show "p \<in> set ys" by (rule below)
    qed
  qed (use T cur fresh reach in \<open>auto simp: tree_edges_def\<close>)
  have rest_todo: "opened succs ?todo (be_found st) (be_checked st) (Some tos) rest"
    by (rule opened_cong[where todo = "succs_state st" and bes = "be_found st" and checked = "be_checked st"])
       (use inv(2,4) new in auto)
  show ?thesis
  proof (rule be_invI)
    show "opened succs ?todo (be_found st) (be_checked st) None (cur # tos # rest)"
      using rest_todo inv(4) assms(3) new cur by auto
    show "found_ok succs entry (cur # tos # rest) (be_checked st) (be_found st)"
      by (rule found_ok_push[OF inv(7) new])
    show "tree_edges (insert (tos, cur) T) succs entry (be_step succs st)" by (rule tree)
    show "set (?todo n) \<subseteq> set (succs n)" if "n \<in> set (cur # tos # rest)" for n
      using inv(5)[of n] inv(5)[of tos] assms(3) that by auto
  qed (use inv(2,3,6) new in \<open>simp_all add: shape\<close>)
qed

lemma be_skip_inv:
  assumes "be_inv succs entry st" and "be_stack st = tos # rest"
    and "succs_state st tos = ss @ [cur]" and "cur \<notin> set (on_stack st)" and "cur \<in> set (be_checked st)"
  shows "be_inv succs entry (be_step succs st)"
proof -
  note inv = be_invD[OF assms(1,2)]
  let ?todo = "(succs_state st)(tos := ss)"
  have step: "be_step succs st = st\<lparr>succs_state := ?todo\<rparr>"
    using assms(2-5) by (cases ss) (auto simp: be_step_def Let_def)
  from inv(8) obtain T where T: "tree_edges T succs entry st" by blast
  show ?thesis
  proof (rule be_invI)
    show "opened succs ?todo (be_found st) (be_checked st) None (tos # rest)"
      by (rule opened_cong[OF inv(4)]) (use assms(3,5) in auto)
    show "tree_edges T succs entry (be_step succs st)" using T by (simp add: tree_edges_def step)
    show "set (?todo n) \<subseteq> set (succs n)" if "n \<in> set (tos # rest)" for n
      using inv(5)[OF that] assms(3) by auto
  qed (use inv(1,2,3,6,7) assms(2) in \<open>simp_all add: step\<close>)
qed

lemma be_step_inv:
  assumes "be_inv succs entry st" and "be_stack st \<noteq> []"
  shows "be_inv succs entry (be_step succs st)"
proof -
  from assms(2) obtain tos rest where stack: "be_stack st = tos # rest" by (cases "be_stack st") auto
  show ?thesis
  proof (cases "succs_state st tos" rule: rev_cases)
    case Nil
    with assms stack show ?thesis by (intro be_pop_inv)
  next
    case (snoc ss cur)
    with assms stack show ?thesis
      by (cases "cur \<in> set (on_stack st)"; cases "cur \<in> set (be_checked st)")
         (auto intro: be_back_inv be_push_inv be_skip_inv)
  qed
qed

lemma reachable_singleton_in:
  "stays_in succs ns \<Longrightarrow> entry \<in> set ns \<Longrightarrow> reachable succs [entry] \<subseteq> set ns"
  by (rule reachable_in) auto

lemma find_back_edges_returns:
  assumes "stays_in succs ns" and "entry \<in> set ns"
  shows "\<exists>bes. find_back_edges succs entry = Some bes"
proof -
  let ?unseen = "\<lambda>st. card (set ns - set (be_stack st) - set (be_checked st))"
  let ?todo = "\<lambda>st. sum_list (map (\<lambda>n. length (succs_state st n) + 1) (be_stack st))"
  let ?R = "inv_image (less_than <*lex*> less_than) (\<lambda>st. (?unseen st, ?todo st))"
  have "\<exists>st. while_option (\<lambda>st. be_stack st \<noteq> []) (be_step succs) (be_init succs entry) = Some st"
  proof (rule wf_rel_while_option_Some[where P = "be_inv succs entry" and R = ?R])
    show "wf ?R" by auto
    show "be_inv succs entry (be_init succs entry)" by (rule be_init_inv)
    show "be_inv succs entry (be_step succs st)" if "be_inv succs entry st \<and> be_stack st \<noteq> []" for st
      by (rule be_step_inv[OF conjunct1[OF that] conjunct2[OF that]])
    show "(be_step succs st, st) \<in> ?R" if st: "be_inv succs entry st \<and> be_stack st \<noteq> []" for st
    proof -
      from st obtain tos rest where stack: "be_stack st = tos # rest" by (cases "be_stack st") auto
      note inv = be_invD[OF conjunct1[OF st] stack]
      show ?thesis
      proof (cases "succs_state st tos" rule: rev_cases)
        case Nil
        have "set ns - set rest - set (be_checked st @ [tos]) = set ns - set (tos # rest) - set (be_checked st)"
          by auto
        with Nil stack inv(2) show ?thesis by (simp add: be_step_def set_add_def)
      next
        case (snoc ss cur)
        have rest: "map (\<lambda>n. length (((succs_state st)(tos := ss)) n) + 1) rest =
            map (\<lambda>n. length (succs_state st n) + 1) rest"
          using inv(2) by (intro map_cong) auto
        show ?thesis
        proof (cases "cur \<notin> set (on_stack st) \<and> cur \<notin> set (be_checked st)")
          case True
          have "tos \<in> reachable succs [entry]"
            using inv(8) tree_edges_reachable(1)[of _ succs entry st tos] stack by auto
          moreover have "cur \<in> set (succs tos)" using inv(5)[of tos] snoc by auto
          ultimately have "cur \<in> set ns"
            using reachable_singleton_in[OF assms] by (auto dest: reachable_step)
          then have "card (set ns - set (cur # tos # rest) - set (be_checked st))
              < card (set ns - set (tos # rest) - set (be_checked st))"
            using True inv(1) by (intro psubset_card_mono) auto
          with True snoc stack show ?thesis
            by (cases ss) (auto simp: be_step_def Let_def push_state_def)
        next
          case False
          with snoc stack have "be_stack (be_step succs st) = tos # rest"
            "be_checked (be_step succs st) = be_checked st"
            "succs_state (be_step succs st) = (succs_state st)(tos := ss)"
            by (cases ss; auto simp: be_step_def Let_def)+
          with rest snoc stack show ?thesis by (simp del: map_eq_conv)
        qed
      qed
    qed
  qed
  then show ?thesis by (auto simp: find_back_edges_def)
qed

text \<open>What the search establishes: the nodes in finishing order and its back edges.\<close>

lemma find_back_edges_result:
  assumes "find_back_edges succs entry = Some bes"
  shows "\<exists>order. distinct order \<and> set order = reachable succs [entry] \<and> finished succs bes order"
    and "reachable (forward succs bes) [entry] = reachable succs [entry]"
    and "(s, d) \<in> set bes \<Longrightarrow>
      d \<in> set (succs s) \<and> (d, s) \<in> (arcs succs)\<^sup>* \<and> s \<in> reachable succs [entry]"
proof -
  from assms obtain st where run:
    "while_option (\<lambda>st. be_stack st \<noteq> []) (be_step succs) (be_init succs entry) = Some st"
    and bes: "bes = be_found st" by (auto simp: find_back_edges_def)
  then have stack: "be_stack st = []" by (auto dest: while_option_stop)
  have "be_inv succs entry st"
    by (rule while_option_rule[where P = "be_inv succs entry", OF _ run be_init_inv])
       (auto intro: be_step_inv)
  note inv = be_invD[OF this stack]
  from inv(8) obtain T where T: "tree_edges T succs entry st" by blast
  have sub: "set (be_checked st) \<subseteq> reachable succs [entry]"
    "set (be_checked st) \<subseteq> reachable (forward succs bes) [entry]"
    using tree_edges_reachable[OF T] bes by auto
  have closed: "set (succs n) \<subseteq> set (be_checked st)" if "n \<in> set (be_checked st)" for n
  proof
    fix d assume "d \<in> set (succs n)"
    moreover from that obtain xs ys where split: "be_checked st = xs @ n # ys" by (metis split_list)
    ultimately have "(n, d) \<in> set bes \<or> d \<in> set xs"
      using inv(3) bes unfolding finished_def by blast
    with split have "(n, d) \<in> set bes \<or> d \<in> set (be_checked st)" by auto
    then show "d \<in> set (be_checked st)" using inv(7) bes unfolding found_ok_def by auto
  qed
  have "reachable succs [entry] \<subseteq> set (be_checked st)"
    using inv(6) closed by (intro reachable_least) auto
  moreover have "reachable (forward succs bes) [entry] \<subseteq> set (be_checked st)"
    using inv(6) closed by (intro reachable_least) (auto simp: forward_def)
  ultimately have all: "set (be_checked st) = reachable succs [entry]"
    "set (be_checked st) = reachable (forward succs bes) [entry]"
    using sub by blast+
  then show "reachable (forward succs bes) [entry] = reachable succs [entry]" by simp
  show "\<exists>order. distinct order \<and> set order = reachable succs [entry] \<and> finished succs bes order"
    using inv(2,3) all(1) bes by (intro exI[of _ "be_checked st"]) simp
  show "d \<in> set (succs s) \<and> (d, s) \<in> (arcs succs)\<^sup>* \<and> s \<in> reachable succs [entry]"
    if "(s, d) \<in> set bes"
    using inv(7) that bes unfolding found_ok_def by blast
qed

text \<open>A finishing order ranks the remaining edges.\<close>

lemma finished_before:
  assumes "distinct order" and "finished succs bes order" and "a \<in> set order"
    and "b \<in> set (forward succs bes a)"
  obtains i j where "i < length order" "j < i" "order ! i = a" "order ! j = b"
proof -
  from assms(3) obtain xs ys where order: "order = xs @ a # ys" by (metis split_list)
  with assms(2,4) have "b \<in> set xs" by (auto simp: finished_def forward_def)
  then obtain j where "j < length xs" "xs ! j = b" by (auto simp: in_set_conv_nth)
  with that[of "length xs" j] order show thesis by (auto simp: nth_append)
qed

lemma finished_acyclic:
  assumes "distinct order" and "finished succs bes order"
  shows "acyclic {(a, b) \<in> arcs (forward succs bes). a \<in> set order}"
proof -
  let ?rank = "\<lambda>a. THE i. i < length order \<and> order ! i = a"
  have rank: "?rank (order ! i) = i" if "i < length order" for i
    using that assms(1) by (intro the_equality) (auto simp: nth_eq_iff_index_eq)
  have "{(a, b) \<in> arcs (forward succs bes). a \<in> set order} \<subseteq> (measure ?rank)\<inverse>"
  proof clarsimp
    fix a b assume "b \<in> set (forward succs bes a)" "a \<in> set order"
    with assms obtain i j where "i < length order" "j < i" "order ! i = a" "order ! j = b"
      by (metis finished_before)
    then show "?rank b < ?rank a" using rank[of i] rank[of j] by simp
  qed
  moreover have "acyclic ((measure ?rank)\<inverse>)" by (simp add: wf_acyclic)
  ultimately show ?thesis by (rule acyclic_subset[rotated])
qed

text \<open>
  C10. The search for back edges always ends. Every edge it reports closes a cycle: its
  target leads to its source. And the edges that are left between the nodes reachable from
  the entry form no cycle, though they still reach all these nodes.
\<close>

theorem back_edges_break_cycles:
  assumes "stays_in succs ns" and "entry \<in> set ns"
  shows "\<exists>bes. find_back_edges succs entry = Some bes \<and>
    (\<forall>(s, d) \<in> set bes. d \<in> set (succs s) \<and> (d, s) \<in> (arcs succs)\<^sup>*) \<and>
    acyclic {(a, b) \<in> arcs (forward succs bes). a \<in> reachable succs [entry]} \<and>
    reachable (forward succs bes) [entry] = reachable succs [entry]"
proof -
  obtain bes where bes: "find_back_edges succs entry = Some bes"
    using find_back_edges_returns[OF assms] by blast
  note result = find_back_edges_result[OF bes]
  from result(1) obtain order where order: "distinct order" "set order = reachable succs [entry]"
    "finished succs bes order" by blast
  have "acyclic {(a, b) \<in> arcs (forward succs bes). a \<in> reachable succs [entry]}"
    using finished_acyclic[OF order(1,3)] order(2) by simp
  with bes result(2,3) show ?thesis by blast
qed


text \<open>A loop between 0 and 1 with an exit to 2.\<close>

definition small_succs :: "nat \<Rightarrow> nat list" where
  "small_succs n = (if n = 0 then [1] else if n = 1 then [0, 2] else [])"

lemma small_stays: "stays_in small_succs [0, 1, 2]"
  by (simp add: stays_in_def small_succs_def)

theorem back_edges_break_cycles_witness:
  "\<exists>bes. find_back_edges small_succs 0 = Some bes \<and>
    (\<forall>(s, d) \<in> set bes. d \<in> set (small_succs s) \<and> (d, s) \<in> (arcs small_succs)\<^sup>*) \<and>
    acyclic {(a, b) \<in> arcs (forward small_succs bes). a \<in> reachable small_succs [0]} \<and>
    reachable (forward small_succs bes) [0] = reachable small_succs [0]"
  by (rule back_edges_break_cycles[OF small_stays]) simp

section \<open>The topological order\<close>

lemma forward_subset: "set (forward succs bes n) \<subseteq> set (succs n)"
  by (auto simp: forward_def)

lemma reachable_cong:
  assumes "\<And>n. set (nxt n) = set (nxt' n)"
  shows "reachable nxt roots = reachable nxt' roots"
  using assms by (simp add: reachable_def arcs_def)

text \<open>\<open>topological succs bes entry topo\<close>: the order is right for the edges that are not back edges.\<close>

definition topological :: "('n \<Rightarrow> 'n list) \<Rightarrow> ('n \<times> 'n) list \<Rightarrow> 'n \<Rightarrow> 'n list \<Rightarrow> bool" where
  "topological succs bes entry topo \<longleftrightarrow> distinct topo \<and> set topo = reachable succs [entry] \<and>
     (\<forall>xs n ys. topo = xs @ n # ys \<longrightarrow> set (forward succs bes n) \<subseteq> set ys)"

lemma find_topo_order_topological:
  assumes "find_back_edges succs entry = Some bes" and "find_topo_order succs bes entry = Some topo"
  shows "topological succs bes entry topo"
proof -
  let ?nxt = "\<lambda>n. rev (forward succs bes n)"
  from assms(2) obtain order where order: "postorder ?nxt [entry] = Some order" "topo = rev order"
    by (auto simp: find_topo_order_def)
  note po = postorder_result[OF order(1)]
  note bes = find_back_edges_result[OF assms(1)]
  have reach: "reachable ?nxt [entry] = reachable succs [entry]"
    using bes(2) reachable_cong[of ?nxt "forward succs bes"] by simp
  from bes(1) obtain fin where fin: "distinct fin" "set fin = reachable succs [entry]" "finished succs bes fin"
    by blast
  have acyc: "acyclic {(a, b) \<in> arcs (forward succs bes). a \<in> reachable succs [entry]}"
    using finished_acyclic[OF fin(1,3)] fin(2) by simp
  have no_return: "(d, n) \<notin> (arcs ?nxt)\<^sup>+" if "n \<in> reachable succs [entry]" "d \<in> set (?nxt n)" for d n
  proof
    assume "(d, n) \<in> (arcs ?nxt)\<^sup>+"
    moreover have "d \<in> reachable succs [entry]"
      using reachable_step[of n ?nxt "[entry]" d] that reach by simp
    ultimately have "(d, n) \<in> {(a, b) \<in> arcs (forward succs bes). a \<in> reachable succs [entry]}\<^sup>+"
    proof (induction rule: trancl_induct)
      case (base y)
      then show ?case by (intro trancl.r_into_trancl) auto
    next
      case (step y z)
      have "(d, y) \<in> (arcs ?nxt)\<^sup>*" using step.hyps(1) by (rule trancl_into_rtrancl)
      then have "y \<in> reachable ?nxt [entry]"
        using step.prems reach reachable_rtrancl[of d ?nxt "[entry]" y] by simp
      then have "(y, z) \<in> {(a, b) \<in> arcs (forward succs bes). a \<in> reachable succs [entry]}"
        using step.hyps(2) reach by auto
      with step show ?case by (auto intro: trancl.trancl_into_trancl)
    qed
    moreover have "(n, d) \<in> {(a, b) \<in> arcs (forward succs bes). a \<in> reachable succs [entry]}"
      using that by auto
    ultimately have "(n, n) \<in> {(a, b) \<in> arcs (forward succs bes). a \<in> reachable succs [entry]}\<^sup>+"
      by (auto intro: trancl_into_trancl2)
    with acyc show False by (auto simp: acyclic_def)
  qed
  have "set (forward succs bes n) \<subseteq> set ys" if "topo = xs @ n # ys" for xs n ys
  proof
    fix d assume d: "d \<in> set (forward succs bes n)"
    have "order = rev topo" using order(2) by simp
    then have split: "order = rev ys @ n # rev xs" by (simp add: that)
    have "n \<in> set order" unfolding split by simp
    then have "n \<in> reachable succs [entry]" using po(2) reach by simp
    with no_return d have "(d, n) \<notin> (arcs ?nxt)\<^sup>+" by simp
    moreover have "\<forall>d \<in> set (?nxt n). d \<in> set (rev ys) \<or> (d, n) \<in> (arcs ?nxt)\<^sup>+"
      using po(3) split unfolding po_sorted_def by blast
    ultimately show "d \<in> set ys" using d by auto
  qed
  with po reach order(2) show ?thesis by (auto simp: topological_def)
qed

lemma find_topo_order_returns:
  assumes "stays_in succs ns" and "entry \<in> set ns"
  shows "\<exists>topo. find_topo_order succs bes entry = Some topo"
proof -
  have "stays_in (\<lambda>n. rev (forward succs bes n)) ns"
    using assms(1) by (rule stays_in_restrict) (simp add: forward_subset)
  from postorder_returns[OF this, of "[entry]"] assms(2) show ?thesis
    by (auto simp: find_topo_order_def)
qed

section \<open>Descendents\<close>

lemma node_descendents_ok:
  assumes "\<And>d. d \<in> set (forward succs bes n) \<Longrightarrow> \<exists>ds. map_of descs d = Some ds"
  shows "\<exists>ds. node_descendents succs bes descs n = Inr ds \<and>
    set ds = (\<Union>d \<in> set (forward succs bes n). insert d (set (the (map_of descs d))))"
proof -
  have "\<exists>ds. foldE (\<lambda>succ node_descs. if (n, succ) \<notin> set bes then
         bindE (dget descs succ) (\<lambda>ds. Inr (set_update (set_add succ node_descs) ds))
       else Inr node_descs) ss acc = Inr ds \<and>
      set ds = set acc \<union> (\<Union>d \<in> set ss \<inter> {d. (n, d) \<notin> set bes}. insert d (set (the (map_of descs d))))"
    if "\<And>d. d \<in> set ss \<Longrightarrow> (n, d) \<notin> set bes \<Longrightarrow> \<exists>ds. map_of descs d = Some ds" for ss acc
    using that
  proof (induction ss arbitrary: acc)
    case Nil
    then show ?case by simp
  next
    case (Cons s ss)
    show ?case
    proof (cases "(n, s) \<in> set bes")
      case True
      with Cons.IH[of acc] Cons.prems show ?thesis by auto
    next
      case False
      with Cons.prems[of s] obtain ds where "map_of descs s = Some ds" by auto
      with False Cons.IH[of "set_update (set_add s acc) ds"] Cons.prems show ?thesis
        by (auto simp: dget_def)
    qed
  qed
  from this[of "succs n" "[]"] assms show ?thesis
    by (auto simp: node_descendents_def forward_def Int_def)
qed

lemma trancl_first_step: "{b. (a, b) \<in> r\<^sup>+} = (\<Union>d \<in> {d. (a, d) \<in> r}. insert d {b. (d, b) \<in> r\<^sup>+})"
  by (auto intro: trancl_into_trancl2 elim: converse_tranclE)

text \<open>
  C11. The topological order lists exactly the nodes reachable from the entry, each once,
  and every edge that is not a back edge leads to a later node. Computing the descendents
  along it never misses a key, and gives for each node the nodes that it leads to over
  such edges.
\<close>

theorem topo_order_descendents:
  assumes "stays_in succs ns" and "entry \<in> set ns" and "find_back_edges succs entry = Some bes"
  shows "\<exists>topo descs. find_topo_order succs bes entry = Some topo \<and>
    topological succs bes entry topo \<and> find_descendents succs bes topo = Inr descs \<and>
    (\<forall>n \<in> reachable succs [entry]. \<exists>ds. map_of descs n = Some ds \<and>
       set ds = {d. (n, d) \<in> (arcs (forward succs bes))\<^sup>+})"
proof -
  obtain topo where topo: "find_topo_order succs bes entry = Some topo"
    using find_topo_order_returns[OF assms(1,2)] by blast
  have top: "topological succs bes entry topo"
    by (rule find_topo_order_topological[OF assms(3) topo])
  let ?ok = "\<lambda>descs n. \<exists>ds. map_of descs n = Some ds \<and> set ds = {d. (n, d) \<in> (arcs (forward succs bes))\<^sup>+}"
  let ?step = "\<lambda>node descs. bindE (node_descendents succs bes descs node) (\<lambda>ds. Inr (dset node ds descs))"
  have "\<exists>descs'. foldE ?step (rev xs) descs = Inr descs' \<and> (\<forall>n \<in> set (xs @ ys). ?ok descs' n)"
    if "topo = xs @ ys" "\<forall>n \<in> set ys. ?ok descs n" for xs ys descs
    using that
  proof (induction xs arbitrary: ys descs rule: rev_induct)
    case Nil
    then show ?case by simp
  next
    case (snoc n xs)
    then have fw: "set (forward succs bes n) \<subseteq> set ys" by (auto simp: topological_def dest: top[unfolded topological_def, THEN conjunct2, THEN conjunct2, rule_format])
    with snoc.prems(2) obtain ds where ds: "node_descendents succs bes descs n = Inr ds"
      "set ds = (\<Union>d \<in> set (forward succs bes n). insert d (set (the (map_of descs d))))"
      using node_descendents_ok[of succs bes n descs] by blast
    have "set ds = (\<Union>d \<in> {d. (n, d) \<in> arcs (forward succs bes)}. insert d {b. (d, b) \<in> (arcs (forward succs bes))\<^sup>+})"
      unfolding ds(2) using fw snoc.prems(2) by fastforce
    also have "\<dots> = {d. (n, d) \<in> (arcs (forward succs bes))\<^sup>+}" by (rule trancl_first_step[symmetric])
    finally have "set ds = {d. (n, d) \<in> (arcs (forward succs bes))\<^sup>+}" .
    with snoc.prems(2) have "\<forall>m \<in> set (n # ys). ?ok (dset n ds descs) m" by auto
    with snoc.IH[of "n # ys" "dset n ds descs"] snoc.prems(1) ds(1) show ?case by simp
  qed
  from this[of topo "[]" "[]"] obtain descs where
    "find_descendents succs bes topo = Inr descs" "\<forall>n \<in> set topo. ?ok descs n"
    by (auto simp: find_descendents_def)
  with topo top show ?thesis by (auto simp: topological_def)
qed


lemma small_back_edges: "find_back_edges small_succs 0 = Some [(1, 0)]"
  by code_simp

theorem topo_order_descendents_witness:
  "\<exists>topo descs. find_topo_order small_succs [(1, 0)] 0 = Some topo \<and>
    topological small_succs [(1, 0)] 0 topo \<and> find_descendents small_succs [(1, 0)] topo = Inr descs \<and>
    (\<forall>n \<in> reachable small_succs [0]. \<exists>ds. map_of descs n = Some ds \<and>
       set ds = {d. (n, d) \<in> (arcs (forward small_succs [(1, 0)]))\<^sup>+})"
  by (rule topo_order_descendents[OF small_stays _ small_back_edges]) simp

end
