(* ===== verification/Loops.thy ===== *)
theory Loops
  imports BackEdges
begin

text \<open>
  The natural loops of a graph: \<open>Loop\<close>, \<open>_find_loops\<close>, \<open>_find_in_loops\<close> and \<open>in_loops\<close> of
  \<open>numba_cuda/core/controlflow.py\<close>. Loops are kept in a dictionary by their header.
\<close>

record 'n loop =
  l_entries :: "'n list"
  l_exits :: "'n list"
  l_header :: 'n
  l_body :: "'n list"

text \<open>Loops of one graph are equal when their headers are (\<open>Loop.__eq__\<close>).\<close>

definition loop_eq :: "'n loop \<Rightarrow> 'n loop \<Rightarrow> bool" where
  "loop_eq a b \<longleftrightarrow> l_header a = l_header b"

text \<open>
  The body of one back edge: from its source up the predecessors, stopping at the header.
\<close>

definition loop_body :: "('n \<Rightarrow> 'n list) \<Rightarrow> 'n \<Rightarrow> 'n \<Rightarrow> 'n list option" where
  "loop_body preds src header = dfs preds [header] [src]"

fun loop_bodies ::
  "('n \<Rightarrow> 'n list) \<Rightarrow> ('n \<times> 'n) list \<Rightarrow> ('n, 'n list) dict \<Rightarrow> ('n, 'n list) dict option" where
  "loop_bodies preds [] bodies = Some bodies"
| "loop_bodies preds ((src, dest) # bes) bodies =
     (case loop_body preds src dest of
        None \<Rightarrow> None
      | Some body \<Rightarrow>
          loop_bodies preds bes
            (case map_of bodies dest of
               Some old \<Rightarrow> dset dest (set_update old body) bodies
             | None \<Rightarrow> dset dest body bodies))"

definition outside :: "('n \<Rightarrow> 'n list) \<Rightarrow> 'n list \<Rightarrow> 'n list" where
  "outside nxt body = fold (\<lambda>n acc. set_update acc (filter (\<lambda>m. m \<notin> set body) (nxt n))) body []"

definition make_loop :: "('n \<Rightarrow> 'n list) \<Rightarrow> ('n \<Rightarrow> 'n list) \<Rightarrow> 'n \<Rightarrow> 'n list \<Rightarrow> 'n loop" where
  "make_loop preds succs header body =
     \<lparr>l_entries = outside preds body, l_exits = outside succs body, l_header = header, l_body = body\<rparr>"

definition find_loops ::
  "('n \<Rightarrow> 'n list) \<Rightarrow> ('n \<Rightarrow> 'n list) \<Rightarrow> ('n \<times> 'n) list \<Rightarrow> ('n, 'n loop) dict option" where
  "find_loops preds succs bes =
     map_option (map (\<lambda>(header, body). (header, make_loop preds succs header body)))
       (loop_bodies preds bes [])"

text \<open>Every node's loops, from the smallest body to the largest.\<close>

definition add_in_loops :: "'n loop \<Rightarrow> ('n, 'n list) dict \<Rightarrow> ('n, 'n list) dict res" where
  "add_in_loops l d =
     foldE (\<lambda>n d. bindE (dget d n) (\<lambda>hs. Inr (dset n (hs @ [l_header l]) d))) (l_body l) d"

definition find_in_loops :: "'n list \<Rightarrow> ('n, 'n loop) dict \<Rightarrow> ('n, 'n list) dict res" where
  "find_in_loops nodes loops =
     foldE add_in_loops (sort_key (\<lambda>l. length (l_body l)) (dvalues loops)) (map (\<lambda>n. (n, [])) nodes)"

definition in_loops :: "('n, 'n loop) dict \<Rightarrow> ('n, 'n list) dict \<Rightarrow> 'n \<Rightarrow> 'n loop list res" where
  "in_loops loops inl n =
     mapE (dget loops) (case map_of inl n of None \<Rightarrow> [] | Some hs \<Rightarrow> hs)"

section \<open>Bodies\<close>

text \<open>
  The natural loop of a header: the header, and what reaches the source of one of its back
  edges without passing through it.
\<close>

definition natural_loop :: "('n \<Rightarrow> 'n list) \<Rightarrow> ('n \<times> 'n) list \<Rightarrow> 'n \<Rightarrow> 'n set" where
  "natural_loop preds bes h =
     insert h (reachable (\<lambda>n. if n = h then [] else preds n) (map fst (filter (\<lambda>e. snd e = h) bes)))"

lemma reachable_append: "reachable nxt (xs @ ys) = reachable nxt xs \<union> reachable nxt ys"
  by (auto simp: reachable_def)

lemma natural_loop_simps:
  "natural_loop preds [] h = {h}"
  "natural_loop preds ((s, d) # bes) h =
     (if d = h then reachable (\<lambda>n. if n = h then [] else preds n) [s] else {}) \<union> natural_loop preds bes h"
  using reachable_append[of "\<lambda>n. if n = h then [] else preds n" "[s]"]
  by (auto simp: natural_loop_def reachable_def)

lemma loop_body_result:
  "loop_body preds s h = Some body \<Longrightarrow>
    set body = insert h (reachable (\<lambda>n. if n = h then [] else preds n) [s]) \<and> distinct body"
  using dfs_result[of preds "[h]" "[s]" body] by (simp add: loop_body_def)

definition body_at :: "('n, 'n list) dict \<Rightarrow> 'n \<Rightarrow> 'n list" where
  "body_at bodies h = (case map_of bodies h of None \<Rightarrow> [] | Some b \<Rightarrow> b)"

definition bodies_ok :: "('n, 'n list) dict \<Rightarrow> bool" where
  "bodies_ok bodies \<longleftrightarrow> distinct (dkeys bodies) \<and>
     (\<forall>h b. map_of bodies h = Some b \<longrightarrow> h \<in> set b \<and> distinct b)"

lemma bodies_ok_dset: "bodies_ok bodies \<Longrightarrow> h \<in> set b \<Longrightarrow> distinct b \<Longrightarrow> bodies_ok (dset h b bodies)"
  by (simp add: bodies_ok_def distinct_update)

lemma bodies_okD: "bodies_ok bodies \<Longrightarrow> map_of bodies h = Some b \<Longrightarrow> h \<in> set b \<and> distinct b"
  unfolding bodies_ok_def by blast

lemma body_at_dset: "body_at (dset d b bodies) h = (if h = d then b else body_at bodies h)"
  by (simp add: body_at_def)

lemma loop_bodies_result:
  assumes "loop_bodies preds bes bodies = Some bodies'" and "bodies_ok bodies"
  shows "bodies_ok bodies'" and "fst ` set bodies' = fst ` set bodies \<union> snd ` set bes"
    and "set (body_at bodies' h) =
      set (body_at bodies h) \<union> (if h \<in> snd ` set bes then natural_loop preds bes h else {})"
  using assms
proof (induction bes arbitrary: bodies)
  case Nil
  { case 1 then show ?case by simp }
  { case 2 then show ?case by simp }
  { case 3 then show ?case by simp }
next
  case (Cons e bes)
  obtain s d where e: "e = (s, d)" by (cases e)
  have body: "\<exists>body b. loop_body preds s d = Some body \<and> d \<in> set b \<and> distinct b \<and>
      set b = set (body_at bodies d) \<union> set body \<and> loop_bodies preds bes (dset d b bodies) = Some bodies'"
    if run: "loop_bodies preds (e # bes) bodies = Some bodies'" and ok: "bodies_ok bodies" for bodies
  proof -
    from run obtain body where body: "loop_body preds s d = Some body"
      by (auto simp: e split: option.splits)
    show ?thesis
    proof (cases "map_of bodies d")
      case None
      with run body loop_body_result[OF body] show ?thesis
        by (intro exI[of _ body]) (simp add: e body_at_def)
    next
      case (Some old)
      with run body loop_body_result[OF body] bodies_okD[OF ok Some] show ?thesis
        by (intro exI[of _ body] exI[of _ "set_update old body"]) (simp add: e body_at_def)
    qed
  qed
  {
    case 1
    with body[of bodies] Cons.IH(1) show ?case by (blast intro: bodies_ok_dset)
  next
    case 2
    from body[OF 2] obtain b where "loop_bodies preds bes (dset d b bodies) = Some bodies'"
      "bodies_ok (dset d b bodies)" using 2(2) by (blast intro: bodies_ok_dset)
    from Cons.IH(2)[OF this] show ?case by (simp add: e)
  next
    case 3
    from body[OF 3] obtain bd b where bd: "loop_body preds s d = Some bd"
      "set b = set (body_at bodies d) \<union> set bd"
      "loop_bodies preds bes (dset d b bodies) = Some bodies'" "bodies_ok (dset d b bodies)"
      using 3(2) by (blast intro: bodies_ok_dset)
    let ?R = "reachable (\<lambda>n. if n = d then [] else preds n) [s]"
    have R: "set bd = insert d ?R" using loop_body_result[OF bd(1)] by simp
    have split: "natural_loop preds (e # bes) h = (if d = h then ?R else {}) \<union> natural_loop preds bes h"
      by (auto simp: e natural_loop_simps(2))
    have "natural_loop preds bes d = {d}" if "d \<notin> snd ` set bes"
    proof -
      have "filter (\<lambda>e. snd e = d) bes = []" using that by (auto simp: filter_empty_conv)
      then show ?thesis by (simp add: natural_loop_def reachable_def)
    qed
    moreover have "d \<in> natural_loop preds bes d" by (simp add: natural_loop_def)
    moreover have "snd ` set (e # bes) = insert d (snd ` set bes)" by (simp add: e)
    ultimately show ?case
      unfolding Cons.IH(3)[OF bd(3,4)] body_at_dset split using R bd(2) by auto
  }
qed

lemma loop_bodies_returns:
  assumes "stays_in preds ns" and "fst ` set bes \<subseteq> set ns"
  shows "\<exists>bodies'. loop_bodies preds bes bodies = Some bodies'"
  using assms(2)
proof (induction bes arbitrary: bodies)
  case (Cons e bes)
  obtain s d where e: "e = (s, d)" by (cases e)
  from dfs_returns[OF assms(1), of "[s]" "[d]"] Cons.prems e obtain body where
    "loop_body preds s d = Some body" by (auto simp: loop_body_def)
  with Cons e show ?case by (auto split: option.splits)
qed simp

lemma set_outside: "set (outside nxt body) = (\<Union>n \<in> set body. set (nxt n)) - set body"
proof -
  have "set (fold (\<lambda>n acc. set_update acc (filter (\<lambda>m. m \<notin> B) (nxt n))) ns acc) =
      set acc \<union> ((\<Union>n \<in> set ns. set (nxt n)) - B)" for ns acc B
    by (induction ns arbitrary: acc) auto
  from this[of "set body" body "[]"] show ?thesis by (simp add: outside_def)
qed

lemma find_loops_keys: "find_loops preds succs bes = Some loops \<Longrightarrow> distinct (dkeys loops)"
proof -
  assume "find_loops preds succs bes = Some loops"
  then obtain bodies where run: "loop_bodies preds bes [] = Some bodies"
    and loops: "loops = map (\<lambda>(header, body). (header, make_loop preds succs header body)) bodies"
    by (auto simp: find_loops_def)
  have "bodies_ok []" by (simp add: bodies_ok_def)
  from loop_bodies_result(1)[OF run this] show ?thesis
    by (simp add: loops bodies_ok_def comp_def case_prod_unfold)
qed

lemma find_loops_natural:
  assumes "stays_in preds ns" and "fst ` set bes \<subseteq> set ns"
    and "\<And>a b. a \<in> set (preds b) \<longleftrightarrow> b \<in> set (succs a)" and "\<And>s d. (s, d) \<in> set bes \<Longrightarrow> d \<in> set (succs s)"
  shows "\<exists>loops. find_loops preds succs bes = Some loops \<and> fst ` set loops = snd ` set bes \<and>
    (\<forall>h l. map_of loops h = Some l \<longrightarrow> l_header l = h \<and> distinct (l_body l) \<and>
      set (l_body l) = natural_loop preds bes h \<and>
      set (l_entries l) = (\<Union>n \<in> set (l_body l). set (preds n)) - set (l_body l) \<and>
      set (l_exits l) = (\<Union>n \<in> set (l_body l). set (succs n)) - set (l_body l) \<and>
      (\<forall>n \<in> set (l_body l). (n, h) \<in> (arcs succs)\<^sup>*))"
proof -
  obtain bodies where run: "loop_bodies preds bes [] = Some bodies"
    using loop_bodies_returns[OF assms(1,2)] by blast
  have "bodies_ok []" by (simp add: bodies_ok_def)
  note result = loop_bodies_result[OF run this]
  have keys: "fst ` set bodies = snd ` set bes" using result(2) by simp
  have vals: "distinct b \<and> set b = natural_loop preds bes h" if look: "map_of bodies h = Some b" for h b
  proof -
    have "h \<in> snd ` set bes" unfolding keys[symmetric] using map_of_SomeD[OF look] by force
    with result(3)[of h] bodies_okD[OF result(1) look] show ?thesis by (simp add: body_at_def look)
  qed
  let ?loops = "map (\<lambda>(header, body). (header, make_loop preds succs header body)) bodies"
  have look: "map_of ?loops h = map_option (make_loop preds succs h) (map_of bodies h)" for h
    by (induction bodies) auto
  have to_header: "(n, h) \<in> (arcs succs)\<^sup>*" if "n \<in> natural_loop preds bes h" for n h
  proof -
    have "(n, h) \<in> (arcs succs)\<^sup>*"
      if "n \<in> reachable (\<lambda>n. if n = h then [] else preds n) (map fst (filter (\<lambda>e. snd e = h) bes))"
      using that
    proof (induction rule: reachable_induct)
      case (root r)
      with assms(4) have "(r, h) \<in> arcs succs" by auto
      then show ?case by (rule r_into_rtrancl)
    next
      case (step a b)
      then have "b \<in> set (preds a)" by (auto split: if_splits)
      then have "(b, a) \<in> arcs succs" using assms(3) by simp
      with step show ?case by (auto intro: converse_rtrancl_into_rtrancl)
    qed
    with that show ?thesis by (auto simp: natural_loop_def)
  qed
  have "find_loops preds succs bes = Some ?loops" by (simp add: find_loops_def run)
  moreover have "fst ` set ?loops = snd ` set bes" using keys by force
  moreover have "l_header l = h \<and> distinct (l_body l) \<and> set (l_body l) = natural_loop preds bes h \<and>
      set (l_entries l) = (\<Union>n \<in> set (l_body l). set (preds n)) - set (l_body l) \<and>
      set (l_exits l) = (\<Union>n \<in> set (l_body l). set (succs n)) - set (l_body l) \<and>
      (\<forall>n \<in> set (l_body l). (n, h) \<in> (arcs succs)\<^sup>*)" if "map_of ?loops h = Some l" for h l
  proof -
    from that obtain b where b: "map_of bodies h = Some b" "l = make_loop preds succs h b"
      unfolding look by auto
    with vals[OF b(1)] to_header[of _ h] show ?thesis by (simp add: make_loop_def set_outside)
  qed
  ultimately show ?thesis by blast
qed

lemma find_loops_bodies:
  assumes "stays_in preds ns" and "fst ` set bes \<subseteq> set ns"
    and "\<And>a b. a \<in> set (preds b) \<longleftrightarrow> b \<in> set (succs a)" and "\<And>s d. (s, d) \<in> set bes \<Longrightarrow> d \<in> set (succs s)"
  obtains loops where "find_loops preds succs bes = Some loops" and "fst ` set loops = snd ` set bes"
    and "\<And>h l. map_of loops h = Some l \<Longrightarrow> l_header l = h"
    and "\<And>h l. map_of loops h = Some l \<Longrightarrow> distinct (l_body l)"
    and "\<And>h l n. map_of loops h = Some l \<Longrightarrow> n \<in> set (l_body l) \<Longrightarrow> (n, h) \<in> (arcs succs)\<^sup>*"
proof -
  have "\<exists>loops. find_loops preds succs bes = Some loops \<and> fst ` set loops = snd ` set bes \<and>
    (\<forall>h l. map_of loops h = Some l \<longrightarrow> l_header l = h \<and> distinct (l_body l) \<and>
      set (l_body l) = natural_loop preds bes h \<and>
      set (l_entries l) = (\<Union>n \<in> set (l_body l). set (preds n)) - set (l_body l) \<and>
      set (l_exits l) = (\<Union>n \<in> set (l_body l). set (succs n)) - set (l_body l) \<and>
      (\<forall>n \<in> set (l_body l). (n, h) \<in> (arcs succs)\<^sup>*))"
    using assms by (rule find_loops_natural)
  then obtain loops where a: "find_loops preds succs bes = Some loops" and b: "fst ` set loops = snd ` set bes"
    and c: "\<forall>h l. map_of loops h = Some l \<longrightarrow> l_header l = h \<and> distinct (l_body l) \<and>
      set (l_body l) = natural_loop preds bes h \<and>
      set (l_entries l) = (\<Union>n \<in> set (l_body l). set (preds n)) - set (l_body l) \<and>
      set (l_exits l) = (\<Union>n \<in> set (l_body l). set (succs n)) - set (l_body l) \<and>
      (\<forall>n \<in> set (l_body l). (n, h) \<in> (arcs succs)\<^sup>*)"
    by (elim exE conjE) (rule that; assumption)
  note c = c[THEN spec, THEN spec, THEN mp]
  show thesis
  proof (rule that[OF a b])
    fix h l assume l: "map_of loops h = Some l"
    show "l_header l = h" by (rule conjunct1[OF c[OF l]])
    show "distinct (l_body l)" by (rule conjunct1[OF conjunct2[OF c[OF l]]])
    have "\<forall>n \<in> set (l_body l). (n, h) \<in> (arcs succs)\<^sup>*" using c[OF l] by (elim conjE)
    then show "n \<in> set (l_body l) \<Longrightarrow> (n, h) \<in> (arcs succs)\<^sup>*" for n by (rule bspec)
  qed
qed

text \<open>
  C12. Finding the loops always ends, with one loop for every target of a back edge. Its
  body is the natural loop of that header, free of duplicates; its entries are the
  predecessors, its exits the successors of the body that lie outside it; and every node of
  the body leads to the header.
\<close>

theorem loops_are_natural:
  assumes "stays_in preds ns" and "fst ` set bes \<subseteq> set ns"
    and "\<And>a b. a \<in> set (preds b) \<longleftrightarrow> b \<in> set (succs a)" and "\<And>s d. (s, d) \<in> set bes \<Longrightarrow> d \<in> set (succs s)"
  shows "\<exists>loops. find_loops preds succs bes = Some loops \<and> fst ` set loops = snd ` set bes \<and>
    (\<forall>h l. map_of loops h = Some l \<longrightarrow> l_header l = h \<and> distinct (l_body l) \<and>
      set (l_body l) = natural_loop preds bes h \<and>
      set (l_entries l) = (\<Union>n \<in> set (l_body l). set (preds n)) - set (l_body l) \<and>
      set (l_exits l) = (\<Union>n \<in> set (l_body l). set (succs n)) - set (l_body l) \<and>
      (\<forall>n \<in> set (l_body l). (n, h) \<in> (arcs succs)\<^sup>*))"
  using assms by (rule find_loops_natural)

definition small_preds :: "nat \<Rightarrow> nat list" where
  "small_preds n = (if n = 0 then [1] else if n = 1 then [0] else if n = 2 then [1] else [])"

theorem loops_are_natural_witness:
  "\<exists>loops. find_loops small_preds small_succs [(1, 0)] = Some loops \<and>
    fst ` set loops = snd ` set [(1::nat, 0)] \<and>
    (\<forall>h l. map_of loops h = Some l \<longrightarrow> l_header l = h \<and> distinct (l_body l) \<and>
      set (l_body l) = natural_loop small_preds [(1, 0)] h \<and>
      set (l_entries l) = (\<Union>n \<in> set (l_body l). set (small_preds n)) - set (l_body l) \<and>
      set (l_exits l) = (\<Union>n \<in> set (l_body l). set (small_succs n)) - set (l_body l) \<and>
      (\<forall>n \<in> set (l_body l). (n, h) \<in> (arcs small_succs)\<^sup>*))"
proof (rule loops_are_natural)
  show "stays_in small_preds [0, 1, 2]" by (simp add: stays_in_def small_preds_def)
qed (auto simp: small_succs_def small_preds_def split: if_splits)

section \<open>The loops of a node\<close>

lemma add_in_loops_ok:
  assumes "distinct (l_body l)" and "set (l_body l) \<subseteq> fst ` set d"
  shows "\<exists>d'. add_in_loops l d = Inr d' \<and> fst ` set d' = fst ` set d \<and>
    (\<forall>n. map_of d' n = map_option (\<lambda>hs. if n \<in> set (l_body l) then hs @ [l_header l] else hs) (map_of d n))"
proof -
  have "\<exists>d'. foldE (\<lambda>n d. bindE (dget d n) (\<lambda>hs. Inr (dset n (hs @ [x]) d))) ns d = Inr d' \<and>
      fst ` set d' = fst ` set d \<and>
      (\<forall>n. map_of d' n = map_option (\<lambda>hs. if n \<in> set ns then hs @ [x] else hs) (map_of d n))"
    if "distinct ns" "set ns \<subseteq> fst ` set d" for ns and x :: 'a and d
    using that
  proof (induction ns arbitrary: d)
    case Nil
    then show ?case by (simp add: option.map_ident)
  next
    case (Cons n ns)
    then obtain hs where hs: "map_of d n = Some hs" using map_of_eq_None_iff[of d n] by fastforce
    from Cons.prems hs have "set ns \<subseteq> fst ` set (dset n (hs @ [x]) d)" by auto
    with Cons.IH[of "dset n (hs @ [x]) d"] Cons.prems(1) obtain d' where
      "foldE (\<lambda>n d. bindE (dget d n) (\<lambda>hs. Inr (dset n (hs @ [x]) d))) ns (dset n (hs @ [x]) d) = Inr d'"
      "fst ` set d' = fst ` set (dset n (hs @ [x]) d)"
      "\<forall>m. map_of d' m = map_option (\<lambda>hs. if m \<in> set ns then hs @ [x] else hs) (map_of (dset n (hs @ [x]) d) m)"
      by auto
    with hs Cons.prems show ?case
      by (intro exI[of _ d']) (auto simp: dget_def)
  qed
  from this[OF assms, of "l_header l"] show ?thesis by (simp add: add_in_loops_def)
qed

lemma fold_add_in_loops_ok:
  assumes "\<And>l. l \<in> set ls \<Longrightarrow> distinct (l_body l) \<and> set (l_body l) \<subseteq> fst ` set d"
  shows "\<exists>d'. foldE add_in_loops ls d = Inr d' \<and>
    (\<forall>n. map_of d' n =
       map_option (\<lambda>hs. hs @ map l_header (filter (\<lambda>l. n \<in> set (l_body l)) ls)) (map_of d n))"
  using assms
proof (induction ls arbitrary: d)
  case Nil
  then show ?case by (simp add: option.map_ident)
next
  case (Cons l ls)
  from add_in_loops_ok[of l d] Cons.prems[of l] obtain d1 where d1: "add_in_loops l d = Inr d1"
    "fst ` set d1 = fst ` set d"
    "\<forall>n. map_of d1 n = map_option (\<lambda>hs. if n \<in> set (l_body l) then hs @ [l_header l] else hs) (map_of d n)"
    by auto
  from Cons.IH[of d1] Cons.prems d1(2) obtain d2 where d2: "foldE add_in_loops ls d1 = Inr d2"
    "\<forall>n. map_of d2 n =
       map_option (\<lambda>hs. hs @ map l_header (filter (\<lambda>l. n \<in> set (l_body l)) ls)) (map_of d1 n)" by auto
  have "map_of d2 n = map_option (\<lambda>hs. hs @ map l_header (filter (\<lambda>l. n \<in> set (l_body l)) (l # ls))) (map_of d n)" for n
    using d1(3)[rule_format, of n] d2(2)[rule_format, of n] by (cases "map_of d n") auto
  with d1(1) d2(1) show ?case by auto
qed

text \<open>
  For loops kept by their headers, with bodies inside the graph, the loops reported for
  a node are exactly the loops whose body contains it, from the smallest body to the
  largest.
\<close>

theorem in_loops_innermost_first:
  assumes "\<And>h l. (h, l) \<in> set loops \<Longrightarrow> l_header l = h \<and> distinct (l_body l) \<and> set (l_body l) \<subseteq> set nodes"
    and "distinct (dkeys loops)" and "n \<in> set nodes"
  shows "\<exists>inl ls. find_in_loops nodes loops = Inr inl \<and> in_loops loops inl n = Inr ls \<and>
    set ls = {l \<in> set (dvalues loops). n \<in> set (l_body l)} \<and> distinct (map l_header ls) \<and>
    sorted (map (\<lambda>l. length (l_body l)) ls)"
proof -
  let ?sorted = "sort_key (\<lambda>l. length (l_body l)) (dvalues loops)"
  let ?ls = "filter (\<lambda>l. n \<in> set (l_body l)) ?sorted"
  let ?d = "map (\<lambda>n. (n, [])) nodes"
  have "distinct (l_body l) \<and> set (l_body l) \<subseteq> fst ` set ?d" if "l \<in> set ?sorted" for l
    using that assms(1) by (fastforce simp: image_image)
  from fold_add_in_loops_ok[of ?sorted ?d, OF this] obtain inl where
    inl: "find_in_loops nodes loops = Inr inl" and
    vals: "map_of inl m = map_option (\<lambda>hs. hs @ map l_header (filter (\<lambda>l. m \<in> set (l_body l)) ?sorted)) (map_of ?d m)" for m
    unfolding find_in_loops_def by auto
  have "map_of ?d n = Some []" using assms(3) by (induction nodes) auto
  with vals[of n] have look: "map_of inl n = Some (map l_header ?ls)" by simp
  have get: "dget loops (l_header l) = Inr l" if "l \<in> set ?ls" for l
  proof -
    from that obtain h where "(h, l) \<in> set loops" by auto
    with assms(1,2) show ?thesis by (auto simp: dget_def map_of_is_SomeI)
  qed
  have "mapE (dget loops) (map l_header ls) = Inr ls" if "set ls \<subseteq> set ?ls" for ls
    using that get by (induction ls) auto
  then have "in_loops loops inl n = Inr ?ls" by (simp add: in_loops_def look)
  moreover have "sorted (map (\<lambda>l. length (l_body l)) ?ls)" by (intro sorted_filter) simp
  moreover have "distinct (map l_header ?ls)"
  proof -
    have "map l_header (dvalues loops) = dkeys loops"
      using assms(1) by (auto simp: comp_def)
    then have "distinct (map l_header (dvalues loops))" using assms(2) by (simp only:)
    then have "inj_on l_header (set (dvalues loops))" "distinct (dvalues loops)"
      using distinct_map[of l_header "dvalues loops"] by blast+
    then show ?thesis by (auto simp: distinct_map intro: inj_on_subset)
  qed
  ultimately show ?thesis using inl by auto
qed


definition small_loops :: "(nat, nat loop) dict" where
  "small_loops = [(0, \<lparr>l_entries = [], l_exits = [2], l_header = 0, l_body = [0, 1]\<rparr>)]"

theorem in_loops_innermost_first_witness:
  "\<exists>inl ls. find_in_loops [0, 1, 2] small_loops = Inr inl \<and> in_loops small_loops inl 1 = Inr ls \<and>
    set ls = {l \<in> set (dvalues small_loops). 1 \<in> set (l_body l)} \<and> distinct (map l_header ls) \<and>
    sorted (map (\<lambda>l. length (l_body l)) ls)"
  by (rule in_loops_innermost_first) (auto simp: small_loops_def)

end
