(* ===== verification/Dominators.thy ===== *)
theory Dominators
  imports Loops
begin

text \<open>
  Dominators of \<open>CFGraph\<close> in \<open>core/controlflow.py\<close>: the immediate dominators by the
  algorithm of Cooper, Harvey and Kennedy, the dominator sets, the dominator tree and the
  dominance frontier. In the tables of the algorithm \<open>None\<close> is the virtual root.
\<close>

section \<open>Immediate dominators\<close>

type_synonym 'n idoms = "('n option, 'n option) dict"

text \<open>\<open>idx\<close>: the position in the post-order; the virtual root comes last.\<close>

definition node_idx :: "'n list \<Rightarrow> 'n option \<Rightarrow> nat" where
  "node_idx order u =
     (case u of None \<Rightarrow> length order | Some n \<Rightarrow> length (takeWhile (\<lambda>m. m \<noteq> n) order))"

definition climb :: "'n list \<Rightarrow> 'n idoms \<Rightarrow> nat \<Rightarrow> 'n option \<Rightarrow> 'n option res option" where
  "climb order idom limit u = loopE (\<lambda>u. node_idx order u < limit) (\<lambda>u. Some (dget idom u)) u"

definition intersect :: "'n list \<Rightarrow> 'n idoms \<Rightarrow> 'n option \<Rightarrow> 'n option \<Rightarrow> 'n option res option" where
  "intersect order idom u v =
     bindO (loopE (\<lambda>(u, v). u \<noteq> v)
              (\<lambda>(u, v). bindO (climb order idom (node_idx order v) u) (\<lambda>u'.
                        bindO (climb order idom (node_idx order u') v) (\<lambda>v'. Some (Inr (u', v')))))
              (u, v))
       (\<lambda>(u, v). Some (Inr u))"

fun reduce :: "('a \<Rightarrow> 'a \<Rightarrow> 'a res option) \<Rightarrow> 'a list \<Rightarrow> 'a res option" where
  "reduce f [] = Some (Inl TypeError)"
| "reduce f (x # xs) = foldO (\<lambda>y acc. f acc y) xs x"

definition dom_preds :: "'n list \<Rightarrow> ('n \<Rightarrow> 'n list) \<Rightarrow> 'n idoms \<Rightarrow> 'n \<Rightarrow> 'n option list" where
  "dom_preds roots preds idom u =
     map Some (filter (\<lambda>v. Some v \<in> set (dkeys idom)) (preds u)) @ (if u \<in> set roots then [None] else [])"

definition dom_update ::
  "'n list \<Rightarrow> ('n \<Rightarrow> 'n list) \<Rightarrow> 'n list \<Rightarrow> 'n \<Rightarrow> 'n idoms \<times> bool \<Rightarrow> ('n idoms \<times> bool) res option" where
  "dom_update roots preds order u = (\<lambda>(idom, changed).
     bindO (reduce (intersect order idom) (dom_preds roots preds idom u)) (\<lambda>new_idom.
       Some (Inr (if map_of idom (Some u) \<noteq> Some new_idom
                  then (dset (Some u) new_idom idom, True) else (idom, changed)))))"

definition dom_pass ::
  "'n list \<Rightarrow> ('n \<Rightarrow> 'n list) \<Rightarrow> 'n list \<Rightarrow> 'n idoms \<times> bool \<Rightarrow> ('n idoms \<times> bool) res option" where
  "dom_pass roots preds order = (\<lambda>(idom, changed).
     foldO (dom_update roots preds order) (rev order) (idom, False))"

text \<open>The result: roots map to themselves, nodes under the virtual root to \<open>None\<close>.\<close>

definition idom_result ::
  "'n list \<Rightarrow> 'n idoms \<Rightarrow> 'n \<Rightarrow> ('n, 'n option) dict \<Rightarrow> ('n, 'n option) dict res" where
  "idom_result roots idom u r =
     bindE (dget idom (Some u)) (\<lambda>v. Inr (dset u (if u \<in> set roots then Some u else v) r))"

definition immediate_dominators ::
  "'n list \<Rightarrow> ('n \<Rightarrow> 'n list) \<Rightarrow> ('n \<Rightarrow> 'n list) \<Rightarrow> ('n, 'n option) dict res option" where
  "immediate_dominators roots preds succs =
     (case postorder succs roots of
        None \<Rightarrow> None
      | Some order \<Rightarrow>
          bindO (loopE snd (dom_pass roots preds order) ([(None, None)], True)) (\<lambda>(idom, changed).
            Some (foldE (idom_result roots idom) order [])))"

definition find_immediate_dominators :: "('n, 'd) cfgraph \<Rightarrow> ('n, 'n option) dict res option" where
  "find_immediate_dominators g =
     (case entry_point g of
        None \<Rightarrow> Some (Inl RuntimeError)
      | Some entry \<Rightarrow> immediate_dominators [entry] (g_preds g) (g_succs g))"

section \<open>Dominator sets\<close>

text \<open>
  Climb from a node to the first ancestor whose set is known, then fill the sets of the
  chain on the way back. The chain is kept with its last node first.
\<close>

definition dom_chain_step ::
  "('n, 'n option) dict \<Rightarrow> 'n list \<times> 'n option \<Rightarrow> ('n list \<times> 'n option) res" where
  "dom_chain_step idom = (\<lambda>(chain, cur).
     case cur of
       None \<Rightarrow> Inr (chain, None)
     | Some c \<Rightarrow> bindE (dget idom c) (\<lambda>parent. Inr (c # chain, if parent = Some c then None else parent)))"

definition fill_chain :: "('n, 'n list) dict \<Rightarrow> 'n list \<times> 'n option \<Rightarrow> ('n, 'n list) dict res" where
  "fill_chain doms = (\<lambda>(chain, cur).
     bindE (case cur of None \<Rightarrow> Inr [] | Some c \<Rightarrow> dget doms c) (\<lambda>base.
       Inr (fst (fold (\<lambda>c (doms, base). let base' = set_add c base in (dset c base' doms, base'))
                   chain (doms, base)))))"

definition dom_set_of ::
  "('n, 'n option) dict \<Rightarrow> 'n \<Rightarrow> ('n, 'n list) dict \<Rightarrow> ('n, 'n list) dict res option" where
  "dom_set_of idom node doms =
     bindO (loopE (\<lambda>(chain, cur). case cur of None \<Rightarrow> False | Some c \<Rightarrow> c \<notin> set (dkeys doms))
              (\<lambda>st. Some (dom_chain_step idom st)) ([], Some node))
       (\<lambda>st. Some (fill_chain doms st))"

definition dict_setdefault :: "'v \<Rightarrow> 'k \<Rightarrow> ('k, 'v) dict \<Rightarrow> ('k, 'v) dict" where
  "dict_setdefault v k d = (if k \<in> set (dkeys d) then d else dset k v d)"

definition dominator_sets :: "'n list \<Rightarrow> ('n, 'n option) dict \<Rightarrow> ('n, 'n list) dict res option" where
  "dominator_sets nodes idom =
     bindO (foldO (dom_set_of idom) (dkeys idom) []) (\<lambda>doms.
       Some (Inr (fold (dict_setdefault nodes) nodes doms)))"

section \<open>Dominator tree and frontier\<close>

definition find_dominator_tree :: "('n, 'n option) dict \<Rightarrow> ('n option, 'n list) dict" where
  "find_dominator_tree idom =
     fold (\<lambda>(u, v) t.
       let t' = dict_setdefault [] (Some u) t
       in if Some u \<noteq> v then dset v (set_add u (case map_of t' v of None \<Rightarrow> [] | Some us \<Rightarrow> us)) t' else t') idom []"

definition add_frontier ::
  "('n, 'n option) dict \<Rightarrow> 'n \<Rightarrow> 'n \<Rightarrow> ('n, 'n list) dict \<Rightarrow> ('n, 'n list) dict res option" where
  "add_frontier idom u v df =
     bindO (Some (dget idom u)) (\<lambda>stop.
     bindO (loopE (\<lambda>(df, v). v \<noteq> stop)
              (\<lambda>(df, v). Some (case v of
                 None \<Rightarrow> Inl KeyError
               | Some n \<Rightarrow> bindE (dget df n) (\<lambda>s. bindE (dget idom n) (\<lambda>parent.
                     Inr (dset n (set_add u s) df, parent)))))
              (df, Some v))
       (\<lambda>(df, v). Some (Inr df)))"

definition find_dominance_frontier ::
  "('n \<Rightarrow> 'n list) \<Rightarrow> ('n, 'n option) dict \<Rightarrow> ('n, 'n list) dict res option" where
  "find_dominance_frontier preds idom =
     foldO (\<lambda>u df. if length (preds u) < 2 then Some (Inr df)
                   else foldO (add_frontier idom u) (preds u) df)
       (dkeys idom) (map (\<lambda>u. (u, [])) (dkeys idom))"

section \<open>Post-dominators\<close>

text \<open>The roots are the exit points and the bodies of the loops without exits.\<close>

definition post_dom_roots :: "'n list \<Rightarrow> ('n, 'n loop) dict \<Rightarrow> 'n list" where
  "post_dom_roots exits loops =
     fold (\<lambda>l roots. if l_exits l = [] then set_update roots (l_body l) else roots) (dvalues loops) exits"

definition find_immediate_post_dominators ::
  "('n, 'd) cfgraph \<Rightarrow> ('n, 'n loop) dict \<Rightarrow> ('n, 'n option) dict res option" where
  "find_immediate_post_dominators g loops =
     (let roots = post_dom_roots (find_exit_points g) loops
      in if roots = [] then Some (Inr []) else immediate_dominators roots (g_succs g) (g_preds g))"

end
