(* ===== verification/DomTree.thy ===== *)
theory DomTree
  imports Prelude
begin

text \<open>
  Trees given by parent pointers, as the dominator algorithm of \<open>core/controlflow.py\<close> keeps
  them: every node but the root points to a node with a greater index. The ancestors of a
  node form a chain, and moving a node to one of its ancestors only shrinks ancestor sets.
\<close>

definition up :: "('a \<Rightarrow> 'a option) \<Rightarrow> ('a \<times> 'a) set" where
  "up T = {(a, b). T a = Some b}"

definition anc :: "('a \<Rightarrow> 'a option) \<Rightarrow> 'a \<Rightarrow> 'a set" where
  "anc T a = {b. (a, b) \<in> (up T)\<^sup>*}"

definition idom_tree :: "('a \<Rightarrow> nat) \<Rightarrow> 'a \<Rightarrow> ('a \<Rightarrow> 'a option) \<Rightarrow> bool" where
  "idom_tree ix root T \<longleftrightarrow> T root = Some root \<and> inj_on ix (dom T)
     \<and> (\<forall>a b. T a = Some b \<longrightarrow> b \<in> dom T \<and> (a \<noteq> root \<longrightarrow> ix a < ix b))"

lemma tree_root: "idom_tree ix root T \<Longrightarrow> T root = Some root"
  by (simp add: idom_tree_def)

lemma tree_inj: "idom_tree ix root T \<Longrightarrow> a \<in> dom T \<Longrightarrow> b \<in> dom T \<Longrightarrow> ix a = ix b \<Longrightarrow> a = b"
  by (auto simp: idom_tree_def inj_on_def)

lemma tree_step: "idom_tree ix root T \<Longrightarrow> T a = Some b \<Longrightarrow> b \<in> dom T \<and> (a \<noteq> root \<longrightarrow> ix a < ix b)"
  by (auto simp: idom_tree_def)

lemma anc_self [simp, intro]: "a \<in> anc T a"
  by (simp add: anc_def)

lemma anc_trans: "b \<in> anc T a \<Longrightarrow> c \<in> anc T b \<Longrightarrow> c \<in> anc T a"
  by (simp add: anc_def)

lemma anc_unfold: "T a = Some b \<Longrightarrow> anc T a = insert a (anc T b)"
  unfolding anc_def by (auto simp: up_def elim: converse_rtranclE intro: converse_rtrancl_into_rtrancl)

lemma anc_outside: "T a = None \<Longrightarrow> anc T a = {a}"
  unfolding anc_def by (auto simp: up_def elim: converse_rtranclE)

lemma anc_induct [consumes 1, case_names base step]:
  assumes "b \<in> anc T a" and "P b" and "\<And>x y. T x = Some y \<Longrightarrow> b \<in> anc T y \<Longrightarrow> P y \<Longrightarrow> P x"
  shows "P a"
  using assms(1) unfolding anc_def mem_Collect_eq
  by (induction rule: converse_rtrancl_induct) (use assms(2,3) in \<open>auto simp: up_def anc_def\<close>)

lemma anc_root: "idom_tree ix root T \<Longrightarrow> anc T root = {root}"
proof -
  assume "idom_tree ix root T"
  then have T: "T root = Some root" by (rule tree_root)
  have "b \<in> anc T a \<Longrightarrow> a = root \<Longrightarrow> b = root" for a b
    unfolding anc_def mem_Collect_eq by (induction rule: rtrancl_induct) (auto simp: up_def T)
  then show ?thesis by blast
qed

lemma anc_dom: "idom_tree ix root T \<Longrightarrow> a \<in> dom T \<Longrightarrow> anc T a \<subseteq> dom T"
proof
  fix b assume T: "idom_tree ix root T" "a \<in> dom T" and "b \<in> anc T a"
  from this(3) show "b \<in> dom T"
    unfolding anc_def mem_Collect_eq
    by (induction rule: rtrancl_induct) (use T in \<open>auto simp: up_def dest: tree_step[OF T(1)]\<close>)
qed

lemma anc_index: "idom_tree ix root T \<Longrightarrow> b \<in> anc T a \<Longrightarrow> a = b \<or> ix a < ix b"
proof -
  assume T: "idom_tree ix root T" and b: "b \<in> anc T a"
  from b show ?thesis
  proof (induction rule: anc_induct)
    case base
    then show ?case by simp
  next
    case (step x y)
    show ?case
    proof (cases "x = root")
      case True
      with step.hyps tree_root[OF T] anc_root[OF T] show ?thesis by auto
    next
      case False
      with tree_step[OF T step.hyps(1)] step.IH show ?thesis by auto
    qed
  qed
qed

lemma anc_antisym: "idom_tree ix root T \<Longrightarrow> b \<in> anc T a \<Longrightarrow> a \<in> anc T b \<Longrightarrow> a = b"
  using anc_index[of ix root T b a] anc_index[of ix root T a b] by auto

lemma anc_between: "idom_tree ix root T \<Longrightarrow> {c \<in> anc T w. w \<in> anc T c} = {w}"
  by (auto dest: anc_antisym)

lemma anc_chain: "b \<in> anc T a \<Longrightarrow> c \<in> anc T a \<Longrightarrow> c \<in> anc T b \<or> b \<in> anc T c"
proof (induction rule: anc_induct)
  case base
  then show ?case by simp
next
  case (step x y)
  then have "c = x \<or> c \<in> anc T y" by (simp add: anc_unfold)
  with step show ?case by (auto simp: anc_unfold)
qed

lemma anc_above:
  assumes T: "idom_tree ix root T" and "b \<in> anc T a" and "c \<in> anc T a" and "ix b \<le> ix c"
  shows "c \<in> anc T b"
  using anc_chain[OF assms(2,3)] anc_index[OF T, of b c] assms(4) by auto

lemma anc_reaches_root: "idom_tree ix root T \<Longrightarrow> a \<in> dom T \<Longrightarrow> (\<And>b. b \<in> dom T \<Longrightarrow> ix b \<le> ix root) \<Longrightarrow> root \<in> anc T a"
proof (induction "ix root - ix a" arbitrary: a rule: less_induct)
  case less
  show ?case
  proof (cases "a = root")
    case False
    from less.prems(2) obtain b where b: "T a = Some b" by blast
    with tree_step[OF less.prems(1) b] False have lt: "ix a < ix b" "b \<in> dom T" by auto
    with less.prems(3)[of b] have "ix root - ix b < ix root - ix a" by linarith
    from less.hyps[OF this less.prems(1) lt(2) less.prems(3)] show ?thesis
      by (simp add: anc_unfold[of T, OF b])
  qed simp
qed

section \<open>Moving a node\<close>

lemma anc_upd_away: "w \<notin> anc T p \<Longrightarrow> anc (T(w \<mapsto> x)) p = anc T p"
proof -
  have gen: "anc T' p \<subseteq> anc T p" if "w \<notin> anc T p" and "\<And>a. a \<noteq> w \<Longrightarrow> T' a = T a" for T T' :: "'a \<Rightarrow> 'a option"
  proof
    fix b assume "b \<in> anc T' p"
    then show "b \<in> anc T p" unfolding anc_def mem_Collect_eq
    proof (induction rule: rtrancl_induct)
      case (step y z)
      then have "y \<noteq> w" using that(1) by (auto simp: anc_def)
      with step that(2)[of y] have "(y, z) \<in> up T" by (simp add: up_def)
      with step.IH show ?case by simp
    qed simp
  qed
  assume away: "w \<notin> anc T p"
  then have le: "anc (T(w \<mapsto> x)) p \<subseteq> anc T p" by (rule gen) simp
  with away have "anc T p \<subseteq> anc (T(w \<mapsto> x)) p" by (intro gen) auto
  with le show ?thesis by blast
qed

text \<open>A node under \<open>w\<close>: the path up to \<open>w\<close> stays, the rest is that of the new parent.\<close>

lemma anc_upd_under:
  assumes T: "idom_tree ix root T" and "w \<in> anc T p" and x: "w \<notin> anc T x"
  shows "anc (T(w \<mapsto> x)) p = {c \<in> anc T p. w \<in> anc T c} \<union> anc T x"
proof -
  define T' where "T' = T(w \<mapsto> x)"
  then have T': "T' w = Some x" "\<And>a. a \<noteq> w \<Longrightarrow> T' a = T a" by simp_all
  have "anc T' x = anc T x" unfolding T'_def by (rule anc_upd_away[OF x])
  with anc_unfold[of T', OF T'(1)] anc_between[OF T, of w]
  have at_w: "anc T' w = {c \<in> anc T w. w \<in> anc T c} \<union> anc T x" by simp
  from assms(2) have "anc T' p = {c \<in> anc T p. w \<in> anc T c} \<union> anc T x"
  proof (induction rule: anc_induct)
    case base
    show ?case by (rule at_w)
  next
    case (step a b)
    show ?case
    proof (cases "a = w")
      case True
      with at_w show ?thesis by (simp only:)
    next
      case False
      then have "anc T' a = insert a (anc T' b)" using step.hyps T'(2) by (simp add: anc_unfold)
      with step show ?thesis by (auto simp: anc_unfold[of T, OF step.hyps(1)])
    qed
  qed
  then show ?thesis by (simp only: T'_def)
qed

lemma tree_update:
  assumes T: "idom_tree ix root T" and x: "x \<in> dom T" and w: "w \<noteq> root" and "ix w < ix x"
    and "inj_on ix (insert w (dom T))"
  shows "idom_tree ix root (T(w \<mapsto> x))"
  using assms unfolding idom_tree_def by (auto simp: insert_absorb)

lemma not_under_later:
  assumes T: "idom_tree ix root T" and "ix w < ix x"
  shows "w \<notin> anc T x"
  using anc_index[OF T, of w x] assms(2) by auto

lemma anc_upd_shrinks:
  assumes T: "idom_tree ix root T" and "T w = Some old" and "x \<in> anc T old" and "w \<noteq> root"
  shows "anc (T(w \<mapsto> x)) p \<subseteq> anc T p"
proof (cases "w \<in> anc T p")
  case False
  then show ?thesis by (simp add: anc_upd_away)
next
  case True
  have "ix w < ix old" using tree_step[OF T assms(2)] assms(4) by simp
  then have "ix w < ix x" using anc_index[OF T assms(3)] by auto
  then have "w \<notin> anc T x" by (rule not_under_later[OF T])
  from anc_upd_under[OF T True this] have eq: "anc (T(w \<mapsto> x)) p = {c \<in> anc T p. w \<in> anc T c} \<union> anc T x" .
  have "anc T x \<subseteq> anc T w" using assms(2,3) by (auto simp: anc_unfold intro: anc_trans)
  also have "\<dots> \<subseteq> anc T p" using True by (auto intro: anc_trans)
  finally show ?thesis using eq by blast
qed

end
