(* ===== verification/Idoms.thy ===== *)
theory Idoms
  imports Dominators DomTree
begin

text \<open>
  Correctness of the immediate dominators of \<open>Dominators\<close>. The iteration keeps a tree in
  which every strict dominator of a node is above it; every update moves a node to one of
  its ancestors, so it ends, and at the end the ancestors of a node are its dominators.
\<close>

section \<open>Dominance\<close>

text \<open>\<open>d\<close> dominates \<open>n\<close>: it is reachable, but not without passing through \<open>d\<close>.\<close>

definition avoiding :: "('n \<Rightarrow> 'n list) \<Rightarrow> 'n list \<Rightarrow> 'n \<Rightarrow> 'n set" where
  "avoiding succs roots d =
     reachable (\<lambda>a. filter (\<lambda>b. b \<noteq> d) (succs a)) (filter (\<lambda>r. r \<noteq> d) roots)"

definition dominates :: "('n \<Rightarrow> 'n list) \<Rightarrow> 'n list \<Rightarrow> 'n \<Rightarrow> 'n \<Rightarrow> bool" where
  "dominates succs roots d n \<longleftrightarrow> n \<in> reachable succs roots \<and> n \<notin> avoiding succs roots d"

lemma avoiding_step:
  "a \<in> avoiding succs roots d \<Longrightarrow> b \<in> set (succs a) \<Longrightarrow> b \<noteq> d \<Longrightarrow> b \<in> avoiding succs roots d"
  unfolding avoiding_def by (rule reachable_step) simp_all

lemma avoiding_root: "r \<in> set roots \<Longrightarrow> r \<noteq> d \<Longrightarrow> r \<in> avoiding succs roots d"
  unfolding avoiding_def by (rule reachable_root) simp

lemma avoiding_induct [consumes 1, case_names root step]:
  assumes "n \<in> avoiding succs roots d"
    and "\<And>r. r \<in> set roots \<Longrightarrow> r \<noteq> d \<Longrightarrow> P r"
    and "\<And>a b. a \<in> avoiding succs roots d \<Longrightarrow> b \<in> set (succs a) \<Longrightarrow> b \<noteq> d \<Longrightarrow> P a \<Longrightarrow> P b"
  shows "P n"
  using assms(1) unfolding avoiding_def
  by (induction rule: reachable_induct) (use assms(2,3) in \<open>auto simp: avoiding_def\<close>)

lemma avoiding_reachable: "n \<in> avoiding succs roots d \<Longrightarrow> n \<in> reachable succs roots"
  by (induction rule: avoiding_induct) (auto intro: reachable_step)

lemma avoids: "n \<in> avoiding succs roots d \<Longrightarrow> n \<noteq> d"
  by (induction rule: avoiding_induct) auto

lemma dominates_self: "n \<in> reachable succs roots \<Longrightarrow> dominates succs roots n n"
  by (auto simp: dominates_def dest: avoids)

lemma dominates_preds:
  assumes "dominates succs roots d n" and "d \<noteq> n"
  shows "n \<notin> set roots"
    and "p \<in> reachable succs roots \<Longrightarrow> n \<in> set (succs p) \<Longrightarrow> dominates succs roots d p"
  using assms by (auto simp: dominates_def intro: avoiding_root avoiding_step)

lemma dominator_reachable: "dominates succs roots d n \<Longrightarrow> d \<in> reachable succs roots"
proof (rule ccontr)
  assume dom: "dominates succs roots d n" and out: "d \<notin> reachable succs roots"
  have "m \<in> reachable succs roots \<Longrightarrow> m \<in> avoiding succs roots d" for m
  proof (induction rule: reachable_induct)
    case (root r)
    with out show ?case by (auto intro: avoiding_root)
  next
    case (step a b)
    with out show ?case by (auto intro: avoiding_step reachable_step)
  qed
  with dom show False by (auto simp: dominates_def)
qed

section \<open>The order and the tables\<close>

definition dom_tables :: "'n list \<Rightarrow> ('n \<Rightarrow> 'n list) \<Rightarrow> ('n \<Rightarrow> 'n list) \<Rightarrow> 'n list \<Rightarrow> bool" where
  "dom_tables roots preds succs order \<longleftrightarrow> postorder succs roots = Some order
     \<and> (\<forall>p \<in> set order. \<forall>u \<in> set order. p \<in> set (preds u) \<longleftrightarrow> u \<in> set (succs p))"

text \<open>The predecessors of a node that matter, the virtual root included.\<close>

definition vpreds :: "'n list \<Rightarrow> ('n \<Rightarrow> 'n list) \<Rightarrow> 'n list \<Rightarrow> 'n \<Rightarrow> 'n option set" where
  "vpreds roots preds order u =
     Some ` (set (preds u) \<inter> set order) \<union> (if u \<in> set roots then {None} else {})"

definition vnodes :: "'n list \<Rightarrow> 'n option set" where
  "vnodes order = insert None (Some ` set order)"

lemma vpreds_vnodes: "vpreds roots preds order u \<subseteq> vnodes order"
  by (auto simp: vpreds_def vnodes_def)

lemma node_idx_None [simp]: "node_idx order None = length order"
  by (simp add: node_idx_def)

lemma node_idx_nth: "distinct order \<Longrightarrow> i < length order \<Longrightarrow> node_idx order (Some (order ! i)) = i"
proof (induction order arbitrary: i)
  case Nil
  then show ?case by simp
next
  case (Cons a order)
  then show ?case by (cases i) (auto simp: node_idx_def)
qed

lemma node_idx_less: "n \<in> set order \<Longrightarrow> node_idx order (Some n) < length order"
  by (induction order) (auto simp: node_idx_def)

lemma node_at_idx: "n \<in> set order \<Longrightarrow> order ! node_idx order (Some n) = n"
  by (induction order) (auto simp: node_idx_def)

lemma node_idx_le: "u \<in> vnodes order \<Longrightarrow> node_idx order u \<le> length order"
  by (auto simp: vnodes_def dest: node_idx_less)

lemma node_idx_inj: "inj_on (node_idx order) (vnodes order)"
proof (rule inj_onI)
  fix u v assume "u \<in> vnodes order" "v \<in> vnodes order" "node_idx order u = node_idx order v"
  then show "u = v"
    by (auto simp: vnodes_def dest: node_idx_less) (metis node_at_idx)
qed

text \<open>Every node has a predecessor that comes later in the post-order, or is a root.\<close>

lemma later_pred:
  assumes "dom_tables roots preds succs order" and u: "u \<in> set order"
  obtains p where "p \<in> vpreds roots preds order u" and "node_idx order (Some u) < node_idx order p"
proof (cases "u \<in> set roots")
  case True
  then have "None \<in> vpreds roots preds order u" by (simp add: vpreds_def)
  with that node_idx_less[OF u] show thesis by simp
next
  case False
  from assms(1) have "postorder succs roots = Some order" by (simp add: dom_tables_def)
  note order = postorder_result[OF this]
  from u obtain xs ys where split: "order = xs @ u # ys" by (auto simp: in_set_conv_decomp)
  with order(4) have "u \<in> set roots \<or> (\<exists>m. u \<in> set (succs m) \<and> (m \<in> set ys \<or> Emit m \<in> set []))"
    unfolding po_has_parents_def by blast
  with False obtain m where m: "u \<in> set (succs m)" "m \<in> set ys" by auto
  have "m \<noteq> u" using split m(2) order(1) by auto
  have "m \<notin> set xs" using split m(2) order(1) by auto
  then have "takeWhile (\<lambda>k. k \<noteq> m) (xs @ u # ys) = xs @ takeWhile (\<lambda>k. k \<noteq> m) (u # ys)"
    by (intro takeWhile_append2) auto
  with split \<open>m \<noteq> u\<close> have "length xs < node_idx order (Some m)"
    by (simp add: node_idx_def)
  moreover have "node_idx order (Some u) = length xs"
    using split order(1) node_idx_nth[of order "length xs"] by simp
  moreover have "m \<in> set order" using split m(2) by simp
  moreover from this have "m \<in> set (preds u)" using assms(1) u m(1) by (auto simp: dom_tables_def)
  ultimately show thesis using that[of "Some m"] by (auto simp: vpreds_def)
qed

section \<open>The invariant\<close>

text \<open>
  Between two updates of a pass, when the nodes from index \<open>j\<close> on are done: the table is a
  tree; the strict dominators of a node dominate its parent; the common ancestors of its
  predecessors are above its parent; and its later predecessors are under its parent, once
  the node is done or as long as no node below the parent is.
\<close>

definition common :: "('a \<Rightarrow> 'a option) \<Rightarrow> 'a set \<Rightarrow> 'a set" where
  "common T ps = (\<Inter>p \<in> ps \<inter> dom T. anc T p)"

definition dom_sound :: "'n list \<Rightarrow> ('n \<Rightarrow> 'n list) \<Rightarrow> ('n option \<Rightarrow> 'n option option) \<Rightarrow> bool" where
  "dom_sound roots succs T \<longleftrightarrow> (\<forall>u b d. T (Some u) = Some b \<longrightarrow> dominates succs roots d u \<longrightarrow> d \<noteq> u \<longrightarrow>
     (\<exists>n. b = Some n \<and> dominates succs roots d n))"

definition dom_high :: "'n list \<Rightarrow> ('n \<Rightarrow> 'n list) \<Rightarrow> 'n list \<Rightarrow> ('n option \<Rightarrow> 'n option option) \<Rightarrow> bool" where
  "dom_high roots preds order T \<longleftrightarrow> (\<forall>u b. T (Some u) = Some b \<longrightarrow>
     common T (vpreds roots preds order u) \<subseteq> anc T b)"

definition dom_low ::
  "'n list \<Rightarrow> ('n \<Rightarrow> 'n list) \<Rightarrow> 'n list \<Rightarrow> nat \<Rightarrow> ('n option \<Rightarrow> 'n option option) \<Rightarrow> bool" where
  "dom_low roots preds order j T \<longleftrightarrow> (\<forall>u b p. T (Some u) = Some b \<longrightarrow> p \<in> vpreds roots preds order u \<longrightarrow>
     node_idx order (Some u) < node_idx order p \<longrightarrow>
     p \<in> dom T \<and> (j \<le> node_idx order (Some u) \<or> node_idx order b \<le> j \<longrightarrow> b \<in> anc T p))"

definition dom_inv ::
  "'n list \<Rightarrow> ('n \<Rightarrow> 'n list) \<Rightarrow> ('n \<Rightarrow> 'n list) \<Rightarrow> 'n list \<Rightarrow> nat \<Rightarrow> ('n option \<Rightarrow> 'n option option) \<Rightarrow> bool" where
  "dom_inv roots preds succs order j T \<longleftrightarrow>
     idom_tree (node_idx order) None T \<and> dom T \<subseteq> vnodes order
   \<and> (\<forall>u \<in> set order. j \<le> node_idx order (Some u) \<longrightarrow> Some u \<in> dom T)
   \<and> dom_sound roots succs T \<and> dom_high roots preds order T \<and> dom_low roots preds order j T"

lemma dom_invD:
  assumes "dom_inv roots preds succs order j T"
  shows "idom_tree (node_idx order) None T" "dom T \<subseteq> vnodes order"
    "u \<in> set order \<Longrightarrow> j \<le> node_idx order (Some u) \<Longrightarrow> Some u \<in> dom T"
    "dom_sound roots succs T" "dom_high roots preds order T" "dom_low roots preds order j T"
  using assms by (auto simp: dom_inv_def)

lemma dom_soundE:
  assumes "dom_sound roots succs T" and "T (Some u) = Some b" and "dominates succs roots d u" and "d \<noteq> u"
  obtains n where "b = Some n" and "dominates succs roots d n"
  using assms unfolding dom_sound_def by blast

lemma dom_highD:
  "dom_high roots preds order T \<Longrightarrow> T (Some u) = Some b \<Longrightarrow> c \<in> common T (vpreds roots preds order u)
   \<Longrightarrow> c \<in> anc T b"
  by (auto simp: dom_high_def)

lemma dom_lowD:
  assumes "dom_low roots preds order j T" and "T (Some u) = Some b" and "p \<in> vpreds roots preds order u"
    and "node_idx order (Some u) < node_idx order p"
  shows "p \<in> dom T" and "j \<le> node_idx order (Some u) \<or> node_idx order b \<le> j \<Longrightarrow> b \<in> anc T p"
  using assms by (auto simp: dom_low_def)

text \<open>A dominator of a node is above it, and stays one on the way up.\<close>

lemma dominator_above:
  assumes T: "idom_tree (node_idx order) None T" and sound: "dom_sound roots succs T"
    and "Some u \<in> dom T" and "dominates succs roots d u"
  shows "Some d \<in> anc T (Some u)"
  using assms(3,4)
proof (induction "length order - node_idx order (Some u)" arbitrary: u rule: less_induct)
  case less
  show ?case
  proof (cases "d = u")
    case False
    from less.prems(1) obtain b where b: "T (Some u) = Some b" by blast
    obtain n where n: "b = Some n" "dominates succs roots d n"
      using sound b less.prems(2) False by (rule dom_soundE)
    from tree_step[OF T b] n(1) have lt: "node_idx order (Some u) < node_idx order (Some n)"
      and dom: "Some n \<in> dom T" by auto
    have "node_idx order (Some n) \<le> length order"
      by (simp add: node_idx_def length_takeWhile_le)
    with lt have "length order - node_idx order (Some n) < length order - node_idx order (Some u)"
      by linarith
    from less.hyps[OF this dom n(2)] show ?thesis using b n(1) by (simp add: anc_unfold)
  qed simp
qed

lemma dominator_climbs:
  assumes T: "idom_tree (node_idx order) None T" and sound: "dom_sound roots succs T"
    and x: "x \<in> anc T (Some u)" and "dominates succs roots d u" and d: "Some d \<in> anc T x"
  shows "\<exists>n. x = Some n \<and> dominates succs roots d n"
proof -
  have "\<forall>u. a = Some u \<longrightarrow> dominates succs roots d u \<longrightarrow> (\<exists>n. x = Some n \<and> dominates succs roots d n)"
    if "x \<in> anc T a" for a
    using that
  proof (induction rule: anc_induct)
    case base
    then show ?case by auto
  next
    case (step a b)
    show ?case
    proof (intro allI impI)
      fix u assume u: "a = Some u" "dominates succs roots d u"
      have "Some d \<in> anc T b" using step.hyps(2) d by (rule anc_trans)
      then have "node_idx order b \<le> node_idx order (Some d)"
        using anc_index[OF T] by fastforce
      moreover have "node_idx order a < node_idx order b"
        using tree_step[OF T step.hyps(1)] u(1) by simp
      ultimately have "d \<noteq> u" using u(1) by auto
      obtain n where "b = Some n" "dominates succs roots d n"
        using sound step.hyps(1)[unfolded u(1)] u(2) \<open>d \<noteq> u\<close> by (rule dom_soundE)
      with step.IH show "\<exists>n. x = Some n \<and> dominates succs roots d n" by blast
    qed
  qed
  with x assms(4) show ?thesis by blast
qed

section \<open>One update\<close>

text \<open>Two states of the tree: before and after the update of the node \<open>w\<close> at index \<open>j\<close>.\<close>

lemma common_shrinks:
  assumes "\<And>p. p \<in> ps \<inter> dom T \<Longrightarrow> anc T' p \<subseteq> anc T p" and "dom T \<subseteq> dom T'"
  shows "common T' ps \<subseteq> common T ps"
proof
  fix c assume c: "c \<in> common T' ps"
  show "c \<in> common T ps" unfolding common_def
  proof
    fix p assume p: "p \<in> ps \<inter> dom T"
    with assms(2) have "p \<in> ps \<inter> dom T'" by blast
    with c have "c \<in> anc T' p" unfolding common_def by blast
    with assms(1)[OF p] show "c \<in> anc T p" by blast
  qed
qed

lemma dom_update_inv:
  assumes tables: "dom_tables roots preds succs order"
    and inv: "dom_inv roots preds succs order (Suc j) T" and j: "j < length order" and w: "w = order ! j"
    and x: "x \<in> dom T" and anc_x: "anc T x = common T (vpreds roots preds order w)"
  shows "dom_inv roots preds succs order j (T(Some w \<mapsto> x))"
    and "T (Some w) = Some old \<Longrightarrow> x \<in> anc T old"
proof -
  note T = dom_invD(1)[OF inv] and dom = dom_invD(2)[OF inv] and procd = dom_invD(3)[OF inv]
    and sound = dom_invD(4)[OF inv] and high = dom_invD(5)[OF inv] and low = dom_invD(6)[OF inv]
  have order: "distinct order" "set order = reachable succs roots"
    using tables postorder_result[of succs roots order] by (auto simp: dom_tables_def)
  have wo: "w \<in> set order" and ixw: "node_idx order (Some w) = j"
    using w j node_idx_nth[OF order(1) j] by auto
  let ?ix = "node_idx order" and ?P = "vpreds roots preds order" and ?T = "T(Some w \<mapsto> x)"
  show up: "x \<in> anc T old" if "T (Some w) = Some old" for old
    using dom_highD[OF high that, of x] anc_x anc_self by auto
  have procd': "p \<in> dom T" if "p \<in> vnodes order" "j < ?ix p" for p
    using that procd[of "the p"] tree_root[OF T] by (cases p) (auto simp: vnodes_def)
  obtain p0 where p0: "p0 \<in> ?P w" "j < ?ix p0" using later_pred[OF tables wo] ixw by auto
  have p0d: "p0 \<in> dom T" using procd' p0(2) subsetD[OF vpreds_vnodes p0(1)] by simp
  have "x \<in> anc T p0" using anc_x anc_self[of x T] p0 p0d by (auto simp: common_def)
  then have xlt: "?ix (Some w) < ?ix x" using anc_index[OF T, of x p0] p0 ixw by auto
  then have wx: "Some w \<notin> anc T x" by (rule not_under_later[OF T])
  have later: "anc ?T p = anc T p" if "j < ?ix p" for p
    by (rule anc_upd_away) (use not_under_later[OF T, of "Some w" p] that ixw in auto)
  have shrinks: "anc ?T p \<subseteq> anc T p" if "p \<in> dom T" for p
  proof (cases "T (Some w)")
    case None
    then have "Some w \<notin> anc T p" using anc_dom[OF T that] by auto
    then show ?thesis by (simp add: anc_upd_away)
  next
    case (Some old)
    with up show ?thesis by (intro anc_upd_shrinks[OF T]) auto
  qed
  have common: "common ?T ps \<subseteq> common T ps" for ps
    by (rule common_shrinks) (use shrinks in auto)
  have tree: "idom_tree ?ix None ?T"
  proof (rule tree_update[OF T x])
    show "inj_on ?ix (insert (Some w) (dom T))"
      by (rule inj_on_subset[OF node_idx_inj]) (use dom wo in \<open>auto simp: vnodes_def\<close>)
  qed (use xlt in auto)
  have sound': "dom_sound roots succs ?T"
    unfolding dom_sound_def
  proof (intro allI impI)
    fix u b d assume b: "?T (Some u) = Some b" and d: "dominates succs roots d u" "d \<noteq> u"
    show "\<exists>n. b = Some n \<and> dominates succs roots d n"
    proof (cases "u = w")
      case False
      with b have "T (Some u) = Some b" by simp
      from sound this d show ?thesis by (rule dom_soundE) blast
    next
      case True
      with b have bx: "b = x" by simp
      have above: "Some d \<in> anc T p" if "p \<in> ?P w" "p \<in> dom T" for p
      proof -
        from that(1) d dominates_preds(1)[OF d] True obtain q where q: "p = Some q" "q \<in> set (preds w)" "q \<in> set order"
          by (auto simp: vpreds_def split: if_splits)
        with tables wo have "w \<in> set (succs q)" by (auto simp: dom_tables_def)
        with q order(2) dominates_preds(2)[OF d] True have "dominates succs roots d q" by simp
        with q that(2) show ?thesis using dominator_above[OF T sound] by simp
      qed
      then have "Some d \<in> anc T x" by (auto simp: anc_x common_def)
      moreover from p0(1) d dominates_preds(1)[OF d] True
      obtain q where q: "p0 = Some q" "q \<in> set (preds w)" "q \<in> set order"
        by (auto simp: vpreds_def split: if_splits)
      moreover from q tables wo have "w \<in> set (succs q)" by (auto simp: dom_tables_def)
      with q order(2) dominates_preds(2)[OF d] True have "dominates succs roots d q" by simp
      ultimately show ?thesis
        using dominator_climbs[OF T sound, of x q d] \<open>x \<in> anc T p0\<close> by (simp add: bx)
    qed
  qed
  have low': "dom_low roots preds order j ?T"
    unfolding dom_low_def
  proof (intro allI impI conjI)
    fix u b p assume b: "?T (Some u) = Some b" and p: "p \<in> ?P u" "?ix (Some u) < ?ix p"
    have "p \<in> dom T"
    proof (cases "u = w")
      case True
      with p(2) ixw show ?thesis using procd' subsetD[OF vpreds_vnodes p(1)] by simp
    next
      case False
      with b have "T (Some u) = Some b" by simp
      from dom_lowD(1)[OF low this p] show ?thesis .
    qed
    then show "p \<in> dom ?T" by simp
    assume stage: "j \<le> ?ix (Some u) \<or> ?ix b \<le> j"
    show "b \<in> anc ?T p"
    proof (cases "u = w")
      case True
      with b p \<open>p \<in> dom T\<close> anc_x have "b \<in> anc T p" using anc_self[of x T] by (auto simp: common_def)
      with later[of p] True p ixw show ?thesis by simp
    next
      case False
      with b have Tu: "T (Some u) = Some b" by simp
      have "Some u \<in> vnodes order" using Tu dom by auto
      have ne: "?ix (Some u) \<noteq> j"
        using node_idx_inj[of order] \<open>Some u \<in> vnodes order\<close> False wo ixw
        by (force simp: inj_on_def vnodes_def)
      have "Suc j \<le> ?ix (Some u) \<or> ?ix b \<le> Suc j" using stage ne by auto
      from dom_lowD(2)[OF low Tu p this] have under: "b \<in> anc T p" .
      show ?thesis
      proof (cases "Some w \<in> anc T p")
        case False
        with under show ?thesis by (simp add: anc_upd_away)
      next
        case True
        from stage show ?thesis
        proof
          assume "j \<le> ?ix (Some u)"
          with ne p(2) have "j < ?ix p" by linarith
          with under show ?thesis by (simp only: later)
        next
          assume "?ix b \<le> j"
          then have "Some w \<in> anc T b" using anc_above[OF T under True] ixw by simp
          with under show ?thesis by (simp add: anc_upd_under[OF T True wx] del: fun_upd_apply)
        qed
      qed
    qed
  qed
  have high': "dom_high roots preds order ?T"
    unfolding dom_high_def
  proof (intro allI impI subsetI)
    fix u b c assume b: "?T (Some u) = Some b" and c: "c \<in> common ?T (?P u)"
    then have cT: "c \<in> common T (?P u)" using common by blast
    show "c \<in> anc ?T b"
    proof (cases "u = w")
      case True
      with b cT anc_x have "c \<in> anc T x" "b = x" by auto
      with anc_upd_away[OF wx] show ?thesis by (simp only:)
    next
      case False
      with b have Tu: "T (Some u) = Some b" by simp
      from high Tu cT have cb: "c \<in> anc T b" by (rule dom_highD)
      show ?thesis
      proof (cases "Some w \<in> anc T b")
        case False
        with cb show ?thesis by (simp add: anc_upd_away)
      next
        case True
        have uo: "u \<in> set order" using Tu dom by (auto simp: vnodes_def)
        have "?ix b \<le> Suc j" using anc_index[OF T True] ixw by auto
        obtain p where p: "p \<in> ?P u" "?ix (Some u) < ?ix p" using later_pred[OF tables uo] by blast
        note below = dom_lowD[OF low Tu p]
        then have pd: "p \<in> dom T" and bp: "b \<in> anc T p" using \<open>?ix b \<le> Suc j\<close> by auto
        then have wp: "Some w \<in> anc T p" using True by (blast intro: anc_trans)
        have "c \<in> anc ?T p" using c p(1) pd by (auto simp: common_def)
        then have "Some w \<in> anc T c \<or> c \<in> anc T x"
          unfolding anc_upd_under[OF T wp wx] by blast
        with cb show ?thesis unfolding anc_upd_under[OF T True wx] by blast
      qed
    qed
  qed
  show "dom_inv roots preds succs order j ?T"
    unfolding dom_inv_def
  proof (intro conjI ballI impI tree sound' high' low')
    show "dom ?T \<subseteq> vnodes order" using dom wo by (auto simp: vnodes_def)
    fix u assume u: "u \<in> set order" "j \<le> ?ix (Some u)"
    show "Some u \<in> dom ?T"
    proof (cases "?ix (Some u) = j")
      case True
      with u(1) w have "u = w" using node_at_idx by metis
      then show ?thesis by simp
    next
      case False
      with u procd' show ?thesis by (auto simp: vnodes_def)
    qed
  qed
qed

section \<open>The nearest common ancestor\<close>

lemma climb_ok:
  assumes T: "idom_tree (node_idx order) None (map_of idom)" and u: "u \<in> dom (map_of idom)"
    and limit: "limit \<le> length order"
  shows "\<exists>x. climb order idom limit u = Some (Inr x) \<and> x \<in> anc (map_of idom) u \<and> limit \<le> node_idx order x
    \<and> (\<forall>c \<in> anc (map_of idom) u. limit \<le> node_idx order c \<longrightarrow> c \<in> anc (map_of idom) x)"
proof -
  let ?T = "map_of idom" and ?ix = "node_idx order"
  let ?P = "\<lambda>x. x \<in> anc ?T u \<and> (\<forall>c \<in> anc ?T u. limit \<le> ?ix c \<longrightarrow> c \<in> anc ?T x)"
  have "\<exists>x. climb order idom limit u = Some (Inr x) \<and> ?P x \<and> \<not> ?ix x < limit"
    unfolding climb_def
  proof (rule loopE_rule[where P = ?P and r = "measure (\<lambda>x. length order - ?ix x)"])
    fix x assume P: "?P x" and below: "?ix x < limit"
    then have "x \<in> dom ?T" using anc_dom[OF T u] by blast
    then obtain b where b: "?T x = Some b" by blast
    have "x \<noteq> None" using below limit by (cases x) auto
    then have lt: "?ix x < ?ix b" using tree_step[OF T b] by simp
    have "b \<in> anc ?T x" using b by (simp add: anc_unfold)
    then have bu: "b \<in> anc ?T u" using P by (blast intro: anc_trans)
    have "c \<in> anc ?T b" if c: "c \<in> anc ?T u" "limit \<le> ?ix c" for c
    proof -
      have "c \<in> anc ?T x" using P c by blast
      moreover have "c \<noteq> x" using below c(2) by auto
      ultimately show ?thesis using b by (simp add: anc_unfold)
    qed
    moreover have "length order - ?ix b < length order - ?ix x" using lt below limit by linarith
    ultimately show "\<exists>s'. Some (dget idom x) = Some (Inr s') \<and> ?P s' \<and> (s', x) \<in> measure (\<lambda>x. length order - ?ix x)"
      using b bu by (simp add: dget_def)
  qed simp_all
  then show ?thesis by (auto simp: not_less)
qed

lemma intersect_ok:
  assumes T: "idom_tree (node_idx order) None (map_of idom)" and u: "u \<in> dom (map_of idom)"
    and v: "v \<in> dom (map_of idom)" and dom: "dom (map_of idom) \<subseteq> vnodes order"
  shows "\<exists>x. intersect order idom u v = Some (Inr x) \<and> x \<in> dom (map_of idom)
    \<and> anc (map_of idom) x = anc (map_of idom) u \<inter> anc (map_of idom) v"
proof -
  let ?T = "map_of idom" and ?ix = "node_idx order"
  let ?P = "\<lambda>(a, b). a \<in> dom ?T \<and> b \<in> dom ?T \<and> anc ?T a \<inter> anc ?T b = anc ?T u \<inter> anc ?T v"
  let ?m = "\<lambda>(a, b). (length order - ?ix a) + (length order - ?ix b)"
  let ?body = "\<lambda>(u, v). bindO (climb order idom (?ix v) u) (\<lambda>u'.
      bindO (climb order idom (?ix u') v) (\<lambda>v'. Some (Inr (u', v'))))"
  have le: "?ix a \<le> length order" if "a \<in> dom ?T" for a
    using that dom node_idx_le by blast
  have lower: "?ix b \<le> ?ix c" if "c \<in> anc ?T b" for b c
    using anc_index[OF T that] by auto
  have "\<exists>s'. loopE (\<lambda>(u, v). u \<noteq> v) ?body (u, v) = Some (Inr s') \<and> ?P s' \<and> \<not> (\<lambda>(u, v). u \<noteq> v) s'"
  proof (rule loopE_rule[where P = ?P and r = "measure ?m"])
    fix st assume st: "?P st" "(\<lambda>(u, v). u \<noteq> v) st"
    obtain a b where ab: "st = (a, b)" by (cases st) auto
    with st have a: "a \<in> dom ?T" and b: "b \<in> dom ?T" and ne: "a \<noteq> b"
      and eq: "anc ?T a \<inter> anc ?T b = anc ?T u \<inter> anc ?T v" by auto
    from climb_ok[OF T a le[OF b]] obtain a' where a': "climb order idom (?ix b) a = Some (Inr a')"
      "a' \<in> anc ?T a" "?ix b \<le> ?ix a'" "\<forall>c \<in> anc ?T a. ?ix b \<le> ?ix c \<longrightarrow> c \<in> anc ?T a'" by blast
    have ad: "a' \<in> dom ?T" using a' anc_dom[OF T a] by blast
    from climb_ok[OF T b le[OF ad]] obtain b' where b': "climb order idom (?ix a') b = Some (Inr b')"
      "b' \<in> anc ?T b" "?ix a' \<le> ?ix b'" "\<forall>c \<in> anc ?T b. ?ix a' \<le> ?ix c \<longrightarrow> c \<in> anc ?T b'" by blast
    have bd: "b' \<in> dom ?T" using b' anc_dom[OF T b] by blast
    have "anc ?T a \<inter> anc ?T b = anc ?T a' \<inter> anc ?T b"
      using a'(2,4) lower by (blast intro: anc_trans)
    also have "\<dots> = anc ?T a' \<inter> anc ?T b'"
      using b'(2,4) lower by (blast intro: anc_trans)
    finally have eq': "anc ?T a' \<inter> anc ?T b' = anc ?T u \<inter> anc ?T v" using eq by simp
    have "?ix a \<noteq> ?ix b" using ne tree_inj[OF T a b] by blast
    then have "?ix a + ?ix b < ?ix a' + ?ix b'"
      using a'(3) b'(3) lower[OF a'(2)] lower[OF b'(2)] by linarith
    then have "?m (a', b') < ?m (a, b)"
      using le[OF a] le[OF b] le[OF ad] le[OF bd] by simp
    then show "\<exists>s'. ?body st = Some (Inr s') \<and> ?P s' \<and> (s', st) \<in> measure ?m"
      using a'(1) b'(1) ad bd eq' by (simp add: ab)
  qed (use u v in auto)
  then obtain x where "loopE (\<lambda>(u, v). u \<noteq> v) ?body (u, v) = Some (Inr (x, x))" and "?P (x, x)"
    by auto
  then show ?thesis by (auto simp: intersect_def)
qed

lemma reduce_intersect_ok:
  assumes T: "idom_tree (node_idx order) None (map_of idom)" and dom: "dom (map_of idom) \<subseteq> vnodes order"
    and "ps \<noteq> []" and "set ps \<subseteq> dom (map_of idom)"
  shows "\<exists>x. reduce (intersect order idom) ps = Some (Inr x) \<and> x \<in> dom (map_of idom)
    \<and> anc (map_of idom) x = (\<Inter>p \<in> set ps. anc (map_of idom) p)"
proof -
  let ?T = "map_of idom"
  have fold: "\<exists>x. foldO (\<lambda>y acc. intersect order idom acc y) qs u = Some (Inr x) \<and> x \<in> dom ?T
      \<and> anc ?T x = anc ?T u \<inter> (\<Inter>p \<in> set qs. anc ?T p)" if "u \<in> dom ?T" "set qs \<subseteq> dom ?T" for u qs
    using that
  proof (induction qs arbitrary: u)
    case Nil
    then show ?case by simp
  next
    case (Cons q qs)
    from Cons.prems have qd: "q \<in> dom ?T" "set qs \<subseteq> dom ?T" by auto
    from intersect_ok[OF T Cons.prems(1) qd(1) dom] obtain y where y: "intersect order idom u q = Some (Inr y)"
      "y \<in> dom ?T" "anc ?T y = anc ?T u \<inter> anc ?T q" by blast
    from Cons.IH[OF y(2) qd(2)] obtain x where
      x: "foldO (\<lambda>y acc. intersect order idom acc y) qs y = Some (Inr x)" "x \<in> dom ?T"
      "anc ?T x = anc ?T y \<inter> (\<Inter>p \<in> set qs. anc ?T p)" by blast
    then have "anc ?T x = anc ?T u \<inter> (\<Inter>p \<in> set (q # qs). anc ?T p)" by (simp add: y(3) Int_assoc)
    with x(1,2) y(1) show ?case by simp
  qed
  from assms(3) obtain p qs where ps: "ps = p # qs" by (cases ps) auto
  with assms(4) have "p \<in> dom ?T" "set qs \<subseteq> dom ?T" by auto
  from fold[OF this] show ?thesis by (simp add: ps)
qed

lemma set_dom_preds:
  assumes "dom (map_of idom) \<subseteq> vnodes order" and "map_of idom None \<noteq> None"
  shows "set (dom_preds roots preds idom u) = vpreds roots preds order u \<inter> dom (map_of idom)"
proof -
  have keys: "set (dkeys idom) = dom (map_of idom)" by (simp add: dom_map_of_conv_image_fst)
  have "Some v \<in> dom (map_of idom) \<Longrightarrow> v \<in> set order" for v
    using assms(1) by (auto simp: vnodes_def)
  then show ?thesis using assms(2) unfolding dom_preds_def vpreds_def keys by auto
qed

section \<open>A pass and the iteration\<close>

definition dom_measure :: "'n list \<Rightarrow> ('n option \<Rightarrow> 'n option option) \<Rightarrow> nat" where
  "dom_measure order T = (\<Sum>u \<in> set order.
     case T (Some u) of None \<Rightarrow> Suc (length order) | Some b \<Rightarrow> length order - node_idx order b)"

definition stable ::
  "'n list \<Rightarrow> ('n \<Rightarrow> 'n list) \<Rightarrow> 'n list \<Rightarrow> ('n option \<Rightarrow> 'n option option) \<Rightarrow> 'n \<Rightarrow> bool" where
  "stable roots preds order T u \<longleftrightarrow>
     (\<exists>x. T (Some u) = Some x \<and> anc T x = common T (vpreds roots preds order u))"

lemma dom_measure_less:
  assumes w: "w \<in> set order" and lower: "\<And>b. T (Some w) = Some b \<Longrightarrow> length order - node_idx order x < length order - node_idx order b"
  shows "dom_measure order (T(Some w \<mapsto> x)) < dom_measure order T"
  unfolding dom_measure_def
proof (rule sum_strict_mono_ex1)
  let ?f = "\<lambda>T u. case T (Some u) of None \<Rightarrow> Suc (length order) | Some b \<Rightarrow> length order - node_idx order b"
  have at_w: "?f (T(Some w \<mapsto> x)) w < ?f T w" using lower by (auto split: option.splits)
  show "\<forall>u \<in> set order. ?f (T(Some w \<mapsto> x)) u \<le> ?f T u"
    using at_w by (auto intro: less_imp_le)
  show "\<exists>u \<in> set order. ?f (T(Some w \<mapsto> x)) u < ?f T u" using at_w w by blast
qed simp

lemma dom_update_ok:
  assumes tables: "dom_tables roots preds succs order"
    and inv: "dom_inv roots preds succs order (Suc j) (map_of idom)" and j: "j < length order"
  shows "\<exists>idom' changed'. dom_update roots preds order (order ! j) (idom, changed) = Some (Inr (idom', changed'))
    \<and> dom_inv roots preds succs order j (map_of idom')
    \<and> ((idom', changed') = (idom, changed) \<and> stable roots preds order (map_of idom) (order ! j)
       \<or> changed' \<and> dom_measure order (map_of idom') < dom_measure order (map_of idom))"
proof -
  let ?T = "map_of idom" and ?w = "order ! j" and ?ix = "node_idx order"
  note T = dom_invD(1)[OF inv] and dom = dom_invD(2)[OF inv]
  have distinct: "distinct order"
    using tables postorder_result[of succs roots order] by (auto simp: dom_tables_def)
  have wo: "?w \<in> set order" using j by simp
  have set_preds: "set (dom_preds roots preds idom ?w) = vpreds roots preds order ?w \<inter> dom ?T"
    by (rule set_dom_preds[OF dom]) (simp add: tree_root[OF T])
  obtain p where p: "p \<in> vpreds roots preds order ?w" "?ix (Some ?w) < ?ix p"
    using later_pred[OF tables wo] by blast
  have "p \<in> dom ?T"
    using p dom_invD(3)[OF inv, of "the p"] tree_root[OF T] node_idx_nth[OF distinct j]
      subsetD[OF vpreds_vnodes p(1)] by (cases p) (auto simp: vnodes_def)
  with p set_preds have "dom_preds roots preds idom ?w \<noteq> []" by auto
  from reduce_intersect_ok[OF T dom this] set_preds obtain x where
    x: "reduce (intersect order idom) (dom_preds roots preds idom ?w) = Some (Inr x)" "x \<in> dom ?T"
    and anc_x: "anc ?T x = common ?T (vpreds roots preds order ?w)"
    by (auto simp: common_def)
  note update = dom_update_inv[OF tables inv j refl x(2) anc_x]
  show ?thesis
  proof (cases "?T (Some ?w) = Some x")
    case True
    then have "?T(Some ?w \<mapsto> x) = ?T" by auto
    with True x anc_x update(1) show ?thesis by (auto simp: dom_update_def stable_def)
  next
    case False
    have "length order - ?ix x < length order - ?ix b" if b: "?T (Some ?w) = Some b" for b
    proof -
      have "x \<in> anc ?T b" by (rule update(2)[OF b])
      with False b anc_index[OF T, of x b] have "?ix b < ?ix x" by auto
      moreover have "?ix x \<le> length order" using x(2) dom node_idx_le by blast
      ultimately show ?thesis by linarith
    qed
    then have "dom_measure order (?T(Some ?w \<mapsto> x)) < dom_measure order ?T"
      by (rule dom_measure_less[OF wo])
    moreover have "map_of (dset (Some ?w) x idom) = ?T(Some ?w \<mapsto> x)" by (rule update_conv')
    moreover have "dom_update roots preds order ?w (idom, changed) = Some (Inr (dset (Some ?w) x idom, True))"
      using False x by (simp add: dom_update_def)
    ultimately show ?thesis using update(1) by (metis (mono_tags))
  qed
qed

text \<open>In a pass that started from \<open>idom\<close>, with the nodes from index \<open>j\<close> on done.\<close>

definition pass_state ::
  "'n list \<Rightarrow> ('n \<Rightarrow> 'n list) \<Rightarrow> ('n \<Rightarrow> 'n list) \<Rightarrow> 'n list \<Rightarrow> 'n idoms \<Rightarrow> nat \<Rightarrow> 'n idoms \<times> bool \<Rightarrow> bool" where
  "pass_state roots preds succs order idom j st \<longleftrightarrow>
     dom_inv roots preds succs order j (map_of (fst st))
   \<and> (if snd st then dom_measure order (map_of (fst st)) < dom_measure order (map_of idom)
      else fst st = idom \<and> (\<forall>u \<in> set (drop j order). stable roots preds order (map_of idom) u))"

lemma dom_pass_ok:
  assumes tables: "dom_tables roots preds succs order"
    and inv: "dom_inv roots preds succs order (length order) (map_of idom)"
  shows "\<exists>idom' changed'. dom_pass roots preds order (idom, changed) = Some (Inr (idom', changed'))
    \<and> dom_inv roots preds succs order 0 (map_of idom')
    \<and> (if changed' then dom_measure order (map_of idom') < dom_measure order (map_of idom)
       else idom' = idom \<and> (\<forall>u \<in> set order. stable roots preds order (map_of idom) u))"
proof -
  let ?P = "\<lambda>xs st. xs = rev (take (length xs) order) \<and> length xs \<le> length order
    \<and> pass_state roots preds succs order idom (length xs) st"
  have "\<exists>st'. foldO (dom_update roots preds order) (rev order) (idom, False) = Some (Inr st') \<and> ?P [] st'"
  proof (rule foldO_rule[where P = ?P])
    show "?P (rev order) (idom, False)" using inv by (simp add: pass_state_def)
  next
    fix w xs st assume P: "?P (w # xs) st"
    obtain cur ch where st: "st = (cur, ch)" by (cases st) auto
    have j: "length xs < length order" using conjunct1[OF conjunct2[OF P]] by simp
    then have "take (Suc (length xs)) order = take (length xs) order @ [order ! length xs]"
      by (simp add: take_Suc_conv_app_nth)
    then have rev: "rev (take (Suc (length xs)) order) = order ! length xs # rev (take (length xs) order)"
      by simp
    have "w # xs = order ! length xs # rev (take (length xs) order)"
      using conjunct1[OF P] unfolding length_Cons rev .
    then have w: "w = order ! length xs" and xs: "xs = rev (take (length xs) order)"
      by (fact list.inject[THEN iffD1, THEN conjunct1], fact list.inject[THEN iffD1, THEN conjunct2])
    have state: "pass_state roots preds succs order idom (Suc (length xs)) (cur, ch)"
      using conjunct2[OF conjunct2[OF P]] st by simp
    then have "dom_inv roots preds succs order (Suc (length xs)) (map_of cur)" by (simp add: pass_state_def)
    from dom_update_ok[OF tables this j, of ch, folded w] obtain cur' ch' where
      step: "dom_update roots preds order w (cur, ch) = Some (Inr (cur', ch'))"
      and inv'': "dom_inv roots preds succs order (length xs) (map_of cur')"
      and effect: "(cur', ch') = (cur, ch) \<and> stable roots preds order (map_of cur) w
        \<or> ch' \<and> dom_measure order (map_of cur') < dom_measure order (map_of cur)"
      by blast
    have drop: "drop (length xs) order = w # drop (Suc (length xs)) order"
      using j w by (simp add: Cons_nth_drop_Suc)
    have "pass_state roots preds succs order idom (length xs) (cur', ch')"
      using effect
    proof
      assume "(cur', ch') = (cur, ch) \<and> stable roots preds order (map_of cur) w"
      with state inv'' drop show ?thesis by (simp add: pass_state_def split: if_splits)
    next
      assume "ch' \<and> dom_measure order (map_of cur') < dom_measure order (map_of cur)"
      moreover have "dom_measure order (map_of cur) \<le> dom_measure order (map_of idom)"
        using state by (simp add: pass_state_def split: if_splits)
      ultimately show ?thesis using inv'' by (simp add: pass_state_def)
    qed
    moreover have "length xs \<le> length order" using j by simp
    ultimately show "\<exists>s'. dom_update roots preds order w st = Some (Inr s') \<and> ?P xs s'"
      using step xs st by blast
  qed
  then obtain idom' changed' where
    run: "foldO (dom_update roots preds order) (rev order) (idom, False) = Some (Inr (idom', changed'))"
    and "pass_state roots preds succs order idom (length ([] :: 'a list)) (idom', changed')" by auto
  then have fin: "pass_state roots preds succs order idom 0 (idom', changed')" by simp
  show ?thesis
  proof (intro exI conjI)
    show "dom_pass roots preds order (idom, changed) = Some (Inr (idom', changed'))"
      using run by (simp add: dom_pass_def)
    show "dom_inv roots preds succs order 0 (map_of idom')"
      using fin by (simp add: pass_state_def)
    show "if changed' then dom_measure order (map_of idom') < dom_measure order (map_of idom)
       else idom' = idom \<and> (\<forall>u \<in> set order. stable roots preds order (map_of idom) u)"
      using fin by (cases changed') (simp_all add: pass_state_def)
  qed
qed

lemma dom_inv_restart:
  "dom_inv roots preds succs order 0 T \<Longrightarrow> dom_inv roots preds succs order (length order) T"
  by (auto simp: dom_inv_def dom_low_def dest: node_idx_less)

lemma dom_inv_init: "dom_inv roots preds succs order (length order) (map_of [(None, None)])"
  by (auto simp: dom_inv_def idom_tree_def vnodes_def dom_sound_def dom_high_def dom_low_def
      dest: node_idx_less split: if_splits)

definition all_stable :: "'n list \<Rightarrow> ('n \<Rightarrow> 'n list) \<Rightarrow> 'n list \<Rightarrow> ('n option \<Rightarrow> 'n option option) \<Rightarrow> bool" where
  "all_stable roots preds order T \<longleftrightarrow> (\<forall>u \<in> set order. stable roots preds order T u)"

lemma dom_loop_ok:
  assumes tables: "dom_tables roots preds succs order"
  shows "\<exists>idom changed. loopE snd (dom_pass roots preds order) ([(None, None)], True) = Some (Inr (idom, changed))
    \<and> dom_inv roots preds succs order 0 (map_of idom) \<and> all_stable roots preds order (map_of idom)"
proof -
  let ?I = "dom_inv roots preds succs order"
  let ?P = "\<lambda>st. ?I (length order) (map_of (fst st))
    \<and> (\<not> snd st \<longrightarrow> ?I 0 (map_of (fst st)) \<and> all_stable roots preds order (map_of (fst st)))"
  let ?r = "measures [\<lambda>st. dom_measure order (map_of (fst st)), \<lambda>st. if snd st then 1 else 0]"
  have "\<exists>st. loopE snd (dom_pass roots preds order) ([(None, None)], True) = Some (Inr st) \<and> ?P st \<and> \<not> snd st"
  proof (rule loopE_rule[where P = ?P and r = ?r])
    show "?P ([(None, None)], True)" using dom_inv_init[of roots preds succs order] by simp
  next
    fix st assume P: "?P st" and ch: "snd st"
    obtain idom where st: "st = (idom, True)" using ch by (cases st) auto
    have "?I (length order) (map_of idom)" using P st by simp
    from dom_pass_ok[OF tables this, of True] obtain idom' changed' where
      run: "dom_pass roots preds order (idom, True) = Some (Inr (idom', changed'))"
      and inv: "?I 0 (map_of idom')"
      and effect: "if changed' then dom_measure order (map_of idom') < dom_measure order (map_of idom)
         else idom' = idom \<and> (\<forall>u \<in> set order. stable roots preds order (map_of idom) u)"
      by blast
    have "?P (idom', changed')"
      using inv dom_inv_restart[OF inv] effect by (cases changed') (simp_all add: all_stable_def)
    moreover have "((idom', changed'), st) \<in> ?r"
      using effect st by (cases changed') simp_all
    ultimately show "\<exists>s'. dom_pass roots preds order st = Some (Inr s') \<and> ?P s' \<and> (s', st) \<in> ?r"
      using run st by blast
  qed simp
  then show ?thesis by (metis prod.collapse)
qed

section \<open>The result\<close>

lemma ancestors_dominate:
  assumes tables: "dom_tables roots preds succs order"
    and inv: "dom_inv roots preds succs order 0 T" and stable: "all_stable roots preds order T"
    and u: "u \<in> set order" and above: "Some d \<in> anc T (Some u)"
  shows "dominates succs roots d u"
proof -
  have R: "set order = reachable succs roots"
    using tables postorder_result[of succs roots order] by (auto simp: dom_tables_def)
  note T = dom_invD(1)[OF inv]
  have "n \<in> avoiding succs roots d \<Longrightarrow> Some d \<notin> anc T (Some n)" for n
  proof (induction rule: avoiding_induct)
    case (root r)
    then have "r \<in> set order" using R by auto
    with stable obtain x where x: "T (Some r) = Some x" "anc T x = common T (vpreds roots preds order r)"
      by (auto simp: all_stable_def stable_def)
    have "anc T x \<subseteq> anc T None"
      using root(1) tree_root[OF T] by (auto simp: x(2) common_def vpreds_def)
    with root(2) x(1) anc_root[OF T] show ?case by (auto simp: anc_unfold)
  next
    case (step a b)
    have ab: "a \<in> set order" "b \<in> set order"
      using avoiding_reachable[OF step.hyps(1)] reachable_step[of a succs roots b] step.hyps(2) R by auto
    with tables step.hyps(2) have "Some a \<in> vpreds roots preds order b"
      by (auto simp: dom_tables_def vpreds_def)
    moreover have "Some a \<in> dom T" using dom_invD(3)[OF inv ab(1)] by simp
    moreover from stable ab(2) obtain x where
      x: "T (Some b) = Some x" "anc T x = common T (vpreds roots preds order b)"
      by (auto simp: all_stable_def stable_def)
    ultimately have "anc T x \<subseteq> anc T (Some a)" by (auto simp: common_def)
    with step.IH step.hyps(3) x(1) show ?case by (auto simp: anc_unfold)
  qed
  with above u R show ?thesis by (auto simp: dominates_def)
qed

text \<open>What the result says of a node.\<close>

definition is_idom :: "('n \<Rightarrow> 'n list) \<Rightarrow> 'n list \<Rightarrow> 'n \<Rightarrow> 'n option \<Rightarrow> bool" where
  "is_idom succs roots u b \<longleftrightarrow>
     (if u \<in> set roots then b = Some u
      else case b of
        None \<Rightarrow> (\<forall>d. dominates succs roots d u \<longrightarrow> d = u)
      | Some d \<Rightarrow> d \<noteq> u \<and> dominates succs roots d u
          \<and> (\<forall>e. dominates succs roots e u \<and> e \<noteq> u \<longrightarrow> dominates succs roots e d))"

lemma tree_is_idom:
  assumes tables: "dom_tables roots preds succs order"
    and inv: "dom_inv roots preds succs order 0 T" and stable: "all_stable roots preds order T"
    and u: "u \<in> set order" and b: "T (Some u) = Some b"
  shows "is_idom succs roots u (if u \<in> set roots then Some u else b)"
proof (cases "u \<in> set roots \<or> b = None")
  case True
  have "d = u" if "b = None" "dominates succs roots d u" for d
    using dom_soundE[OF dom_invD(4)[OF inv] b that(2)] that(1) by blast
  with True show ?thesis by (auto simp: is_idom_def)
next
  case False
  then obtain d where d: "b = Some d" by auto
  have "d \<noteq> u" using tree_step[OF dom_invD(1)[OF inv] b] d by auto
  moreover have "dominates succs roots d u"
    using ancestors_dominate[OF tables inv stable u, of d] b d by (simp add: anc_unfold)
  moreover have "dominates succs roots e d" if "dominates succs roots e u" "e \<noteq> u" for e
    using dom_invD(4)[OF inv] b that by (rule dom_soundE) (simp add: d)
  ultimately show ?thesis using False d by (auto simp: is_idom_def)
qed

lemma idom_result_fold:
  assumes "\<forall>u \<in> set order. \<exists>v. map_of idom (Some u) = Some v" and "distinct order"
  shows "foldE (idom_result roots idom) order []
    = Inr (map (\<lambda>u. (u, if u \<in> set roots then Some u else the (map_of idom (Some u)))) order)"
proof -
  let ?g = "\<lambda>u. if u \<in> set roots then Some u else the (map_of idom (Some u))"
  have "\<forall>u \<in> set xs. \<exists>v. map_of idom (Some u) = Some v \<Longrightarrow>
      foldE (idom_result roots idom) xs r = Inr (fold (\<lambda>u r. dset u (?g u) r) xs r)" for xs r
  proof (induction xs arbitrary: r)
    case (Cons a xs)
    then show ?case by (auto simp: idom_result_def dget_def)
  qed simp
  with assms(1) have "foldE (idom_result roots idom) order [] = Inr (fold (\<lambda>u r. dset u (?g u) r) order [])"
    by blast
  also have "fold (\<lambda>u r. dset u (?g u) r) order [] = map (\<lambda>u. (u, ?g u)) order"
    using fold_dset_fresh[where t = "[]" and f = "\<lambda>u. u" and g = ?g and xs = order] assms(2) by simp
  finally show ?thesis .
qed

lemma immediate_dominators_result:
  assumes "stays_in succs ns" and "set roots \<subseteq> set ns"
    and "\<forall>p \<in> reachable succs roots. \<forall>u \<in> reachable succs roots. p \<in> set (preds u) \<longleftrightarrow> u \<in> set (succs p)"
  shows "\<exists>r. immediate_dominators roots preds succs = Some (Inr r) \<and> distinct (dkeys r)
    \<and> set (dkeys r) = reachable succs roots \<and> (\<forall>(u, b) \<in> set r. is_idom succs roots u b)"
proof -
  obtain order where run: "postorder succs roots = Some order"
    using postorder_returns[OF assms(1,2)] by blast
  note order = postorder_result[OF run]
  have tables: "dom_tables roots preds succs order"
    using run assms(3) by (simp add: dom_tables_def order(2))
  obtain idom changed where loop: "loopE snd (dom_pass roots preds order) ([(None, None)], True) = Some (Inr (idom, changed))"
    and inv: "dom_inv roots preds succs order 0 (map_of idom)"
    and stable: "all_stable roots preds order (map_of idom)"
    using dom_loop_ok[OF tables] by blast
  have all: "\<forall>u \<in> set order. \<exists>v. map_of idom (Some u) = Some v"
    using dom_invD(3)[OF inv] by (auto simp: domIff)
  let ?r = "map (\<lambda>u. (u, if u \<in> set roots then Some u else the (map_of idom (Some u)))) order"
  have "immediate_dominators roots preds succs = Some (Inr ?r)"
    using idom_result_fold[OF all order(1), of roots]
    by (simp add: immediate_dominators_def run loop)
  moreover have "dkeys ?r = order" by (simp add: comp_def)
  moreover have "is_idom succs roots u (if u \<in> set roots then Some u else the (map_of idom (Some u)))"
    if "u \<in> set order" for u
    using tree_is_idom[OF tables inv stable that] all that by fastforce
  ultimately show ?thesis using order(1,2) by (intro exI[of _ ?r]) auto
qed

end
