(* ===== verification/DomSets.thy ===== *)
theory DomSets
  imports Idoms
begin

text \<open>
  Correctness of what \<open>CFGraph\<close> derives from the immediate dominators: dominator sets,
  dominator tree and dominance frontier.
\<close>

section \<open>Dominance is a partial order\<close>

lemma dominates_trans:
  assumes "dominates succs roots e d" and "dominates succs roots d u"
  shows "dominates succs roots e u"
proof -
  have "n \<in> avoiding succs roots e \<Longrightarrow> n \<in> avoiding succs roots d" for n
  proof (induction rule: avoiding_induct)
    case (root r)
    with assms(1) show ?case
      by (cases "r = d") (auto simp: dominates_def intro: avoiding_root)
  next
    case (step a b)
    have "b \<in> avoiding succs roots e" using step.hyps by (rule avoiding_step)
    with assms(1) have "b \<noteq> d" by (auto simp: dominates_def)
    with step show ?case by (auto intro: avoiding_step)
  qed
  with assms show ?thesis by (auto simp: dominates_def)
qed

lemma dominates_antisym:
  assumes "dominates succs roots d u" and "dominates succs roots u d"
  shows "d = u"
proof (rule ccontr)
  assume ne: "d \<noteq> u"
  have "n \<in> reachable succs roots \<Longrightarrow> n \<in> avoiding succs roots d \<and> n \<in> avoiding succs roots u" for n
  proof (induction rule: reachable_induct)
    case (root r)
    then have "r \<noteq> d" "r \<noteq> u"
      using dominates_preds(1)[OF assms(1) ne] dominates_preds(1)[OF assms(2)] ne by auto
    with root show ?case by (simp add: avoiding_root)
  next
    case (step a b)
    have "b \<noteq> d" using step assms(2) ne avoiding_step[of a succs roots u b] by (auto simp: dominates_def)
    moreover have "b \<noteq> u" using step assms(1) ne avoiding_step[of a succs roots d b] by (auto simp: dominates_def)
    ultimately show ?case using step by (blast intro: avoiding_step)
  qed
  with assms(1) show False by (auto simp: dominates_def)
qed

section \<open>Dominator sets\<close>

definition doms_of :: "('n \<Rightarrow> 'n list) \<Rightarrow> 'n list \<Rightarrow> 'n \<Rightarrow> 'n set" where
  "doms_of succs roots u = {d. dominates succs roots d u}"

text \<open>A table of immediate dominators: one entry for every reachable node.\<close>

definition idom_table :: "('n \<Rightarrow> 'n list) \<Rightarrow> 'n list \<Rightarrow> ('n, 'n option) dict \<Rightarrow> bool" where
  "idom_table succs roots idom \<longleftrightarrow> distinct (dkeys idom) \<and> set (dkeys idom) = reachable succs roots
     \<and> (\<forall>(u, b) \<in> set idom. is_idom succs roots u b)"

lemma idom_table_lookup:
  assumes "idom_table succs roots idom" and "u \<in> reachable succs roots"
  obtains b where "map_of idom u = Some b" and "is_idom succs roots u b"
proof -
  from assms have "u \<in> fst ` set idom" by (simp add: idom_table_def)
  then obtain b where "map_of idom u = Some b" by (meson map_of_eq_None_iff not_None_eq)
  with assms(1) that show thesis by (auto simp: idom_table_def dest: map_of_SomeD)
qed

text \<open>The next node of the chain above a node.\<close>

definition chain_parent :: "'n \<Rightarrow> 'n option \<Rightarrow> 'n option" where
  "chain_parent c b = (if b = Some c then None else b)"

lemma doms_of_parent:
  assumes u: "u \<in> reachable succs roots" and idom: "is_idom succs roots u b"
  shows "doms_of succs roots u = insert u (case chain_parent u b of None \<Rightarrow> {} | Some p \<Rightarrow> doms_of succs roots p)"
    and "chain_parent u b = Some p \<Longrightarrow> p \<in> reachable succs roots \<and> u \<notin> doms_of succs roots p"
proof -
  have self: "dominates succs roots u u" by (rule dominates_self[OF u])
  have none: "doms_of succs roots u = {u}" if "\<And>d. dominates succs roots d u \<Longrightarrow> d = u"
    using that self by (auto simp: doms_of_def)
  show "doms_of succs roots u = insert u (case chain_parent u b of None \<Rightarrow> {} | Some p \<Rightarrow> doms_of succs roots p)"
  proof (cases "u \<in> set roots")
    case True
    with idom have b: "b = Some u" by (simp add: is_idom_def)
    have "doms_of succs roots u = {u}"
      using True dominates_preds(1)[of succs roots _ u] by (intro none) blast
    then show ?thesis by (simp add: b chain_parent_def)
  next
    case False
    show ?thesis
    proof (cases b)
      case None
      with False idom have "doms_of succs roots u = {u}" by (intro none) (simp add: is_idom_def)
      then show ?thesis by (simp add: None chain_parent_def)
    next
      case (Some d)
      with False idom have d: "d \<noteq> u" "dominates succs roots d u"
        "\<And>e. dominates succs roots e u \<Longrightarrow> e \<noteq> u \<Longrightarrow> dominates succs roots e d"
        by (auto simp: is_idom_def)
      then have "doms_of succs roots u = insert u (doms_of succs roots d)"
        using self dominates_trans[OF _ d(2)] by (auto simp: doms_of_def)
      with d(1) Some show ?thesis by (simp add: chain_parent_def)
    qed
  qed
  show "p \<in> reachable succs roots \<and> u \<notin> doms_of succs roots p" if p: "chain_parent u b = Some p"
  proof -
    from p have "b = Some p" "p \<noteq> u" by (auto simp: chain_parent_def split: if_splits)
    with idom have "dominates succs roots p u" by (auto simp: is_idom_def split: if_splits)
    with \<open>p \<noteq> u\<close> show ?thesis
      using dominator_reachable dominates_antisym by (fastforce simp: doms_of_def)
  qed
qed

definition sets_ok :: "('n \<Rightarrow> 'n list) \<Rightarrow> 'n list \<Rightarrow> ('n, 'n list) dict \<Rightarrow> bool" where
  "sets_ok succs roots doms \<longleftrightarrow>
     (\<forall>k s. map_of doms k = Some s \<longrightarrow> k \<in> reachable succs roots \<and> set s = doms_of succs roots k)"

fun chain_linked :: "('n \<Rightarrow> 'n list) \<Rightarrow> 'n list \<Rightarrow> 'n list \<Rightarrow> 'n option \<Rightarrow> bool" where
  "chain_linked succs roots [] cur \<longleftrightarrow> True"
| "chain_linked succs roots (c # cs) cur \<longleftrightarrow>
     c \<in> reachable succs roots
   \<and> doms_of succs roots c = insert c (case cur of None \<Rightarrow> {} | Some p \<Rightarrow> doms_of succs roots p)
   \<and> chain_linked succs roots cs (Some c)"

lemma fill_chain_fold:
  assumes "sets_ok succs roots doms" and "chain_linked succs roots chain cur"
    and "set base = (case cur of None \<Rightarrow> {} | Some p \<Rightarrow> doms_of succs roots p)"
  shows "let doms' = fst (fold (\<lambda>c (doms, base). let base' = set_add c base in (dset c base' doms, base'))
            chain (doms, base))
    in sets_ok succs roots doms' \<and> set (dkeys doms') = set (dkeys doms) \<union> set chain"
  using assms
proof (induction chain arbitrary: cur doms base)
  case Nil
  then show ?case by simp
next
  case (Cons c cs)
  from Cons.prems have c: "c \<in> reachable succs roots" "set (set_add c base) = doms_of succs roots c"
    "chain_linked succs roots cs (Some c)" by auto
  then have "sets_ok succs roots (dset c (set_add c base) doms)"
    using Cons.prems(1) by (auto simp: sets_ok_def)
  from Cons.IH[OF this c(3), of "set_add c base"] c(2) show ?case
    by (simp add: Let_def Un_insert_right)
qed

lemma dom_set_of_ok:
  assumes table: "idom_table succs roots idom" and fin: "finite (reachable succs roots)"
    and ok: "sets_ok succs roots doms" and node: "node \<in> reachable succs roots"
  shows "\<exists>doms'. dom_set_of idom node doms = Some (Inr doms') \<and> sets_ok succs roots doms'
    \<and> insert node (set (dkeys doms)) \<subseteq> set (dkeys doms')"
proof -
  let ?D = "doms_of succs roots" and ?R = "reachable succs roots"
  let ?b = "\<lambda>(chain, cur). case cur of None \<Rightarrow> False | Some c \<Rightarrow> c \<notin> set (dkeys doms)"
  let ?P = "\<lambda>(chain, cur). chain_linked succs roots chain cur
    \<and> (case cur of None \<Rightarrow> True | Some c \<Rightarrow> c \<in> ?R) \<and> (node \<in> set chain \<or> cur = Some node)"
  let ?m = "\<lambda>(chain :: 'a list, cur). case cur of None \<Rightarrow> 0 | Some c \<Rightarrow> card (?D c)"
  have finD: "finite (?D c)" for c
    by (rule finite_subset[OF _ fin]) (auto simp: doms_of_def intro: dominator_reachable)
  have "\<exists>st. loopE ?b (\<lambda>st. Some (dom_chain_step idom st)) ([], Some node) = Some (Inr st) \<and> ?P st \<and> \<not> ?b st"
  proof (rule loopE_rule[where P = ?P and r = "measure ?m"])
    fix st assume P: "?P st" and b: "?b st"
    obtain chain c where st: "st = (chain, Some c)" using b by (cases st) (auto split: option.splits)
    with P have c: "c \<in> ?R" and linked: "chain_linked succs roots chain (Some c)"
      and mem: "node \<in> set chain \<or> c = node" by auto
    obtain par where par: "map_of idom c = Some par" "is_idom succs roots c par"
      using idom_table_lookup[OF table c] by blast
    note D = doms_of_parent[OF c par(2)]
    let ?st' = "(c # chain, chain_parent c par)"
    have "dom_chain_step idom st = Inr ?st'"
      using par(1) by (simp add: st dom_chain_step_def dget_def chain_parent_def)
    moreover have "?P ?st'"
      using c linked mem D by (auto split: option.splits)
    moreover have "?m ?st' < ?m st"
    proof (cases "chain_parent c par")
      case None
      have "c \<in> ?D c" using dominates_self[OF c] by (simp add: doms_of_def)
      then have "0 < card (?D c)" using finD[of c] by (auto simp: card_gt_0_iff)
      then show ?thesis by (simp add: st None)
    next
      case (Some p)
      with D have "?D p \<subset> ?D c" by auto
      then show ?thesis using psubset_card_mono[OF finD] by (simp add: st Some)
    qed
    ultimately show "\<exists>s'. Some (dom_chain_step idom st) = Some (Inr s') \<and> ?P s' \<and> (s', st) \<in> measure ?m"
      by (intro exI[of _ ?st']) simp
  qed (use node in simp_all)
  then obtain st where st: "loopE ?b (\<lambda>st. Some (dom_chain_step idom st)) ([], Some node) = Some (Inr st)"
    "?P st" "\<not> ?b st" by blast
  obtain chain cur where eq: "st = (chain, cur)" by (rule prod.exhaust)
  note loop = st(1)[unfolded eq] and P = st(2)[unfolded eq] and stop = st(3)[unfolded eq]
  obtain base where base: "(case cur of None \<Rightarrow> Inr [] | Some c \<Rightarrow> dget doms c) = Inr base"
    "set base = (case cur of None \<Rightarrow> {} | Some c \<Rightarrow> ?D c)"
  proof (cases cur)
    case None
    with that[of "[]"] show thesis by simp
  next
    case (Some c)
    with stop have "c \<in> fst ` set doms" by simp
    then obtain s where s: "map_of doms c = Some s" by (meson map_of_eq_None_iff not_None_eq)
    with ok have "set s = ?D c" by (auto simp: sets_ok_def)
    with that[of s] s Some show thesis by (simp add: dget_def)
  qed
  from P have "chain_linked succs roots chain cur" by simp
  from fill_chain_fold[OF ok this base(2)] obtain doms' where
    run: "dom_set_of idom node doms = Some (Inr doms')" and ok': "sets_ok succs roots doms'"
    and keys: "set (dkeys doms') = set (dkeys doms) \<union> set chain"
    using loop base(1) by (auto simp: dom_set_of_def fill_chain_def Let_def)
  have "node \<in> set chain \<or> node \<in> set (dkeys doms)"
    using P stop by (cases cur) auto
  with run ok' keys show ?thesis by blast
qed

lemma fold_setdefault:
  "map_of (fold (dict_setdefault v) ks d) k
     = (case map_of d k of Some x \<Rightarrow> Some x | None \<Rightarrow> if k \<in> set ks then Some v else None)"
proof (induction ks arbitrary: d)
  case Nil
  then show ?case by (simp split: option.splits)
next
  case (Cons a ks)
  have "a \<in> fst ` set d \<longleftrightarrow> map_of d a \<noteq> None" by (simp add: map_of_eq_None_iff)
  with Cons show ?case by (auto simp: dict_setdefault_def split: option.splits)
qed

lemma dominator_sets_result:
  assumes table: "idom_table succs roots idom" and fin: "finite (reachable succs roots)"
    and nodes: "reachable succs roots \<subseteq> set nodes"
  shows "\<exists>doms. dominator_sets nodes idom = Some (Inr doms) \<and> (\<forall>n \<in> set nodes. \<exists>s. map_of doms n = Some s
    \<and> set s = (if n \<in> reachable succs roots then doms_of succs roots n else set nodes))"
proof -
  let ?P = "\<lambda>ks doms. sets_ok succs roots doms \<and> set ks \<subseteq> reachable succs roots
    \<and> set (dkeys idom) - set ks \<subseteq> set (dkeys doms)"
  have "\<exists>doms. foldO (dom_set_of idom) (dkeys idom) [] = Some (Inr doms) \<and> ?P [] doms"
  proof (rule foldO_rule[where P = ?P])
    show "?P (dkeys idom) []" using table by (auto simp: sets_ok_def idom_table_def)
  next
    fix k ks doms assume P: "?P (k # ks) doms"
    then have "sets_ok succs roots doms" "k \<in> reachable succs roots" by auto
    from dom_set_of_ok[OF table fin this] obtain doms' where
      doms': "dom_set_of idom k doms = Some (Inr doms')" "sets_ok succs roots doms'"
      "insert k (set (dkeys doms)) \<subseteq> set (dkeys doms')" by blast
    moreover have "set (dkeys idom) - set ks \<subseteq> set (dkeys doms')"
      using conjunct2[OF conjunct2[OF P]] doms'(3) unfolding list.set by blast
    ultimately show "\<exists>s'. dom_set_of idom k doms = Some (Inr s') \<and> ?P ks s'"
      using P by (intro exI[of _ doms']) simp
  qed
  then obtain doms where run: "foldO (dom_set_of idom) (dkeys idom) [] = Some (Inr doms)"
    and ok: "sets_ok succs roots doms" and keys: "set (dkeys idom) \<subseteq> set (dkeys doms)" by auto
  have in_doms: "map_of doms n \<noteq> None \<longleftrightarrow> n \<in> reachable succs roots" for n
  proof
    assume "n \<in> reachable succs roots"
    then have "n \<in> fst ` set doms" using keys table by (auto simp: idom_table_def)
    then show "map_of doms n \<noteq> None" by (simp add: map_of_eq_None_iff)
  qed (use ok in \<open>auto simp: sets_ok_def\<close>)
  let ?doms = "fold (dict_setdefault nodes) nodes doms"
  have "\<exists>s. map_of ?doms n = Some s
      \<and> set s = (if n \<in> reachable succs roots then doms_of succs roots n else set nodes)"
    if "n \<in> set nodes" for n
  proof (cases "map_of doms n")
    case None
    with in_doms[of n] that show ?thesis by (simp add: fold_setdefault)
  next
    case (Some s)
    with in_doms[of n] ok show ?thesis by (simp add: fold_setdefault sets_ok_def)
  qed
  with run show ?thesis by (simp add: dominator_sets_def)
qed

section \<open>Dominance frontier\<close>

text \<open>One predecessor \<open>p\<close> of \<open>u\<close>: its chain up to the immediate dominator \<open>d\<close> of \<open>u\<close>.\<close>

definition frontier_keys :: "('n \<Rightarrow> 'n list) \<Rightarrow> 'n list \<Rightarrow> ('n, 'n list) dict \<Rightarrow> bool" where
  "frontier_keys succs roots df \<longleftrightarrow> set (dkeys df) = reachable succs roots"

definition in_frontier :: "('n, 'n list) dict \<Rightarrow> 'n \<Rightarrow> 'n \<Rightarrow> bool" where
  "in_frontier df v u \<longleftrightarrow> (\<exists>s. map_of df v = Some s \<and> u \<in> set s)"

lemma add_frontier_ok:
  assumes table: "idom_table succs roots idom" and fin: "finite (reachable succs roots)"
    and keys: "frontier_keys succs roots df" and stop: "map_of idom u = Some (Some d)"
    and p: "p \<in> reachable succs roots" and d: "dominates succs roots d p"
  shows "\<exists>df'. add_frontier idom u p df = Some (Inr df') \<and> frontier_keys succs roots df'
    \<and> (\<forall>v w. in_frontier df' v w \<longleftrightarrow> in_frontier df v w
         \<or> (w = u \<and> dominates succs roots v p \<and> \<not> dominates succs roots v d))"
proof -
  let ?dom = "dominates succs roots" and ?D = "doms_of succs roots"
  let ?b = "\<lambda>(df :: ('a, 'a list) dict, v). v \<noteq> Some d"
  let ?c = "\<lambda>(df, v). Some (case v of
                 None \<Rightarrow> Inl KeyError
               | Some n \<Rightarrow> bindE (dget df n) (\<lambda>s. bindE (dget idom n) (\<lambda>parent.
                     Inr (dset n (set_add u s) df, parent))))"
  let ?P = "\<lambda>(df', v). frontier_keys succs roots df' \<and> (\<exists>n. v = Some n \<and> ?dom d n \<and> ?dom n p
    \<and> (\<forall>m w. in_frontier df' m w \<longleftrightarrow> in_frontier df m w \<or> (w = u \<and> ?dom m p \<and> \<not> ?dom m n)))"
  let ?m = "\<lambda>(df' :: ('a, 'a list) dict, v). case v of None \<Rightarrow> 0 | Some n \<Rightarrow> card (?D n)"
  have finD: "finite (?D c)" for c
    by (rule finite_subset[OF _ fin]) (auto simp: doms_of_def intro: dominator_reachable)
  have "\<exists>st. loopE ?b ?c (df, Some p) = Some (Inr st) \<and> ?P st \<and> \<not> ?b st"
  proof (rule loopE_rule[where P = ?P and r = "measure ?m"])
    show "?P (df, Some p)"
      using keys d p dominates_self[OF p] by auto
  next
    fix st assume P: "?P st" and b: "?b st"
    obtain df' v where eq: "st = (df', v)" by (rule prod.exhaust)
    from P eq obtain n where v: "v = Some n" and dn: "?dom d n" "?dom n p" and keys': "frontier_keys succs roots df'"
      and df': "\<And>m w. in_frontier df' m w \<longleftrightarrow> in_frontier df m w \<or> (w = u \<and> ?dom m p \<and> \<not> ?dom m n)"
      by auto
    have ne: "n \<noteq> d" using b eq v by auto
    have n: "n \<in> reachable succs roots" using dn(1) by (simp add: dominates_def)
    then have "n \<in> fst ` set df'" using keys' by (simp add: frontier_keys_def)
    then obtain s where s: "map_of df' n = Some s" by (meson map_of_eq_None_iff not_None_eq)
    obtain par where par: "map_of idom n = Some par" "is_idom succs roots n par"
      using idom_table_lookup[OF table n] by blast
    from par(2) dn(1) ne obtain q where q: "par = Some q" "q \<noteq> n" "?dom q n" "?dom d q"
      using dominates_preds(1)[OF dn(1)] by (auto simp: is_idom_def split: if_splits option.splits)
    note D = doms_of_parent[OF n par(2)]
    have "chain_parent n par = Some q" using q by (simp add: chain_parent_def)
    with D have Dn: "?D n = insert n (?D q)" "n \<notin> ?D q" by simp_all
    then have mn: "?dom m n \<longleftrightarrow> m = n \<or> ?dom m q" for m by (auto simp: doms_of_def)
    let ?st' = "(dset n (set_add u s) df', Some q)"
    have front: "in_frontier (dset n (set_add u s) df') m w \<longleftrightarrow> in_frontier df' m w \<or> (m = n \<and> w = u)" for m w
      using s by (auto simp: in_frontier_def)
    have "?c st = Some (Inr ?st')" using s par q by (simp add: eq v dget_def)
    moreover have "?P ?st'"
    proof -
      have "frontier_keys succs roots (dset n (set_add u s) df')"
        using keys' n by (auto simp: frontier_keys_def)
      moreover have "?dom q p" using q(3) dn(2) by (rule dominates_trans)
      moreover have "\<not> ?dom n q" using Dn(2) by (simp add: doms_of_def)
      ultimately show ?thesis using q(4) dn(2) front df' mn by auto
    qed
    moreover have "?m ?st' < ?m st"
      using psubset_card_mono[OF finD, of "?D q" n] Dn by (auto simp: eq v)
    ultimately show "\<exists>s'. ?c st = Some (Inr s') \<and> ?P s' \<and> (s', st) \<in> measure ?m"
      by (intro exI[of _ ?st']) simp
  qed simp
  then obtain st where st: "loopE ?b ?c (df, Some p) = Some (Inr st)" "?P st" "\<not> ?b st" by blast
  obtain df' v where eq: "st = (df', v)" by (rule prod.exhaust)
  with st have "v = Some d" by simp
  with st eq have "frontier_keys succs roots df'" and
    "\<forall>m w. in_frontier df' m w \<longleftrightarrow> in_frontier df m w \<or> (w = u \<and> ?dom m p \<and> \<not> ?dom m d)" by auto
  moreover have "add_frontier idom u p df = Some (Inr df')"
    using st(1) stop by (simp add: add_frontier_def dget_def eq)
  ultimately show ?thesis by blast
qed

text \<open>The frontier of a graph with one entry: \<open>u\<close> ranges over the nodes but the entry.\<close>

lemma frontier_chain:
  assumes table: "idom_table succs [entry] idom" and u: "u \<in> reachable succs [entry]" and ne: "u \<noteq> entry"
  obtains d where "map_of idom u = Some (Some d)" and "dominates succs [entry] d u" and "d \<noteq> u"
    and "\<And>v. dominates succs [entry] v d \<longleftrightarrow> dominates succs [entry] v u \<and> v \<noteq> u"
proof -
  obtain b where b: "map_of idom u = Some b" "is_idom succs [entry] u b"
    using idom_table_lookup[OF table u] by blast
  have no_detour: "n \<in> avoiding succs [entry] entry \<Longrightarrow> False" for n
    by (induction rule: avoiding_induct) auto
  have "dominates succs [entry] entry u"
    using u no_detour by (auto simp: dominates_def)
  with b(2) ne obtain d where d: "b = Some d" "d \<noteq> u" "dominates succs [entry] d u"
    "\<And>v. dominates succs [entry] v u \<Longrightarrow> v \<noteq> u \<Longrightarrow> dominates succs [entry] v d"
    by (auto simp: is_idom_def split: option.splits)
  have "dominates succs [entry] v u \<and> v \<noteq> u" if "dominates succs [entry] v d" for v
    using dominates_trans[OF that d(3)] dominates_antisym[OF d(3)] that d(2) by blast
  with d b(1) that[of d] show thesis by blast
qed

lemma frontier_of_node:
  assumes table: "idom_table succs [entry] idom" and fin: "finite (reachable succs [entry])"
    and keys: "frontier_keys succs [entry] df" and u: "u \<in> reachable succs [entry]" and ne: "u \<noteq> entry"
    and preds: "\<And>p. p \<in> set ps \<Longrightarrow> p \<in> reachable succs [entry] \<and> u \<in> set (succs p)"
  shows "\<exists>df'. foldO (add_frontier idom u) ps df = Some (Inr df') \<and> frontier_keys succs [entry] df'
    \<and> (\<forall>v w. in_frontier df' v w \<longleftrightarrow> in_frontier df v w
         \<or> (w = u \<and> (\<exists>p \<in> set ps. dominates succs [entry] v p)
             \<and> \<not> (dominates succs [entry] v u \<and> v \<noteq> u)))"
  using keys preds
proof (induction ps arbitrary: df)
  case Nil
  then show ?case by auto
next
  case (Cons p ps)
  obtain d where d: "map_of idom u = Some (Some d)" "dominates succs [entry] d u" "d \<noteq> u"
    "\<And>v. dominates succs [entry] v d \<longleftrightarrow> dominates succs [entry] v u \<and> v \<noteq> u"
    using frontier_chain[OF table u ne] by blast
  from Cons.prems(2)[of p] have p: "p \<in> reachable succs [entry]" "u \<in> set (succs p)" by auto
  have "dominates succs [entry] d p" using dominates_preds(2)[OF d(2,3) p] .
  from add_frontier_ok[OF table fin Cons.prems(1) d(1) p(1) this] obtain df1 where
    df1: "add_frontier idom u p df = Some (Inr df1)" "frontier_keys succs [entry] df1"
    "\<forall>v w. in_frontier df1 v w \<longleftrightarrow> in_frontier df v w
         \<or> (w = u \<and> dominates succs [entry] v p \<and> \<not> dominates succs [entry] v d)" by blast
  from Cons.IH[OF df1(2)] Cons.prems(2) obtain df' where
    "foldO (add_frontier idom u) ps df1 = Some (Inr df')" "frontier_keys succs [entry] df'"
    "\<forall>v w. in_frontier df' v w \<longleftrightarrow> in_frontier df1 v w
         \<or> (w = u \<and> (\<exists>p \<in> set ps. dominates succs [entry] v p)
             \<and> \<not> (dominates succs [entry] v u \<and> v \<noteq> u))" by (metis list.set_intros(2))
  with df1 d(4) show ?case by (intro exI[of _ df']) auto
qed

text \<open>A node with a single predecessor is in no frontier.\<close>

lemma single_pred_no_frontier:
  assumes u: "u \<in> reachable succs [entry]" and ne: "u \<noteq> entry"
    and preds: "\<And>p. p \<in> reachable succs [entry] \<Longrightarrow> u \<in> set (succs p) \<Longrightarrow> p = q"
    and v: "dominates succs [entry] v q"
  shows "dominates succs [entry] v u \<and> v \<noteq> u"
proof
  have step: "n \<in> avoiding succs [entry] v \<Longrightarrow> n \<noteq> u" for n
  proof (induction rule: avoiding_induct)
    case (step a b)
    show ?case
    proof
      assume "b = u"
      with step preds[of a] avoiding_reachable[OF step.hyps(1)] have "a = q" by simp
      with step v show False by (auto simp: dominates_def)
    qed
  qed (use ne in auto)
  then show "dominates succs [entry] v u" using u by (auto simp: dominates_def)
  show "v \<noteq> u"
  proof
    assume vu: "v = u"
    have "n \<in> reachable succs [entry] \<Longrightarrow> n \<in> avoiding succs [entry] u" for n
    proof (induction rule: reachable_induct)
      case (root r)
      with ne show ?case by (auto intro: avoiding_root)
    next
      case (step a b)
      have "b \<noteq> u"
      proof
        assume "b = u"
        with step preds[of a] have "a = q" by simp
        with step v vu show False by (auto simp: dominates_def)
      qed
      with step show ?case by (blast intro: avoiding_step)
    qed
    with u show False using avoids by fastforce
  qed
qed

text \<open>
  The entry is its own immediate dominator in the table, so every chain that starts at one of
  its predecessors stops just below it.
\<close>

lemma entry_own_idom:
  assumes "idom_table succs [entry] idom"
  shows "map_of idom entry = Some (Some entry)" and "dominates succs [entry] v entry \<longleftrightarrow> v = entry"
    and "p \<in> reachable succs [entry] \<Longrightarrow> dominates succs [entry] entry p"
proof -
  have root: "entry \<in> reachable succs [entry]" by (simp add: reachable_root)
  from idom_table_lookup[OF assms this] show "map_of idom entry = Some (Some entry)"
    by (auto simp: is_idom_def)
  have no_detour: "n \<in> avoiding succs [entry] entry \<Longrightarrow> False" for n
    by (induction rule: avoiding_induct) auto
  show below: "p \<in> reachable succs [entry] \<Longrightarrow> dominates succs [entry] entry p" for p
    using no_detour by (auto simp: dominates_def)
  show "dominates succs [entry] v entry \<longleftrightarrow> v = entry"
  proof
    assume v: "dominates succs [entry] v entry"
    then have "v \<in> reachable succs [entry]" by (rule dominator_reachable)
    from dominates_antisym[OF v below[OF this]] show "v = entry" .
  qed (simp add: below[OF root])
qed

lemma frontier_of_entry:
  assumes table: "idom_table succs [entry] idom" and fin: "finite (reachable succs [entry])"
    and keys: "frontier_keys succs [entry] df"
    and preds: "\<And>p. p \<in> set ps \<Longrightarrow> p \<in> reachable succs [entry]"
  shows "\<exists>df'. foldO (add_frontier idom entry) ps df = Some (Inr df') \<and> frontier_keys succs [entry] df'
    \<and> (\<forall>v w. in_frontier df' v w \<longleftrightarrow> in_frontier df v w
         \<or> (w = entry \<and> v \<noteq> entry \<and> (\<exists>p \<in> set ps. dominates succs [entry] v p)))"
  using keys preds
proof (induction ps arbitrary: df)
  case Nil
  then show ?case by auto
next
  case (Cons p ps)
  note own = entry_own_idom[OF table]
  from Cons.prems(2) have p: "p \<in> reachable succs [entry]" by simp
  from add_frontier_ok[OF table fin Cons.prems(1) own(1) p own(3)[OF p]] obtain df1 where
    df1: "add_frontier idom entry p df = Some (Inr df1)" "frontier_keys succs [entry] df1"
    "\<forall>v w. in_frontier df1 v w \<longleftrightarrow> in_frontier df v w
         \<or> (w = entry \<and> dominates succs [entry] v p \<and> \<not> dominates succs [entry] v entry)" by blast
  from Cons.IH[OF df1(2)] Cons.prems(2) obtain df' where
    "foldO (add_frontier idom entry) ps df1 = Some (Inr df')" "frontier_keys succs [entry] df'"
    "\<forall>v w. in_frontier df' v w \<longleftrightarrow> in_frontier df1 v w
         \<or> (w = entry \<and> v \<noteq> entry \<and> (\<exists>p \<in> set ps. dominates succs [entry] v p))"
    by (metis list.set_intros(2))
  with df1 own(2) show ?case by (intro exI[of _ df']) auto
qed

text \<open>
  Which pairs the code finds: the definition of the frontier, except that the entry is only
  looked at when it has two predecessors, and never put into its own frontier.
\<close>

definition frontier_of :: "('n \<Rightarrow> 'n list) \<Rightarrow> ('n \<Rightarrow> 'n list) \<Rightarrow> 'n \<Rightarrow> 'n \<Rightarrow> 'n \<Rightarrow> bool" where
  "frontier_of succs preds entry v u \<longleftrightarrow>
     (\<exists>p \<in> set (preds u). dominates succs [entry] v p)
     \<and> \<not> (dominates succs [entry] v u \<and> v \<noteq> u)
     \<and> (u = entry \<longrightarrow> v \<noteq> entry \<and> 2 \<le> length (preds entry))"

lemma frontier_of_single:
  assumes preds: "\<And>p. p \<in> set (preds u) \<longleftrightarrow> p \<in> reachable succs [entry] \<and> u \<in> set (succs p)"
    and u: "u \<in> reachable succs [entry]" and few: "length (preds u) < 2"
  shows "\<not> frontier_of succs preds entry v u"
proof
  assume spec: "frontier_of succs preds entry v u"
  with few have "u \<noteq> entry" by (auto simp: frontier_of_def)
  from spec obtain q where q: "q \<in> set (preds u)" "dominates succs [entry] v q"
    by (auto simp: frontier_of_def)
  with few have "preds u = [q]" by (cases "preds u"; cases "tl (preds u)") auto
  then have "p = q" if "p \<in> reachable succs [entry]" "u \<in> set (succs p)" for p
    using preds[of p] that by simp
  from single_pred_no_frontier[OF u \<open>u \<noteq> entry\<close> this q(2)] spec show False
    by (simp add: frontier_of_def)
qed

lemma frontier_of_join:
  assumes table: "idom_table succs [entry] idom" and fin: "finite (reachable succs [entry])"
    and preds: "\<And>p. p \<in> set (preds u) \<longleftrightarrow> p \<in> reachable succs [entry] \<and> u \<in> set (succs p)"
    and keys: "frontier_keys succs [entry] df" and u: "u \<in> reachable succs [entry]"
    and many: "2 \<le> length (preds u)"
  shows "\<exists>df'. foldO (add_frontier idom u) (preds u) df = Some (Inr df') \<and> frontier_keys succs [entry] df'
    \<and> (\<forall>v w. in_frontier df' v w \<longleftrightarrow> in_frontier df v w \<or> (w = u \<and> frontier_of succs preds entry v u))"
proof (cases "u = entry")
  case True
  have "p \<in> reachable succs [entry]" if "p \<in> set (preds entry)" for p
    using that preds True by blast
  from frontier_of_entry[OF table fin keys this] obtain df' where
    "foldO (add_frontier idom entry) (preds entry) df = Some (Inr df')" "frontier_keys succs [entry] df'"
    "\<forall>v w. in_frontier df' v w \<longleftrightarrow> in_frontier df v w
       \<or> (w = entry \<and> v \<noteq> entry \<and> (\<exists>p \<in> set (preds entry). dominates succs [entry] v p))" by blast
  with many entry_own_idom(2)[OF table] show ?thesis
    unfolding True frontier_of_def by (intro exI[of _ df']) auto
next
  case False
  have "p \<in> reachable succs [entry] \<and> u \<in> set (succs p)" if "p \<in> set (preds u)" for p
    using that preds by blast
  from frontier_of_node[OF table fin keys u False this] False show ?thesis
    by (simp add: frontier_of_def)
qed

lemma frontier_of_no_back:
  "preds entry = [] \<Longrightarrow> frontier_of succs preds entry v u \<longleftrightarrow>
     (\<exists>p \<in> set (preds u). dominates succs [entry] v p) \<and> \<not> (dominates succs [entry] v u \<and> v \<noteq> u)"
  by (auto simp: frontier_of_def)

lemma find_dominance_frontier_result:
  assumes table: "idom_table succs [entry] idom" and fin: "finite (reachable succs [entry])"
    and preds: "\<And>u p. u \<in> reachable succs [entry] \<Longrightarrow>
      p \<in> set (preds u) \<longleftrightarrow> p \<in> reachable succs [entry] \<and> u \<in> set (succs p)"
  shows "\<exists>df. find_dominance_frontier preds idom = Some (Inr df) \<and> set (dkeys df) = reachable succs [entry]
    \<and> (\<forall>v u. in_frontier df v u \<longleftrightarrow> u \<in> reachable succs [entry] \<and> frontier_of succs preds entry v u)"
proof -
  let ?R = "reachable succs [entry]" and ?spec = "frontier_of succs preds entry"
  let ?f = "\<lambda>u df. if length (preds u) < 2 then Some (Inr df) else foldO (add_frontier idom u) (preds u) df"
  let ?P = "\<lambda>ks df. frontier_keys succs [entry] df \<and> set ks \<subseteq> ?R
    \<and> (\<forall>v u. in_frontier df v u \<or> (u \<in> set ks \<and> ?spec v u) \<longleftrightarrow> u \<in> ?R \<and> ?spec v u)"
  have "\<exists>df. foldO ?f (dkeys idom) (map (\<lambda>u. (u, [])) (dkeys idom)) = Some (Inr df) \<and> ?P [] df"
  proof (rule foldO_rule[where P = ?P])
    have "\<not> in_frontier (map (\<lambda>u. (u, [])) ks) v u" for ks and v u :: 'a
      by (induction ks) (auto simp: in_frontier_def)
    moreover have "set (dkeys idom) = ?R" using table by (simp add: idom_table_def)
    moreover have "dkeys (map (\<lambda>u. (u, [] :: 'a list)) ks) = ks" for ks :: "'a list"
      by (simp add: comp_def)
    ultimately show "?P (dkeys idom) (map (\<lambda>u. (u, [])) (dkeys idom))"
      unfolding frontier_keys_def by (simp only: simp_thms subset_refl)
  next
    fix k ks df assume P: "?P (k # ks) df"
    then have k: "k \<in> ?R" and keys: "frontier_keys succs [entry] df" by auto
    show "\<exists>df'. ?f k df = Some (Inr df') \<and> ?P ks df'"
    proof (cases "length (preds k) < 2")
      case True
      with frontier_of_single[of preds k succs entry, OF preds[OF k] k] P show ?thesis by (intro exI[of _ df]) auto
    next
      case False
      then have "2 \<le> length (preds k)" by simp
      from frontier_of_join[of succs entry idom preds k, OF table fin preds[OF k] keys k this] obtain df' where
        df': "foldO (add_frontier idom k) (preds k) df = Some (Inr df')" "frontier_keys succs [entry] df'"
        "\<forall>v w. in_frontier df' v w \<longleftrightarrow> in_frontier df v w \<or> (w = k \<and> ?spec v k)" by blast
      have "in_frontier df' v u \<or> (u \<in> set ks \<and> ?spec v u) \<longleftrightarrow> u \<in> ?R \<and> ?spec v u" for v u
        using P df'(3) by (metis list.set_intros(1) list.set_intros(2) set_ConsD)
      with df' P False show ?thesis by (intro exI[of _ df']) simp
    qed
  qed
  then show ?thesis by (simp add: find_dominance_frontier_def frontier_keys_def)
qed

section \<open>The control flow graph\<close>

text \<open>The tables of a consistent graph satisfy what the algorithm needs, in both directions.\<close>

lemma cfg_tables:
  assumes "cfg_wf g" and "entry_point g = Some entry"
  shows "stays_in (g_succs g) (g_nodes g)" and "set [entry] \<subseteq> set (g_nodes g)"
    and "p \<in> set (g_preds g u) \<longleftrightarrow> u \<in> set (g_succs g p)"
    and "finite (reachable (g_succs g) [entry])"
proof -
  show stays: "stays_in (g_succs g) (g_nodes g)" by (rule cfg_wf_stays[OF assms(1)])
  show entry: "set [entry] \<subseteq> set (g_nodes g)" using cfg_wfD(4)[OF assms] by simp
  show "p \<in> set (g_preds g u) \<longleftrightarrow> u \<in> set (g_succs g p)"
    using cfg_wfD(5,6)[OF assms(1)] by simp
  show "finite (reachable (g_succs g) [entry])"
    by (rule finite_subset[OF reachable_in[OF stays entry]]) simp
qed

lemma find_immediate_dominators_table:
  assumes "cfg_wf g" and "entry_point g = Some entry"
  shows "\<exists>r. find_immediate_dominators g = Some (Inr r) \<and> idom_table (g_succs g) [entry] r"
  using immediate_dominators_result[of "g_succs g" "g_nodes g" "[entry]" "g_preds g"]
    cfg_tables(1,2)[OF assms] cfg_tables(3)[OF assms]
  by (simp add: find_immediate_dominators_def assms(2) idom_table_def)

text \<open>
  C23. Immediate dominators: on every consistent graph the algorithm ends without an error
  and gives exactly the reachable nodes: the entry is mapped to itself, any other node to a
  strict dominator that every other strict dominator of the node dominates.
\<close>

theorem immediate_dominators_correct:
  assumes "cfg_wf g" and "entry_point g = Some entry"
  shows "\<exists>r. find_immediate_dominators g = Some (Inr r) \<and> distinct (dkeys r)
    \<and> set (dkeys r) = reachable (g_succs g) [entry]
    \<and> (\<forall>u b. map_of r u = Some b \<longrightarrow> (if u = entry then b = Some entry else
         \<exists>d. b = Some d \<and> d \<noteq> u \<and> dominates (g_succs g) [entry] d u
           \<and> (\<forall>e. dominates (g_succs g) [entry] e u \<and> e \<noteq> u \<longrightarrow> dominates (g_succs g) [entry] e d)))"
proof -
  obtain r where r: "find_immediate_dominators g = Some (Inr r)" "idom_table (g_succs g) [entry] r"
    using find_immediate_dominators_table[OF assms] by blast
  have "\<exists>d. b = Some d \<and> d \<noteq> u \<and> dominates (g_succs g) [entry] d u
      \<and> (\<forall>e. dominates (g_succs g) [entry] e u \<and> e \<noteq> u \<longrightarrow> dominates (g_succs g) [entry] e d)"
    if "map_of r u = Some b" "u \<noteq> entry" for u b
  proof -
    have "u \<in> reachable (g_succs g) [entry]"
      using r(2) that(1) map_of_SomeD by (force simp: idom_table_def)
    from frontier_chain[OF r(2) this that(2)] that(1) show ?thesis by (metis option.inject)
  qed
  moreover have "b = Some entry" if "map_of r entry = Some b" for b
    using r(2) that by (auto simp: idom_table_def is_idom_def dest!: map_of_SomeD)
  ultimately show ?thesis using r by (auto simp: idom_table_def)
qed

theorem immediate_dominators_correct_witness:
  "\<exists>r. find_immediate_dominators small_cfg = Some (Inr r) \<and> set (dkeys r) = reachable (g_succs small_cfg) [0]"
  using immediate_dominators_correct[OF small_cfg_wf, of 0] by (auto simp: small_cfg_def)

definition find_dominators :: "('n, 'd) cfgraph \<Rightarrow> ('n, 'n list) dict res option" where
  "find_dominators g = bindO (find_immediate_dominators g) (dominator_sets (g_nodes g))"

text \<open>
  C24. The dominator sets: on every consistent graph the set of a reachable node holds
  exactly its dominators, and an unreachable node gets every node.
\<close>

theorem dominator_sets_correct:
  assumes "cfg_wf g" and "entry_point g = Some entry"
  shows "\<exists>doms. find_dominators g = Some (Inr doms) \<and> (\<forall>n \<in> set (g_nodes g). \<exists>s. map_of doms n = Some s
    \<and> set s = (if n \<in> reachable (g_succs g) [entry] then {d. dominates (g_succs g) [entry] d n}
               else set (g_nodes g)))"
proof -
  obtain r where r: "find_immediate_dominators g = Some (Inr r)" "idom_table (g_succs g) [entry] r"
    using find_immediate_dominators_table[OF assms] by blast
  have "reachable (g_succs g) [entry] \<subseteq> set (g_nodes g)"
    by (rule reachable_in[OF cfg_tables(1,2)[OF assms]])
  from dominator_sets_result[OF r(2) cfg_tables(4)[OF assms] this] show ?thesis
    unfolding find_dominators_def r(1) bindO_simps doms_of_def .
qed

theorem dominator_sets_correct_witness:
  "\<exists>doms s. find_dominators small_cfg = Some (Inr doms) \<and> map_of doms 1 = Some s
     \<and> set s = (if 1 \<in> reachable (g_succs small_cfg) [0]
                then {d. dominates (g_succs small_cfg) [0] d 1} else set (g_nodes small_cfg))"
proof -
  have "1 \<in> set (g_nodes small_cfg)" by code_simp
  with dominator_sets_correct[OF small_cfg_wf, of 0] show ?thesis by (auto simp: small_cfg_def)
qed

definition dominance_frontier :: "('n, 'd) cfgraph \<Rightarrow> ('n, 'n list) dict res option" where
  "dominance_frontier g = bindO (find_immediate_dominators g) (find_dominance_frontier (g_preds g))"

text \<open>
  C25. The dominance frontier of every consistent graph without dead blocks, whatever leads to
  its entry: for a node \<open>u\<close> other than the entry, \<open>u\<close> is in the frontier of \<open>v\<close> exactly
  when \<open>v\<close> dominates a predecessor of \<open>u\<close> but does not strictly dominate \<open>u\<close>, as the
  definition says. The entry is in the frontier of \<open>v\<close> when \<open>v\<close> dominates one of its
  predecessors, \<open>v\<close> is not the entry itself and the entry has at least two predecessors; the
  definition asks for the first only.
\<close>

theorem dominance_frontier_correct:
  assumes "cfg_wf g" and "entry_point g = Some entry" and "set (g_nodes g) = reachable (g_succs g) [entry]"
  shows "\<exists>df. dominance_frontier g = Some (Inr df) \<and> set (dkeys df) = set (g_nodes g)
    \<and> (\<forall>v u. (\<exists>s. map_of df v = Some s \<and> u \<in> set s) \<longleftrightarrow> u \<in> set (g_nodes g)
         \<and> (\<exists>p \<in> set (g_preds g u). dominates (g_succs g) [entry] v p)
         \<and> \<not> (dominates (g_succs g) [entry] v u \<and> v \<noteq> u)
         \<and> (u = entry \<longrightarrow> v \<noteq> entry \<and> 2 \<le> length (g_preds g entry)))"
proof -
  obtain r where r: "find_immediate_dominators g = Some (Inr r)" "idom_table (g_succs g) [entry] r"
    using find_immediate_dominators_table[OF assms(1,2)] by blast
  have "p \<in> set (g_preds g u) \<longleftrightarrow> p \<in> reachable (g_succs g) [entry] \<and> u \<in> set (g_succs g p)" for u p
    using cfg_wfD(3,6)[OF assms(1)] cfg_tables(3)[OF assms(1,2), of p u] assms(3) by auto
  from find_dominance_frontier_result[OF r(2) cfg_tables(4)[OF assms(1,2)] this] r(1) show ?thesis
    by (simp add: dominance_frontier_def in_frontier_def frontier_of_def assms(3))
qed

text \<open>A graph with a join: 0 leads to 1 and 2, and both to 3.\<close>

definition diamond :: "(nat, nat) cfgraph" where
  "diamond = (fold (\<lambda>(a, b). unchecked_add_edge a b 0) [(0, 1), (0, 2), (1, 3), (2, 3)]
     (fold add_node [0, 1, 2, 3] new_cfgraph))\<lparr>entry_point := Some 0\<rparr>"

lemma diamond_wf: "cfg_wf diamond"
proof (rule cfg_wfI(1)[where E = "{(0, 1), (0, 2), (1, 3), (2, 3)}"])
  show "tables {(0, 1), (0, 2), (1, 3), (2, 3)} {(0, 1), (0, 2), (1, 3), (2, 3)} {(0, 1), (0, 2), (1, 3), (2, 3)} diamond"
    by (auto simp: tables_def diamond_def unchecked_add_edge_def add_node_def new_cfgraph_def set_add_def)
qed (auto simp: diamond_def unchecked_add_edge_def add_node_def new_cfgraph_def set_add_def)

lemma diamond_live: "set (g_nodes diamond) = reachable (g_succs diamond) [0]"
proof
  have succs: "set (g_succs diamond 0) = {1, 2}" "set (g_succs diamond 1) = {3}" by code_simp+
  have "0 \<in> reachable (g_succs diamond) [0]" by (simp add: reachable_root)
  moreover from this have "1 \<in> reachable (g_succs diamond) [0]" "2 \<in> reachable (g_succs diamond) [0]"
    using reachable_step[of 0 "g_succs diamond" "[0]"] succs(1) by auto
  moreover from this(1) have "3 \<in> reachable (g_succs diamond) [0]"
    using reachable_step[of 1 "g_succs diamond" "[0]" 3] succs(2) by auto
  moreover have "set (g_nodes diamond) = {0, 1, 2, 3}" by code_simp
  ultimately show "set (g_nodes diamond) \<subseteq> reachable (g_succs diamond) [0]" by simp
  show "reachable (g_succs diamond) [0] \<subseteq> set (g_nodes diamond)"
    by (rule reachable_in[OF cfg_wf_stays[OF diamond_wf]]) code_simp
qed

theorem dominance_frontier_correct_witness:
  "\<exists>df s. dominance_frontier diamond = Some (Inr df) \<and> set (dkeys df) = set (g_nodes diamond)
     \<and> map_of df 1 = Some s \<and> 3 \<in> set s"
proof -
  have "entry_point diamond = Some 0" "3 \<in> set (g_nodes diamond)" "1 \<in> set (g_preds diamond 3)" by code_simp+
  moreover have "1 \<in> set (g_nodes diamond)" by code_simp
  then have "dominates (g_succs diamond) [0] 1 1" unfolding diamond_live by (rule dominates_self)
  moreover have "\<not> dominates (g_succs diamond) [0] 1 3"
  proof -
    have "set (g_succs diamond 0) = {1, 2}" "set (g_succs diamond 2) = {3}" by code_simp+
    then have "3 \<in> avoiding (g_succs diamond) [0] 1"
      using avoiding_root[of "0 :: nat" "[0]" 1 "g_succs diamond"] avoiding_step[of 0 "g_succs diamond" "[0]" 1 2]
        avoiding_step[of 2 "g_succs diamond" "[0]" 1 3] by auto
    then show ?thesis by (simp add: dominates_def)
  qed
  ultimately show ?thesis
    using dominance_frontier_correct[OF diamond_wf _ diamond_live] by fastforce
qed



end
