(* ===== verification/Bytecode.thy ===== *)
theory Bytecode
  imports Prelude "HOL-Library.Product_Lexorder"
begin

unbundle bit_operations_syntax

text \<open>
  Decoded bytecode: \<open>numba_cuda/core/bytecode.py\<close>. The Python version is its minor number
  (9 to 15). The tables of the interpreter's own \<open>dis\<close> module (which opcodes take an
  argument, their names, cache sizes and jump kinds) are the record \<open>dis\<close>; the functions
  below are those of the repository.
\<close>

section \<open>Instructions and jump targets\<close>

record inst =
  i_offset :: int
  i_next :: int
  i_opname :: string
  i_arg :: "int option"
  i_lineno :: int
  i_jrel :: bool
  i_jabs :: bool

definition is_jump :: "inst \<Rightarrow> bool" where
  "is_jump i \<longleftrightarrow> i_jrel i \<or> i_jabs i"

definition block_effect :: "inst \<Rightarrow> int" where
  "block_effect i =
     (if take 6 (i_opname i) = ''SETUP_'' then 1
      else if i_opname i = ''POP_BLOCK'' then - 1 else 0)"

definition get_jump_target :: "nat \<Rightarrow> inst \<Rightarrow> int res" where
  "get_jump_target py i =
     (if \<not> is_jump i then Inl AssertionError
      else case i_arg i of
        None \<Rightarrow> Inl TypeError
      | Some a \<Rightarrow>
          if 13 \<le> py \<and> py \<le> 15 \<and> i_opname i \<in> {''JUMP_BACKWARD'', ''JUMP_BACKWARD_NO_INTERRUPT''}
          then Inr (i_next i - a * 2)
          else if py = 12 \<and> i_opname i = ''JUMP_BACKWARD'' then Inr (i_offset i - (a - 1) * 2)
          else if py = 11 \<and> i_opname i \<in> {''JUMP_BACKWARD'', ''POP_JUMP_BACKWARD_IF_TRUE'',
                 ''POP_JUMP_BACKWARD_IF_FALSE'', ''POP_JUMP_BACKWARD_IF_NONE'',
                 ''POP_JUMP_BACKWARD_IF_NOT_NONE''}
          then Inr (i_offset i - (a - 1) * 2)
          else if 10 \<le> py then Inr (if i_jrel i then i_next i + a * 2 else a * 2 - 2)
          else Inr (if i_jrel i then i_next i + a else a))"

section \<open>Decoding\<close>

text \<open>What the interpreter's \<open>dis\<close> module says of the opcodes.\<close>

record dis =
  have_argument :: nat
  extended_arg :: nat
  nop_code :: nat
  cache_entries :: "nat \<Rightarrow> nat"
  op_names :: "nat \<Rightarrow> string"
  has_jrel :: "nat \<Rightarrow> bool"
  has_jabs :: "nat \<Rightarrow> bool"

type_synonym raw_inst = "int \<times> nat \<times> int option \<times> int"

text \<open>
  Versions up to 3.12: one opcode byte and one argument byte at a time. An \<open>EXTENDED_ARG\<close>
  is replaced with a \<open>NOP\<close> and its argument carried over.
\<close>

function unpack_loop :: "dis \<Rightarrow> nat \<Rightarrow> nat list \<Rightarrow> nat \<Rightarrow> nat \<Rightarrow> nat \<Rightarrow> raw_inst list res" where
  "unpack_loop d py code ext offset i =
     (if length code \<le> i then Inr []
      else
        let op = code ! i;
            skip = (if py = 12 then cache_entries d op * 2 else 0);
            i' = i + 2 + skip
        in if have_argument d \<le> op then
             if length code \<le> i + 1 then Inl IndexError
             else let arg = (code ! (i + 1) OR ext) OR code ! (i + 1)
                  in if op = extended_arg d
                     then bindE (unpack_loop d py code (arg * 256) i' i') (\<lambda>rest.
                            Inr ((int offset, nop_code d, Some (int arg), int i') # rest))
                     else bindE (unpack_loop d py code 0 i' i') (\<lambda>rest.
                            Inr ((int offset, op, Some (int arg), int i') # rest))
           else bindE (unpack_loop d py code 0 i' i') (\<lambda>rest.
                  Inr ((int offset, op, None, int i') # rest)))"
  by pat_completeness auto
termination
  by (relation "measure (\<lambda>(d, py, code, ext, offset, i). length code - i)") auto

declare unpack_loop.simps [simp del]

text \<open>Versions from 3.13: the interpreter decodes, the repository adds the next offsets.\<close>

fun add_next_offsets :: "int \<Rightarrow> (int \<times> nat \<times> int option) list \<Rightarrow> raw_inst list" where
  "add_next_offsets n [] = []"
| "add_next_offsets n [(start, op, arg)] = [(start, op, arg, n)]"
| "add_next_offsets n ((start, op, arg) # y # rest) =
     (start, op, arg, fst y) # add_next_offsets n (y # rest)"

definition unpack_opargs ::
  "dis \<Rightarrow> (nat list \<Rightarrow> (int \<times> nat \<times> int option) list) \<Rightarrow> nat \<Rightarrow> nat list \<Rightarrow> raw_inst list res" where
  "unpack_opargs d dis_unpack py code =
     (if 13 \<le> py then Inr (add_next_offsets (int (length code)) (dis_unpack code))
      else unpack_loop d py code 0 0 0)"

definition fixed_offset :: int where
  "fixed_offset = 2"

definition patch_oparg :: "dis \<Rightarrow> raw_inst \<Rightarrow> raw_inst res" where
  "patch_oparg d r =
     (case r of (offset, op, arg, nextoffset) \<Rightarrow>
        if has_jabs d op \<and> arg = None then Inl TypeError
        else Inr (offset + fixed_offset, op,
                  (if has_jabs d op then map_option (\<lambda>a. a + fixed_offset) arg else arg),
                  nextoffset + fixed_offset))"

definition patched_opargs :: "dis \<Rightarrow> raw_inst list \<Rightarrow> raw_inst list res" where
  "patched_opargs d stream =
     bindE (mapE (patch_oparg d) stream) (\<lambda>rest. Inr ((0, nop_code d, None, fixed_offset) # rest))"

definition make_inst :: "dis \<Rightarrow> raw_inst \<Rightarrow> inst" where
  "make_inst d r =
     (case r of (offset, op, arg, nextoffset) \<Rightarrow>
        \<lparr>i_offset = offset, i_next = nextoffset, i_opname = op_names d op, i_arg = arg,
         i_lineno = - 1, i_jrel = has_jrel d op, i_jabs = has_jabs d op\<rparr>)"

text \<open>\<open>OrderedDict(ByteCodeIter(code))\<close>.\<close>

definition bytecode_table :: "dis \<Rightarrow> raw_inst list \<Rightarrow> (int, inst) dict" where
  "bytecode_table d rs = fold (\<lambda>r t. dset (fst r) (make_inst d r) t) rs []"

section \<open>Line numbers and labels\<close>

text \<open>
  An instruction without a line has the number \<open>- 1\<close>; a line start that the interpreter
  reports as \<open>None\<close> is stored the same way, as the loop that fills the rest treats it so.
\<close>

definition set_lineno :: "int \<times> int option \<Rightarrow> (int, inst) dict \<Rightarrow> (int, inst) dict" where
  "set_lineno p t =
     (case map_of t (fst p + fixed_offset) of
        None \<Rightarrow> t
      | Some i \<Rightarrow>
          dset (fst p + fixed_offset)
            (i\<lparr>i_lineno := (case snd p of None \<Rightarrow> - 1 | Some line \<Rightarrow> line)\<rparr>) t)"

fun fill_lineno :: "int \<Rightarrow> (int, inst) dict \<Rightarrow> (int, inst) dict" where
  "fill_lineno known [] = []"
| "fill_lineno known ((offset, i) # t) =
     (if 0 \<le> i_lineno i then (offset, i) # fill_lineno (i_lineno i) t
      else (offset, i\<lparr>i_lineno := known\<rparr>) # fill_lineno known t)"

definition compute_lineno ::
  "(int \<times> int option) list \<Rightarrow> int \<Rightarrow> (int, inst) dict \<Rightarrow> (int, inst) dict" where
  "compute_lineno linestarts firstlineno t = fill_lineno firstlineno (fold set_lineno linestarts t)"

definition make_labels :: "int list \<Rightarrow> int list" where
  "make_labels found = sort (remdups (0 # map (\<lambda>x. x + fixed_offset) found))"

definition fix_LOAD_GLOBAL_arg :: "nat \<Rightarrow> int \<Rightarrow> int" where
  "fix_LOAD_GLOBAL_arg py a = (if 11 \<le> py then a div 2 else a)"

section \<open>Exception table\<close>

record eh_entry =
  eh_start :: int
  eh_end :: int
  eh_target :: int
  eh_depth :: nat
  eh_lasti :: bool

definition fixup_eh :: "eh_entry \<Rightarrow> eh_entry" where
  "fixup_eh e = e\<lparr>eh_start := eh_start e + fixed_offset, eh_end := eh_end e + fixed_offset,
     eh_target := eh_target e + fixed_offset\<rparr>"

text \<open>Entries compare as tuples; the candidates of \<open>find_exception_entry\<close> by depth first.\<close>

definition eh_key :: "eh_entry \<Rightarrow> nat \<times> int \<times> int \<times> int \<times> nat \<times> bool" where
  "eh_key e = (eh_depth e, eh_start e, eh_end e, eh_target e, eh_depth e, eh_lasti e)"

definition max_entry :: "eh_entry list \<Rightarrow> eh_entry option" where
  "max_entry es =
     (case es of
        [] \<Rightarrow> None
      | e # rest \<Rightarrow> Some (fold (\<lambda>x m. if eh_key m < eh_key x then x else m) rest e))"

definition find_exception_entry :: "eh_entry list \<Rightarrow> int \<Rightarrow> eh_entry option" where
  "find_exception_entry entries offset =
     max_entry (filter (\<lambda>e. eh_start e \<le> offset \<and> offset < eh_end e) entries)"

text \<open>Removing the exception blocks of inlined comprehensions.\<close>

fun list_index :: "'a list \<Rightarrow> 'a \<Rightarrow> int res" where
  "list_index [] x = Inl ValueError"
| "list_index (y # ys) x = (if y = x then Inr 0 else bindE (list_index ys x) (\<lambda>k. Inr (k + 1)))"

definition pop_and_merge_exceptions :: "eh_entry list \<Rightarrow> eh_entry \<Rightarrow> eh_entry list res" where
  "pop_and_merge_exceptions entries e =
     bindE (list_index entries e) (\<lambda>idx.
       let lower = nat (idx - 1); upper = nat (idx + 1);
           merged =
             (if 0 \<le> idx - 1 \<and> idx + 1 < int (length entries)
                 \<and> eh_target (entries ! lower) = eh_target (entries ! upper)
              then remove1 (entries ! upper)
                     (entries[lower := \<lparr>eh_start = eh_start (entries ! lower),
                        eh_end = eh_end (entries ! upper), eh_target = eh_target (entries ! lower),
                        eh_depth = eh_depth (entries ! lower), eh_lasti = eh_lasti (entries ! upper)\<rparr>])
              else entries)
       in if e \<in> set merged
          then Inr (filter (\<lambda>x. eh_start x \<noteq> eh_target e) (remove1 e merged))
          else Inl ValueError)"

definition inst_at :: "(int, inst) dict \<Rightarrow> int \<Rightarrow> inst res" where
  "inst_at t k = bindE (py_index (dkeys t) k) (dget t)"

text \<open>
  Whether an entry starts at \<open>BUILD_LIST; SWAP; FOR_ITER\<close>, with a \<open>GET_ITER\<close> allowed in
  between. The version test on \<open>GET_ITER\<close> names the module \<open>sys\<close>, which the file does not
  import: before 3.15 it raises a \<open>NameError\<close>.
\<close>

definition starts_comprehension :: "nat \<Rightarrow> (int, inst) dict \<Rightarrow> eh_entry \<Rightarrow> bool res" where
  "starts_comprehension py t e =
     bindE (list_index (dkeys t) (eh_start e)) (\<lambda>index.
     bindE (inst_at t index) (\<lambda>curr.
       if i_opname curr \<notin> {''BUILD_LIST'', ''BUILD_MAP'', ''BUILD_SET''} then Inr False
       else bindE (inst_at t (index + 1)) (\<lambda>next1.
         if i_opname next1 \<noteq> ''SWAP'' \<and> i_arg next1 = Some 2 then Inr False
         else bindE (inst_at t (index + 2)) (\<lambda>next2.
           if i_opname next2 = ''GET_ITER''
           then if py \<in> {12, 13, 14} then Inl NameError
                else if py = 15
                then bindE (inst_at t (index + 3)) (\<lambda>next3. Inr (i_opname next3 = ''FOR_ITER''))
                else Inl NotImplementedError
           else Inr (i_opname next2 = ''FOR_ITER'')))))"

definition ends_comprehension :: "nat \<Rightarrow> (int, inst) dict \<Rightarrow> eh_entry \<Rightarrow> bool res" where
  "ends_comprehension py t e =
     bindE (list_index (dkeys t) (eh_end e)) (\<lambda>index.
       if py \<in> {13, 14, 15} then
         bindE (inst_at t (index - 2)) (\<lambda>curr.
           if i_opname curr \<noteq> ''END_FOR'' then Inr False
           else bindE (inst_at t (index - 1)) (\<lambda>next1.
             if i_opname next1 \<noteq> (if py = 13 then ''POP_TOP'' else ''POP_ITER'') then Inr False
             else bindE (inst_at t index) (\<lambda>next2.
               Inr (\<not> (i_opname next2 \<noteq> ''SWAP'' \<and> i_arg next2 = Some 2)))))
       else
         bindE (inst_at t (index - 1)) (\<lambda>curr.
           if i_opname curr \<noteq> ''END_FOR'' then Inr False
           else bindE (inst_at t index) (\<lambda>next2.
             Inr (\<not> (i_opname next2 \<noteq> ''SWAP'' \<and> i_arg next2 = Some 2)))))"

text \<open>The 3.15 case: \<open>NOT_TAKEN\<close> splits one exception range into two entries.\<close>

definition merge_split_range ::
  "nat \<Rightarrow> (int, inst) dict \<Rightarrow> eh_entry list \<Rightarrow> eh_entry \<Rightarrow> eh_entry list option res" where
  "merge_split_range py t entries e =
     (if py \<noteq> 15 then Inr None
      else case map_of t (eh_end e) of
        None \<Rightarrow> Inr None
      | Some end_inst \<Rightarrow>
          if i_opname end_inst \<noteq> ''NOT_TAKEN'' then Inr None
          else bindE (list_index entries e) (\<lambda>idx.
            if idx + 1 < int (length entries) then
              let following = entries ! nat (idx + 1)
              in if eh_target following = eh_target e \<and> eh_start following = i_next end_inst then
                   if eh_depth following \<noteq> eh_depth e then Inl AssertionError
                   else let k = nat idx in
                     Inr (Some (take k entries
                       @ [\<lparr>eh_start = eh_start e, eh_end = eh_end following, eh_target = eh_target e,
                           eh_depth = eh_depth e, eh_lasti = eh_lasti following\<rparr>]
                       @ drop (k + 2) entries))
                 else Inr None
            else Inr None))"

definition scan_entry ::
  "nat \<Rightarrow> (int, inst) dict \<Rightarrow> eh_entry \<Rightarrow> eh_entry list \<times> bool \<Rightarrow> (eh_entry list \<times> bool) res" where
  "scan_entry py t e st =
     bindE (starts_comprehension py t e) (\<lambda>starts.
       if \<not> starts then Inr st
       else bindE (merge_split_range py t (fst st) e) (\<lambda>m.
         case m of
           Some entries' \<Rightarrow> Inr (entries', True)
         | None \<Rightarrow>
             bindE (ends_comprehension py t e) (\<lambda>ends.
               if \<not> ends then Inr st
               else bindE (pop_and_merge_exceptions (fst st) e) (\<lambda>entries'. Inr (entries', True)))))"

lemma list_index_bounds:
  "list_index xs x = Inr k \<Longrightarrow> 0 \<le> k \<and> k < int (length xs) \<and> xs ! nat k = x"
  by (induction xs arbitrary: k) (auto simp: res_simps nat_add_distrib split: if_splits)

lemma pop_and_merge_shorter:
  "pop_and_merge_exceptions entries e = Inr entries' \<Longrightarrow> length entries' < length entries"
proof -
  assume run: "pop_and_merge_exceptions entries e = Inr entries'"
  then obtain merged where mem: "e \<in> set merged" and len: "length merged \<le> length entries"
    and eq: "entries' = filter (\<lambda>x. eh_start x \<noteq> eh_target e) (remove1 e merged)"
    by (auto simp: pop_and_merge_exceptions_def res_simps Let_def length_remove1 split: if_splits)
  from eq have "length entries' \<le> length (remove1 e merged)" by simp
  with mem len show ?thesis
    by (simp add: length_remove1) (use length_pos_if_in_set[OF mem] in linarith)
qed

lemma merge_split_range_shorter:
  assumes "merge_split_range py t entries e = Inr (Some entries')"
  shows "length entries' < length entries"
proof -
  obtain idx x where "list_index entries e = Inr idx" and fits: "idx + 1 < int (length entries)"
    and eq: "entries' = take (nat idx) entries @ [x] @ drop (nat idx + 2) entries"
    using assms
    by (simp add: merge_split_range_def bindE_Inr_iff Let_def split: if_splits option.splits) blast
  then have "0 \<le> idx" by (blast dest: list_index_bounds)
  with fits have "nat idx + 1 < length entries" by linarith
  with eq show ?thesis by simp
qed

text \<open>A round that found work has shortened the entries.\<close>

definition shortened :: "nat \<Rightarrow> eh_entry list \<times> bool \<Rightarrow> bool" where
  "shortened n st \<longleftrightarrow> length (fst st) \<le> n \<and> (snd st \<longrightarrow> length (fst st) < n)"

lemma scan_entry_cases:
  assumes "scan_entry py t e st = Inr st'"
  shows "st' = st \<or> (snd st' \<and> length (fst st') < length (fst st))"
proof -
  obtain starts where s1: "starts_comprehension py t e = Inr starts"
    using assms by (cases "starts_comprehension py t e") (simp_all add: scan_entry_def)
  show ?thesis
  proof (cases starts)
    case False
    with s1 assms show ?thesis by (simp add: scan_entry_def)
  next
    case True
    then obtain m where s2: "merge_split_range py t (fst st) e = Inr m"
      using s1 assms by (cases "merge_split_range py t (fst st) e") (simp_all add: scan_entry_def)
    show ?thesis
    proof (cases m)
      case (Some entries')
      with s1 s2 True assms show ?thesis
        by (auto simp: scan_entry_def dest: merge_split_range_shorter)
    next
      case None
      with s1 s2 True assms show ?thesis
        by (cases "ends_comprehension py t e";
            cases "pop_and_merge_exceptions (fst st) e")
           (auto simp: scan_entry_def split: if_splits dest: pop_and_merge_shorter)
    qed
  qed
qed

lemma scan_entry_shortened:
  "shortened n st \<Longrightarrow> scan_entry py t e st = Inr st' \<Longrightarrow> shortened n st'"
  using scan_entry_cases[of py t e st st'] by (auto simp: shortened_def)

lemma scan_round_shorter:
  assumes "foldE (scan_entry py t) es (entries, False) = Inr (entries', True)"
  shows "length entries' < length entries"
proof -
  have "shortened (length entries) (entries', True)"
    using assms
    by (rule foldE_invariant) (simp add: shortened_def, rule scan_entry_shortened)
  then show ?thesis by (simp add: shortened_def)
qed

function remove_build_list_swap_pattern ::
  "nat \<Rightarrow> (int, inst) dict \<Rightarrow> eh_entry list \<Rightarrow> eh_entry list res" where
  "remove_build_list_swap_pattern py t entries =
     (case foldE (scan_entry py t) entries (entries, False) of
        Inl err \<Rightarrow> Inl err
      | Inr (entries', work_remaining) \<Rightarrow>
          if work_remaining then remove_build_list_swap_pattern py t entries' else Inr entries')"
  by pat_completeness auto
termination
  by (relation "measure (\<lambda>(py, t, entries). length entries)") (auto dest: scan_round_shorter)

declare remove_build_list_swap_pattern.simps [simp del]

definition exception_entries ::
  "nat \<Rightarrow> (int, inst) dict \<Rightarrow> bool \<Rightarrow> eh_entry list \<Rightarrow> eh_entry list res" where
  "exception_entries py t is_generator found =
     (if py = 11 then Inr (map fixup_eh found)
      else bindE (remove_build_list_swap_pattern py t (map fixup_eh found)) (\<lambda>entries.
        if is_generator then
          case entries of
            [] \<Rightarrow> Inl ValueError
          | e # es \<Rightarrow> (let m = fold max (map eh_target es) (eh_target e)
                      in Inr (filter (\<lambda>x. eh_target x \<noteq> m) entries))
        else Inr entries))"

end
