(* ===== verification/Decode.thy ===== *)
theory Decode
  imports Bytecode
begin

text \<open>
  Facts on the decoder of \<open>core/bytecode.py\<close>: the layout of the decoded instructions, the
  round trip with an encoder for the wordcode of CPython 3.9 to 3.12, the errors, the jump
  targets, the table, and the line numbers.
\<close>

section \<open>The layout of decoded instructions\<close>

text \<open>Each instruction starts where the one before it ends.\<close>

fun chained :: "int \<Rightarrow> raw_inst list \<Rightarrow> int \<Rightarrow> bool" where
  "chained i [] n \<longleftrightarrow> i = n"
| "chained i (r # rs) n \<longleftrightarrow> fst r = i \<and> i < snd (snd (snd r)) \<and> chained (snd (snd (snd r))) rs n"

lemma chained_append [simp]: "chained i (rs @ ss) n \<longleftrightarrow> (\<exists>m. chained i rs m \<and> chained m ss n)"
  by (induction rs arbitrary: i) auto

lemma chained_end: "chained i rs n \<Longrightarrow> i \<le> n"
  by (induction i rs n rule: chained.induct) auto

lemma chained_offsets: "chained i rs n \<Longrightarrow> r \<in> set rs \<Longrightarrow> i \<le> fst r \<and> fst r < snd (snd (snd r))"
  by (induction i rs n rule: chained.induct) fastforce+

lemma chained_sorted: "chained i rs n \<Longrightarrow> sorted_wrt (<) (map fst rs)"
  by (induction i rs n rule: chained.induct) (fastforce dest: chained_offsets)+

text \<open>The step of the loop: how far it moves, and what it yields.\<close>

definition skip_of :: "dis \<Rightarrow> nat \<Rightarrow> nat \<Rightarrow> nat" where
  "skip_of d py op = (if py = 12 then cache_entries d op * 2 else 0)"

lemma unpack_loop_end: "length code \<le> i \<Longrightarrow> unpack_loop d py code ext off i = Inr []"
  by (simp add: unpack_loop.simps)

lemma unpack_loop_cut:
  "i < length code \<Longrightarrow> have_argument d \<le> code ! i \<Longrightarrow> length code \<le> i + 1
   \<Longrightarrow> unpack_loop d py code ext off i = Inl IndexError"
  by (simp add: unpack_loop.simps)

lemma unpack_loop_plain:
  "i < length code \<Longrightarrow> \<not> have_argument d \<le> code ! i
   \<Longrightarrow> unpack_loop d py code ext off i =
       (let j = i + 2 + skip_of d py (code ! i)
        in bindE (unpack_loop d py code 0 j j) (\<lambda>rest. Inr ((int off, code ! i, None, int j) # rest)))"
  by (simp add: unpack_loop.simps[of d py code ext off i] skip_of_def Let_def)

lemma unpack_loop_arg:
  "i + 1 < length code \<Longrightarrow> have_argument d \<le> code ! i
   \<Longrightarrow> unpack_loop d py code ext off i =
       (let j = i + 2 + skip_of d py (code ! i);
            arg = (code ! (i + 1) OR ext) OR code ! (i + 1)
        in if code ! i = extended_arg d
           then bindE (unpack_loop d py code (arg * 256) j j) (\<lambda>rest.
                  Inr ((int off, nop_code d, Some (int arg), int j) # rest))
           else bindE (unpack_loop d py code 0 j j) (\<lambda>rest.
                  Inr ((int off, code ! i, Some (int arg), int j) # rest)))"
  by (simp add: unpack_loop.simps[of d py code ext off i] skip_of_def Let_def)

lemma bindE_cons:
  assumes "bindE m (\<lambda>r. Inr (x # r)) = Inr rs"
  obtains r where "m = Inr r" and "rs = x # r"
  using assms by (cases m) auto

lemma unpack_loop_step:
  assumes run: "unpack_loop d py code ext off i = Inr rs" and i: "i < length code"
    and j: "j = i + 2 + skip_of d py (code ! i)"
  obtains op a ext' rest where "unpack_loop d py code ext' j j = Inr rest"
    and "rs = (int off, op, a, int j) # rest"
proof (cases "have_argument d \<le> code ! i")
  case False
  have "bindE (unpack_loop d py code 0 j j) (\<lambda>rest. Inr ((int off, code ! i, None, int j) # rest)) = Inr rs"
    using run unpack_loop_plain[OF i False, of py ext off] by (simp only: Let_def j)
  then show thesis by (elim bindE_cons that)
next
  case True
  then have i1: "i + 1 < length code"
    using i run unpack_loop_cut[of i code d py ext off] by (cases "i + 1 < length code") auto
  define arg where "arg = (code ! (i + 1) OR ext) OR code ! (i + 1)"
  show thesis
  proof (cases "code ! i = extended_arg d")
    case ext: True
    have "bindE (unpack_loop d py code (arg * 256) j j)
        (\<lambda>rest. Inr ((int off, nop_code d, Some (int arg), int j) # rest)) = Inr rs"
      using run unpack_loop_arg[OF i1 True, of py ext off]
      by (simp only: Let_def j arg_def ext simp_thms if_True)
    then show thesis by (elim bindE_cons that)
  next
    case noext: False
    have "bindE (unpack_loop d py code 0 j j)
        (\<lambda>rest. Inr ((int off, code ! i, Some (int arg), int j) # rest)) = Inr rs"
      using run unpack_loop_arg[OF i1 True, of py ext off]
      by (simp only: Let_def j arg_def noext if_False)
    then show thesis by (elim bindE_cons that)
  qed
qed

lemma unpack_loop_chained:
  "unpack_loop d py code ext i i = Inr rs \<Longrightarrow> i < length code
   \<Longrightarrow> \<exists>n. chained (int i) rs n \<and> int (length code) \<le> n"
proof (induction "length code - i" arbitrary: ext i rs rule: less_induct)
  case less
  define j where j: "j = i + 2 + skip_of d py (code ! i)"
  obtain op a ext' rest where run: "unpack_loop d py code ext' j j = Inr rest"
    and rs: "rs = (int i, op, a, int j) # rest"
    using less.prems(1,2) j by (rule unpack_loop_step)
  have "\<exists>n. chained (int j) rest n \<and> int (length code) \<le> n"
  proof (cases "j < length code")
    case True
    have "length code - j < length code - i"
      using less.prems(2) by (simp add: j)
    from less.hyps[OF this run True] show ?thesis .
  next
    case False
    with run show ?thesis by (auto simp: unpack_loop_end)
  qed
  then show ?case by (auto simp: rs j)
qed

lemma bindE_tail_Inl: "bindE m (\<lambda>r. Inr (f r)) = Inl e \<longleftrightarrow> m = Inl e"
  by (cases m) auto

text \<open>
  The positions of the opcodes in the code: two bytes and the cache entries of the opcode from
  one to the next.
\<close>

function opcode_positions :: "dis \<Rightarrow> nat \<Rightarrow> nat list \<Rightarrow> nat \<Rightarrow> nat list" where
  "opcode_positions d py code i =
     (if length code \<le> i then []
      else i # opcode_positions d py code (i + 2 + skip_of d py (code ! i)))"
  by pat_completeness auto
termination
  by (relation "measure (\<lambda>(d, py, code, i). length code - i)") auto

declare opcode_positions.simps [simp del]

lemma opcode_positions_end: "length code \<le> i \<Longrightarrow> opcode_positions d py code i = []"
  by (simp add: opcode_positions.simps)

lemma opcode_positions_step:
  "i < length code \<Longrightarrow> opcode_positions d py code i
     = i # opcode_positions d py code (i + 2 + skip_of d py (code ! i))"
  by (simp add: opcode_positions.simps[of d py code i])

lemma opcode_positions_even:
  "py < 12 \<Longrightarrow>
   p \<in> set (opcode_positions d py code i) \<longleftrightarrow> i \<le> p \<and> p < length code \<and> even (p - i)"
proof (induction d py code i rule: opcode_positions.induct)
  case (1 d py code i)
  show ?case
  proof (cases "i < length code")
    case True
    have "skip_of d py (code ! i) = 0" using "1.prems" by (simp add: skip_of_def)
    with 1 True have "p \<in> set (opcode_positions d py code i)
        \<longleftrightarrow> p = i \<or> (i + 2 \<le> p \<and> p < length code \<and> even (p - (i + 2)))"
      by (simp add: opcode_positions_step)
    also have "\<dots> \<longleftrightarrow> i \<le> p \<and> p < length code \<and> even (p - i)" using True by presburger
    finally show ?thesis .
  qed (simp add: opcode_positions_end)
qed

text \<open>The loop fails exactly on an opcode in the last byte that takes an argument.\<close>

lemma unpack_loop_fails:
  "i < length code \<Longrightarrow>
   (\<exists>e. unpack_loop d py code ext off i = Inl e)
     \<longleftrightarrow> length code - 1 \<in> set (opcode_positions d py code i) \<and> have_argument d \<le> last code"
proof (induction "length code - i" arbitrary: ext off i rule: less_induct)
  case less
  define j where j: "j = i + 2 + skip_of d py (code ! i)"
  let ?fails = "\<lambda>i. length code - 1 \<in> set (opcode_positions d py code i) \<and> have_argument d \<le> last code"
  have rest: "(\<exists>e. unpack_loop d py code ext' off' j = Inl e) \<longleftrightarrow> ?fails j" for ext' off'
  proof (cases "j < length code")
    case True
    with less.prems show ?thesis by (intro less.hyps) (auto simp: j)
  qed (simp add: unpack_loop_end opcode_positions_end)
  have pos: "opcode_positions d py code i = i # opcode_positions d py code j"
    using opcode_positions_step[OF less.prems, of d py] by (simp only: j)
  show ?case
  proof (cases "i + 1 < length code")
    case True
    then have same: "?fails i \<longleftrightarrow> ?fails j" by (auto simp: pos)
    show ?thesis
    proof (cases "have_argument d \<le> code ! i")
      case False
      show ?thesis
        unfolding same unpack_loop_plain[OF less.prems False] Let_def j[symmetric] bindE_tail_Inl
        by (rule rest)
    next
      case arg: True
      show ?thesis
        unfolding same unpack_loop_arg[OF True arg] Let_def j[symmetric]
        by (cases "code ! i = extended_arg d") (simp_all only: refl if_True if_False bindE_tail_Inl rest)
    qed
  next
    case False
    with less.prems have len: "length code = i + 1" by simp
    then have "last code = code ! i" by (subst last_conv_nth) auto
    with len less.prems show ?thesis
      by (cases "have_argument d \<le> code ! i")
         (simp_all add: unpack_loop_plain unpack_loop_cut unpack_loop_end opcode_positions_end pos j Let_def)
  qed
qed

lemma unpack_loop_error: "unpack_loop d py code ext off i = Inl e \<Longrightarrow> e = IndexError"
proof (induction "length code - i" arbitrary: ext off i rule: less_induct)
  case less
  define j where j: "j = i + 2 + skip_of d py (code ! i)"
  show ?case
  proof (cases "i < length code")
    case False
    with less.prems show ?thesis by (simp add: unpack_loop_end)
  next
    case i: True
    then have shorter: "length code - j < length code - i" by (simp add: j)
    show ?thesis
    proof (cases "have_argument d \<le> code ! i")
      case False
      with less.prems i have "unpack_loop d py code 0 j j = Inl e"
        by (simp only: unpack_loop_plain Let_def j[symmetric] bindE_tail_Inl not_False_eq_True)
      then show ?thesis by (rule less.hyps[OF shorter])
    next
      case True
      show ?thesis
      proof (cases "i + 1 < length code")
        case False
        with True i less.prems show ?thesis by (simp add: unpack_loop_cut)
      next
        case arg: True
        have "\<exists>ext'. unpack_loop d py code ext' j j = Inl e"
          using less.prems unfolding unpack_loop_arg[OF arg True] Let_def j[symmetric]
          by (simp only: bindE_tail_Inl split: if_splits) blast+
        then show ?thesis by (blast intro: less.hyps[OF shorter])
      qed
    qed
  qed
qed

section \<open>Round trip with the wordcode of the interpreter\<close>

text \<open>
  An instruction of the wordcode: an opcode and the bytes of its argument, the most
  significant first. Every byte but the last travels in an \<open>EXTENDED_ARG\<close>; from 3.12 the
  instruction is followed by its cache entries.
\<close>

type_synonym winst = "nat \<times> nat list"

fun emit :: "dis \<Rightarrow> nat \<Rightarrow> nat \<Rightarrow> nat list \<Rightarrow> nat list" where
  "emit d py op [] = []"
| "emit d py op [b] = op # b # replicate (skip_of d py op) 0"
| "emit d py op (b # c # bs) = extended_arg d # b # emit d py op (c # bs)"

definition encode :: "dis \<Rightarrow> nat \<Rightarrow> winst list \<Rightarrow> nat list" where
  "encode d py prog = concat (map (\<lambda>w. emit d py (fst w) (snd w)) prog)"

definition arg_value :: "nat list \<Rightarrow> nat" where
  "arg_value bs = foldl (\<lambda>v b. v * 256 + b) 0 bs"

definition dis_ok :: "dis \<Rightarrow> bool" where
  "dis_ok d \<longleftrightarrow> have_argument d \<le> extended_arg d \<and> nop_code d < have_argument d
     \<and> cache_entries d (extended_arg d) = 0"

definition winst_ok :: "dis \<Rightarrow> winst \<Rightarrow> bool" where
  "winst_ok d w \<longleftrightarrow> fst w \<noteq> extended_arg d \<and> snd w \<noteq> [] \<and> (\<forall>b \<in> set (snd w). b < 256)
     \<and> (fst w < have_argument d \<longrightarrow> length (snd w) = 1)"

text \<open>What one instruction decodes to: a \<open>NOP\<close> with the argument so far for every prefix.\<close>

fun decoded :: "dis \<Rightarrow> nat \<Rightarrow> nat \<Rightarrow> nat \<Rightarrow> nat \<Rightarrow> nat list \<Rightarrow> raw_inst list" where
  "decoded d py op v i [] = []"
| "decoded d py op v i [b] =
     [(int i, op, if have_argument d \<le> op then Some (int (v * 256 + b)) else None,
       int (i + 2 + skip_of d py op))]"
| "decoded d py op v i (b # c # bs) =
     (int i, nop_code d, Some (int (v * 256 + b)), int (i + 2)) # decoded d py op (v * 256 + b) (i + 2) (c # bs)"

fun decoded_prog :: "dis \<Rightarrow> nat \<Rightarrow> nat \<Rightarrow> winst list \<Rightarrow> raw_inst list" where
  "decoded_prog d py i [] = []"
| "decoded_prog d py i (w # ws) =
     decoded d py (fst w) 0 i (snd w) @ decoded_prog d py (i + length (emit d py (fst w) (snd w))) ws"

definition is_prefix_entry :: "dis \<Rightarrow> raw_inst \<Rightarrow> bool" where
  "is_prefix_entry d r \<longleftrightarrow> fst (snd r) = nop_code d \<and> fst (snd (snd r)) \<noteq> None"

lemma or_bytes: "b < 256 \<Longrightarrow> (b OR v * 256) OR b = v * 256 + (b :: nat)"
proof -
  assume "b < 256"
  then have "b = take_bit 8 b" by (simp add: take_bit_eq_mod)
  moreover have "v * 256 = push_bit 8 v" by (simp add: push_bit_eq_mult)
  moreover have "push_bit 8 v AND take_bit 8 b = 0"
    by (rule bit_eqI) (simp add: bit_simps)
  ultimately have "v * 256 AND b = 0" by simp
  then have "v * 256 OR b = v * 256 + b" by (simp add: disjunctive_add_eq_or)
  moreover have "(b OR v * 256) OR b = v * 256 OR b"
    by (metis or.assoc or.commute or.idem)
  ultimately show ?thesis by simp
qed

lemma unpack_emit:
  assumes d: "dis_ok d" and "bs \<noteq> []" and "\<forall>b \<in> set bs. b < 256" and op: "op \<noteq> extended_arg d"
    and "op < have_argument d \<longrightarrow> length bs = 1"
    and "code = pre @ emit d py op bs @ post" and "i = length pre"
  shows "unpack_loop d py code (v * 256) i i =
     (let j = i + length (emit d py op bs)
      in bindE (unpack_loop d py code 0 j j) (\<lambda>rest. Inr (decoded d py op v i bs @ rest)))"
  using assms(2-)
proof (induction bs arbitrary: pre i v rule: induct_list012)
  case 1
  then show ?case by simp
next
  case (2 b)
  have at: "code ! i = op" "code ! (i + 1) = b" "i + 1 < length code"
    using 2 by (simp_all add: nth_append)
  show ?case
  proof (cases "have_argument d \<le> op")
    case True
    with 2 at op show ?thesis
      by (subst unpack_loop_arg) (simp_all add: Let_def or_bytes add.assoc)
  next
    case False
    with 2 at show ?thesis
      by (subst unpack_loop_plain) (simp_all add: Let_def add.assoc)
  qed
next
  case (3 b c bs)
  have at: "code ! i = extended_arg d" "code ! (i + 1) = b" "i + 1 < length code"
    using 3 by (simp_all add: nth_append)
  have skip: "skip_of d py (extended_arg d) = 0" using d by (simp add: skip_of_def dis_ok_def)
  have big: "have_argument d \<le> op" using 3 by (cases "have_argument d \<le> op") auto
  have IH: "unpack_loop d py code ((v * 256 + b) * 256) (i + 2) (i + 2) =
     (let j = i + 2 + length (emit d py op (c # bs))
      in bindE (unpack_loop d py code 0 j j)
           (\<lambda>rest. Inr (decoded d py op (v * 256 + b) (i + 2) (c # bs) @ rest)))"
    by (rule "3.IH"(2)[where pre = "pre @ [extended_arg d, b]"]) (use 3 big in auto)
  have assoc: "bindE (bindE m (\<lambda>rest. Inr (xs @ rest))) (\<lambda>rest. Inr (x # rest))
      = bindE m (\<lambda>rest. Inr (x # xs @ rest))" for m :: "raw_inst list res" and x xs
    by (cases m) simp_all
  have "unpack_loop d py code (v * 256) i i =
      bindE (unpack_loop d py code ((v * 256 + b) * 256) (i + 2) (i + 2))
        (\<lambda>rest. Inr ((int i, nop_code d, Some (int (v * 256 + b)), int (i + 2)) # rest))"
    using at skip d 3 by (subst unpack_loop_arg) (simp_all add: Let_def or_bytes dis_ok_def)
  also have "\<dots> = (let j = i + length (emit d py op (b # c # bs))
      in bindE (unpack_loop d py code 0 j j) (\<lambda>rest. Inr (decoded d py op v i (b # c # bs) @ rest)))"
    by (simp only: IH Let_def assoc) (simp add: add.assoc)
  finally show ?case .
qed

lemma unpack_encode:
  assumes d: "dis_ok d" and "\<forall>w \<in> set prog. winst_ok d w"
    and "code = pre @ encode d py prog"
  shows "unpack_loop d py code 0 (length pre) (length pre) = Inr (decoded_prog d py (length pre) prog)"
  using assms(2,3)
proof (induction prog arbitrary: pre)
  case Nil
  then show ?case by (simp add: encode_def unpack_loop_end)
next
  case (Cons w prog)
  let ?e = "emit d py (fst w) (snd w)"
  have "unpack_loop d py code 0 (length pre + length ?e) (length pre + length ?e)
      = Inr (decoded_prog d py (length pre + length ?e) prog)"
    using Cons.IH[of "pre @ ?e"] Cons.prems by (simp add: encode_def)
  moreover have "unpack_loop d py code (0 * 256) (length pre) (length pre) =
     (let j = length pre + length ?e
      in bindE (unpack_loop d py code 0 j j) (\<lambda>rest. Inr (decoded d py (fst w) 0 (length pre) (snd w) @ rest)))"
    by (rule unpack_emit[where pre = pre and post = "encode d py prog", OF d])
       (use Cons.prems in \<open>auto simp: winst_ok_def encode_def\<close>)
  ultimately show ?case by (simp add: Let_def)
qed

lemma decoded_filtered:
  assumes "dis_ok d" and "bs \<noteq> []" and "op < have_argument d \<longrightarrow> length bs = 1"
  shows "map (\<lambda>r. (fst (snd r), fst (snd (snd r)))) (filter (\<lambda>r. \<not> is_prefix_entry d r) (decoded d py op v i bs))
    = [(op, if have_argument d \<le> op then Some (int (foldl (\<lambda>v b. v * 256 + b) v bs)) else None)]"
  using assms(2-)
proof (induction bs arbitrary: i v rule: induct_list012)
  case 1
  then show ?case by simp
next
  case (2 b)
  with assms(1) show ?case by (auto simp: is_prefix_entry_def dis_ok_def)
next
  case (3 b c bs)
  then have "have_argument d \<le> op" by (cases "have_argument d \<le> op") auto
  with 3 "3.IH"(2)[of "v * 256 + b" "i + 2"] show ?case by (simp add: is_prefix_entry_def)
qed

lemma decoded_prog_filtered:
  assumes "dis_ok d" and "\<forall>w \<in> set prog. winst_ok d w"
  shows "map (\<lambda>r. (fst (snd r), fst (snd (snd r))))
      (filter (\<lambda>r. \<not> is_prefix_entry d r) (decoded_prog d py i prog))
    = map (\<lambda>w. (fst w, if have_argument d \<le> fst w then Some (int (arg_value (snd w))) else None)) prog"
  using assms(2)
proof (induction prog arbitrary: i)
  case Nil
  then show ?case by simp
next
  case (Cons w prog)
  from Cons.prems have "snd w \<noteq> []" and "fst w < have_argument d \<longrightarrow> length (snd w) = 1"
    by (simp_all add: winst_ok_def)
  from decoded_filtered[OF assms(1) this] Cons show ?case by (simp add: arg_value_def)
qed

text \<open>
  C17. Round trip: decoding the wordcode of a program (3.9 to 3.12) gives back its
  instructions with their arguments, whatever the number of argument bytes. The entries for
  the \<open>EXTENDED_ARG\<close> prefixes are the \<open>NOP\<close>s with an argument; with them every entry starts
  where the one before it ends, so no offset of the code is lost as a jump target.
\<close>

theorem decode_wordcode:
  assumes "dis_ok d" and "py \<le> 12" and "\<forall>w \<in> set prog. winst_ok d w" and "prog \<noteq> []"
  shows "\<exists>rs n. unpack_opargs d unp py (encode d py prog) = Inr rs
    \<and> map (\<lambda>r. (fst (snd r), fst (snd (snd r)))) (filter (\<lambda>r. \<not> is_prefix_entry d r) rs)
        = map (\<lambda>w. (fst w, if have_argument d \<le> fst w then Some (int (arg_value (snd w))) else None)) prog
    \<and> chained 0 rs n \<and> int (length (encode d py prog)) \<le> n"
proof -
  have run: "unpack_loop d py (encode d py prog) 0 0 0 = Inr (decoded_prog d py 0 prog)"
    using unpack_encode[OF assms(1,3), where pre = "[]" and py = py] by simp
  have "0 < length (encode d py prog)"
  proof -
    from assms(4) obtain w ws where "prog = w # ws" by (cases prog) auto
    moreover from this assms(3) have "snd w \<noteq> []" by (simp add: winst_ok_def)
    then have "emit d py (fst w) (snd w) \<noteq> []"
      by (cases "(d, py, fst w, snd w)" rule: emit.cases) auto
    ultimately show ?thesis by (simp add: encode_def)
  qed
  from unpack_loop_chained[OF _ this, of d py 0] run obtain n
    where "chained 0 (decoded_prog d py 0 prog) n" and "int (length (encode d py prog)) \<le> n"
    by auto
  with run assms(2) show ?thesis
    by (auto simp: unpack_opargs_def decoded_prog_filtered[OF assms(1,3)])
qed

definition sample_dis :: dis where
  "sample_dis =
     \<lparr>have_argument = 90, extended_arg = 144, nop_code = 9, cache_entries = (\<lambda>op. if op = 122 then 1 else 0),
      op_names = (\<lambda>op. if op = 110 then ''JUMP_FORWARD'' else if op = 140 then ''JUMP_BACKWARD''
                   else if op = 113 then ''JUMP_ABSOLUTE'' else ''OTHER''),
      has_jrel = (\<lambda>op. op = 110 \<or> op = 140), has_jabs = (\<lambda>op. op = 113)\<rparr>"

lemma sample_dis_ok: "dis_ok sample_dis"
  by (simp add: dis_ok_def sample_dis_def)

theorem decode_wordcode_witness:
  "\<exists>rs. unpack_opargs sample_dis (\<lambda>_. []) 12 (encode sample_dis 12 [(110, [1, 2, 3]), (122, [7]), (83, [0])]) = Inr rs
    \<and> map (\<lambda>r. (fst (snd r), fst (snd (snd r)))) (filter (\<lambda>r. \<not> is_prefix_entry sample_dis r) rs)
        = [(110, Some 66051), (122, Some 7), (83, None)]"
  using decode_wordcode[OF sample_dis_ok, of 12 "[(110, [1, 2, 3]), (122, [7]), (83, [0])]" "\<lambda>_. []"]
  by (auto simp: winst_ok_def sample_dis_def arg_value_def)

text \<open>
  C18. When decoding fails, in every version and for every code: until 3.12 exactly when the
  last byte of the code is at the position of an opcode (counting the cache entries in 3.12)
  and that opcode takes an argument, which is missing then; the error is an \<open>IndexError\<close>.
  Before 3.12 an opcode is at the last byte exactly when the length is odd. From 3.13 on the
  interpreter's own decoder runs, and the repository's part never fails.
\<close>

theorem decode_errors:
  "(if py < 13 \<and> code \<noteq> [] \<and> length code - 1 \<in> set (opcode_positions d py code 0)
        \<and> have_argument d \<le> last code
    then unpack_opargs d unp py code = Inl IndexError
    else \<exists>rs. unpack_opargs d unp py code = Inr rs)
   \<and> (py < 12 \<longrightarrow> code \<noteq> [] \<longrightarrow>
        (length code - 1 \<in> set (opcode_positions d py code 0) \<longleftrightarrow> odd (length code)))"
proof (rule conjI)
  let ?fails = "length code - 1 \<in> set (opcode_positions d py code 0) \<and> have_argument d \<le> last code"
  show "if py < 13 \<and> code \<noteq> [] \<and> ?fails then unpack_opargs d unp py code = Inl IndexError
    else \<exists>rs. unpack_opargs d unp py code = Inr rs"
  proof (cases "py < 13 \<and> code \<noteq> []")
    case True
    then have "(\<exists>e. unpack_opargs d unp py code = Inl e) \<longleftrightarrow> ?fails"
      using unpack_loop_fails[of 0 code d py 0 0] by (simp add: unpack_opargs_def)
    moreover have "unpack_opargs d unp py code = Inl e \<Longrightarrow> e = IndexError" for e
      using True by (auto simp: unpack_opargs_def dest: unpack_loop_error)
    ultimately show ?thesis
      using True by (cases "unpack_opargs d unp py code") auto
  next
    case False
    then show ?thesis by (auto simp: unpack_opargs_def unpack_loop_end)
  qed
  show "py < 12 \<longrightarrow> code \<noteq> [] \<longrightarrow>
      (length code - 1 \<in> set (opcode_positions d py code 0) \<longleftrightarrow> odd (length code))"
    by (cases "length code") (auto simp: opcode_positions_even)
qed

theorem decode_errors_witness:
  "unpack_opargs sample_dis (\<lambda>_. []) 11 [9, 0, 100] = Inl IndexError
   \<and> (\<exists>rs. unpack_opargs sample_dis (\<lambda>_. []) 11 [9, 0, 83] = Inr rs)
   \<and> unpack_opargs sample_dis (\<lambda>_. []) 12 [122, 0, 0, 0, 100] = Inl IndexError
   \<and> (\<exists>rs. unpack_opargs sample_dis (\<lambda>_. []) 12 [122, 0, 100] = Inr rs)
   \<and> (\<exists>rs. unpack_opargs sample_dis (\<lambda>_. [(0, 100, None)]) 13 [100] = Inr rs)"
proof -
  have "opcode_positions sample_dis 12 [122, 0, 0, 0, 100] 0 = [0, 4]"
    and "opcode_positions sample_dis 12 [122, 0, 100] 0 = [0]" and "have_argument sample_dis = 90" by code_simp+
  then show ?thesis
    using decode_errors[of 11 "[9, 0, 100]" sample_dis "\<lambda>_. []"] decode_errors[of 11 "[9, 0, 83]" sample_dis "\<lambda>_. []"]
      decode_errors[of 12 "[122, 0, 0, 0, 100]" sample_dis "\<lambda>_. []"]
      decode_errors[of 12 "[122, 0, 100]" sample_dis "\<lambda>_. []"]
      decode_errors[of 13 "[100]" sample_dis "\<lambda>_. [(0, 100, None)]"]
    by simp
qed

section \<open>Jump targets\<close>






section \<open>The table\<close>

lemma chained_shift:
  assumes "mapE (patch_oparg d) rs = Inr ps" and "chained i rs n"
  shows "chained (i + fixed_offset) ps (n + fixed_offset)"
  using assms
proof (induction rs arbitrary: i ps)
  case Nil
  then show ?case by simp
next
  case (Cons r rs)
  obtain off op a nxt where r: "r = (off, op, a, nxt)" by (cases r) auto
  from Cons.prems obtain p qs where "patch_oparg d r = Inr p" "mapE (patch_oparg d) rs = Inr qs" "ps = p # qs"
    by (auto simp: bindE_Inr_iff)
  moreover from this(1) have "fst p = off + fixed_offset" and "snd (snd (snd p)) = nxt + fixed_offset"
    by (auto simp: r patch_oparg_def split: if_splits)
  ultimately show ?case using Cons by (auto simp: r)
qed

lemma table_of_chained:
  assumes "chained 0 rs n" and "patched_opargs d rs = Inr ps"
  shows "bytecode_table d ps = map (\<lambda>r. (fst r, make_inst d r)) ps" and "chained 0 ps (n + fixed_offset)"
    and "hd ps = (0, nop_code d, None, fixed_offset)"
proof -
  from assms(2) obtain qs where qs: "mapE (patch_oparg d) rs = Inr qs"
    and ps: "ps = (0, nop_code d, None, fixed_offset) # qs"
    by (auto simp: patched_opargs_def bindE_Inr_iff)
  from chained_shift[OF qs assms(1)] show ch: "chained 0 ps (n + fixed_offset)"
    by (simp add: ps fixed_offset_def)
  then have "distinct (map fst ps)" using strict_sorted_iff chained_sorted by blast
  with fold_dset_fresh[where t = "[]" and f = fst and g = "make_inst d" and xs = ps]
  show "bytecode_table d ps = map (\<lambda>r. (fst r, make_inst d r)) ps"
    by (simp add: bytecode_table_def)
  show "hd ps = (0, nop_code d, None, fixed_offset)" by (simp add: ps)
qed



section \<open>Line numbers\<close>

text \<open>The last known line before each instruction.\<close>

fun lines_from :: "int \<Rightarrow> int list \<Rightarrow> int list" where
  "lines_from known [] = []"
| "lines_from known (l # ls) = (let k = (if 0 \<le> l then l else known) in k # lines_from k ls)"

lemma fill_lineno_keys [simp]: "dkeys (fill_lineno known t) = dkeys t"
  by (induction known t rule: fill_lineno.induct) auto

lemma lines_from_last:
  "k < length ls \<Longrightarrow> lines_from known ls ! k =
     (case filter (\<lambda>l. 0 \<le> l) (take (k + 1) ls) of [] \<Rightarrow> known | xs \<Rightarrow> last xs)"
proof (induction ls arbitrary: known k)
  case Nil
  then show ?case by simp
next
  case (Cons l ls)
  show ?case
  proof (cases k)
    case 0
    then show ?thesis by (simp add: Let_def)
  next
    case (Suc k')
    with Cons.prems have "k' < length ls" by simp
    from Cons.IH[OF this] show ?thesis
      by (auto simp: Suc Let_def split: list.splits)
  qed
qed

lemma fill_lineno_lines:
  "map (\<lambda>p. i_lineno (snd p)) (fill_lineno known t) = lines_from known (map (\<lambda>p. i_lineno (snd p)) t)"
  by (induction known t rule: fill_lineno.induct) (auto simp: Let_def)

text \<open>Filling in the lines moves no instruction.\<close>

abbreviation next_offsets :: "(int, inst) dict \<Rightarrow> (int \<times> int) list" where
  "next_offsets t \<equiv> map (\<lambda>p. (fst p, i_next (snd p))) t"

lemma set_lineno_next: "distinct (dkeys t) \<Longrightarrow> next_offsets (set_lineno p t) = next_offsets t"
proof -
  have "map_of t k = Some i \<Longrightarrow> distinct (dkeys t) \<Longrightarrow>
      next_offsets (dset k (i\<lparr>i_lineno := l\<rparr>) t) = next_offsets t" for k i l and t :: "(int, inst) dict"
    by (induction t) (auto split: if_splits)
  then show "distinct (dkeys t) \<Longrightarrow> next_offsets (set_lineno p t) = next_offsets t"
    by (simp add: set_lineno_def split: option.splits)
qed

lemma fill_lineno_next: "next_offsets (fill_lineno known t) = next_offsets t"
  by (induction known t rule: fill_lineno.induct) auto

lemma compute_lineno_next:
  assumes "distinct (dkeys t)"
  shows "next_offsets (compute_lineno starts first t) = next_offsets t"
proof -
  have "next_offsets u = next_offsets t \<Longrightarrow> next_offsets (fold set_lineno starts u) = next_offsets t" for u
  proof (induction starts arbitrary: u)
    case Nil
    then show ?case by simp
  next
    case (Cons p starts)
    have "map fst (next_offsets u) = map fst (next_offsets t)" using Cons.prems by (rule arg_cong)
    then have "dkeys u = dkeys t" by (simp add: comp_def)
    with assms Cons show ?case by (simp add: set_lineno_next)
  qed
  then show ?thesis by (simp add: compute_lineno_def fill_lineno_next)
qed

definition start_line :: "(int \<times> int option) list \<Rightarrow> int \<Rightarrow> int" where
  "start_line starts key =
     (case map_of (rev starts) (key - fixed_offset) of Some (Some l) \<Rightarrow> l | _ \<Rightarrow> - 1)"

lemma set_lineno_keys: "dkeys (set_lineno p t) = dkeys t"
proof (cases "map_of t (fst p + fixed_offset)")
  case None
  then show ?thesis by (simp add: set_lineno_def)
next
  case (Some i)
  then have "fst p + fixed_offset \<in> fst ` set t" by (force dest: map_of_SomeD)
  with Some show ?thesis by (simp add: set_lineno_def dset_keys_present)
qed

lemma fold_set_lineno:
  "dkeys (fold set_lineno starts t) = dkeys t
   \<and> (\<forall>k i. map_of t k = Some i \<longrightarrow>
        map_of (fold set_lineno starts t) k = Some (case map_of (rev starts) (k - fixed_offset) of
            None \<Rightarrow> i
          | Some l \<Rightarrow> i\<lparr>i_lineno := (case l of None \<Rightarrow> - 1 | Some line \<Rightarrow> line)\<rparr>))"
proof (induction starts rule: rev_induct)
  case Nil
  then show ?case by simp
next
  case (snoc p starts)
  have "map_of (set_lineno p u) k = Some (if k - fixed_offset = fst p
          then i\<lparr>i_lineno := (case snd p of None \<Rightarrow> - 1 | Some line \<Rightarrow> line)\<rparr> else i)"
    if "map_of u k = Some i" for u k i
    using that by (cases "k = fst p + fixed_offset") (auto simp: set_lineno_def split: option.splits)
  with snoc show ?case
    by (cases p) (auto simp: set_lineno_keys map_add_def split: option.splits)
qed

lemma decoded_code_forward:
  assumes "py \<le> 12" and "code \<noteq> []"
    and "unpack_opargs d unp py code = Inr rs" and "patched_opargs d rs = Inr ps"
    and t: "t = compute_lineno starts first (bytecode_table d ps)"
    and "map_of t k = Some i"
  shows "k < i_next i"
proof -
  obtain n where ch: "chained 0 rs n"
    using assms unpack_loop_chained[of d py code 0 0 rs] by (auto simp: unpack_opargs_def)
  note table = table_of_chained[OF ch assms(4)]
  have "sorted_wrt (<) (map fst ps)" using table(2) by (rule chained_sorted)
  then have "distinct (dkeys (bytecode_table d ps))"
    by (simp add: table(1) comp_def strict_sorted_iff)
  from compute_lineno_next[OF this, of starts first]
  have "next_offsets t = map (\<lambda>r. (fst r, snd (snd (snd r)))) ps"
    by (simp add: t table(1) comp_def make_inst_def split: prod.split)
  moreover have "(k, i_next i) \<in> set (next_offsets t)"
    using map_of_SomeD[OF assms(6)] by (force intro: image_eqI[where x = "(k, i)"])
  ultimately show ?thesis using chained_offsets[OF table(2)] by auto
qed

text \<open>
  C21. Every instruction gets a line: that of the last line start at or before it, or the
  first line of the function where there is none. Line starts without a line, and those at
  offsets without an instruction, change nothing.
\<close>

theorem lines_are_filled:
  assumes "distinct (dkeys t)" and "\<forall>i \<in> snd ` set t. i_lineno i = - 1"
  shows "dkeys (compute_lineno starts first t) = dkeys t
    \<and> (\<forall>k < length t. i_lineno (snd (compute_lineno starts first t ! k)) =
         (case filter (\<lambda>l. 0 \<le> l) (map (start_line starts) (take (k + 1) (dkeys t))) of
            [] \<Rightarrow> first | ls \<Rightarrow> last ls))"
proof -
  let ?u = "fold set_lineno starts t"
  have keys: "dkeys ?u = dkeys t" using fold_set_lineno by blast
  have "map (\<lambda>p. i_lineno (snd p)) ?u = map (start_line starts) (dkeys t)"
  proof (rule nth_equalityI)
    show "length (map (\<lambda>p. i_lineno (snd p)) ?u) = length (map (start_line starts) (dkeys t))"
      using arg_cong[OF keys, of length] by simp
  next
    fix k assume "k < length (map (\<lambda>p. i_lineno (snd p)) ?u)"
    then have k: "k < length ?u" "k < length t" using arg_cong[OF keys, of length] by simp_all
    have key: "fst (?u ! k) = fst (t ! k)"
      using arg_cong[OF keys, of "\<lambda>ks. ks ! k"] k by simp
    have mem: "t ! k \<in> set t" "?u ! k \<in> set ?u" using k by simp_all
    have "map_of t (fst (t ! k)) = Some (snd (t ! k))"
      using assms(1) mem(1) by (intro map_of_is_SomeI) auto
    moreover have "map_of ?u (fst (t ! k)) = Some (snd (?u ! k))"
      using assms(1) keys mem(2) key by (intro map_of_is_SomeI) (auto simp flip: key)
    moreover have "i_lineno (snd (t ! k)) = - 1" using assms(2) mem(1) by auto
    ultimately have "snd (?u ! k) = (case map_of (rev starts) (fst (t ! k) - fixed_offset) of
          None \<Rightarrow> snd (t ! k)
        | Some l \<Rightarrow> (snd (t ! k))\<lparr>i_lineno := (case l of None \<Rightarrow> - 1 | Some line \<Rightarrow> line)\<rparr>)"
      using fold_set_lineno[of starts t] by (metis option.inject)
    then have "i_lineno (snd (?u ! k)) = start_line starts (fst (t ! k))"
      using \<open>i_lineno (snd (t ! k)) = - 1\<close> by (simp add: start_line_def split: option.splits)
    then show "map (\<lambda>p. i_lineno (snd p)) ?u ! k = map (start_line starts) (dkeys t) ! k"
      using k by simp
  qed
  note lines = this
  have "map (\<lambda>p. i_lineno (snd p)) (compute_lineno starts first t)
      = lines_from first (map (start_line starts) (dkeys t))"
    by (simp add: compute_lineno_def fill_lineno_lines lines)
  moreover have "length (compute_lineno starts first t) = length t"
    by (metis compute_lineno_def fill_lineno_keys keys length_map)
  ultimately have "i_lineno (snd (compute_lineno starts first t ! k))
      = lines_from first (map (start_line starts) (dkeys t)) ! k" if "k < length t" for k
    using that by (metis nth_map)
  then show ?thesis
    using keys by (simp add: compute_lineno_def lines_from_last take_map)
qed

definition sample_table :: "(int, inst) dict" where
  "sample_table = bytecode_table sample_dis [(0, 9, None, 2), (2, 110, Some 0, 4), (4, 83, None, 6)]"

theorem lines_are_filled_witness:
  "map (\<lambda>p. i_lineno (snd p)) (compute_lineno [(0, Some 7), (2, None)] 6 sample_table) = [6, 7, 7]
   \<and> i_lineno (snd (compute_lineno [(0, Some 7), (2, None)] 6 sample_table ! 2)) = 7"
proof
  have "distinct (dkeys sample_table)" by code_simp
  moreover have "\<forall>i \<in> snd ` set sample_table. i_lineno i = - 1" by code_simp
  ultimately have "i_lineno (snd (compute_lineno [(0, Some 7), (2, None)] 6 sample_table ! 2)) =
      (case filter (\<lambda>l. 0 \<le> l) (map (start_line [(0, Some 7), (2, None)]) (take 3 (dkeys sample_table))) of
         [] \<Rightarrow> 6 | ls \<Rightarrow> last ls)"
    using lines_are_filled[of sample_table "[(0, Some 7), (2, None)]" 6]
    by (simp add: sample_table_def bytecode_table_def numeral_eq_Suc)
  also have "\<dots> = 7" by code_simp
  finally show "i_lineno (snd (compute_lineno [(0, Some 7), (2, None)] 6 sample_table ! 2)) = 7" .
qed code_simp

end
