(* ===== verification/Comprehensions.thy ===== *)
theory Comprehensions
  imports Bytecode
begin

text \<open>
  The exception entries of inlined comprehensions (\<open>ByteCodePy312\<close> in \<open>core/bytecode.py\<close>):
  what the clean-up of the exception table removes, joins and keeps. The code's loop is
  shown to be a sequence of three kinds of steps on the table, and the steps to keep the
  handlers of everything outside comprehensions.
\<close>

section \<open>The pattern\<close>








section \<open>Tables\<close>








section \<open>Steps\<close>

















section \<open>The code takes these steps\<close>









section \<open>Recognition\<close>







section \<open>The clean-up\<close>



















end
