(* ===== verification/TraceState.thy ===== *)
theory TraceState
  imports Bytecode
begin

text \<open>
  The state of a bytecode trace: \<open>_State\<close>, \<open>StatePy311\<close> and \<open>StatePy313\<close> of
  \<open>numba_cuda/core/byteflow.py\<close>. A method is a function on the state that raises or returns
  a value and the new state; \<open>bindT\<close> runs one after the other. Registers are the strings the
  code builds. Stacks are lists with the top at the end, as in the code.
\<close>

section \<open>Blocks, edges and the code of a function\<close>

datatype block_kind = LOOP | TRY | EXCEPT | FINALLY | WITH | WITH_FINALLY

datatype synblk = Synblk
  (b_kind: block_kind)
  (b_end: "int option")
  (b_entry_stack: nat)
  (b_stack_depth: "nat option")
  (b_handler: "synblk option")
  (b_end_offset: "int option")
  (b_push_lasti: "bool option")

record edge =
  e_pc :: int
  e_stack :: "string list"
  e_blockstack :: "synblk list"
  e_npush :: nat

text \<open>The values an instruction records: registers, lists of them, constants.\<close>

datatype kwval = VStr string | VList "kwval list" | VNone | VInt int | VBool bool

type_synonym kwargs = "(string, kwval) dict"

record code =
  c_py :: nat
  c_table :: "(int, inst) dict"
  c_labels :: "int list"
  c_entries :: "eh_entry list"
  c_varnames :: "string list"
  c_cellvars :: nat
  c_freevars :: nat

record tstate =
  bytecode :: code
  pc_initial :: int
  pc :: int
  nstack_initial :: nat
  stack :: "string list"
  blockstack_initial :: "synblk list"
  blockstack :: "synblk list"
  temp_registers :: "string list"
  insts :: "(int \<times> kwargs) list"
  outedges :: "edge list"
  terminated :: bool
  phis :: "(string, nat) dict"
  outgoing_phis :: "(string, string) dict"
  used_regs :: "string list"
  state_kw_names :: "kwval option"
  make_func_attrs :: "(string, kwargs) dict"

section \<open>Sequencing\<close>

type_synonym 'a trace = "tstate \<Rightarrow> ('a \<times> tstate) res"

definition retT :: "'a \<Rightarrow> 'a trace" where
  "retT x s = Inr (x, s)"

definition raiseT :: "pyerr \<Rightarrow> 'a trace" where
  "raiseT e s = Inl e"

definition bindT :: "'a trace \<Rightarrow> ('a \<Rightarrow> 'b trace) \<Rightarrow> 'b trace" where
  "bindT m f s = (case m s of Inl e \<Rightarrow> Inl e | Inr (x, s') \<Rightarrow> f x s')"

definition seqT :: "unit trace \<Rightarrow> 'b trace \<Rightarrow> 'b trace" where
  "seqT m k = bindT m (\<lambda>_. k)"

definition getT :: "(tstate \<Rightarrow> 'a) \<Rightarrow> 'a trace" where
  "getT f s = Inr (f s, s)"

definition modifyT :: "(tstate \<Rightarrow> tstate) \<Rightarrow> unit trace" where
  "modifyT f s = Inr ((), f s)"

definition liftT :: "'a res \<Rightarrow> 'a trace" where
  "liftT r s = (case r of Inl e \<Rightarrow> Inl e | Inr x \<Rightarrow> Inr (x, s))"

definition assertT :: "bool \<Rightarrow> unit trace" where
  "assertT b = (if b then retT () else raiseT AssertionError)"

fun repeatT :: "nat \<Rightarrow> 'a trace \<Rightarrow> 'a list trace" where
  "repeatT 0 m = retT []"
| "repeatT (Suc n) m = bindT m (\<lambda>x. bindT (repeatT n m) (\<lambda>xs. retT (x # xs)))"

fun forT :: "'a list \<Rightarrow> ('a \<Rightarrow> unit trace) \<Rightarrow> unit trace" where
  "forT [] f = retT ()"
| "forT (x # xs) f = seqT (f x) (forT xs f)"

section \<open>Registers\<close>

definition lower_char :: "char \<Rightarrow> char" where
  "lower_char c = (if 65 \<le> (of_char c :: nat) \<and> (of_char c :: nat) \<le> 90
                   then char_of ((of_char c :: nat) + 32) else c)"

definition is_null_temp_reg :: "string \<Rightarrow> bool" where
  "is_null_temp_reg r \<longleftrightarrow> take 6 r = ''$null$''"

definition version :: "nat trace" where
  "version = getT (\<lambda>s. c_py (bytecode s))"

definition get_inst :: "inst trace" where
  "get_inst s = liftT (dget (c_table (bytecode s)) (pc s)) s"

definition advance_pc :: "unit trace" where
  "advance_pc = bindT get_inst (\<lambda>i. modifyT (\<lambda>s. s\<lparr>pc := i_next i\<rparr>))"

definition temp_name :: "string \<Rightarrow> int \<Rightarrow> string \<Rightarrow> nat \<Rightarrow> string" where
  "temp_name prefix offset opname tempct =
     ''$'' @ prefix @ show_int offset @ opname @ ''.'' @ show_nat tempct"

definition new_temp :: "(tstate \<Rightarrow> string) \<Rightarrow> string trace" where
  "new_temp name s = Inr (name s, s\<lparr>temp_registers := temp_registers s @ [name s]\<rparr>)"

definition make_temp :: "string \<Rightarrow> string trace" where
  "make_temp prefix =
     (if prefix = [] then
        bindT get_inst (\<lambda>i. new_temp (\<lambda>s.
          temp_name [] (pc s) (map lower_char (i_opname i)) (length (temp_registers s))))
      else new_temp (\<lambda>s. temp_name prefix (pc s) [] (length (temp_registers s))))"

definition make_null :: "string trace" where
  "make_null = bindT version (\<lambda>py. if py < 11 then raiseT AttributeError else make_temp ''null$'')"

section \<open>The value stack\<close>

definition peek :: "int \<Rightarrow> string trace" where
  "peek k s = liftT (py_index (stack s) (- k)) s"

definition get_tos :: "string trace" where
  "get_tos = peek 1"

definition push :: "string \<Rightarrow> unit trace" where
  "push item = modifyT (\<lambda>s. s\<lparr>stack := stack s @ [item]\<rparr>)"

definition pop :: "string trace" where
  "pop s = (if stack s = [] then Inl IndexError
            else Inr (last (stack s), s\<lparr>stack := butlast (stack s)\<rparr>))"

definition py_nth_pos :: "'a list \<Rightarrow> int \<Rightarrow> nat" where
  "py_nth_pos xs i = nat (if i < 0 then i + int (length xs) else i)"

text \<open>\<open>s[-1], s[-idx] = s[-idx], s[-1]\<close>.\<close>

definition swap :: "int \<Rightarrow> unit trace" where
  "swap idx s =
     bindE (py_index (stack s) (- idx)) (\<lambda>a.
     bindE (py_index (stack s) (- 1)) (\<lambda>b.
       Inr ((), s\<lparr>stack := (stack s)[length (stack s) - 1 := a, py_nth_pos (stack s) (- idx) := b]\<rparr>)))"

definition reset_stack :: "nat option \<Rightarrow> string list trace" where
  "reset_stack depth s =
     (case depth of
        None \<Rightarrow> Inr ([], s)
      | Some d \<Rightarrow> Inr (drop d (stack s), s\<lparr>stack := take d (stack s)\<rparr>))"

definition pop_list :: "int \<Rightarrow> string list trace" where
  "pop_list n = bindT (repeatT (nat n) pop) (\<lambda>xs. retT (rev xs))"

definition make_temps :: "int \<Rightarrow> string list trace" where
  "make_temps n = repeatT (nat n) (make_temp [])"

section \<open>Recorded instructions\<close>

fun flatten_regs :: "kwval list \<Rightarrow> string list" where
  "flatten_regs [] = []"
| "flatten_regs (VStr r # rest) = r # flatten_regs rest"
| "flatten_regs (VList xs # rest) = flatten_regs xs @ flatten_regs rest"
| "flatten_regs (v # rest) = flatten_regs rest"

definition append_inst :: "inst \<Rightarrow> kwargs \<Rightarrow> unit trace" where
  "append_inst i kw = modifyT (\<lambda>s. s\<lparr>insts := insts s @ [(i_offset i, kw)],
     used_regs := set_update (used_regs s) (flatten_regs (dvalues kw))\<rparr>)"

abbreviation VRegs :: "string list \<Rightarrow> kwval" where
  "VRegs rs \<equiv> VList (map VStr rs)"

definition vopt :: "string option \<Rightarrow> kwval" where
  "vopt r = (case r of None \<Rightarrow> VNone | Some x \<Rightarrow> VStr x)"

section \<open>The block stack\<close>

definition push_block :: "synblk \<Rightarrow> unit trace" where
  "push_block b = modifyT (\<lambda>s. s\<lparr>blockstack := blockstack s @ [b]\<rparr>)"

definition make_block ::
  "block_kind \<Rightarrow> int option \<Rightarrow> bool \<Rightarrow> synblk option \<Rightarrow> synblk trace" where
  "make_block kind e reset handler = getT (\<lambda>s.
     Synblk kind e (length (stack s)) (if reset then Some (length (stack s)) else None)
       handler None None)"

definition pop_block :: "synblk trace" where
  "pop_block s =
     (if blockstack s = [] then Inl IndexError
      else let b = last (blockstack s)
           in bindT (reset_stack (b_stack_depth b)) (\<lambda>_. retT b)
                (s\<lparr>blockstack := butlast (blockstack s)\<rparr>))"

text \<open>\<open>list.index\<close> finds the first equal block, from the bottom.\<close>

definition pop_block_and_above :: "synblk \<Rightarrow> unit trace" where
  "pop_block_and_above b s =
     (if b \<in> set (blockstack s)
      then Inr ((), s\<lparr>blockstack := takeWhile (\<lambda>x. x \<noteq> b) (blockstack s)\<rparr>)
      else Inl ValueError)"

definition get_top_block :: "block_kind \<Rightarrow> tstate \<Rightarrow> synblk option" where
  "get_top_block kind s = List.find (\<lambda>b. b_kind b = kind) (rev (blockstack s))"

definition has_active_try :: "tstate \<Rightarrow> bool" where
  "has_active_try s \<longleftrightarrow> get_top_block TRY s \<noteq> None"

definition find_initial_try_block :: "tstate \<Rightarrow> synblk option" where
  "find_initial_try_block s = List.find (\<lambda>b. b_kind b = TRY) (rev (blockstack_initial s))"

definition in_with :: "tstate \<Rightarrow> bool" where
  "in_with s \<longleftrightarrow> list_ex (\<lambda>b. b_kind b = WITH) (blockstack_initial s)"

definition get_exception :: "tstate \<Rightarrow> eh_entry option" where
  "get_exception s = find_exception_entry (c_entries (bytecode s)) (pc s)"

section \<open>Names and attributes\<close>

definition get_varname_by_arg :: "int \<Rightarrow> string trace" where
  "get_varname_by_arg a s = liftT (py_index (c_varnames (bytecode s)) a) s"

definition pop_kw_names :: "kwval option trace" where
  "pop_kw_names s =
     (if c_py (bytecode s) < 11 then Inl AttributeError
      else Inr (state_kw_names s, s\<lparr>state_kw_names := None\<rparr>))"

definition set_kw_names :: "kwval \<Rightarrow> unit trace" where
  "set_kw_names v s =
     (if c_py (bytecode s) < 11 then Inl AttributeError
      else if state_kw_names s \<noteq> None then Inl AssertionError
      else Inr ((), s\<lparr>state_kw_names := (if v = VNone then None else Some v)\<rparr>))"

definition get_function_attributes :: "string \<Rightarrow> tstate \<Rightarrow> kwargs" where
  "get_function_attributes r s = (case map_of (make_func_attrs s) r of None \<Rightarrow> [] | Some kw \<Rightarrow> kw)"

definition set_function_attribute :: "string \<Rightarrow> string \<Rightarrow> kwval \<Rightarrow> unit trace" where
  "set_function_attribute r key v = modifyT (\<lambda>s.
     s\<lparr>make_func_attrs := dset r (dset key v (get_function_attributes r s)) (make_func_attrs s)\<rparr>)"

section \<open>Termination and forks\<close>

definition terminate :: "unit trace" where
  "terminate = modifyT (\<lambda>s. s\<lparr>terminated := True\<rparr>)"

text \<open>Blocks that have ended at the destination, top first. \<open>None\<close> does not compare.\<close>

fun pop_expired :: "int \<Rightarrow> synblk list \<Rightarrow> synblk list res" where
  "pop_expired dest [] = Inr []"
| "pop_expired dest (b # bs) =
     (case (case b_end_offset b of
              Some e \<Rightarrow> if e \<noteq> 0 then Some e else b_end b
            | None \<Rightarrow> b_end b) of
        None \<Rightarrow> Inl TypeError
      | Some e \<Rightarrow> if e \<le> dest then pop_expired dest bs else Inr (b # bs))"

definition edge_blocks :: "nat \<Rightarrow> int \<Rightarrow> synblk option \<Rightarrow> synblk list \<Rightarrow> synblk list res" where
  "edge_blocks py dest extra blocks =
     bindE (if 11 \<le> py then bindE (pop_expired dest (rev blocks)) (\<lambda>bs. Inr (rev bs))
            else Inr blocks) (\<lambda>bs.
       Inr (case extra of None \<Rightarrow> bs | Some b \<Rightarrow> bs @ [b]))"

definition fork :: "int \<Rightarrow> nat \<Rightarrow> nat \<Rightarrow> synblk option \<Rightarrow> unit trace" where
  "fork dest npop npush extra =
     bindT (getT stack) (\<lambda>st.
     seqT (assertT (npop \<le> length st))
     (bindT (repeatT npush (make_temp [])) (\<lambda>pushed.
      bindT version (\<lambda>py.
      bindT (getT blockstack) (\<lambda>blocks.
      bindT (liftT (edge_blocks py dest extra blocks)) (\<lambda>bs.
      seqT (modifyT (\<lambda>s. s\<lparr>outedges := outedges s @
              [\<lparr>e_pc = dest, e_stack = take (length st - npop) st @ pushed,
                e_blockstack = bs, e_npush = npush\<rparr>]\<rparr>))
        terminate))))))"

abbreviation fork_to :: "int \<Rightarrow> unit trace" where
  "fork_to dest \<equiv> fork dest 0 0 None"

definition split_new_block :: "unit trace" where
  "split_new_block = bindT (getT pc) fork_to"

section \<open>New states and outgoing states\<close>

definition add_phi :: "nat list \<Rightarrow> nat \<Rightarrow> unit trace" where
  "add_phi nullvals i =
     bindT (make_temp (if i \<in> set nullvals then ''null$'' else ''phi'')) (\<lambda>phi.
     seqT (modifyT (\<lambda>s. s\<lparr>phis := dset phi i (phis s)\<rparr>)) (push phi))"

definition blank_state :: "code \<Rightarrow> int \<Rightarrow> nat \<Rightarrow> synblk list \<Rightarrow> tstate" where
  "blank_state bc pc0 nstack blocks =
     \<lparr>bytecode = bc, pc_initial = pc0, pc = pc0, nstack_initial = nstack, stack = [],
      blockstack_initial = blocks, blockstack = blocks, temp_registers = [], insts = [],
      outedges = [], terminated = False, phis = [], outgoing_phis = [], used_regs = [],
      state_kw_names = None, make_func_attrs = []\<rparr>"

definition new_state :: "code \<Rightarrow> int \<Rightarrow> nat \<Rightarrow> synblk list \<Rightarrow> nat list \<Rightarrow> tstate res" where
  "new_state bc pc0 nstack blocks nullvals =
     bindE (forT [0..<nstack] (add_phi nullvals) (blank_state bc pc0 nstack blocks)) (\<lambda>(u, s). Inr s)"

text \<open>\<open>UniqueDict\<close>: assigning a key twice is an error.\<close>

definition unique_set :: "'k \<Rightarrow> 'v \<Rightarrow> ('k, 'v) dict \<Rightarrow> ('k, 'v) dict res" where
  "unique_set k v d = (if map_of d k = None then Inr (d @ [(k, v)]) else Inl AssertionError)"

definition null_positions :: "string list \<Rightarrow> nat list" where
  "null_positions st = filter (\<lambda>i. is_null_temp_reg (st ! i)) [0..<length st]"

definition edge_state :: "code \<Rightarrow> edge \<Rightarrow> tstate res" where
  "edge_state bc e =
     new_state bc (e_pc e) (length (e_stack e)) (e_blockstack e) (null_positions (e_stack e))"

definition map_phis :: "edge \<Rightarrow> (string, nat) dict \<Rightarrow> (string, string) dict \<Rightarrow> (string, string) dict res"
where
  "map_phis e ps out = foldE (\<lambda>(phi, i) out. unique_set phi (e_stack e ! i) out) ps out"

fun outgoing_states ::
  "code \<Rightarrow> edge list \<Rightarrow> (string, string) dict \<Rightarrow> (tstate list \<times> (string, string) dict) res" where
  "outgoing_states bc [] out = Inr ([], out)"
| "outgoing_states bc (e # es) out =
     bindE (edge_state bc e) (\<lambda>st.
     bindE (map_phis e (phis st) out) (\<lambda>out1.
     bindE (outgoing_states bc es out1) (\<lambda>(rest, out2). Inr (st # rest, out2))))"

definition get_outgoing_states :: "tstate list trace" where
  "get_outgoing_states s =
     (if outgoing_phis s \<noteq> [] then Inl AssertionError
      else bindE (outgoing_states (bytecode s) (outedges s) []) (\<lambda>(ret, out).
        Inr (ret, s\<lparr>outgoing_phis := out\<rparr>)))"

text \<open>\<open>edge.stack[-edge.npush:]\<close>: with no value pushed the slice is the whole stack.\<close>

definition edge_pushed :: "edge \<Rightarrow> string list" where
  "edge_pushed e =
     (if e_npush e = 0 then e_stack e else drop (length (e_stack e) - e_npush e) (e_stack e))"

definition get_outgoing_edgepushed :: "tstate \<Rightarrow> (int, string list) dict" where
  "get_outgoing_edgepushed s = fold (\<lambda>e d. dset (e_pc e) (edge_pushed e) d) (outedges s) []"

end
