(* ===== verification/TraceOps.thy ===== *)
theory TraceOps
  imports TraceState
begin

text \<open>
  The opcode handlers of \<open>TraceRunner\<close> in \<open>numba_cuda/core/byteflow.py\<close>, one definition each,
  in the order of their calls on the state. A handler that the code defines differently per
  Python version has one definition per variant; \<open>op_entries\<close> says which version has which, and
  \<open>dispatch\<close> looks the handler up by name.
\<close>

unbundle bit_operations_syntax

definition arg_of :: "inst \<Rightarrow> int trace" where
  "arg_of inst = (case i_arg inst of None \<Rightarrow> raiseT TypeError | Some a \<Rightarrow> retT a)"

definition show_arg :: "int option \<Rightarrow> string" where
  "show_arg a = (case a of None \<Rightarrow> ''None'' | Some n \<Rightarrow> show_int n)"

definition kw_value :: "kwval option \<Rightarrow> kwval" where
  "kw_value v = (case v of None \<Rightarrow> VNone | Some x \<Rightarrow> x)"

definition pop_when :: "bool \<Rightarrow> string option trace" where
  "pop_when b = (if b then bindT pop (\<lambda>r. retT (Some r)) else retT None)"

definition last_reg :: "string list \<Rightarrow> string trace" where
  "last_reg rs = liftT (py_index rs (- 1))"

definition push_new_temp :: "string trace" where
  "push_new_temp = bindT (make_temp []) (\<lambda>tmp. seqT (push tmp) (retT tmp))"

definition pop_pair :: "kwval trace" where
  "pop_pair = bindT pop (\<lambda>v. bindT pop (\<lambda>k. retT (VRegs [k, v])))"

definition jump_target :: "inst \<Rightarrow> int trace" where
  "jump_target inst = bindT version (\<lambda>py. liftT (get_jump_target py inst))"

section \<open>Constants, names and attributes\<close>

definition op_NOP :: "inst \<Rightarrow> unit trace" where
  "op_NOP inst =
     append_inst inst []"

definition op_RESUME :: "inst \<Rightarrow> unit trace" where
  "op_RESUME inst =
     append_inst inst []"

definition op_CACHE :: "inst \<Rightarrow> unit trace" where
  "op_CACHE inst =
     append_inst inst []"

definition op_PRECALL :: "inst \<Rightarrow> unit trace" where
  "op_PRECALL inst =
     append_inst inst []"

definition op_COPY_FREE_VARS :: "inst \<Rightarrow> unit trace" where
  "op_COPY_FREE_VARS inst =
     append_inst inst []"

definition op_MAKE_CELL :: "inst \<Rightarrow> unit trace" where
  "op_MAKE_CELL inst =
     append_inst inst []"

definition op_DELETE_FAST :: "inst \<Rightarrow> unit trace" where
  "op_DELETE_FAST inst =
     append_inst inst []"

definition op_WITH_CLEANUP_START :: "inst \<Rightarrow> unit trace" where
  "op_WITH_CLEANUP_START inst =
     append_inst inst []"

definition op_WITH_CLEANUP_FINISH :: "inst \<Rightarrow> unit trace" where
  "op_WITH_CLEANUP_FINISH inst =
     append_inst inst []"

definition op_PUSH_NULL :: "inst \<Rightarrow> unit trace" where
  "op_PUSH_NULL inst =
     bindT make_null (\<lambda>r.
     seqT (push r) (
     append_inst inst []))"

definition op_RETURN_GENERATOR :: "inst \<Rightarrow> unit trace" where
  "op_RETURN_GENERATOR inst =
     bindT (make_temp []) (\<lambda>r.
     seqT (push r) (
     append_inst inst []))"

definition op_FORMAT_SIMPLE :: "inst \<Rightarrow> unit trace" where
  "op_FORMAT_SIMPLE inst =
     bindT pop (\<lambda>value.
     bindT (make_temp []) (\<lambda>strvar.
     bindT (make_temp []) (\<lambda>res.
     seqT (append_inst inst [(''value'', VStr value), (''res'', VStr res), (''strvar'', VStr strvar)]) (
     push res))))"

definition op_FORMAT_VALUE :: "inst \<Rightarrow> unit trace" where
  "op_FORMAT_VALUE inst =
     (if i_arg inst \<noteq> Some 0 then raiseT UnsupportedError
      else bindT pop (\<lambda>value.
           bindT (make_temp []) (\<lambda>strvar.
           bindT (make_temp []) (\<lambda>res.
           seqT (append_inst inst [(''value'', VStr value), (''res'', VStr res), (''strvar'', VStr strvar)]) (
           push res)))))"

definition op_BUILD_STRING :: "inst \<Rightarrow> unit trace" where
  "op_BUILD_STRING inst =
     bindT (arg_of inst) (\<lambda>count.
     bindT (pop_list count) (\<lambda>strings.
     bindT (make_temps (if count = 0 then 1 else count - 1)) (\<lambda>tmps.
     seqT (append_inst inst [(''strings'', VRegs strings), (''tmps'', VRegs tmps)]) (
     bindT (last_reg tmps) (\<lambda>res.
     push res)))))"

definition op_POP_TOP :: "inst \<Rightarrow> unit trace" where
  "op_POP_TOP inst =
     bindT pop (\<lambda>dropped.
     retT ())"

definition op_POP_ITER :: "inst \<Rightarrow> unit trace" where
  "op_POP_ITER inst =
     bindT pop (\<lambda>iterator.
     bindT pop (\<lambda>iterable.
     retT ()))"

definition op_TO_BOOL :: "inst \<Rightarrow> unit trace" where
  "op_TO_BOOL inst =
     bindT (make_temp []) (\<lambda>res.
     bindT pop (\<lambda>tos.
     seqT (append_inst inst [(''val'', VStr tos), (''res'', VStr res)]) (
     push res)))"

definition op_LOAD_GLOBAL_313 :: "inst \<Rightarrow> unit trace" where
  "op_LOAD_GLOBAL_313 inst =
     bindT (make_temp []) (\<lambda>res.
     bindT (arg_of inst) (\<lambda>a.
     seqT (append_inst inst [(''idx'', VInt (a div 2)), (''res'', VStr res)]) (
     seqT (push res) (
     if odd a then bindT make_null push else retT ()))))"

definition op_LOAD_GLOBAL_311 :: "inst \<Rightarrow> unit trace" where
  "op_LOAD_GLOBAL_311 inst =
     bindT (make_temp []) (\<lambda>res.
     bindT (arg_of inst) (\<lambda>a.
     seqT (append_inst inst [(''idx'', VInt (a div 2)), (''res'', VStr res)]) (
     seqT (if odd a then bindT make_null push else retT ()) (
     push res))))"

definition op_LOAD_GLOBAL_310 :: "inst \<Rightarrow> unit trace" where
  "op_LOAD_GLOBAL_310 inst =
     bindT (make_temp []) (\<lambda>res.
     seqT (append_inst inst [(''res'', VStr res)]) (
     push res))"

definition op_LOAD_DEREF :: "inst \<Rightarrow> unit trace" where
  "op_LOAD_DEREF inst =
     bindT (make_temp []) (\<lambda>res.
     seqT (append_inst inst [(''res'', VStr res)]) (
     push res))"

definition op_LOAD_CONST :: "inst \<Rightarrow> unit trace" where
  "op_LOAD_CONST inst =
     bindT (make_temp ''const'') (\<lambda>r.
     bindT (retT (r @ ''.'' @ show_arg (i_arg inst))) (\<lambda>res.
     seqT (push res) (
     append_inst inst [(''res'', VStr res)])))"

definition op_LOAD_SMALL_INT :: "inst \<Rightarrow> unit trace" where
  "op_LOAD_SMALL_INT inst =
     bindT (arg_of inst) (\<lambda>a.
     seqT (assertT (0 \<le> a \<and> a < 256)) (
     bindT (make_temp ''const'') (\<lambda>r.
     bindT (retT (r @ ''.'' @ show_int a)) (\<lambda>res.
     seqT (push res) (
     append_inst inst [(''res'', VStr res)])))))"

definition op_LOAD_ATTR :: "inst \<Rightarrow> unit trace" where
  "op_LOAD_ATTR inst =
     bindT pop (\<lambda>item.
     bindT (make_temp []) (\<lambda>res.
     bindT version (\<lambda>py.
     seqT (if 13 \<le> py then seqT (push res) (bindT (arg_of inst) (\<lambda>a.
         if odd a then bindT make_null push else retT ()))
       else if py = 12 then bindT (arg_of inst) (\<lambda>a.
         seqT (if odd a then bindT make_null push else retT ()) (push res))
       else push res) (
     append_inst inst [(''item'', VStr item), (''res'', VStr res)]))))"

definition load_as_deref :: "code \<Rightarrow> int \<Rightarrow> inst \<Rightarrow> unit trace" where
  "load_as_deref bc a inst =
     seqT (assertT (0 \<le> a - int (length (c_varnames bc))
        \<and> a - int (length (c_varnames bc)) < int (c_cellvars bc + c_freevars bc))) (
     bindT (make_temp []) (\<lambda>res.
     seqT (append_inst inst [(''res'', VStr res), (''as_load_deref'', VBool True)]) (
     push res)))"

definition load_named :: "string \<Rightarrow> inst \<Rightarrow> unit trace" where
  "load_named name inst =
     bindT (make_temp name) (\<lambda>res.
     seqT (append_inst inst [(''res'', VStr res)]) (
     push res))"

definition op_LOAD_FAST :: "inst \<Rightarrow> unit trace" where
  "op_LOAD_FAST inst =
     bindT version (\<lambda>py.
     seqT (if py < 10 then raiseT NotImplementedError else retT ()) (
     bindT (arg_of inst) (\<lambda>a.
     bindT (getT bytecode) (\<lambda>bc.
     case py_index (c_varnames bc) a of
         Inr name \<Rightarrow> load_named name inst
       | Inl e \<Rightarrow> if 13 \<le> py then load_as_deref bc a inst else raiseT e))))"

definition op_LOAD_FAST_LOAD_FAST :: "inst \<Rightarrow> unit trace" where
  "op_LOAD_FAST_LOAD_FAST inst =
     bindT (arg_of inst) (\<lambda>a.
     bindT (get_varname_by_arg (drop_bit 4 a)) (\<lambda>name1.
     bindT (get_varname_by_arg (a AND 15)) (\<lambda>name2.
     bindT (make_temp name1) (\<lambda>res1.
     bindT (make_temp name2) (\<lambda>res2.
     seqT (append_inst inst [(''res1'', VStr res1), (''res2'', VStr res2)]) (
     seqT (push res1) (
     push res2)))))))"

definition op_STORE_FAST_LOAD_FAST :: "inst \<Rightarrow> unit trace" where
  "op_STORE_FAST_LOAD_FAST inst =
     bindT (arg_of inst) (\<lambda>a.
     bindT pop (\<lambda>store_value.
     bindT (get_varname_by_arg (a AND 15)) (\<lambda>load_name.
     bindT (make_temp load_name) (\<lambda>load_res.
     seqT (append_inst inst [(''store_value'', VStr store_value), (''load_res'', VStr load_res)]) (
     push load_res)))))"

definition op_STORE_FAST_STORE_FAST :: "inst \<Rightarrow> unit trace" where
  "op_STORE_FAST_STORE_FAST inst =
     bindT pop (\<lambda>value1.
     bindT pop (\<lambda>value2.
     append_inst inst [(''value1'', VStr value1), (''value2'', VStr value2)]))"

definition op_DELETE_ATTR :: "inst \<Rightarrow> unit trace" where
  "op_DELETE_ATTR inst =
     bindT pop (\<lambda>target.
     append_inst inst [(''target'', VStr target)])"

definition op_STORE_ATTR :: "inst \<Rightarrow> unit trace" where
  "op_STORE_ATTR inst =
     bindT pop (\<lambda>target.
     bindT pop (\<lambda>value.
     append_inst inst [(''target'', VStr target), (''value'', VStr value)]))"

definition op_STORE_DEREF :: "inst \<Rightarrow> unit trace" where
  "op_STORE_DEREF inst =
     bindT pop (\<lambda>value.
     append_inst inst [(''value'', VStr value)])"

definition op_STORE_FAST :: "inst \<Rightarrow> unit trace" where
  "op_STORE_FAST inst =
     bindT pop (\<lambda>value.
     append_inst inst [(''value'', VStr value)])"

section \<open>Slices and subscripts\<close>

definition op_SLICE_1 :: "inst \<Rightarrow> unit trace" where
  "op_SLICE_1 inst =
     bindT pop (\<lambda>tos.
     bindT pop (\<lambda>tos1.
     bindT (make_temp []) (\<lambda>res.
     bindT (make_temp []) (\<lambda>slicevar.
     bindT (make_temp []) (\<lambda>indexvar.
     bindT (make_temp []) (\<lambda>nonevar.
     seqT (append_inst inst [(''base'', VStr tos1), (''start'', VStr tos), (''res'', VStr res),
        (''slicevar'', VStr slicevar), (''indexvar'', VStr indexvar),
        (''nonevar'', VStr nonevar)]) (
     push res)))))))"

definition op_SLICE_2 :: "inst \<Rightarrow> unit trace" where
  "op_SLICE_2 inst =
     bindT pop (\<lambda>tos.
     bindT pop (\<lambda>tos1.
     bindT (make_temp []) (\<lambda>res.
     bindT (make_temp []) (\<lambda>slicevar.
     bindT (make_temp []) (\<lambda>indexvar.
     bindT (make_temp []) (\<lambda>nonevar.
     seqT (append_inst inst [(''base'', VStr tos1), (''stop'', VStr tos), (''res'', VStr res),
        (''slicevar'', VStr slicevar), (''indexvar'', VStr indexvar),
        (''nonevar'', VStr nonevar)]) (
     push res)))))))"

definition op_SLICE_3 :: "inst \<Rightarrow> unit trace" where
  "op_SLICE_3 inst =
     bindT pop (\<lambda>tos.
     bindT pop (\<lambda>tos1.
     bindT pop (\<lambda>tos2.
     bindT (make_temp []) (\<lambda>res.
     bindT (make_temp []) (\<lambda>slicevar.
     bindT (make_temp []) (\<lambda>indexvar.
     seqT (append_inst inst [(''base'', VStr tos2), (''start'', VStr tos1), (''stop'', VStr tos),
        (''res'', VStr res), (''slicevar'', VStr slicevar),
        (''indexvar'', VStr indexvar)]) (
     push res)))))))"

definition op_STORE_SLICE_0 :: "inst \<Rightarrow> unit trace" where
  "op_STORE_SLICE_0 inst =
     bindT pop (\<lambda>tos.
     bindT pop (\<lambda>value.
     bindT (make_temp []) (\<lambda>slicevar.
     bindT (make_temp []) (\<lambda>indexvar.
     bindT (make_temp []) (\<lambda>nonevar.
     append_inst inst [(''base'', VStr tos), (''value'', VStr value),
        (''slicevar'', VStr slicevar), (''indexvar'', VStr indexvar),
        (''nonevar'', VStr nonevar)])))))"

definition op_STORE_SLICE_1 :: "inst \<Rightarrow> unit trace" where
  "op_STORE_SLICE_1 inst =
     bindT pop (\<lambda>tos.
     bindT pop (\<lambda>tos1.
     bindT pop (\<lambda>value.
     bindT (make_temp []) (\<lambda>slicevar.
     bindT (make_temp []) (\<lambda>indexvar.
     bindT (make_temp []) (\<lambda>nonevar.
     append_inst inst [(''base'', VStr tos1), (''start'', VStr tos),
        (''slicevar'', VStr slicevar), (''value'', VStr value),
        (''indexvar'', VStr indexvar), (''nonevar'', VStr nonevar)]))))))"

definition op_STORE_SLICE_2 :: "inst \<Rightarrow> unit trace" where
  "op_STORE_SLICE_2 inst =
     bindT pop (\<lambda>tos.
     bindT pop (\<lambda>tos1.
     bindT pop (\<lambda>value.
     bindT (make_temp []) (\<lambda>slicevar.
     bindT (make_temp []) (\<lambda>indexvar.
     bindT (make_temp []) (\<lambda>nonevar.
     append_inst inst [(''base'', VStr tos1), (''stop'', VStr tos), (''value'', VStr value),
        (''slicevar'', VStr slicevar), (''indexvar'', VStr indexvar),
        (''nonevar'', VStr nonevar)]))))))"

definition op_STORE_SLICE_3 :: "inst \<Rightarrow> unit trace" where
  "op_STORE_SLICE_3 inst =
     bindT pop (\<lambda>tos.
     bindT pop (\<lambda>tos1.
     bindT pop (\<lambda>tos2.
     bindT pop (\<lambda>value.
     bindT (make_temp []) (\<lambda>slicevar.
     bindT (make_temp []) (\<lambda>indexvar.
     append_inst inst [(''base'', VStr tos2), (''start'', VStr tos1), (''stop'', VStr tos),
        (''value'', VStr value), (''slicevar'', VStr slicevar),
        (''indexvar'', VStr indexvar)]))))))"

definition op_DELETE_SLICE_0 :: "inst \<Rightarrow> unit trace" where
  "op_DELETE_SLICE_0 inst =
     bindT pop (\<lambda>tos.
     bindT (make_temp []) (\<lambda>slicevar.
     bindT (make_temp []) (\<lambda>indexvar.
     bindT (make_temp []) (\<lambda>nonevar.
     append_inst inst [(''base'', VStr tos), (''slicevar'', VStr slicevar),
        (''indexvar'', VStr indexvar), (''nonevar'', VStr nonevar)]))))"

definition op_DELETE_SLICE_1 :: "inst \<Rightarrow> unit trace" where
  "op_DELETE_SLICE_1 inst =
     bindT pop (\<lambda>tos.
     bindT pop (\<lambda>tos1.
     bindT (make_temp []) (\<lambda>slicevar.
     bindT (make_temp []) (\<lambda>indexvar.
     bindT (make_temp []) (\<lambda>nonevar.
     append_inst inst [(''base'', VStr tos1), (''start'', VStr tos),
        (''slicevar'', VStr slicevar), (''indexvar'', VStr indexvar),
        (''nonevar'', VStr nonevar)])))))"

definition op_DELETE_SLICE_2 :: "inst \<Rightarrow> unit trace" where
  "op_DELETE_SLICE_2 inst =
     bindT pop (\<lambda>tos.
     bindT pop (\<lambda>tos1.
     bindT (make_temp []) (\<lambda>slicevar.
     bindT (make_temp []) (\<lambda>indexvar.
     bindT (make_temp []) (\<lambda>nonevar.
     append_inst inst [(''base'', VStr tos1), (''stop'', VStr tos),
        (''slicevar'', VStr slicevar), (''indexvar'', VStr indexvar),
        (''nonevar'', VStr nonevar)])))))"

definition op_DELETE_SLICE_3 :: "inst \<Rightarrow> unit trace" where
  "op_DELETE_SLICE_3 inst =
     bindT pop (\<lambda>tos.
     bindT pop (\<lambda>tos1.
     bindT pop (\<lambda>tos2.
     bindT (make_temp []) (\<lambda>slicevar.
     bindT (make_temp []) (\<lambda>indexvar.
     append_inst inst [(''base'', VStr tos2), (''start'', VStr tos1), (''stop'', VStr tos),
        (''slicevar'', VStr slicevar), (''indexvar'', VStr indexvar)])))))"

definition build_slice :: "inst \<Rightarrow> string \<Rightarrow> string \<Rightarrow> string option \<Rightarrow> unit trace" where
  "build_slice inst start stop step =
     bindT (make_temp []) (\<lambda>slicevar.
     bindT (make_temp []) (\<lambda>res.
     seqT (append_inst inst [(''start'', VStr start), (''stop'', VStr stop), (''step'', vopt step),
        (''res'', VStr res), (''slicevar'', VStr slicevar)]) (
     push res)))"

definition op_BUILD_SLICE :: "inst \<Rightarrow> unit trace" where
  "op_BUILD_SLICE inst =
     bindT (arg_of inst) (\<lambda>a.
     if a = 2 then bindT pop (\<lambda>tos. bindT pop (\<lambda>tos1. build_slice inst tos1 tos None))
     else if a = 3 then
       bindT pop (\<lambda>tos. bindT pop (\<lambda>tos1. bindT pop (\<lambda>tos2. build_slice inst tos2 tos1 (Some tos))))
     else raiseT PyException)"

definition op_BINARY_SLICE :: "inst \<Rightarrow> unit trace" where
  "op_BINARY_SLICE inst =
     bindT pop (\<lambda>stop.
     bindT pop (\<lambda>start.
     bindT pop (\<lambda>container.
     bindT (make_temp []) (\<lambda>temp_res.
     bindT (make_temp []) (\<lambda>res.
     bindT (make_temp []) (\<lambda>slicevar.
     seqT (append_inst inst [(''start'', VStr start), (''end'', VStr stop),
        (''container'', VStr container), (''res'', VStr res),
        (''slicevar'', VStr slicevar), (''temp_res'', VStr temp_res)]) (
     push res)))))))"

definition op_STORE_SLICE :: "inst \<Rightarrow> unit trace" where
  "op_STORE_SLICE inst =
     bindT pop (\<lambda>stop.
     bindT pop (\<lambda>start.
     bindT pop (\<lambda>container.
     bindT pop (\<lambda>value.
     bindT (make_temp []) (\<lambda>slicevar.
     bindT (make_temp []) (\<lambda>res.
     append_inst inst [(''start'', VStr start), (''end'', VStr stop),
        (''container'', VStr container), (''value'', VStr value),
        (''res'', VStr res), (''slicevar'', VStr slicevar)]))))))"

definition op_BINARY_SUBSCR :: "inst \<Rightarrow> unit trace" where
  "op_BINARY_SUBSCR inst =
     bindT pop (\<lambda>index.
     bindT pop (\<lambda>target.
     bindT (make_temp []) (\<lambda>res.
     seqT (append_inst inst [(''index'', VStr index), (''target'', VStr target), (''res'', VStr res)]) (
     push res))))"

definition op_STORE_SUBSCR :: "inst \<Rightarrow> unit trace" where
  "op_STORE_SUBSCR inst =
     bindT pop (\<lambda>index.
     bindT pop (\<lambda>target.
     bindT pop (\<lambda>value.
     append_inst inst [(''target'', VStr target), (''index'', VStr index),
        (''value'', VStr value)])))"

definition op_DELETE_SUBSCR :: "inst \<Rightarrow> unit trace" where
  "op_DELETE_SUBSCR inst =
     bindT pop (\<lambda>index.
     bindT pop (\<lambda>target.
     append_inst inst [(''target'', VStr target), (''index'', VStr index)]))"

section \<open>Jumps, returns and exceptions\<close>

definition op_POP_JUMP_IF :: "inst \<Rightarrow> unit trace" where
  "op_POP_JUMP_IF inst =
     bindT pop (\<lambda>pred.
     seqT (append_inst inst [(''pred'', VStr pred)]) (
     bindT (jump_target inst) (\<lambda>target.
     seqT (fork_to (i_next inst)) (
     if target \<noteq> i_next inst then fork_to target else retT ()))))"

definition op_JUMP_IF_OR_POP :: "inst \<Rightarrow> unit trace" where
  "op_JUMP_IF_OR_POP inst =
     bindT get_tos (\<lambda>pred.
     seqT (append_inst inst [(''pred'', VStr pred)]) (
     seqT (fork (i_next inst) 1 0 None) (
     bindT (jump_target inst) (\<lambda>target.
     fork_to target))))"

definition op_JUMP_FORWARD :: "inst \<Rightarrow> unit trace" where
  "op_JUMP_FORWARD inst =
     seqT (append_inst inst []) (
     bindT (jump_target inst) (\<lambda>target.
     fork_to target))"

definition op_JUMP_BACKWARD :: "inst \<Rightarrow> unit trace" where
  "op_JUMP_BACKWARD inst =
     seqT (append_inst inst []) (
     bindT (jump_target inst) (\<lambda>target.
     fork_to target))"

definition op_JUMP_ABSOLUTE :: "inst \<Rightarrow> unit trace" where
  "op_JUMP_ABSOLUTE inst =
     seqT (append_inst inst []) (
     bindT (jump_target inst) (\<lambda>target.
     fork_to target))"

definition op_BREAK_LOOP :: "inst \<Rightarrow> unit trace" where
  "op_BREAK_LOOP inst =
     bindT (getT (get_top_block LOOP)) (\<lambda>blk.
     case blk of
         None \<Rightarrow> raiseT TypeError
       | Some b \<Rightarrow> (case b_end b of
           None \<Rightarrow> raiseT TypeError
         | Some e \<Rightarrow>
             seqT (append_inst inst [(''end'', VInt e)]) (bindT pop_block (\<lambda>_. fork_to e))))"

definition op_RETURN_VALUE :: "inst \<Rightarrow> unit trace" where
  "op_RETURN_VALUE inst =
     bindT pop (\<lambda>retval.
     bindT (make_temp []) (\<lambda>castval.
     seqT (append_inst inst [(''retval'', VStr retval), (''castval'', VStr castval)]) (
     terminate)))"

definition op_RETURN_CONST :: "inst \<Rightarrow> unit trace" where
  "op_RETURN_CONST inst =
     bindT (make_temp ''const'') (\<lambda>res.
     bindT (make_temp []) (\<lambda>castval.
     seqT (append_inst inst [(''retval'', VStr res), (''castval'', VStr castval)]) (
     terminate)))"

definition op_YIELD_VALUE :: "inst \<Rightarrow> unit trace" where
  "op_YIELD_VALUE inst =
     bindT pop (\<lambda>val.
     bindT (make_temp []) (\<lambda>res.
     seqT (append_inst inst [(''value'', VStr val), (''res'', VStr res)]) (
     push res)))"

definition raise_operand :: "inst \<Rightarrow> bool \<Rightarrow> string option trace" where
  "raise_operand inst reraise_error =
     (if i_arg inst = Some 0 then if reraise_error then raiseT UnsupportedError else retT None
      else if i_arg inst = Some 1 then pop_when True
      else raiseT ValueError)"

definition adjust_except_stack :: "unit trace" where
  "adjust_except_stack =
     bindT (getT (get_top_block TRY)) (\<lambda>blk. case blk of
         None \<Rightarrow> raiseT ValueError
       | Some tryblk \<Rightarrow>
           seqT (pop_block_and_above tryblk) (
           bindT (getT (\<lambda>s. length (stack s))) (\<lambda>nstack.
             case (b_stack_depth tryblk, b_push_lasti tryblk, b_end tryblk) of
               (None, _, _) \<Rightarrow> raiseT TypeError
             | (Some depth, None, _) \<Rightarrow> raiseT KeyError
             | (Some depth, Some lasti, None) \<Rightarrow> raiseT TypeError
             | (Some depth, Some lasti, Some e) \<Rightarrow>
                 fork e (nstack - depth) (if lasti then 2 else 1) None)))"

definition raise_or_adjust :: "unit trace" where
  "raise_or_adjust =
     bindT (getT has_active_try) (\<lambda>active. if active then adjust_except_stack else terminate)"

definition op_RAISE_VARARGS_311 :: "inst \<Rightarrow> unit trace" where
  "op_RAISE_VARARGS_311 inst =
     bindT (getT has_active_try) (\<lambda>active.
     bindT (raise_operand inst active) (\<lambda>exc.
     seqT (append_inst inst [(''exc'', vopt exc)]) (
     raise_or_adjust)))"

definition op_RAISE_VARARGS_310 :: "inst \<Rightarrow> unit trace" where
  "op_RAISE_VARARGS_310 inst =
     bindT (getT (\<lambda>s. get_top_block EXCEPT s \<noteq> None \<or> get_top_block FINALLY s \<noteq> None)) (\<lambda>in_exc_block.
     bindT (raise_operand inst in_exc_block) (\<lambda>exc.
     seqT (append_inst inst [(''exc'', vopt exc)]) (
     terminate)))"

definition op_BEGIN_FINALLY :: "inst \<Rightarrow> unit trace" where
  "op_BEGIN_FINALLY inst =
     bindT (repeatT 6 push_new_temp) (\<lambda>temps.
     append_inst inst [(''temps'', VRegs temps)])"

definition op_END_FINALLY :: "inst \<Rightarrow> unit trace" where
  "op_END_FINALLY inst =
     bindT pop_block (\<lambda>blk.
     bindT (reset_stack (Some (b_entry_stack blk))) (\<lambda>popped.
     retT ()))"

definition op_END_FOR_313 :: "inst \<Rightarrow> unit trace" where
  "op_END_FOR_313 inst =
     bindT pop (\<lambda>dropped.
     retT ())"

definition op_END_FOR_312 :: "inst \<Rightarrow> unit trace" where
  "op_END_FOR_312 inst =
     bindT pop (\<lambda>dropped.
     bindT pop (\<lambda>dropped2.
     retT ()))"

definition op_POP_FINALLY :: "inst \<Rightarrow> unit trace" where
  "op_POP_FINALLY inst =
     (if i_arg inst \<noteq> Some 0 then raiseT UnsupportedError else retT ())"

definition op_CALL_FINALLY :: "inst \<Rightarrow> unit trace" where
  "op_CALL_FINALLY inst =
     retT ()"

definition op_WITH_EXCEPT_START :: "inst \<Rightarrow> unit trace" where
  "op_WITH_EXCEPT_START inst =
     terminate"

definition op_SETUP_LOOP :: "inst \<Rightarrow> unit trace" where
  "op_SETUP_LOOP inst =
     bindT (jump_target inst) (\<lambda>target.
     bindT (make_block LOOP (Some target) True None) (\<lambda>blk.
     push_block blk))"

text \<open>The last end of the exception entries that share the handler of an offset.\<close>

definition with_block_end :: "code \<Rightarrow> int \<Rightarrow> int res" where
  "with_block_end bc pos =
     (if c_py bc < 11 then Inl AttributeError
      else case find_exception_entry (c_entries bc) pos of
        None \<Rightarrow> Inl AttributeError
      | Some ehhead \<Rightarrow>
          Inr (fold max (map eh_end (filter (\<lambda>e. eh_target e = eh_target ehhead) (c_entries bc)))
                 (eh_end ehhead)))"

definition op_BEFORE_WITH :: "inst \<Rightarrow> unit trace" where
  "op_BEFORE_WITH inst =
     bindT pop (\<lambda>cm.
     bindT (make_temp []) (\<lambda>yielded.
     bindT (make_temp ''setup_with_exitfn'') (\<lambda>exitfn.
     seqT (push exitfn) (
     seqT (push yielded) (
     bindT (getT bytecode) (\<lambda>bc.
     bindT (liftT (with_block_end bc (i_next inst))) (\<lambda>stop.
     seqT (append_inst inst [(''contextmanager'', VStr cm), (''exitfn'', VStr exitfn),
        (''end'', VInt stop)]) (
     bindT (make_block WITH (Some stop) True None) (\<lambda>blk.
     seqT (push_block blk) (
     fork_to (i_next inst)))))))))))"

definition op_SETUP_WITH :: "inst \<Rightarrow> unit trace" where
  "op_SETUP_WITH inst =
     bindT pop (\<lambda>cm.
     bindT (make_temp []) (\<lambda>yielded.
     bindT (make_temp ''setup_with_exitfn'') (\<lambda>exitfn.
     seqT (append_inst inst [(''contextmanager'', VStr cm), (''exitfn'', VStr exitfn)]) (
     seqT (push exitfn) (
     seqT (push yielded) (
     bindT (jump_target inst) (\<lambda>target.
     bindT (make_block WITH (Some target) True None) (\<lambda>blk.
     seqT (push_block blk) (
     fork_to (i_next inst))))))))))"

definition setup_try :: "block_kind \<Rightarrow> int \<Rightarrow> int \<Rightarrow> unit trace" where
  "setup_try kind nextpc e =
     bindT (make_block kind None False None) (\<lambda>handler_block.
     bindT (make_block TRY (Some e) False (Some handler_block)) (\<lambda>blk.
     fork nextpc 0 0 (Some blk)))"

definition op_PUSH_EXC_INFO :: "inst \<Rightarrow> unit trace" where
  "op_PUSH_EXC_INFO inst =
     bindT pop (\<lambda>tos.
     bindT (make_temp ''exception'') (\<lambda>r.
     seqT (push r) (
     push tos)))"

definition op_SETUP_FINALLY :: "inst \<Rightarrow> unit trace" where
  "op_SETUP_FINALLY inst =
     seqT (append_inst inst []) (
     bindT (jump_target inst) (\<lambda>target.
     setup_try FINALLY (i_next inst) target))"

definition op_POP_EXCEPT_311 :: "inst \<Rightarrow> unit trace" where
  "op_POP_EXCEPT_311 inst =
     bindT pop (\<lambda>dropped.
     retT ())"

definition op_POP_EXCEPT_310 :: "inst \<Rightarrow> unit trace" where
  "op_POP_EXCEPT_310 inst =
     bindT pop_block (\<lambda>blk.
     if b_kind blk \<notin> {EXCEPT, FINALLY} then raiseT UnsupportedError
     else bindT pop (\<lambda>_. bindT pop (\<lambda>_. bindT pop (\<lambda>_. fork_to (i_next inst)))))"

definition op_POP_BLOCK :: "inst \<Rightarrow> unit trace" where
  "op_POP_BLOCK inst =
     bindT pop_block (\<lambda>blk.
     seqT (if b_kind blk = TRY then append_inst inst [(''kind'', VStr ''try'')]
       else if b_kind blk = WITH then append_inst inst [(''kind'', VStr ''with'')]
       else retT ()) (
     fork_to (i_next inst)))"

section \<open>Calls and functions\<close>

definition op_CALL_313 :: "inst \<Rightarrow> unit trace" where
  "op_CALL_313 inst =
     bindT (arg_of inst) (\<lambda>narg.
     bindT (pop_list narg) (\<lambda>xs.
     bindT pop (\<lambda>null_or_self.
     bindT pop (\<lambda>func.
     bindT (retT (if is_null_temp_reg null_or_self then xs else null_or_self # xs)) (\<lambda>args.
     bindT (make_temp []) (\<lambda>res.
     seqT (append_inst inst [(''func'', VStr func), (''args'', VRegs args), (''kw_names'', VNone),
        (''res'', VStr res)]) (
     push res)))))))"

definition op_CALL_312 :: "inst \<Rightarrow> unit trace" where
  "op_CALL_312 inst =
     bindT (arg_of inst) (\<lambda>narg.
     bindT (pop_list narg) (\<lambda>xs.
     bindT pop (\<lambda>callable_or_firstarg.
     bindT pop (\<lambda>null_or_callable.
     bindT pop_kw_names (\<lambda>names.
     bindT (make_temp []) (\<lambda>res.
     seqT (append_inst inst [
        (''func'', VStr (if is_null_temp_reg null_or_callable then callable_or_firstarg else null_or_callable)),
        (''args'', VRegs (if is_null_temp_reg null_or_callable then xs else callable_or_firstarg # xs)),
        (''kw_names'', kw_value names), (''res'', VStr res)]) (
     push res)))))))"

definition op_KW_NAMES :: "inst \<Rightarrow> unit trace" where
  "op_KW_NAMES inst =
     set_kw_names (case i_arg inst of None \<Rightarrow> VNone | Some a \<Rightarrow> VInt a)"

definition op_CALL_FUNCTION :: "inst \<Rightarrow> unit trace" where
  "op_CALL_FUNCTION inst =
     bindT (arg_of inst) (\<lambda>narg.
     bindT (pop_list narg) (\<lambda>args.
     bindT pop (\<lambda>func.
     bindT (make_temp []) (\<lambda>res.
     seqT (append_inst inst [(''func'', VStr func), (''args'', VRegs args), (''res'', VStr res)]) (
     push res)))))"

definition op_CALL_FUNCTION_KW :: "inst \<Rightarrow> unit trace" where
  "op_CALL_FUNCTION_KW inst =
     bindT (arg_of inst) (\<lambda>narg.
     bindT pop (\<lambda>names.
     bindT (pop_list narg) (\<lambda>args.
     bindT pop (\<lambda>func.
     bindT (make_temp []) (\<lambda>res.
     seqT (append_inst inst [(''func'', VStr func), (''args'', VRegs args), (''names'', VStr names),
        (''res'', VStr res)]) (
     push res))))))"

definition op_CALL_KW :: "inst \<Rightarrow> unit trace" where
  "op_CALL_KW inst =
     bindT (arg_of inst) (\<lambda>narg.
     bindT pop (\<lambda>names.
     bindT (pop_list narg) (\<lambda>xs.
     bindT pop (\<lambda>null_or_firstarg.
     bindT pop (\<lambda>func.
     bindT (retT (if is_null_temp_reg null_or_firstarg then xs else null_or_firstarg # xs)) (\<lambda>args.
     bindT (make_temp []) (\<lambda>res.
     seqT (append_inst inst [(''func'', VStr func), (''args'', VRegs args),
        (''kw_names'', VStr names), (''res'', VStr res)]) (
     push res))))))))"

definition op_CALL_FUNCTION_EX_314 :: "inst \<Rightarrow> unit trace" where
  "op_CALL_FUNCTION_EX_314 inst =
     bindT pop (\<lambda>kwreg.
     bindT (retT (if is_null_temp_reg kwreg then None else Some kwreg)) (\<lambda>varkwarg.
     bindT pop (\<lambda>vararg.
     bindT pop (\<lambda>unused.
     bindT pop (\<lambda>func.
     bindT (make_temp []) (\<lambda>res.
     seqT (append_inst inst [(''func'', VStr func), (''vararg'', VStr vararg),
        (''varkwarg'', vopt varkwarg), (''res'', VStr res)]) (
     push res)))))))"

definition op_CALL_FUNCTION_EX_313 :: "inst \<Rightarrow> unit trace" where
  "op_CALL_FUNCTION_EX_313 inst =
     bindT (arg_of inst) (\<lambda>a.
     bindT (pop_when (odd a)) (\<lambda>varkwarg.
     bindT pop (\<lambda>vararg.
     bindT pop (\<lambda>unused.
     bindT pop (\<lambda>func.
     bindT (make_temp []) (\<lambda>res.
     seqT (append_inst inst [(''func'', VStr func), (''vararg'', VStr vararg),
        (''varkwarg'', vopt varkwarg), (''res'', VStr res)]) (
     push res)))))))"

definition op_CALL_FUNCTION_EX_312 :: "inst \<Rightarrow> unit trace" where
  "op_CALL_FUNCTION_EX_312 inst =
     bindT (arg_of inst) (\<lambda>a.
     bindT (pop_when (odd a)) (\<lambda>varkwarg.
     bindT pop (\<lambda>vararg.
     bindT pop (\<lambda>func.
     bindT version (\<lambda>py.
     seqT (if py \<in> {11, 12} then bindT (peek 1) (\<lambda>r.
         if is_null_temp_reg r then bindT pop (\<lambda>_. retT ()) else retT ())
       else retT ()) (
     bindT (make_temp []) (\<lambda>res.
     seqT (append_inst inst [(''func'', VStr func), (''vararg'', VStr vararg),
        (''varkwarg'', vopt varkwarg), (''res'', VStr res)]) (
     push res))))))))"

definition dup_topx :: "inst \<Rightarrow> int \<Rightarrow> unit trace" where
  "dup_topx inst count =
     bindT (pop_list count) (\<lambda>orig.
     bindT (make_temps count) (\<lambda>duped.
     seqT (append_inst inst [(''orig'', VRegs orig), (''duped'', VRegs duped)]) (
     seqT (forT orig push) (forT duped push))))"

definition op_CALL_INTRINSIC_1 :: "inst \<Rightarrow> unit trace" where
  "op_CALL_INTRINSIC_1 inst =
     (if i_arg inst = Some 3 then
        seqT (append_inst inst [(''operand'', VInt 3)]) terminate
      else if i_arg inst = Some 5 then
        bindT pop (\<lambda>val.
        bindT (make_temp []) (\<lambda>res.
        seqT (append_inst inst [(''operand'', VInt 5), (''value'', VStr val), (''res'', VStr res)]) (
        push res)))
      else if i_arg inst = Some 6 then
        bindT pop (\<lambda>tos.
        bindT (make_temp []) (\<lambda>res.
        seqT (append_inst inst [(''operand'', VInt 6), (''const_list'', VStr tos), (''res'', VStr res)]) (
        push res)))
      else raiseT ValueError)"

definition op_DUP_TOPX :: "inst \<Rightarrow> unit trace" where
  "op_DUP_TOPX inst =
     bindT (arg_of inst) (\<lambda>count.
     seqT (assertT (1 \<le> count \<and> count \<le> 5)) (
     dup_topx inst count))"

definition op_DUP_TOP :: "inst \<Rightarrow> unit trace" where
  "op_DUP_TOP inst =
     dup_topx inst 1"

definition op_DUP_TOP_TWO :: "inst \<Rightarrow> unit trace" where
  "op_DUP_TOP_TWO inst =
     dup_topx inst 2"

definition op_COPY :: "inst \<Rightarrow> unit trace" where
  "op_COPY inst =
     bindT (arg_of inst) (\<lambda>a.
     bindT (peek a) (\<lambda>r.
     push r))"

definition op_SWAP :: "inst \<Rightarrow> unit trace" where
  "op_SWAP inst =
     bindT (arg_of inst) (\<lambda>a.
     swap a)"

definition op_ROT_TWO :: "inst \<Rightarrow> unit trace" where
  "op_ROT_TWO inst =
     bindT pop (\<lambda>one.
     bindT pop (\<lambda>two.
     seqT (push one) (
     push two)))"

definition op_ROT_THREE :: "inst \<Rightarrow> unit trace" where
  "op_ROT_THREE inst =
     bindT pop (\<lambda>one.
     bindT pop (\<lambda>two.
     bindT pop (\<lambda>three.
     seqT (push one) (
     seqT (push three) (
     push two)))))"

definition op_ROT_FOUR :: "inst \<Rightarrow> unit trace" where
  "op_ROT_FOUR inst =
     bindT pop (\<lambda>one.
     bindT pop (\<lambda>two.
     bindT pop (\<lambda>three.
     bindT pop (\<lambda>four.
     seqT (push one) (
     seqT (push four) (
     seqT (push three) (
     push two)))))))"

section \<open>Containers and iteration\<close>

definition op_UNPACK_SEQUENCE :: "inst \<Rightarrow> unit trace" where
  "op_UNPACK_SEQUENCE inst =
     bindT (arg_of inst) (\<lambda>count.
     bindT pop (\<lambda>iterable.
     bindT (make_temps count) (\<lambda>stores.
     bindT (make_temp []) (\<lambda>tupleobj.
     seqT (append_inst inst [(''iterable'', VStr iterable), (''stores'', VRegs stores),
        (''tupleobj'', VStr tupleobj)]) (
     forT (rev stores) push)))))"

definition op_BUILD_TUPLE :: "inst \<Rightarrow> unit trace" where
  "op_BUILD_TUPLE inst =
     bindT (arg_of inst) (\<lambda>count.
     bindT (pop_list count) (\<lambda>items.
     bindT (make_temp []) (\<lambda>tup.
     seqT (append_inst inst [(''items'', VRegs items), (''res'', VStr tup)]) (
     push tup))))"

definition build_tuple_unpack :: "inst \<Rightarrow> unit trace" where
  "build_tuple_unpack inst =
     bindT (arg_of inst) (\<lambda>count.
     bindT (pop_list count) (\<lambda>tuples.
     bindT (make_temps (int (length tuples) - 1)) (\<lambda>temps0.
     bindT (if length tuples = 1 then make_temps 1 else retT temps0) (\<lambda>temps.
     seqT (append_inst inst [(''tuples'', VRegs tuples), (''temps'', VRegs temps),
        (''is_assign'', VBool (length tuples = 1))]) (
     bindT (last_reg temps) (\<lambda>res.
     push res))))))"

definition op_LIST_TO_TUPLE :: "inst \<Rightarrow> unit trace" where
  "op_LIST_TO_TUPLE inst =
     bindT pop (\<lambda>tos.
     bindT (make_temp []) (\<lambda>res.
     seqT (append_inst inst [(''const_list'', VStr tos), (''res'', VStr res)]) (
     push res)))"

definition op_BUILD_CONST_KEY_MAP :: "inst \<Rightarrow> unit trace" where
  "op_BUILD_CONST_KEY_MAP inst =
     bindT pop (\<lambda>ks.
     bindT (arg_of inst) (\<lambda>count.
     bindT (pop_list count) (\<lambda>vals.
     bindT (make_temps count) (\<lambda>keytmps.
     bindT (make_temp []) (\<lambda>res.
     seqT (append_inst inst [(''keys'', VStr ks), (''keytmps'', VRegs keytmps),
        (''values'', VRegs vals), (''res'', VStr res)]) (
     push res))))))"

definition op_BUILD_LIST :: "inst \<Rightarrow> unit trace" where
  "op_BUILD_LIST inst =
     bindT (arg_of inst) (\<lambda>count.
     bindT (pop_list count) (\<lambda>items.
     bindT (make_temp []) (\<lambda>lst.
     seqT (append_inst inst [(''items'', VRegs items), (''res'', VStr lst)]) (
     push lst))))"

definition op_LIST_APPEND :: "inst \<Rightarrow> unit trace" where
  "op_LIST_APPEND inst =
     bindT pop (\<lambda>value.
     bindT (arg_of inst) (\<lambda>index.
     bindT (peek index) (\<lambda>target.
     bindT (make_temp []) (\<lambda>appendvar.
     bindT (make_temp []) (\<lambda>res.
     append_inst inst [(''target'', VStr target), (''value'', VStr value),
        (''appendvar'', VStr appendvar), (''res'', VStr res)])))))"

definition op_LIST_EXTEND :: "inst \<Rightarrow> unit trace" where
  "op_LIST_EXTEND inst =
     bindT pop (\<lambda>value.
     bindT (arg_of inst) (\<lambda>index.
     bindT (peek index) (\<lambda>target.
     bindT (make_temp []) (\<lambda>extendvar.
     bindT (make_temp []) (\<lambda>res.
     append_inst inst [(''target'', VStr target), (''value'', VStr value),
        (''extendvar'', VStr extendvar), (''res'', VStr res)])))))"

definition op_BUILD_MAP :: "inst \<Rightarrow> unit trace" where
  "op_BUILD_MAP inst =
     bindT (make_temp []) (\<lambda>dct.
     bindT (arg_of inst) (\<lambda>count.
     bindT (repeatT (nat count) pop_pair) (\<lambda>items.
     seqT (append_inst inst [(''items'', VList (rev items)), (''size'', VInt count),
        (''res'', VStr dct)]) (
     push dct))))"

definition op_MAP_ADD :: "inst \<Rightarrow> unit trace" where
  "op_MAP_ADD inst =
     bindT pop (\<lambda>value.
     bindT pop (\<lambda>key.
     bindT (arg_of inst) (\<lambda>index.
     bindT (peek index) (\<lambda>target.
     bindT (make_temp []) (\<lambda>setitemvar.
     bindT (make_temp []) (\<lambda>res.
     append_inst inst [(''target'', VStr target), (''key'', VStr key), (''value'', VStr value),
        (''setitemvar'', VStr setitemvar), (''res'', VStr res)]))))))"

definition op_BUILD_SET :: "inst \<Rightarrow> unit trace" where
  "op_BUILD_SET inst =
     bindT (arg_of inst) (\<lambda>count.
     bindT (pop_list count) (\<lambda>items.
     bindT (make_temp []) (\<lambda>res.
     seqT (append_inst inst [(''items'', VRegs items), (''res'', VStr res)]) (
     push res))))"

definition op_SET_ADD :: "inst \<Rightarrow> unit trace" where
  "op_SET_ADD inst =
     bindT pop (\<lambda>value.
     bindT get_tos (\<lambda>target.
     bindT (make_temp []) (\<lambda>addvar.
     bindT (make_temp []) (\<lambda>res.
     append_inst inst [(''value'', VStr value), (''target'', VStr target),
        (''addvar'', VStr addvar), (''res'', VStr res)]))))"

definition op_SET_UPDATE :: "inst \<Rightarrow> unit trace" where
  "op_SET_UPDATE inst =
     bindT pop (\<lambda>value.
     bindT (arg_of inst) (\<lambda>index.
     bindT (peek index) (\<lambda>target.
     bindT (make_temp []) (\<lambda>updatevar.
     bindT (make_temp []) (\<lambda>res.
     append_inst inst [(''target'', VStr target), (''value'', VStr value),
        (''updatevar'', VStr updatevar), (''res'', VStr res)])))))"

definition op_DICT_UPDATE :: "inst \<Rightarrow> unit trace" where
  "op_DICT_UPDATE inst =
     bindT pop (\<lambda>value.
     bindT (arg_of inst) (\<lambda>index.
     bindT (peek index) (\<lambda>target.
     bindT (make_temp []) (\<lambda>updatevar.
     bindT (make_temp []) (\<lambda>res.
     append_inst inst [(''target'', VStr target), (''value'', VStr value),
        (''updatevar'', VStr updatevar), (''res'', VStr res)])))))"

definition op_GET_ITER :: "inst \<Rightarrow> unit trace" where
  "op_GET_ITER inst =
     bindT version (\<lambda>py.
     bindT (if py = 15 then get_tos else pop) (\<lambda>value.
     bindT (make_temp []) (\<lambda>res.
     seqT (append_inst inst [(''value'', VStr value), (''res'', VStr res)]) (
     push res))))"

definition op_FOR_ITER :: "inst \<Rightarrow> unit trace" where
  "op_FOR_ITER inst =
     bindT get_tos (\<lambda>iterator.
     bindT (make_temp []) (\<lambda>pair.
     bindT (make_temp []) (\<lambda>indval.
     bindT (make_temp []) (\<lambda>pred.
     seqT (append_inst inst [(''iterator'', VStr iterator), (''pair'', VStr pair),
        (''indval'', VStr indval), (''pred'', VStr pred)]) (
     seqT (push indval) (
     bindT (jump_target inst) (\<lambda>target.
     bindT version (\<lambda>py.
     seqT (if 12 \<le> py then fork_to target else fork target 2 0 None) (
     fork_to (i_next inst))))))))))"

definition op_GEN_START :: "inst \<Rightarrow> unit trace" where
  "op_GEN_START inst =
     retT ()"

section \<open>Operators\<close>

text \<open>The interpreter's table \<open>dis._nb_ops\<close>.\<close>

definition nb_ops :: "nat \<Rightarrow> string list" where
  "nb_ops py =
     [''+'', ''&'', ''//'', ''<<'', ''@'', ''*'', ''%'', ''|'', ''**'', ''>>'', ''-'', ''/'', ''^'',
      ''+='', ''&='', ''//='', ''<<='', ''@='', ''*='', ''%='', ''|='', ''**='', ''>>='', ''-='', ''/='', ''^='']
     @ (if 14 \<le> py then [''[]''] else [])"

definition binops_to_operators :: "(string, string) dict" where
  "binops_to_operators =
     [(''+'', ''add''), (''-'', ''sub''), (''*'', ''mul''), (''//'', ''floordiv''),
      (''/'', ''truediv''), (''%'', ''mod''), (''**'', ''pow''), (''&'', ''and_''),
      (''|'', ''or_''), (''^'', ''xor''), (''<<'', ''lshift''), (''>>'', ''rshift''),
      (''=='', ''eq''), (''!='', ''ne''), (''<'', ''lt''), (''<='', ''le''),
      (''>'', ''gt''), (''>='', ''ge''), (''is'', ''is_''), (''is not'', ''is_not''),
      (''in'', ''contains''), (''@'', ''matmul'')]"

definition inplace_binops_to_operators :: "(string, string) dict" where
  "inplace_binops_to_operators =
     [(''+='', ''iadd''), (''-='', ''isub''), (''*='', ''imul''),
      (''//='', ''ifloordiv''), (''/='', ''itruediv''), (''%='', ''imod''),
      (''**='', ''ipow''), (''&='', ''iand''), (''|='', ''ior''), (''^='', ''ixor''),
      (''<<='', ''ilshift''), (''>>='', ''irshift''), (''@='', ''imatmul'')]"

definition all_binops_to_operators :: "(string, string) dict" where
  "all_binops_to_operators = binops_to_operators @ inplace_binops_to_operators"

definition binop_prefix :: "string \<Rightarrow> string trace" where
  "binop_prefix operator =
     (if operator = ''[]'' then retT []
      else bindT (liftT (dget all_binops_to_operators operator)) (\<lambda>n. retT (''binop_'' @ n)))"

definition op_BINARY_OP :: "inst \<Rightarrow> unit trace" where
  "op_BINARY_OP inst =
     bindT version (\<lambda>py.
     bindT (arg_of inst) (\<lambda>a.
     bindT (liftT (py_index (nb_ops py) a)) (\<lambda>operator.
     bindT pop (\<lambda>rhs.
     bindT pop (\<lambda>lhs.
     seqT (if operator = ''[]'' then seqT (assertT (14 \<le> py)) (retT ()) else retT ()) (
     bindT (binop_prefix operator) (\<lambda>prefix.
     bindT (make_temp prefix) (\<lambda>res.
     seqT (append_inst inst [(''op'', VStr operator), (''lhs'', VStr lhs), (''rhs'', VStr rhs),
        (''res'', VStr res)]) (
     push res)))))))))"

definition unaryop :: "inst \<Rightarrow> unit trace" where
  "unaryop inst =
     bindT pop (\<lambda>val.
     bindT (make_temp []) (\<lambda>res.
     seqT (append_inst inst [(''value'', VStr val), (''res'', VStr res)]) (
     push res)))"

definition binaryop :: "inst \<Rightarrow> unit trace" where
  "binaryop inst =
     bindT pop (\<lambda>rhs.
     bindT pop (\<lambda>lhs.
     bindT (make_temp []) (\<lambda>res.
     seqT (append_inst inst [(''lhs'', VStr lhs), (''rhs'', VStr rhs), (''res'', VStr res)]) (
     push res))))"

section \<open>Functions, imports of constants and context managers\<close>

definition flag_pop :: "int \<Rightarrow> nat \<Rightarrow> string option trace" where
  "flag_pop a k = pop_when (bit a k)"

definition function_attrs ::
  "inst \<Rightarrow> nat \<Rightarrow> (string option \<times> string option \<times> string option \<times> string option) trace" where
  "function_attrs inst py =
     (if 13 \<le> py then seqT (assertT (i_arg inst = None)) (retT (None, None, None, None))
      else bindT (arg_of inst) (\<lambda>a.
        bindT (flag_pop a 3) (\<lambda>closure.
        bindT (flag_pop a 2) (\<lambda>annotations.
        bindT (flag_pop a 1) (\<lambda>kwdefaults.
        bindT (flag_pop a 0) (\<lambda>defaults. retT (closure, annotations, kwdefaults, defaults)))))))"

definition op_MAKE_FUNCTION :: "inst \<Rightarrow> unit trace" where
  "op_MAKE_FUNCTION inst =
     bindT version (\<lambda>py.
     bindT (pop_when (py < 11)) (\<lambda>name.
     bindT pop (\<lambda>code.
     bindT (function_attrs inst py) (\<lambda>attrs.
     bindT (make_temp []) (\<lambda>res.
     seqT (append_inst inst [(''name'', vopt name), (''code'', VStr code),
        (''closure'', vopt (fst attrs)),
        (''annotations'', vopt (fst (snd attrs))),
        (''kwdefaults'', vopt (fst (snd (snd attrs)))),
        (''defaults'', vopt (snd (snd (snd attrs)))), (''res'', VStr res)]) (
     push res))))))"

definition op_SET_FUNCTION_ATTRIBUTE :: "inst \<Rightarrow> unit trace" where
  "op_SET_FUNCTION_ATTRIBUTE inst =
     bindT version (\<lambda>py.
     seqT (assertT (13 \<le> py)) (
     bindT pop (\<lambda>make_func_stack.
     bindT pop (\<lambda>data.
     seqT (if i_arg inst = Some 1 then set_function_attribute make_func_stack ''defaults'' (VStr data)
       else bindT (arg_of inst) (\<lambda>a.
         if bit a 1 then set_function_attribute make_func_stack ''kwdefaults'' (VStr data)
         else if bit a 2 then set_function_attribute make_func_stack ''annotations'' (VStr data)
         else if a = 8 then set_function_attribute make_func_stack ''closure'' (VStr data)
         else raiseT AssertionError)) (
     push make_func_stack)))))"

definition op_LOAD_CLOSURE :: "inst \<Rightarrow> unit trace" where
  "op_LOAD_CLOSURE inst =
     bindT (make_temp []) (\<lambda>res.
     seqT (append_inst inst [(''res'', VStr res)]) (
     push res))"

definition op_LOAD_ASSERTION_ERROR :: "inst \<Rightarrow> unit trace" where
  "op_LOAD_ASSERTION_ERROR inst =
     bindT (make_temp ''assertion_error'') (\<lambda>res.
     seqT (append_inst inst [(''res'', VStr res)]) (
     push res))"

definition op_CHECK_EXC_MATCH :: "inst \<Rightarrow> unit trace" where
  "op_CHECK_EXC_MATCH inst =
     bindT (make_temp ''predicate'') (\<lambda>pred.
     bindT pop (\<lambda>tos.
     bindT get_tos (\<lambda>tos1.
     seqT (append_inst inst [(''pred'', VStr pred), (''tos'', VStr tos), (''tos1'', VStr tos1)]) (
     push pred))))"

definition op_JUMP_IF_NOT_EXC_MATCH :: "inst \<Rightarrow> unit trace" where
  "op_JUMP_IF_NOT_EXC_MATCH inst =
     bindT (make_temp ''predicate'') (\<lambda>pred.
     bindT pop (\<lambda>tos.
     bindT pop (\<lambda>tos1.
     seqT (append_inst inst [(''pred'', VStr pred), (''tos'', VStr tos), (''tos1'', VStr tos1)]) (
     seqT (fork_to (i_next inst)) (
     bindT (jump_target inst) (\<lambda>target.
     fork_to target))))))"

definition op_RERAISE_311 :: "inst \<Rightarrow> unit trace" where
  "op_RERAISE_311 inst =
     bindT pop (\<lambda>exc.
     seqT (if i_arg inst \<noteq> Some 0 then bindT pop (\<lambda>_. retT ()) else retT ()) (
     seqT (append_inst inst [(''exc'', VStr exc)]) (
     raise_or_adjust)))"

definition op_RERAISE_310 :: "inst \<Rightarrow> unit trace" where
  "op_RERAISE_310 inst =
     bindT pop (\<lambda>exc.
     seqT (append_inst inst [(''exc'', VStr exc)]) (
     terminate))"

definition op_LOAD_METHOD_311 :: "inst \<Rightarrow> unit trace" where
  "op_LOAD_METHOD_311 inst =
     bindT pop (\<lambda>item.
     bindT make_null (\<lambda>extra.
     seqT (push extra) (
     bindT (make_temp []) (\<lambda>res.
     seqT (append_inst inst [(''item'', VStr item), (''res'', VStr res)]) (
     push res)))))"

text \<open>The interpreter's tables \<open>dis._special_method_names\<close> and \<open>dis._common_constants\<close>.\<close>

definition special_method_names :: "string list" where
  "special_method_names = [''__enter__'', ''__exit__'', ''__aenter__'', ''__aexit__'']"

definition common_constants :: "nat \<Rightarrow> string list" where
  "common_constants py =
     [''AssertionError'', ''NotImplementedError'', ''tuple'', ''all'', ''any'']
     @ (if py = 15 then [''list'', ''set'', ''None'', [], ''True'', ''False'', ''-1''] else [])"

definition supported_constants :: "string list" where
  "supported_constants =
     [''AssertionError'', ''NotImplementedError'', ''tuple'', ''all'', ''any'', ''list'', ''set'', ''None'',
      [], ''True'', ''False'', ''-1'']"

fun consume_pattern :: "(string \<times> int) list \<Rightarrow> unit trace" where
  "consume_pattern [] = retT ()"
| "consume_pattern ((name, a) # rest) =
     seqT advance_pc (
     bindT get_inst (\<lambda>i.
       if i_opname i \<noteq> name \<or> i_arg i \<noteq> Some a then raiseT UnsupportedError
       else consume_pattern rest))"

definition op_LOAD_SPECIAL :: "inst \<Rightarrow> unit trace" where
  "op_LOAD_SPECIAL inst =
     bindT (arg_of inst) (\<lambda>a.
     bindT (liftT (py_index special_method_names a)) (\<lambda>special.
     seqT (if special \<notin> {''__enter__'', ''__exit__''} then raiseT NotImplementedError else retT ()) (
     bindT pop (\<lambda>tos.
     bindT pop (\<lambda>dropped.
     bindT (make_temp ''setup_with_exitfn'') (\<lambda>exit_method.
     seqT (consume_pattern [(''SWAP'', 2), (''SWAP'', 3), (''LOAD_SPECIAL'', 0), (''CALL'', 0)]) (
     seqT advance_pc (
     bindT get_inst (\<lambda>lastinst.
     seqT (if i_opname lastinst \<noteq> ''POP_TOP'' then raiseT UnsupportedError else retT ()) (
     seqT (assertT (i_arg lastinst = None)) (
     bindT (getT bytecode) (\<lambda>bc.
     bindT (liftT (with_block_end bc (i_offset lastinst))) (\<lambda>stop.
     seqT (push exit_method) (
     seqT (push tos) (
     seqT (append_inst inst [(''contextmanager'', VStr tos), (''exit_method'', VStr exit_method),
        (''block_end'', VInt stop)]) (
     bindT (make_block WITH (Some stop) True None) (\<lambda>blk.
     seqT (push_block blk) (
     fork_to (i_next lastinst)))))))))))))))))))"

definition op_LOAD_COMMON_CONSTANT :: "inst \<Rightarrow> unit trace" where
  "op_LOAD_COMMON_CONSTANT inst =
     bindT (arg_of inst) (\<lambda>a.
     bindT version (\<lambda>py.
     bindT (liftT (py_index (common_constants py) a)) (\<lambda>const.
     seqT (if const \<notin> set supported_constants then raiseT NotImplementedError else retT ()) (
     bindT (make_temp ''common_constant'') (\<lambda>res.
     seqT (append_inst inst [(''res'', VStr res), (''idx'', VInt a)]) (
     push res))))))"

section \<open>Dispatch\<close>

text \<open>Opcode, first and last minor version that have it, handler.\<close>

definition op_entries :: "(string \<times> nat \<times> nat \<times> (inst \<Rightarrow> unit trace)) list" where
  "op_entries =
     [(''NOP'', 9, 15, op_NOP), (''RESUME'', 9, 15, op_RESUME),
      (''CACHE'', 9, 15, op_CACHE), (''PRECALL'', 9, 15, op_PRECALL),
      (''COPY_FREE_VARS'', 9, 15, op_COPY_FREE_VARS),
      (''MAKE_CELL'', 9, 15, op_MAKE_CELL), (''DELETE_FAST'', 9, 15, op_DELETE_FAST),
      (''WITH_CLEANUP_START'', 9, 15, op_WITH_CLEANUP_START),
      (''WITH_CLEANUP_FINISH'', 9, 15, op_WITH_CLEANUP_FINISH),
      (''NOT_TAKEN'', 14, 15, op_NOP), (''PUSH_NULL'', 9, 15, op_PUSH_NULL),
      (''RETURN_GENERATOR'', 9, 15, op_RETURN_GENERATOR),
      (''FORMAT_SIMPLE'', 13, 15, op_FORMAT_SIMPLE),
      (''FORMAT_VALUE'', 9, 15, op_FORMAT_VALUE),
      (''BUILD_STRING'', 9, 15, op_BUILD_STRING), (''POP_TOP'', 9, 15, op_POP_TOP),
      (''POP_ITER'', 14, 14, op_POP_TOP), (''POP_ITER'', 15, 15, op_POP_ITER),
      (''TO_BOOL'', 13, 15, op_TO_BOOL), (''LOAD_GLOBAL'', 13, 15, op_LOAD_GLOBAL_313),
      (''LOAD_GLOBAL'', 11, 12, op_LOAD_GLOBAL_311),
      (''LOAD_GLOBAL'', 9, 10, op_LOAD_GLOBAL_310),
      (''LOAD_DEREF'', 9, 15, op_LOAD_DEREF), (''LOAD_CONST'', 9, 15, op_LOAD_CONST),
      (''LOAD_SMALL_INT'', 14, 15, op_LOAD_SMALL_INT),
      (''LOAD_ATTR'', 9, 15, op_LOAD_ATTR), (''LOAD_FAST'', 9, 15, op_LOAD_FAST),
      (''LOAD_FAST_CHECK'', 12, 15, op_LOAD_FAST),
      (''LOAD_FAST_AND_CLEAR'', 12, 15, op_LOAD_FAST),
      (''LOAD_FAST_BORROW'', 14, 15, op_LOAD_FAST),
      (''LOAD_FAST_LOAD_FAST'', 13, 15, op_LOAD_FAST_LOAD_FAST),
      (''LOAD_FAST_BORROW_LOAD_FAST_BORROW'', 14, 15, op_LOAD_FAST_LOAD_FAST),
      (''STORE_FAST_LOAD_FAST'', 13, 15, op_STORE_FAST_LOAD_FAST),
      (''STORE_FAST_STORE_FAST'', 13, 15, op_STORE_FAST_STORE_FAST),
      (''DELETE_ATTR'', 9, 15, op_DELETE_ATTR), (''STORE_ATTR'', 9, 15, op_STORE_ATTR),
      (''STORE_DEREF'', 9, 15, op_STORE_DEREF), (''STORE_FAST'', 9, 15, op_STORE_FAST),
      (''SLICE_1'', 9, 15, op_SLICE_1), (''SLICE_2'', 9, 15, op_SLICE_2),
      (''SLICE_3'', 9, 15, op_SLICE_3), (''STORE_SLICE_0'', 9, 15, op_STORE_SLICE_0),
      (''STORE_SLICE_1'', 9, 15, op_STORE_SLICE_1),
      (''STORE_SLICE_2'', 9, 15, op_STORE_SLICE_2),
      (''STORE_SLICE_3'', 9, 15, op_STORE_SLICE_3),
      (''DELETE_SLICE_0'', 9, 15, op_DELETE_SLICE_0),
      (''DELETE_SLICE_1'', 9, 15, op_DELETE_SLICE_1),
      (''DELETE_SLICE_2'', 9, 15, op_DELETE_SLICE_2),
      (''DELETE_SLICE_3'', 9, 15, op_DELETE_SLICE_3),
      (''BUILD_SLICE'', 9, 15, op_BUILD_SLICE),
      (''BINARY_SLICE'', 12, 15, op_BINARY_SLICE),
      (''STORE_SLICE'', 12, 15, op_STORE_SLICE),
      (''BINARY_SUBSCR'', 10, 13, op_BINARY_SUBSCR),
      (''STORE_SUBSCR'', 9, 15, op_STORE_SUBSCR),
      (''DELETE_SUBSCR'', 9, 15, op_DELETE_SUBSCR),
      (''POP_JUMP_IF_TRUE'', 9, 15, op_POP_JUMP_IF),
      (''POP_JUMP_IF_FALSE'', 9, 15, op_POP_JUMP_IF),
      (''POP_JUMP_IF_NONE'', 12, 15, op_POP_JUMP_IF),
      (''POP_JUMP_IF_NOT_NONE'', 12, 15, op_POP_JUMP_IF),
      (''POP_JUMP_FORWARD_IF_NONE'', 9, 15, op_POP_JUMP_IF),
      (''POP_JUMP_FORWARD_IF_NOT_NONE'', 9, 15, op_POP_JUMP_IF),
      (''POP_JUMP_FORWARD_IF_FALSE'', 9, 15, op_POP_JUMP_IF),
      (''POP_JUMP_FORWARD_IF_TRUE'', 9, 15, op_POP_JUMP_IF),
      (''POP_JUMP_BACKWARD_IF_NONE'', 9, 15, op_POP_JUMP_IF),
      (''POP_JUMP_BACKWARD_IF_NOT_NONE'', 9, 15, op_POP_JUMP_IF),
      (''POP_JUMP_BACKWARD_IF_FALSE'', 9, 15, op_POP_JUMP_IF),
      (''POP_JUMP_BACKWARD_IF_TRUE'', 9, 15, op_POP_JUMP_IF),
      (''JUMP_IF_FALSE_OR_POP'', 9, 15, op_JUMP_IF_OR_POP),
      (''JUMP_IF_TRUE_OR_POP'', 9, 15, op_JUMP_IF_OR_POP),
      (''JUMP_FORWARD'', 9, 15, op_JUMP_FORWARD),
      (''JUMP_BACKWARD'', 9, 15, op_JUMP_BACKWARD),
      (''JUMP_ABSOLUTE'', 9, 15, op_JUMP_ABSOLUTE),
      (''JUMP_BACKWARD_NO_INTERRUPT'', 9, 15, op_JUMP_BACKWARD),
      (''BREAK_LOOP'', 9, 15, op_BREAK_LOOP), (''RETURN_VALUE'', 9, 15, op_RETURN_VALUE),
      (''RETURN_CONST'', 12, 15, op_RETURN_CONST),
      (''YIELD_VALUE'', 9, 15, op_YIELD_VALUE),
      (''RAISE_VARARGS'', 11, 15, op_RAISE_VARARGS_311),
      (''RAISE_VARARGS'', 9, 10, op_RAISE_VARARGS_310),
      (''BEGIN_FINALLY'', 9, 15, op_BEGIN_FINALLY),
      (''END_FINALLY'', 9, 15, op_END_FINALLY), (''END_FOR'', 13, 15, op_END_FOR_313),
      (''END_FOR'', 12, 12, op_END_FOR_312), (''POP_FINALLY'', 9, 15, op_POP_FINALLY),
      (''CALL_FINALLY'', 9, 15, op_CALL_FINALLY),
      (''WITH_EXCEPT_START'', 9, 15, op_WITH_EXCEPT_START),
      (''SETUP_LOOP'', 9, 15, op_SETUP_LOOP), (''BEFORE_WITH'', 10, 13, op_BEFORE_WITH),
      (''SETUP_WITH'', 9, 15, op_SETUP_WITH),
      (''PUSH_EXC_INFO'', 9, 15, op_PUSH_EXC_INFO),
      (''SETUP_FINALLY'', 9, 15, op_SETUP_FINALLY),
      (''POP_EXCEPT'', 11, 15, op_POP_EXCEPT_311),
      (''POP_EXCEPT'', 9, 10, op_POP_EXCEPT_310), (''POP_BLOCK'', 9, 15, op_POP_BLOCK),
      (''CALL'', 13, 15, op_CALL_313), (''CALL'', 9, 12, op_CALL_312),
      (''KW_NAMES'', 9, 15, op_KW_NAMES), (''CALL_FUNCTION'', 9, 15, op_CALL_FUNCTION),
      (''CALL_METHOD'', 9, 15, op_CALL_FUNCTION),
      (''CALL_FUNCTION_KW'', 9, 15, op_CALL_FUNCTION_KW),
      (''CALL_KW'', 13, 15, op_CALL_KW),
      (''CALL_FUNCTION_EX'', 14, 15, op_CALL_FUNCTION_EX_314),
      (''CALL_FUNCTION_EX'', 13, 13, op_CALL_FUNCTION_EX_313),
      (''CALL_FUNCTION_EX'', 9, 12, op_CALL_FUNCTION_EX_312),
      (''CALL_INTRINSIC_1'', 12, 15, op_CALL_INTRINSIC_1),
      (''DUP_TOPX'', 9, 15, op_DUP_TOPX), (''DUP_TOP'', 9, 15, op_DUP_TOP),
      (''DUP_TOP_TWO'', 9, 15, op_DUP_TOP_TWO), (''COPY'', 9, 15, op_COPY),
      (''SWAP'', 9, 15, op_SWAP), (''ROT_TWO'', 9, 15, op_ROT_TWO),
      (''ROT_THREE'', 9, 15, op_ROT_THREE), (''ROT_FOUR'', 9, 15, op_ROT_FOUR),
      (''UNPACK_SEQUENCE'', 9, 15, op_UNPACK_SEQUENCE),
      (''BUILD_TUPLE'', 9, 15, op_BUILD_TUPLE),
      (''BUILD_TUPLE_UNPACK_WITH_CALL'', 9, 15, build_tuple_unpack),
      (''BUILD_TUPLE_UNPACK'', 9, 15, build_tuple_unpack),
      (''LIST_TO_TUPLE'', 9, 15, op_LIST_TO_TUPLE),
      (''BUILD_CONST_KEY_MAP'', 9, 15, op_BUILD_CONST_KEY_MAP),
      (''BUILD_LIST'', 9, 15, op_BUILD_LIST), (''LIST_APPEND'', 9, 15, op_LIST_APPEND),
      (''LIST_EXTEND'', 9, 15, op_LIST_EXTEND), (''BUILD_MAP'', 9, 15, op_BUILD_MAP),
      (''MAP_ADD'', 9, 15, op_MAP_ADD), (''BUILD_SET'', 9, 15, op_BUILD_SET),
      (''SET_ADD'', 9, 15, op_SET_ADD), (''SET_UPDATE'', 9, 15, op_SET_UPDATE),
      (''DICT_UPDATE'', 9, 15, op_DICT_UPDATE), (''GET_ITER'', 9, 15, op_GET_ITER),
      (''FOR_ITER'', 9, 15, op_FOR_ITER), (''GEN_START'', 9, 15, op_GEN_START),
      (''BINARY_OP'', 9, 15, op_BINARY_OP), (''UNARY_NEGATIVE'', 9, 15, unaryop),
      (''UNARY_POSITIVE'', 9, 15, unaryop), (''UNARY_NOT'', 9, 15, unaryop),
      (''UNARY_INVERT'', 9, 15, unaryop), (''COMPARE_OP'', 9, 15, binaryop),
      (''IS_OP'', 9, 15, binaryop), (''CONTAINS_OP'', 9, 15, binaryop),
      (''INPLACE_ADD'', 9, 15, binaryop), (''INPLACE_SUBTRACT'', 9, 15, binaryop),
      (''INPLACE_MULTIPLY'', 9, 15, binaryop), (''INPLACE_DIVIDE'', 9, 15, binaryop),
      (''INPLACE_TRUE_DIVIDE'', 9, 15, binaryop),
      (''INPLACE_FLOOR_DIVIDE'', 9, 15, binaryop), (''INPLACE_MODULO'', 9, 15, binaryop),
      (''INPLACE_POWER'', 9, 15, binaryop),
      (''INPLACE_MATRIX_MULTIPLY'', 9, 15, binaryop),
      (''INPLACE_LSHIFT'', 9, 15, binaryop), (''INPLACE_RSHIFT'', 9, 15, binaryop),
      (''INPLACE_AND'', 9, 15, binaryop), (''INPLACE_OR'', 9, 15, binaryop),
      (''INPLACE_XOR'', 9, 15, binaryop), (''BINARY_ADD'', 9, 15, binaryop),
      (''BINARY_SUBTRACT'', 9, 15, binaryop), (''BINARY_MULTIPLY'', 9, 15, binaryop),
      (''BINARY_DIVIDE'', 9, 15, binaryop), (''BINARY_TRUE_DIVIDE'', 9, 15, binaryop),
      (''BINARY_FLOOR_DIVIDE'', 9, 15, binaryop), (''BINARY_MODULO'', 9, 15, binaryop),
      (''BINARY_POWER'', 9, 15, binaryop), (''BINARY_MATRIX_MULTIPLY'', 9, 15, binaryop),
      (''BINARY_LSHIFT'', 9, 15, binaryop), (''BINARY_RSHIFT'', 9, 15, binaryop),
      (''BINARY_AND'', 9, 15, binaryop), (''BINARY_OR'', 9, 15, binaryop),
      (''BINARY_XOR'', 9, 15, binaryop), (''MAKE_FUNCTION'', 9, 15, op_MAKE_FUNCTION),
      (''MAKE_CLOSURE'', 9, 15, op_MAKE_FUNCTION),
      (''SET_FUNCTION_ATTRIBUTE'', 9, 15, op_SET_FUNCTION_ATTRIBUTE),
      (''LOAD_CLOSURE'', 9, 15, op_LOAD_CLOSURE),
      (''LOAD_ASSERTION_ERROR'', 10, 13, op_LOAD_ASSERTION_ERROR),
      (''CHECK_EXC_MATCH'', 9, 15, op_CHECK_EXC_MATCH),
      (''JUMP_IF_NOT_EXC_MATCH'', 9, 15, op_JUMP_IF_NOT_EXC_MATCH),
      (''RERAISE'', 11, 15, op_RERAISE_311), (''RERAISE'', 9, 10, op_RERAISE_310),
      (''LOAD_METHOD'', 11, 11, op_LOAD_METHOD_311),
      (''LOAD_METHOD'', 9, 10, op_LOAD_ATTR),
      (''LOAD_SPECIAL'', 14, 15, op_LOAD_SPECIAL),
      (''LOAD_COMMON_CONSTANT'', 14, 15, op_LOAD_COMMON_CONSTANT)]"

definition op_handler :: "nat \<Rightarrow> string \<Rightarrow> (inst \<Rightarrow> unit trace) option" where
  "op_handler py opname =
     map_option (\<lambda>e. snd (snd (snd e)))
       (List.find (\<lambda>e. fst e = opname \<and> fst (snd e) \<le> py \<and> py \<le> fst (snd (snd e))) op_entries)"

fun pop_ended :: "int \<Rightarrow> synblk list \<Rightarrow> synblk list" where
  "pop_ended start [] = []"
| "pop_ended start (b # bs) =
     (case b_end b of
        None \<Rightarrow> b # bs
      | Some e \<Rightarrow> if e \<le> start then pop_ended start bs else b # bs)"

definition pop_ended_blocks :: "unit trace" where
  "pop_ended_blocks = modifyT (\<lambda>s.
     if 11 \<le> c_py (bytecode s)
     then s\<lparr>blockstack := rev (pop_ended (pc_initial s) (rev (blockstack s)))\<rparr> else s)"

definition dispatch :: "unit trace" where
  "dispatch =
     seqT pop_ended_blocks (
     bindT get_inst (\<lambda>inst.
     bindT version (\<lambda>py.
       case op_handler py (i_opname inst) of
         None \<Rightarrow> raiseT UnsupportedError
       | Some fn \<Rightarrow> fn inst)))"

end
