(* ===== verification/TraceInv.thy ===== *)
theory TraceInv
  imports TraceOps
begin

text \<open>
  What every opcode handler keeps of the trace state. \<open>state_ok\<close> is the invariant: the
  temporary registers are numbered in the order they were made, and every register on the
  stack, in a recorded instruction, on an outgoing edge or in a function attribute was made by
  this state. \<open>safe K m ns\<close> says that \<open>m\<close>, started where the registers \<open>K\<close> are known, keeps
  the invariant and the identity of the state and returns a value whose registers \<open>ns\<close> are
  known. The rules follow the structure of the handlers.
\<close>

section \<open>Known registers\<close>

text \<open>\<open>LOAD_CONST\<close> appends a suffix to a temporary: the name still belongs to it.\<close>

definition belongs :: "string \<Rightarrow> string set \<Rightarrow> bool" where
  "belongs r T \<longleftrightarrow> (\<exists>t \<in> T. r = t \<or> (\<exists>a. r = t @ ''.'' @ a))"

definition known :: "tstate \<Rightarrow> string set" where
  "known s = {r. belongs r (set (temp_registers s))}"

lemma belongs_mono: "belongs r T \<Longrightarrow> T \<subseteq> U \<Longrightarrow> belongs r U"
  by (auto simp: belongs_def)

lemma belongs_self: "r \<in> T \<Longrightarrow> belongs r T"
  by (auto simp: belongs_def)

lemma belongs_suffix: "belongs t T \<Longrightarrow> belongs (t @ ''.'' @ a) T"
proof -
  assume "belongs t T"
  then obtain u where u: "u \<in> T" and "t = u \<or> (\<exists>b. t = u @ ''.'' @ b)"
    by (auto simp: belongs_def)
  then consider "t = u" | b where "t = u @ ''.'' @ b" by blast
  then show ?thesis
  proof cases
    case 1
    with u show ?thesis by (auto simp: belongs_def)
  next
    case 2
    then have "t @ ''.'' @ a = u @ ''.'' @ (b @ ''.'' @ a)" by simp
    with u show ?thesis unfolding belongs_def by blast
  qed
qed

text \<open>Strings that instructions record besides registers.\<close>

definition labels_of_ops :: "string set" where
  "labels_of_ops = {''try'', ''with''} \<union> set (nb_ops 15)"

section \<open>The invariant\<close>

definition numbered :: "string list \<Rightarrow> bool" where
  "numbered ts \<longleftrightarrow> (\<forall>k < length ts. \<exists>p. ts ! k = p @ ''.'' @ show_nat k)"

definition regs_of_insts :: "(int \<times> kwargs) list \<Rightarrow> string set" where
  "regs_of_insts is = (\<Union>p \<in> set is. set (flatten_regs (dvalues (snd p))))"

definition opt_regs :: "kwval option \<Rightarrow> string set" where
  "opt_regs v = (case v of None \<Rightarrow> {} | Some x \<Rightarrow> set (flatten_regs [x]))"

definition attr_regs :: "(string, kwargs) dict \<Rightarrow> string set" where
  "attr_regs d = (\<Union>p \<in> set d. set (flatten_regs (dvalues (snd p))))"

definition state_ok :: "tstate \<Rightarrow> bool" where
  "state_ok s \<longleftrightarrow>
     numbered (temp_registers s)
   \<and> set (stack s) \<subseteq> known s
   \<and> set (used_regs s) = regs_of_insts (insts s)
   \<and> set (used_regs s) \<subseteq> known s \<union> labels_of_ops
   \<and> (\<forall>e \<in> set (outedges s). set (e_stack e) \<subseteq> known s)
   \<and> attr_regs (make_func_attrs s) \<subseteq> known s
   \<and> opt_regs (state_kw_names s) \<subseteq> known s
   \<and> (outedges s \<noteq> [] \<longrightarrow> terminated s)"

text \<open>
  What a handler never changes, and what it only adds to. The program counter does not go
  back when every instruction is followed by a later one.
\<close>

definition forward_code :: "code \<Rightarrow> bool" where
  "forward_code c \<longleftrightarrow> (\<forall>k i. map_of (c_table c) k = Some i \<longrightarrow> k < i_next i)"

definition extends :: "tstate \<Rightarrow> tstate \<Rightarrow> bool" where
  "extends s s' \<longleftrightarrow>
     bytecode s' = bytecode s \<and> pc_initial s' = pc_initial s
   \<and> nstack_initial s' = nstack_initial s \<and> blockstack_initial s' = blockstack_initial s
   \<and> phis s' = phis s \<and> outgoing_phis s' = outgoing_phis s
   \<and> set (temp_registers s) \<subseteq> set (temp_registers s')
   \<and> (\<exists>more. insts s' = insts s @ more) \<and> (\<exists>more. outedges s' = outedges s @ more)
   \<and> (terminated s \<longrightarrow> terminated s')
   \<and> (forward_code (bytecode s) \<longrightarrow> pc s \<le> pc s')"

lemma extends_refl [simp]: "extends s s"
  by (simp add: extends_def)

lemma extends_trans: "extends s t \<Longrightarrow> extends t u \<Longrightarrow> extends s u"
  unfolding extends_def by (elim conjE exE, intro conjI) auto

lemma extends_known: "extends s s' \<Longrightarrow> known s \<subseteq> known s'"
  by (auto simp: extends_def known_def elim: belongs_mono)

section \<open>The judgement and its rules\<close>

definition safe :: "string set \<Rightarrow> 'a trace \<Rightarrow> ('a \<Rightarrow> string set) \<Rightarrow> bool" where
  "safe K m ns \<longleftrightarrow>
     (\<forall>s x s'. state_ok s \<longrightarrow> K \<subseteq> known s \<longrightarrow> m s = Inr (x, s')
        \<longrightarrow> state_ok s' \<and> extends s s' \<and> ns x \<subseteq> known s')"

named_theorems safe_intros \<open>rules of the judgement, by the outermost operation\<close>

lemma safeI:
  "(\<And>s x s'. state_ok s \<Longrightarrow> K \<subseteq> known s \<Longrightarrow> m s = Inr (x, s')
      \<Longrightarrow> state_ok s' \<and> extends s s' \<and> ns x \<subseteq> known s') \<Longrightarrow> safe K m ns"
  by (auto simp: safe_def)

lemma safeD:
  assumes "safe K m ns" "state_ok s" "K \<subseteq> known s" "m s = Inr (x, s')"
  shows "state_ok s'" "extends s s'" "ns x \<subseteq> known s'"
  using assms by (auto simp: safe_def)

lemma safe_bind [safe_intros]:
  assumes "safe K m ns" and "\<And>x. safe (ns x \<union> K) (f x) ns'"
  shows "safe K (bindT m f) ns'"
proof (rule safeI)
  fix s x s'
  assume s: "state_ok s" "K \<subseteq> known s" and run: "bindT m f s = Inr (x, s')"
  then obtain y t where m: "m s = Inr (y, t)" and f: "f y t = Inr (x, s')"
    by (auto simp: bindT_def split: sum.splits)
  note first = safeD[OF assms(1) s m]
  with s have "ns y \<union> K \<subseteq> known t" using extends_known by blast
  note second = safeD[OF assms(2) first(1) this f]
  with first show "state_ok s' \<and> extends s s' \<and> ns' x \<subseteq> known s'"
    using extends_trans by blast
qed

lemma safe_seq [safe_intros]:
  "safe K m (\<lambda>_. {}) \<Longrightarrow> safe K k ns \<Longrightarrow> safe K (seqT m k) ns"
  unfolding seqT_def using safe_bind[of K m "\<lambda>_. {}" "\<lambda>_. k" ns] by simp

lemma safe_ret: "ns x \<subseteq> K \<Longrightarrow> safe K (retT x) ns"
  by (auto simp: safe_def retT_def)

lemma safe_bind_ret [safe_intros]: "safe K (f x) ns \<Longrightarrow> safe K (bindT (retT x) f) ns"
  by (simp add: bindT_def retT_def safe_def)

lemma safe_skip [safe_intros]: "safe K (retT x) (\<lambda>_. {})"
  by (rule safe_ret) simp

lemma safe_raise [safe_intros]: "safe K (raiseT e) ns"
  by (simp add: safe_def raiseT_def)

lemma safe_if [safe_intros]:
  "(b \<Longrightarrow> safe K m ns) \<Longrightarrow> (\<not> b \<Longrightarrow> safe K k ns) \<Longrightarrow> safe K (if b then m else k) ns"
  by simp

lemma safe_option [safe_intros]:
  "(v = None \<Longrightarrow> safe K m ns) \<Longrightarrow> (\<And>x. v = Some x \<Longrightarrow> safe K (k x) ns)
     \<Longrightarrow> safe K (case v of None \<Rightarrow> m | Some x \<Rightarrow> k x) ns"
  by (cases v) auto

lemma safe_sum [safe_intros]:
  "(\<And>e. v = Inl e \<Longrightarrow> safe K (m e) ns) \<Longrightarrow> (\<And>x. v = Inr x \<Longrightarrow> safe K (k x) ns)
     \<Longrightarrow> safe K (case v of Inl e \<Rightarrow> m e | Inr x \<Rightarrow> k x) ns"
  by (cases v) auto

lemma safe_weaken: "safe K m ns \<Longrightarrow> K \<subseteq> L \<Longrightarrow> safe L m ns"
  by (auto simp: safe_def)

lemma safe_get [safe_intros]: "safe K (getT f) (\<lambda>_. {})"
  by (auto simp: safe_def getT_def)

lemma safe_lift [safe_intros]: "safe K (liftT r) (\<lambda>_. {})"
  by (auto simp: safe_def liftT_def split: sum.splits)

lemma safe_assert [safe_intros]: "safe K (assertT b) (\<lambda>_. {})"
  by (simp add: assertT_def safe_skip safe_raise)

lemma safe_repeat [safe_intros]:
  assumes "safe K m ns"
  shows "safe K (repeatT n m) (\<lambda>xs. \<Union> (ns ` set xs))"
proof -
  have "safe L (repeatT n m) (\<lambda>xs. \<Union> (ns ` set xs))" if "K \<subseteq> L" for L
    using that
  proof (induction n arbitrary: L)
    case 0
    show ?case by (simp add: safe_ret)
  next
    case (Suc n)
    have "safe (\<Union> (ns ` set xs) \<union> (ns x \<union> L)) (retT (x # xs)) (\<lambda>xs. \<Union> (ns ` set xs))" for x xs
      by (rule safe_ret) auto
    then have "safe (ns x \<union> L) (bindT (repeatT n m) (\<lambda>xs. retT (x # xs)))
                 (\<lambda>xs. \<Union> (ns ` set xs))" for x
      using Suc by (intro safe_bind[OF Suc.IH]) auto
    then show ?case
      using safe_weaken[OF assms Suc.prems] by (auto intro: safe_bind)
  qed
  then show ?thesis by simp
qed

lemma safe_for [safe_intros]:
  "(\<And>x. x \<in> set xs \<Longrightarrow> safe K (f x) (\<lambda>_. {})) \<Longrightarrow> safe K (forT xs f) (\<lambda>_. {})"
  by (induction xs) (auto intro: safe_skip safe_seq)

section \<open>Rules of the state's methods\<close>

text \<open>A step that touches none of the fields the invariant and the identity speak about.\<close>

lemma safe_modify:
  assumes "\<And>s. state_ok s \<Longrightarrow> K \<subseteq> known s \<Longrightarrow> state_ok (f s) \<and> extends s (f s)"
  shows "safe K (modifyT f) (\<lambda>_. {})"
  using assms by (auto simp: safe_def modifyT_def)

lemma safe_get_inst [safe_intros]: "safe K get_inst (\<lambda>_. {})"
  by (auto simp: safe_def get_inst_def liftT_def split: sum.splits)

lemma safe_version [safe_intros]: "safe K version (\<lambda>_. {})"
  unfolding version_def by (rule safe_get)

lemma state_ok_frame:
  assumes "state_ok s" and "temp_registers s' = temp_registers s" and "set (stack s') \<subseteq> known s"
    and "insts s' = insts s" and "used_regs s' = used_regs s" and "outedges s' = outedges s"
    and "make_func_attrs s' = make_func_attrs s" and "opt_regs (state_kw_names s') \<subseteq> known s"
    and "terminated s \<longrightarrow> terminated s'"
  shows "state_ok s'"
proof -
  have "known s' = known s" using assms(2) by (simp add: known_def)
  with assms show ?thesis unfolding state_ok_def by (elim conjE, intro conjI) auto
qed

lemma state_ok_parts:
  assumes "state_ok s"
  shows "numbered (temp_registers s)" "set (stack s) \<subseteq> known s"
    "set (used_regs s) = regs_of_insts (insts s)"
    "set (used_regs s) \<subseteq> known s \<union> labels_of_ops"
    "\<And>e. e \<in> set (outedges s) \<Longrightarrow> set (e_stack e) \<subseteq> known s"
    "attr_regs (make_func_attrs s) \<subseteq> known s" "opt_regs (state_kw_names s) \<subseteq> known s"
    "outedges s \<noteq> [] \<Longrightarrow> terminated s"
  using assms by (auto simp: state_ok_def)

lemma state_okI:
  assumes "numbered (temp_registers s)" "set (stack s) \<subseteq> known s"
    "set (used_regs s) = regs_of_insts (insts s)"
    "set (used_regs s) \<subseteq> known s \<union> labels_of_ops"
    "\<And>e. e \<in> set (outedges s) \<Longrightarrow> set (e_stack e) \<subseteq> known s"
    "attr_regs (make_func_attrs s) \<subseteq> known s" "opt_regs (state_kw_names s) \<subseteq> known s"
    "outedges s \<noteq> [] \<Longrightarrow> terminated s"
  shows "state_ok s"
  using assms by (simp add: state_ok_def)

lemma safe_advance_pc [safe_intros]: "safe K advance_pc (\<lambda>_. {})"
proof (rule safeI)
  fix s x s'
  assume ok: "state_ok s" and "advance_pc s = Inr (x, s')"
  then obtain i where i: "map_of (c_table (bytecode s)) (pc s) = Some i"
    and s': "s' = s\<lparr>pc := i_next i\<rparr>"
    by (auto simp: advance_pc_def get_inst_def bindT_def liftT_def dget_def modifyT_def
             split: option.splits)
  have "state_ok s'" unfolding s'
    using ok by (rule state_ok_frame) (use state_ok_parts[OF ok] in simp_all)
  moreover have "extends s s'"
    using i unfolding s' by (auto simp: extends_def forward_code_def intro: less_imp_le)
  ultimately show "state_ok s' \<and> extends s s' \<and> {} \<subseteq> known s'" by simp
qed

lemma numbered_snoc: "numbered ts \<Longrightarrow> numbered (ts @ [p @ ''.'' @ show_nat (length ts)])"
  unfolding numbered_def by (auto simp: nth_append less_Suc_eq)

text \<open>Adding registers keeps everything known.\<close>

lemma state_ok_more_temps:
  assumes ok: "state_ok s" and "numbered (temp_registers s @ ts)"
  shows "state_ok (s\<lparr>temp_registers := temp_registers s @ ts\<rparr>)"
proof -
  let ?s = "s\<lparr>temp_registers := temp_registers s @ ts\<rparr>"
  have "known s \<subseteq> known ?s"
    by (auto simp: known_def elim: belongs_mono)
  note sub = subset_trans[OF _ this] and parts = state_ok_parts[OF ok]
  show ?thesis
  proof (rule state_okI)
    show "set (used_regs ?s) \<subseteq> known ?s \<union> labels_of_ops"
      using parts(4) \<open>known s \<subseteq> known ?s\<close> by auto
  qed (use assms(2) parts sub in simp_all)
qed

lemma safe_new_temp:
  assumes "\<And>s. \<exists>p. name s = p @ ''.'' @ show_nat (length (temp_registers s))"
  shows "safe K (new_temp name) (\<lambda>r. {r})"
proof (rule safeI)
  fix s x s'
  assume ok: "state_ok s" and "new_temp name s = Inr (x, s')"
  then have x: "x = name s" and s': "s' = s\<lparr>temp_registers := temp_registers s @ [name s]\<rparr>"
    by (auto simp: new_temp_def)
  obtain p where p: "name s = p @ ''.'' @ show_nat (length (temp_registers s))"
    using assms by blast
  have "numbered (temp_registers s @ [name s])"
    unfolding p using state_ok_parts(1)[OF ok] by (rule numbered_snoc)
  with ok have "state_ok s'" unfolding s' by (rule state_ok_more_temps)
  moreover have "extends s s'" unfolding s' by (auto simp: extends_def)
  moreover have "{x} \<subseteq> known s'"
    unfolding x s' by (auto simp: known_def intro: belongs_self)
  ultimately show "state_ok s' \<and> extends s s' \<and> {x} \<subseteq> known s'" by blast
qed

lemma temp_name_number: "\<exists>p. temp_name prefix off name n = p @ ''.'' @ show_nat n"
  by (rule exI[of _ "''$'' @ prefix @ show_int off @ name"]) (simp add: temp_name_def)

lemma safe_make_temp [safe_intros]: "safe K (make_temp prefix) (\<lambda>r. {r})"
  unfolding make_temp_def by (rule safe_intros safe_new_temp temp_name_number)+

lemma safe_make_null [safe_intros]: "safe K make_null (\<lambda>r. {r})"
  unfolding make_null_def by (rule safe_intros)+

lemma safe_peek [safe_intros]: "safe K (peek k) (\<lambda>r. {r})"
  by (rule safeI)
     (auto simp: peek_def liftT_def split: sum.splits dest!: py_index_mem dest: state_ok_parts(2))

lemma safe_get_tos [safe_intros]: "safe K get_tos (\<lambda>r. {r})"
  unfolding get_tos_def by (rule safe_peek)

lemma belongs_known: "belongs r (known s) \<Longrightarrow> r \<in> known s"
proof -
  assume "belongs r (known s)"
  then obtain t where "belongs t (set (temp_registers s))" and "r = t \<or> (\<exists>a. r = t @ ''.'' @ a)"
    unfolding belongs_def[of r] known_def by blast
  then have "belongs r (set (temp_registers s))"
    using belongs_suffix by blast
  then show ?thesis unfolding known_def by simp
qed

lemma safe_push [safe_intros]:
  assumes "belongs r K"
  shows "safe K (push r) (\<lambda>_. {})"
  unfolding push_def
proof (rule safe_modify)
  fix s assume ok: "state_ok s" and "K \<subseteq> known s"
  with assms have "belongs r (known s)" by (blast intro: belongs_mono)
  then have "r \<in> known s" by (rule belongs_known)
  then have "state_ok (s\<lparr>stack := stack s @ [r]\<rparr>)"
    by (intro state_ok_frame[OF ok]) (use state_ok_parts[OF ok] in simp_all)
  then show "state_ok (s\<lparr>stack := stack s @ [r]\<rparr>) \<and> extends s (s\<lparr>stack := stack s @ [r]\<rparr>)"
    by (simp add: extends_def)
qed

lemma safe_pop [safe_intros]: "safe K pop (\<lambda>r. {r})"
proof (rule safeI)
  fix s x s'
  assume ok: "state_ok s" and "pop s = Inr (x, s')"
  then have ne: "stack s \<noteq> []" and x: "x = last (stack s)"
    and s': "s' = s\<lparr>stack := butlast (stack s)\<rparr>"
    by (auto simp: pop_def split: if_splits)
  have "state_ok s'" unfolding s'
    using ok by (rule state_ok_frame) (use state_ok_parts[OF ok] in \<open>auto dest: in_set_butlastD\<close>)
  have "last (stack s) \<in> known s"
    using last_in_set[OF ne] state_ok_parts(2)[OF ok] by blast
  then have "x \<in> known s'" unfolding x s' known_def by simp
  with \<open>state_ok s'\<close> show "state_ok s' \<and> extends s s' \<and> {x} \<subseteq> known s'"
    unfolding s' by (simp add: extends_def)
qed

text \<open>Replacing the value stack by known registers, and the block stack by anything.\<close>

lemma state_ok_stack:
  assumes "state_ok s" and "set xs \<subseteq> known s"
  shows "state_ok (s\<lparr>stack := xs, blockstack := bs\<rparr>) \<and> extends s (s\<lparr>stack := xs, blockstack := bs\<rparr>)"
proof -
  have "state_ok (s\<lparr>stack := xs, blockstack := bs\<rparr>)"
    using assms(1) by (rule state_ok_frame) (use assms state_ok_parts[OF assms(1)] in simp_all)
  then show ?thesis by (simp add: extends_def)
qed

lemma safe_swap [safe_intros]: "safe K (swap k) (\<lambda>_. {})"
proof (rule safeI)
  fix s x s'
  assume ok: "state_ok s" and "swap k s = Inr (x, s')"
  then obtain a b j i where a: "py_index (stack s) j = Inr a" and b: "py_index (stack s) (- 1) = Inr b"
    and s': "s' = s\<lparr>stack := (stack s)[length (stack s) - 1 := a, i := b]\<rparr>"
    by (auto simp: swap_def res_simps)
  have "set ((stack s)[length (stack s) - 1 := a, i := b]) \<subseteq> insert b (insert a (set (stack s)))"
    by (meson order_trans set_update_subset_insert insert_mono)
  also have "\<dots> \<subseteq> known s"
    using py_index_mem[OF a] py_index_mem[OF b] state_ok_parts(2)[OF ok] by blast
  finally show "state_ok s' \<and> extends s s' \<and> {} \<subseteq> known s'"
    using state_ok_stack[OF ok, where bs = "blockstack s"] unfolding s' by simp
qed

lemma safe_reset_stack [safe_intros]: "safe K (reset_stack d) (\<lambda>_. {})"
proof (rule safeI)
  fix s x s'
  assume ok: "state_ok s" and run: "reset_stack d s = Inr (x, s')"
  have "set (take n (stack s)) \<subseteq> known s" for n
    using state_ok_parts(2)[OF ok] by (meson order_trans set_take_subset)
  from state_ok_stack[OF ok this, where bs = "blockstack s"] run ok
  show "state_ok s' \<and> extends s s' \<and> {} \<subseteq> known s'"
    by (auto simp: reset_stack_def split: option.splits)
qed

lemma safe_blocks:
  assumes "\<And>s x s'. m s = Inr (x, s') \<Longrightarrow> \<exists>bs. s' = s\<lparr>blockstack := bs\<rparr>"
  shows "safe K m (\<lambda>_. {})"
proof (rule safeI)
  fix s x s'
  assume ok: "state_ok s" and "m s = Inr (x, s')"
  with assms obtain bs where "s' = s\<lparr>stack := stack s, blockstack := bs\<rparr>" by fastforce
  with state_ok_stack[OF ok state_ok_parts(2)[OF ok]]
  show "state_ok s' \<and> extends s s' \<and> {} \<subseteq> known s'" by simp
qed

lemma safe_push_block [safe_intros]: "safe K (push_block b) (\<lambda>_. {})"
  by (rule safe_blocks) (auto simp: push_block_def modifyT_def)

lemma safe_pop_block_and_above [safe_intros]: "safe K (pop_block_and_above b) (\<lambda>_. {})"
  by (rule safe_blocks) (auto simp: pop_block_and_above_def split: if_splits)

lemma safe_pop_ended_blocks [safe_intros]: "safe K pop_ended_blocks (\<lambda>_. {})"
proof (rule safe_blocks)
  fix s x s'
  assume run: "pop_ended_blocks s = Inr (x, s')"
  show "\<exists>bs. s' = s\<lparr>blockstack := bs\<rparr>"
  proof (cases "11 \<le> c_py (bytecode s)")
    case False
    with run have "s' = s\<lparr>blockstack := blockstack s\<rparr>"
      by (simp add: pop_ended_blocks_def modifyT_def)
    then show ?thesis by blast
  qed (use run in \<open>auto simp: pop_ended_blocks_def modifyT_def\<close>)
qed

lemma safe_make_block [safe_intros]: "safe K (make_block k e r h) (\<lambda>_. {})"
  unfolding make_block_def by (rule safe_get)

lemma safe_pop_block [safe_intros]: "safe K pop_block (\<lambda>_. {})"
proof -
  define drop_top :: "synblk trace" where "drop_top s =
    (if blockstack s = [] then Inl IndexError
     else Inr (last (blockstack s), s\<lparr>blockstack := butlast (blockstack s)\<rparr>))" for s
  have "pop_block = bindT drop_top (\<lambda>b. bindT (reset_stack (b_stack_depth b)) (\<lambda>_. retT b))"
    by (rule ext) (simp add: pop_block_def drop_top_def bindT_def Let_def)
  moreover have "safe K drop_top (\<lambda>_. {})"
    by (rule safe_blocks) (auto simp: drop_top_def split: if_splits)
  then have "safe K (bindT drop_top (\<lambda>b. bindT (reset_stack (b_stack_depth b)) (\<lambda>_. retT b)))
      (\<lambda>_. {})"
    by (rule safe_bind) (rule safe_intros)+
  ultimately show ?thesis by simp
qed

lemma safe_terminate [safe_intros]: "safe K terminate (\<lambda>_. {})"
  unfolding terminate_def
proof (rule safe_modify, rule conjI)
  fix s assume ok: "state_ok s"
  show "state_ok (s\<lparr>terminated := True\<rparr>)"
    using ok by (rule state_ok_frame) (use state_ok_parts[OF ok] in simp_all)
qed (simp add: extends_def)

lemma safe_pop_list [safe_intros]: "safe K (pop_list n) (\<lambda>xs. set xs)"
proof -
  have "safe K (repeatT (nat n) pop) (\<lambda>xs. \<Union> ((\<lambda>r. {r}) ` set xs))"
    by (rule safe_intros)+
  then show ?thesis
    unfolding pop_list_def by (rule safe_bind) (rule safe_ret, auto)
qed

lemma safe_make_temps [safe_intros]: "safe K (make_temps n) (\<lambda>xs. set xs)"
proof -
  have "safe K (repeatT (nat n) (make_temp [])) (\<lambda>xs. \<Union> ((\<lambda>r. {r}) ` set xs))"
    by (rule safe_intros)+
  then show ?thesis unfolding make_temps_def by simp
qed

section \<open>Recording instructions and edges\<close>

text \<open>The strings of a recorded instruction are known registers or operator labels.\<close>

definition covered :: "string set \<Rightarrow> string list \<Rightarrow> bool" where
  "covered K rs \<longleftrightarrow> (\<forall>r \<in> set rs. belongs r K \<or> r \<in> labels_of_ops)"

lemma covered_simps [simp]:
  "covered K []"
  "covered K (r # rs) \<longleftrightarrow> (belongs r K \<or> r \<in> labels_of_ops) \<and> covered K rs"
  "covered K (rs @ ts) \<longleftrightarrow> covered K rs \<and> covered K ts"
  by (auto simp: covered_def)

lemma belongs_simps [simp]:
  "belongs r {} \<longleftrightarrow> False"
  "belongs r (A \<union> B) \<longleftrightarrow> belongs r A \<or> belongs r B"
  "belongs r (insert t A) \<longleftrightarrow> r = t \<or> (\<exists>a. r = t @ ''.'' @ a) \<or> belongs r A"
  by (auto simp: belongs_def)

lemma covered_subset: "set rs \<subseteq> K \<Longrightarrow> covered K rs"
  by (auto simp: covered_def intro: belongs_self)

lemma flatten_append: "flatten_regs (xs @ ys) = flatten_regs xs @ flatten_regs ys"
  by (induction xs rule: flatten_regs.induct) auto

lemma flatten_VRegs [simp]: "flatten_regs (map VStr rs) = rs"
  by (induction rs) auto

lemma flatten_vopt [simp]:
  "flatten_regs (vopt r # rest) = (case r of None \<Rightarrow> [] | Some x \<Rightarrow> [x]) @ flatten_regs rest"
  by (cases r) (auto simp: vopt_def)

lemma covered_known:
  assumes "covered K rs" and "K \<subseteq> known s"
  shows "set rs \<subseteq> known s \<union> labels_of_ops"
proof
  fix r assume "r \<in> set rs"
  with assms have "belongs r (known s) \<or> r \<in> labels_of_ops"
    unfolding covered_def by (blast intro: belongs_mono)
  then show "r \<in> known s \<union> labels_of_ops" by (blast intro: belongs_known)
qed

lemma regs_of_insts_snoc [simp]:
  "regs_of_insts (is @ [p]) = regs_of_insts is \<union> set (flatten_regs (dvalues (snd p)))"
  by (auto simp: regs_of_insts_def)

lemma safe_append_inst [safe_intros]:
  assumes "covered K (flatten_regs (dvalues kw))"
  shows "safe K (append_inst i kw) (\<lambda>_. {})"
  unfolding append_inst_def
proof (rule safe_modify)
  fix s assume ok: "state_ok s" and K: "K \<subseteq> known s"
  let ?s = "s\<lparr>insts := insts s @ [(i_offset i, kw)],
              used_regs := set_update (used_regs s) (flatten_regs (dvalues kw))\<rparr>"
  note parts = state_ok_parts[OF ok]
  have same: "known ?s = known s" by (simp add: known_def)
  have "state_ok ?s"
  proof (rule state_okI)
    show "set (used_regs ?s) \<subseteq> known ?s \<union> labels_of_ops"
      using parts(4) covered_known[OF assms K] by (simp add: same)
  qed (use parts in \<open>simp_all add: same\<close>)
  then show "state_ok ?s \<and> extends s ?s" by (simp add: extends_def)
qed

lemma safe_get_stack: "safe K (getT stack) (\<lambda>st. set st)"
  by (auto simp: safe_def getT_def dest: state_ok_parts(2))

lemma safe_add_edge:
  assumes "set (e_stack e) \<subseteq> K"
  shows "safe K (seqT (modifyT (\<lambda>s. s\<lparr>outedges := outedges s @ [e]\<rparr>)) terminate) (\<lambda>_. {})"
proof -
  have eq: "seqT (modifyT (\<lambda>s. s\<lparr>outedges := outedges s @ [e]\<rparr>)) terminate
    = modifyT (\<lambda>s. s\<lparr>outedges := outedges s @ [e], terminated := True\<rparr>)"
    by (rule ext) (simp add: seqT_def bindT_def modifyT_def terminate_def)
  show ?thesis
    unfolding eq
  proof (rule safe_modify)
    fix s assume ok: "state_ok s" and K: "K \<subseteq> known s"
    let ?s = "s\<lparr>outedges := outedges s @ [e], terminated := True\<rparr>"
    note parts = state_ok_parts[OF ok]
    have same: "known ?s = known s" by (simp add: known_def)
    have "state_ok ?s"
    proof (rule state_okI)
      show "set (e_stack d) \<subseteq> known ?s" if "d \<in> set (outedges ?s)" for d
        using that parts(5) assms K unfolding same by auto
    qed (use parts in \<open>simp_all add: same\<close>)
    then show "state_ok ?s \<and> extends s ?s" by (simp add: extends_def)
  qed
qed

lemma safe_fork [safe_intros]: "safe K (fork dest npop npush extra) (\<lambda>_. {})"
proof -
  have pushed: "safe L (repeatT npush (make_temp [])) (\<lambda>xs. set xs)" for L
    using safe_make_temps[of L "int npush"] by (simp add: make_temps_def)
  show ?thesis
    unfolding fork_def
    by (rule safe_bind[OF safe_get_stack] safe_bind[OF pushed] safe_add_edge safe_intros)+
       (auto dest: in_set_takeD)
qed

lemma safe_split_new_block [safe_intros]: "safe K split_new_block (\<lambda>_. {})"
  unfolding split_new_block_def by (rule safe_intros)+

lemma safe_kw_frame:
  assumes ok: "state_ok s" and "opt_regs v \<subseteq> known s"
  shows "state_ok (s\<lparr>state_kw_names := v\<rparr>) \<and> extends s (s\<lparr>state_kw_names := v\<rparr>)"
proof -
  have "state_ok (s\<lparr>state_kw_names := v\<rparr>)"
    using ok by (rule state_ok_frame) (use assms state_ok_parts[OF ok] in simp_all)
  then show ?thesis by (simp add: extends_def)
qed

lemma safe_pop_kw_names [safe_intros]: "safe K pop_kw_names opt_regs"
proof (rule safeI)
  fix s x s'
  assume ok: "state_ok s" and "pop_kw_names s = Inr (x, s')"
  then have x: "x = state_kw_names s" and s': "s' = s\<lparr>state_kw_names := None\<rparr>"
    by (auto simp: pop_kw_names_def split: if_splits)
  have "known s' = known s" unfolding s' by (simp add: known_def)
  then show "state_ok s' \<and> extends s s' \<and> opt_regs x \<subseteq> known s'"
    using safe_kw_frame[OF ok, of None] state_ok_parts(7)[OF ok]
    unfolding x s' by (simp add: opt_regs_def)
qed

lemma safe_set_kw_names [safe_intros]:
  "flatten_regs [v] = [] \<Longrightarrow> safe K (set_kw_names v) (\<lambda>_. {})"
  by (rule safeI)
     (auto simp: set_kw_names_def opt_regs_def split: if_splits intro!: safe_kw_frame)

lemma attr_regs_dset:
  "attr_regs (dset r kw d) \<subseteq> attr_regs d \<union> set (flatten_regs (dvalues kw))"
  by (induction d) (auto simp: attr_regs_def)

lemma flatten_dset:
  "set (flatten_regs (dvalues (dset k v d))) \<subseteq> set (flatten_regs (dvalues d)) \<union> set (flatten_regs [v])"
proof (induction d)
  case Nil
  show ?case by (cases v) auto
next
  case (Cons p d)
  have split: "set (flatten_regs (x # xs)) = set (flatten_regs [x]) \<union> set (flatten_regs xs)" for x xs
    using flatten_append[of "[x]" xs] by simp
  show ?case
    using Cons by (cases p) (auto simp: split[of _ "map snd _"])
qed

lemma get_function_attributes_regs:
  "set (flatten_regs (dvalues (get_function_attributes r s))) \<subseteq> attr_regs (make_func_attrs s)"
  by (auto simp: get_function_attributes_def attr_regs_def split: option.splits dest!: map_of_SomeD
           intro!: bexI)

lemma safe_set_function_attribute [safe_intros]:
  assumes "belongs v K"
  shows "safe K (set_function_attribute r key (VStr v)) (\<lambda>_. {})"
  unfolding set_function_attribute_def
proof (rule safe_modify)
  fix s assume ok: "state_ok s" and "K \<subseteq> known s"
  let ?d = "dset r (dset key (VStr v) (get_function_attributes r s)) (make_func_attrs s)"
  let ?s = "s\<lparr>make_func_attrs := ?d\<rparr>"
  note parts = state_ok_parts[OF ok]
  have same: "known ?s = known s" by (simp add: known_def)
  have "v \<in> known s"
    using assms \<open>K \<subseteq> known s\<close> by (blast intro: belongs_mono belongs_known)
  then have "set (flatten_regs (dvalues (dset key (VStr v) (get_function_attributes r s)))) \<subseteq> known s"
    using flatten_dset[of key "VStr v"] get_function_attributes_regs[of r s] parts(6) by fastforce
  then have "attr_regs ?d \<subseteq> known s"
    using attr_regs_dset[of r _ "make_func_attrs s"] parts(6) by blast
  then have "state_ok ?s"
    by (intro state_okI) (use parts in \<open>simp_all add: same\<close>)
  then show "state_ok ?s \<and> extends s ?s" by (simp add: extends_def)
qed

section \<open>Rules of the helpers of the handlers\<close>

lemma safe_bind_index:
  assumes "\<And>x. x \<in> set xs \<Longrightarrow> safe K (f x) ns"
  shows "safe K (bindT (liftT (py_index xs k)) f) ns"
proof (cases "py_index xs k")
  case (Inl e)
  then show ?thesis by (simp add: bindT_def liftT_def safe_def)
next
  case (Inr x)
  then have "bindT (liftT (py_index xs k)) f = f x"
    by (intro ext) (simp add: bindT_def liftT_def)
  with assms[OF py_index_mem[OF Inr]] show ?thesis by simp
qed

lemma safe_arg_of [safe_intros]: "safe K (arg_of i) (\<lambda>_. {})"
  unfolding arg_of_def by (rule safe_intros)+

lemma safe_pop_when [safe_intros]: "safe K (pop_when b) set_option"
  unfolding pop_when_def
  by (rule safe_if, rule safe_bind, rule safe_pop) (auto intro: safe_ret)

lemma safe_raise_operand [safe_intros]: "safe K (raise_operand i b) set_option"
  unfolding raise_operand_def
  by (rule safe_if safe_raise safe_pop_when safe_ret | simp)+

lemma safe_last_reg [safe_intros]:
  assumes "set rs \<subseteq> K"
  shows "safe K (last_reg rs) (\<lambda>r. {r})"
  using assms unfolding last_reg_def
  by (auto simp: safe_def liftT_def split: sum.splits dest!: py_index_mem)

lemma safe_push_new_temp [safe_intros]: "safe K push_new_temp (\<lambda>r. {r})"
  unfolding push_new_temp_def
  by (rule safe_bind, rule safe_make_temp, rule safe_seq, rule safe_push, simp, rule safe_ret, simp)

lemma safe_pop_pair [safe_intros]: "safe K pop_pair (\<lambda>v. set (flatten_regs [v]))"
  unfolding pop_pair_def
  by (rule safe_bind, rule safe_pop)+ (rule safe_ret, auto)

lemma safe_jump_target [safe_intros]: "safe K (jump_target i) (\<lambda>_. {})"
  unfolding jump_target_def by (rule safe_intros)+

lemma safe_get_varname [safe_intros]: "safe K (get_varname_by_arg a) (\<lambda>_. {})"
  by (auto simp: safe_def get_varname_by_arg_def liftT_def split: sum.splits)

lemma safe_binop_prefix [safe_intros]: "safe K (binop_prefix operator) (\<lambda>_. {})"
  unfolding binop_prefix_def by (rule safe_intros)+

lemma flatten_set: "set (flatten_regs xs) = (\<Union>v \<in> set xs. set (flatten_regs [v]))"
proof (induction xs)
  case (Cons x xs)
  then show ?case using flatten_append[of "[x]" xs] by simp
qed simp

lemma covered_rev [simp]: "covered K (flatten_regs (rev xs)) \<longleftrightarrow> covered K (flatten_regs xs)"
  by (simp add: covered_def flatten_set[of "rev xs"] flatten_set[of xs])

lemma covered_flatten:
  "(\<Union>v \<in> set xs. set (flatten_regs [v])) \<subseteq> K \<Longrightarrow> covered K (flatten_regs xs)"
  by (rule covered_subset) (simp add: flatten_set[of xs])

lemma covered_kw_value [simp]:
  "covered K (flatten_regs (kw_value v # rest)) \<longleftrightarrow>
     (\<forall>r \<in> opt_regs v. belongs r K \<or> r \<in> labels_of_ops) \<and> covered K (flatten_regs rest)"
  using flatten_append[of "[kw_value v]" rest]
  by (cases v) (auto simp: kw_value_def opt_regs_def covered_def)

lemma nb_ops_labels: "r \<in> set (nb_ops py) \<Longrightarrow> r \<in> labels_of_ops"
  by (auto simp: nb_ops_def labels_of_ops_def)

lemma try_with_labels [simp]: "''try'' \<in> labels_of_ops" "''with'' \<in> labels_of_ops"
  by (simp_all add: labels_of_ops_def)

lemma belongs_set [simp, intro]: "r \<in> T \<Longrightarrow> belongs r T"
  by (rule belongs_self)

end
