(* ===== verification/TraceSafe.thy ===== *)
theory TraceSafe
  imports TraceInv
begin

text \<open>
  Every opcode handler keeps the invariant of the trace state and the identity of the state.
  The bundles follow the sections of \<open>TraceOps\<close>.
\<close>

named_theorems safe_handlers \<open>the judgement for the opcode handlers\<close>

section \<open>The helpers that handlers share\<close>

lemma safe_shared [safe_handlers]:
  "safe K (load_as_deref bc a i) (\<lambda>_. {})"
  "safe K (load_named name i) (\<lambda>_. {})"
  "belongs x K \<Longrightarrow> belongs y K \<Longrightarrow> (\<And>z. w = Some z \<Longrightarrow> belongs z K)
     \<Longrightarrow> safe K (build_slice i x y w) (\<lambda>_. {})"
  "safe K adjust_except_stack (\<lambda>_. {})"
  "safe K (setup_try k n e) (\<lambda>_. {})"
  "safe K (dup_topx i count) (\<lambda>_. {})"
  "safe K (flag_pop a m) set_option"
  unfolding load_as_deref_def load_named_def build_slice_def adjust_except_stack_def setup_try_def
    dup_topx_def flag_pop_def
  by (rule safe_bind_ret safe_intros | (simp split: option.splits; fail)
      | (auto intro!: covered_subset split: option.splits; fail)
      | (simp only: prod.case) | (rule safe_ret; auto; fail)
      | (simp, rule covered_flatten, blast))+

lemma safe_raise_or_adjust [safe_handlers]: "safe K raise_or_adjust (\<lambda>_. {})"
  unfolding raise_or_adjust_def by (rule safe_handlers safe_intros)+

lemma safe_consume_pattern [safe_handlers]: "safe K (consume_pattern ps) (\<lambda>_. {})"
  by (induction ps rule: consume_pattern.induct)
     (simp, rule safe_skip, simp, (rule safe_intros | simp)+)

section \<open>Constants, names and attributes\<close>

lemma safe_constants_1 [safe_handlers]:
  "safe K (op_NOP i) (\<lambda>_. {})"
  "safe K (op_RESUME i) (\<lambda>_. {})"
  "safe K (op_CACHE i) (\<lambda>_. {})"
  "safe K (op_PRECALL i) (\<lambda>_. {})"
  "safe K (op_COPY_FREE_VARS i) (\<lambda>_. {})"
  "safe K (op_MAKE_CELL i) (\<lambda>_. {})"
  "safe K (op_DELETE_FAST i) (\<lambda>_. {})"
  "safe K (op_WITH_CLEANUP_START i) (\<lambda>_. {})"
  "safe K (op_WITH_CLEANUP_FINISH i) (\<lambda>_. {})"
  "safe K (op_PUSH_NULL i) (\<lambda>_. {})"
  "safe K (op_RETURN_GENERATOR i) (\<lambda>_. {})"
  "safe K (op_FORMAT_SIMPLE i) (\<lambda>_. {})"
  unfolding op_NOP_def op_RESUME_def op_CACHE_def op_PRECALL_def op_COPY_FREE_VARS_def
    op_MAKE_CELL_def op_DELETE_FAST_def op_WITH_CLEANUP_START_def op_WITH_CLEANUP_FINISH_def
    op_PUSH_NULL_def op_RETURN_GENERATOR_def op_FORMAT_SIMPLE_def
  by (rule safe_bind_ret safe_handlers safe_intros | (simp split: option.splits; fail)
      | (auto intro!: covered_subset split: option.splits; fail)
      | (simp only: prod.case) | (rule safe_ret; auto; fail)
      | (simp, rule covered_flatten, blast))+

lemma safe_constants_2 [safe_handlers]:
  "safe K (op_FORMAT_VALUE i) (\<lambda>_. {})"
  "safe K (op_BUILD_STRING i) (\<lambda>_. {})"
  "safe K (op_POP_TOP i) (\<lambda>_. {})"
  "safe K (op_POP_ITER i) (\<lambda>_. {})"
  "safe K (op_TO_BOOL i) (\<lambda>_. {})"
  "safe K (op_LOAD_GLOBAL_313 i) (\<lambda>_. {})"
  "safe K (op_LOAD_GLOBAL_311 i) (\<lambda>_. {})"
  "safe K (op_LOAD_GLOBAL_310 i) (\<lambda>_. {})"
  "safe K (op_LOAD_DEREF i) (\<lambda>_. {})"
  "safe K (op_LOAD_CONST i) (\<lambda>_. {})"
  "safe K (op_LOAD_SMALL_INT i) (\<lambda>_. {})"
  "safe K (op_LOAD_ATTR i) (\<lambda>_. {})"
  unfolding op_FORMAT_VALUE_def op_BUILD_STRING_def op_POP_TOP_def op_POP_ITER_def op_TO_BOOL_def
    op_LOAD_GLOBAL_313_def op_LOAD_GLOBAL_311_def op_LOAD_GLOBAL_310_def op_LOAD_DEREF_def
    op_LOAD_CONST_def op_LOAD_SMALL_INT_def op_LOAD_ATTR_def
  by (rule safe_bind_ret safe_handlers safe_intros | (simp split: option.splits; fail)
      | (auto intro!: covered_subset split: option.splits; fail)
      | (simp only: prod.case) | (rule safe_ret; auto; fail)
      | (simp, rule covered_flatten, blast))+

lemma safe_constants_3 [safe_handlers]:
  "safe K (op_LOAD_FAST i) (\<lambda>_. {})"
  "safe K (op_LOAD_FAST_LOAD_FAST i) (\<lambda>_. {})"
  "safe K (op_STORE_FAST_LOAD_FAST i) (\<lambda>_. {})"
  "safe K (op_STORE_FAST_STORE_FAST i) (\<lambda>_. {})"
  "safe K (op_DELETE_ATTR i) (\<lambda>_. {})"
  "safe K (op_STORE_ATTR i) (\<lambda>_. {})"
  "safe K (op_STORE_DEREF i) (\<lambda>_. {})"
  "safe K (op_STORE_FAST i) (\<lambda>_. {})"
  unfolding op_LOAD_FAST_def op_LOAD_FAST_LOAD_FAST_def op_STORE_FAST_LOAD_FAST_def
    op_STORE_FAST_STORE_FAST_def op_DELETE_ATTR_def op_STORE_ATTR_def op_STORE_DEREF_def
    op_STORE_FAST_def
  by (rule safe_bind_ret safe_handlers safe_intros | (simp split: option.splits; fail)
      | (auto intro!: covered_subset split: option.splits; fail)
      | (simp only: prod.case) | (rule safe_ret; auto; fail)
      | (simp, rule covered_flatten, blast))+

section \<open>Slices and subscripts\<close>

lemma safe_slices_1 [safe_handlers]:
  "safe K (op_SLICE_1 i) (\<lambda>_. {})"
  "safe K (op_SLICE_2 i) (\<lambda>_. {})"
  "safe K (op_SLICE_3 i) (\<lambda>_. {})"
  "safe K (op_STORE_SLICE_0 i) (\<lambda>_. {})"
  "safe K (op_STORE_SLICE_1 i) (\<lambda>_. {})"
  "safe K (op_STORE_SLICE_2 i) (\<lambda>_. {})"
  "safe K (op_STORE_SLICE_3 i) (\<lambda>_. {})"
  "safe K (op_DELETE_SLICE_0 i) (\<lambda>_. {})"
  "safe K (op_DELETE_SLICE_1 i) (\<lambda>_. {})"
  "safe K (op_DELETE_SLICE_2 i) (\<lambda>_. {})"
  "safe K (op_DELETE_SLICE_3 i) (\<lambda>_. {})"
  "safe K (op_BUILD_SLICE i) (\<lambda>_. {})"
  unfolding op_SLICE_1_def op_SLICE_2_def op_SLICE_3_def op_STORE_SLICE_0_def op_STORE_SLICE_1_def
    op_STORE_SLICE_2_def op_STORE_SLICE_3_def op_DELETE_SLICE_0_def op_DELETE_SLICE_1_def
    op_DELETE_SLICE_2_def op_DELETE_SLICE_3_def op_BUILD_SLICE_def
  by (rule safe_bind_ret safe_handlers safe_intros | (simp split: option.splits; fail)
      | (auto intro!: covered_subset split: option.splits; fail)
      | (simp only: prod.case) | (rule safe_ret; auto; fail)
      | (simp, rule covered_flatten, blast))+

lemma safe_slices_2 [safe_handlers]:
  "safe K (op_BINARY_SLICE i) (\<lambda>_. {})"
  "safe K (op_STORE_SLICE i) (\<lambda>_. {})"
  "safe K (op_BINARY_SUBSCR i) (\<lambda>_. {})"
  "safe K (op_STORE_SUBSCR i) (\<lambda>_. {})"
  "safe K (op_DELETE_SUBSCR i) (\<lambda>_. {})"
  unfolding op_BINARY_SLICE_def op_STORE_SLICE_def op_BINARY_SUBSCR_def op_STORE_SUBSCR_def
    op_DELETE_SUBSCR_def
  by (rule safe_bind_ret safe_handlers safe_intros | (simp split: option.splits; fail)
      | (auto intro!: covered_subset split: option.splits; fail)
      | (simp only: prod.case) | (rule safe_ret; auto; fail)
      | (simp, rule covered_flatten, blast))+

section \<open>Jumps, returns and exceptions\<close>

lemma safe_jumps_1 [safe_handlers]:
  "safe K (op_POP_JUMP_IF i) (\<lambda>_. {})"
  "safe K (op_JUMP_IF_OR_POP i) (\<lambda>_. {})"
  "safe K (op_JUMP_FORWARD i) (\<lambda>_. {})"
  "safe K (op_JUMP_BACKWARD i) (\<lambda>_. {})"
  "safe K (op_JUMP_ABSOLUTE i) (\<lambda>_. {})"
  "safe K (op_BREAK_LOOP i) (\<lambda>_. {})"
  "safe K (op_RETURN_VALUE i) (\<lambda>_. {})"
  "safe K (op_RETURN_CONST i) (\<lambda>_. {})"
  "safe K (op_YIELD_VALUE i) (\<lambda>_. {})"
  "safe K (op_RAISE_VARARGS_311 i) (\<lambda>_. {})"
  "safe K (op_RAISE_VARARGS_310 i) (\<lambda>_. {})"
  "safe K (op_BEGIN_FINALLY i) (\<lambda>_. {})"
  unfolding op_POP_JUMP_IF_def op_JUMP_IF_OR_POP_def op_JUMP_FORWARD_def op_JUMP_BACKWARD_def
    op_JUMP_ABSOLUTE_def op_BREAK_LOOP_def op_RETURN_VALUE_def op_RETURN_CONST_def
    op_YIELD_VALUE_def op_RAISE_VARARGS_311_def op_RAISE_VARARGS_310_def
    op_BEGIN_FINALLY_def
  by (rule safe_bind_ret safe_handlers safe_intros | (simp split: option.splits; fail)
      | (auto intro!: covered_subset split: option.splits; fail)
      | (simp only: prod.case) | (rule safe_ret; auto; fail)
      | (simp, rule covered_flatten, blast))+

lemma safe_jumps_2 [safe_handlers]:
  "safe K (op_END_FINALLY i) (\<lambda>_. {})"
  "safe K (op_END_FOR_313 i) (\<lambda>_. {})"
  "safe K (op_END_FOR_312 i) (\<lambda>_. {})"
  "safe K (op_POP_FINALLY i) (\<lambda>_. {})"
  "safe K (op_CALL_FINALLY i) (\<lambda>_. {})"
  "safe K (op_WITH_EXCEPT_START i) (\<lambda>_. {})"
  "safe K (op_SETUP_LOOP i) (\<lambda>_. {})"
  "safe K (op_BEFORE_WITH i) (\<lambda>_. {})"
  "safe K (op_SETUP_WITH i) (\<lambda>_. {})"
  "safe K (op_PUSH_EXC_INFO i) (\<lambda>_. {})"
  "safe K (op_SETUP_FINALLY i) (\<lambda>_. {})"
  "safe K (op_POP_EXCEPT_311 i) (\<lambda>_. {})"
  unfolding op_END_FINALLY_def op_END_FOR_313_def op_END_FOR_312_def op_POP_FINALLY_def
    op_CALL_FINALLY_def op_WITH_EXCEPT_START_def op_SETUP_LOOP_def op_BEFORE_WITH_def
    op_SETUP_WITH_def op_PUSH_EXC_INFO_def op_SETUP_FINALLY_def op_POP_EXCEPT_311_def
  by (rule safe_bind_ret safe_handlers safe_intros | (simp split: option.splits; fail)
      | (auto intro!: covered_subset split: option.splits; fail)
      | (simp only: prod.case) | (rule safe_ret; auto; fail)
      | (simp, rule covered_flatten, blast))+

lemma safe_jumps_3 [safe_handlers]:
  "safe K (op_POP_EXCEPT_310 i) (\<lambda>_. {})"
  "safe K (op_POP_BLOCK i) (\<lambda>_. {})"
  unfolding op_POP_EXCEPT_310_def op_POP_BLOCK_def
  by (rule safe_bind_ret safe_handlers safe_intros | (simp split: option.splits; fail)
      | (auto intro!: covered_subset split: option.splits; fail)
      | (simp only: prod.case) | (rule safe_ret; auto; fail)
      | (simp, rule covered_flatten, blast))+

section \<open>Calls and functions\<close>

lemma safe_calls_1 [safe_handlers]:
  "safe K (op_CALL_313 i) (\<lambda>_. {})"
  "safe K (op_CALL_312 i) (\<lambda>_. {})"
  "safe K (op_KW_NAMES i) (\<lambda>_. {})"
  "safe K (op_CALL_FUNCTION i) (\<lambda>_. {})"
  "safe K (op_CALL_FUNCTION_KW i) (\<lambda>_. {})"
  "safe K (op_CALL_KW i) (\<lambda>_. {})"
  "safe K (op_CALL_FUNCTION_EX_314 i) (\<lambda>_. {})"
  "safe K (op_CALL_FUNCTION_EX_313 i) (\<lambda>_. {})"
  "safe K (op_CALL_FUNCTION_EX_312 i) (\<lambda>_. {})"
  "safe K (op_CALL_INTRINSIC_1 i) (\<lambda>_. {})"
  "safe K (op_DUP_TOPX i) (\<lambda>_. {})"
  "safe K (op_DUP_TOP i) (\<lambda>_. {})"
  unfolding op_CALL_313_def op_CALL_312_def op_KW_NAMES_def op_CALL_FUNCTION_def
    op_CALL_FUNCTION_KW_def op_CALL_KW_def op_CALL_FUNCTION_EX_314_def
    op_CALL_FUNCTION_EX_313_def op_CALL_FUNCTION_EX_312_def op_CALL_INTRINSIC_1_def
    op_DUP_TOPX_def op_DUP_TOP_def
  by (rule safe_bind_ret safe_handlers safe_intros | (simp split: option.splits; fail)
      | (auto intro!: covered_subset split: option.splits; fail)
      | (simp only: prod.case) | (rule safe_ret; auto; fail)
      | (simp, rule covered_flatten, blast))+

lemma safe_calls_2 [safe_handlers]:
  "safe K (op_DUP_TOP_TWO i) (\<lambda>_. {})"
  "safe K (op_COPY i) (\<lambda>_. {})"
  "safe K (op_SWAP i) (\<lambda>_. {})"
  "safe K (op_ROT_TWO i) (\<lambda>_. {})"
  "safe K (op_ROT_THREE i) (\<lambda>_. {})"
  "safe K (op_ROT_FOUR i) (\<lambda>_. {})"
  unfolding op_DUP_TOP_TWO_def op_COPY_def op_SWAP_def op_ROT_TWO_def op_ROT_THREE_def
    op_ROT_FOUR_def
  by (rule safe_bind_ret safe_handlers safe_intros | (simp split: option.splits; fail)
      | (auto intro!: covered_subset split: option.splits; fail)
      | (simp only: prod.case) | (rule safe_ret; auto; fail)
      | (simp, rule covered_flatten, blast))+

section \<open>Containers and iteration\<close>

lemma safe_containers_1 [safe_handlers]:
  "safe K (op_UNPACK_SEQUENCE i) (\<lambda>_. {})"
  "safe K (op_BUILD_TUPLE i) (\<lambda>_. {})"
  "safe K (build_tuple_unpack i) (\<lambda>_. {})"
  "safe K (op_LIST_TO_TUPLE i) (\<lambda>_. {})"
  "safe K (op_BUILD_CONST_KEY_MAP i) (\<lambda>_. {})"
  "safe K (op_BUILD_LIST i) (\<lambda>_. {})"
  "safe K (op_LIST_APPEND i) (\<lambda>_. {})"
  "safe K (op_LIST_EXTEND i) (\<lambda>_. {})"
  "safe K (op_BUILD_MAP i) (\<lambda>_. {})"
  "safe K (op_MAP_ADD i) (\<lambda>_. {})"
  "safe K (op_BUILD_SET i) (\<lambda>_. {})"
  "safe K (op_SET_ADD i) (\<lambda>_. {})"
  unfolding op_UNPACK_SEQUENCE_def op_BUILD_TUPLE_def build_tuple_unpack_def op_LIST_TO_TUPLE_def
    op_BUILD_CONST_KEY_MAP_def op_BUILD_LIST_def op_LIST_APPEND_def op_LIST_EXTEND_def
    op_BUILD_MAP_def op_MAP_ADD_def op_BUILD_SET_def op_SET_ADD_def
  by (rule safe_bind_ret safe_handlers safe_intros | (simp split: option.splits; fail)
      | (auto intro!: covered_subset split: option.splits; fail)
      | (simp only: prod.case) | (rule safe_ret; auto; fail)
      | (simp, rule covered_flatten, blast))+

lemma safe_containers_2 [safe_handlers]:
  "safe K (op_SET_UPDATE i) (\<lambda>_. {})"
  "safe K (op_DICT_UPDATE i) (\<lambda>_. {})"
  "safe K (op_GET_ITER i) (\<lambda>_. {})"
  "safe K (op_FOR_ITER i) (\<lambda>_. {})"
  "safe K (op_GEN_START i) (\<lambda>_. {})"
  unfolding op_SET_UPDATE_def op_DICT_UPDATE_def op_GET_ITER_def op_FOR_ITER_def op_GEN_START_def
  by (rule safe_bind_ret safe_handlers safe_intros | (simp split: option.splits; fail)
      | (auto intro!: covered_subset split: option.splits; fail)
      | (simp only: prod.case) | (rule safe_ret; auto; fail)
      | (simp, rule covered_flatten, blast))+

section \<open>Operators\<close>

lemma safe_operators_1 [safe_handlers]:
  "safe K (unaryop i) (\<lambda>_. {})"
  "safe K (binaryop i) (\<lambda>_. {})"
  unfolding unaryop_def binaryop_def
  by (rule safe_bind_ret safe_handlers safe_intros | (simp split: option.splits; fail)
      | (auto intro!: covered_subset split: option.splits; fail)
      | (simp only: prod.case) | (rule safe_ret; auto; fail)
      | (simp, rule covered_flatten, blast))+

section \<open>Functions, imports of constants and context managers\<close>

lemma safe_functions_1 [safe_handlers]:
  "safe K (op_SET_FUNCTION_ATTRIBUTE i) (\<lambda>_. {})"
  "safe K (op_LOAD_CLOSURE i) (\<lambda>_. {})"
  "safe K (op_LOAD_ASSERTION_ERROR i) (\<lambda>_. {})"
  "safe K (op_CHECK_EXC_MATCH i) (\<lambda>_. {})"
  "safe K (op_JUMP_IF_NOT_EXC_MATCH i) (\<lambda>_. {})"
  "safe K (op_RERAISE_311 i) (\<lambda>_. {})"
  "safe K (op_RERAISE_310 i) (\<lambda>_. {})"
  "safe K (op_LOAD_METHOD_311 i) (\<lambda>_. {})"
  "safe K (op_LOAD_SPECIAL i) (\<lambda>_. {})"
  "safe K (op_LOAD_COMMON_CONSTANT i) (\<lambda>_. {})"
  unfolding op_SET_FUNCTION_ATTRIBUTE_def op_LOAD_CLOSURE_def op_LOAD_ASSERTION_ERROR_def
    op_CHECK_EXC_MATCH_def op_JUMP_IF_NOT_EXC_MATCH_def op_RERAISE_311_def
    op_RERAISE_310_def op_LOAD_METHOD_311_def op_LOAD_SPECIAL_def
    op_LOAD_COMMON_CONSTANT_def
  by (rule safe_bind_ret safe_handlers safe_intros | (simp split: option.splits; fail)
      | (auto intro!: covered_subset split: option.splits; fail)
      | (simp only: prod.case) | (rule safe_ret; auto; fail)
      | (simp, rule covered_flatten, blast))+

section \<open>The whole dispatch\<close>

abbreviation quad_regs ::
  "string option \<times> string option \<times> string option \<times> string option \<Rightarrow> string set" where
  "quad_regs q \<equiv> set_option (fst q) \<union> set_option (fst (snd q))
     \<union> set_option (fst (snd (snd q))) \<union> set_option (snd (snd (snd q)))"

lemma safe_function_attrs [safe_handlers]: "safe K (function_attrs i py) quad_regs"
  unfolding function_attrs_def
  by (rule safe_if safe_handlers safe_intros | (rule safe_ret; auto; fail)
      | (simp, rule covered_flatten, blast))+

lemma safe_make_function [safe_handlers]: "safe K (op_MAKE_FUNCTION i) (\<lambda>_. {})"
  unfolding op_MAKE_FUNCTION_def
  by (rule safe_handlers safe_intros
      | (simp split: option.splits; fail) | (auto intro: belongs_self split: option.splits; fail))+

lemma safe_binary_op [safe_handlers]: "safe K (op_BINARY_OP i) (\<lambda>_. {})"
  unfolding op_BINARY_OP_def
  by (rule safe_bind_index safe_handlers safe_intros
      | (simp add: nb_ops_labels split: option.splits; fail))+

lemma handlers_safe:
  assumes "op_handler py name = Some h"
  shows "safe K (h i) (\<lambda>_. {})"
proof -
  have "list_all (\<lambda>e. safe K (snd (snd (snd e)) i) (\<lambda>_. {})) op_entries"
    unfolding op_entries_def by (simp only: list.pred_inject prod.sel safe_handlers simp_thms)
  then show ?thesis
    using assms by (auto simp: op_handler_def list_all_iff dest!: find_mem)
qed

lemma safe_dispatch: "safe K dispatch (\<lambda>_. {})"
  unfolding dispatch_def
  by (rule safe_pop_ended_blocks safe_seq safe_bind safe_get_inst safe_version safe_option safe_raise
        handlers_safe | assumption)+

end
