(* ===== verification/Flow.thy ===== *)
theory Flow
  imports TraceSafe CFGraph
begin

text \<open>
  The trace over a whole function: class \<open>Flow\<close> of \<open>numba_cuda/core/byteflow.py\<close>. Each state
  traces one basic block until it terminates; its outgoing edges become new pending states.
  Afterwards the control flow graph is built, unused phi nodes are pruned and the block infos
  collected. \<open>None\<close> is a loop that does not return.

  The set of finished states is a list without duplicates by identity; the theorems hold for
  the order in which the states finish.
\<close>

section \<open>Tracing one block\<close>

definition no_raise_ops :: "string list" where
  "no_raise_ops = [''LOAD_CONST'', ''NOP'', ''LOAD_DEREF'', ''PRECALL'']"

definition new_blockers :: "nat \<Rightarrow> string list" where
  "new_blockers py =
     [''SETUP_LOOP'', ''FOR_ITER'', ''SETUP_WITH'', ''BEFORE_WITH'']
     @ (if 14 \<le> py then [''LOAD_SPECIAL''] else [])"

text \<open>
  \<open>_run_handle_exception\<close> answers whether the block ends here. From 3.11 the exception table
  decides where a try block starts; before, \<open>SETUP_FINALLY\<close> does.
\<close>

definition enter_try_block :: "eh_entry \<Rightarrow> bool trace" where
  "enter_try_block eh =
     bindT (getT (get_top_block TRY)) (\<lambda>eh_top.
       if map_option b_end eh_top = Some (Some (eh_target eh)) then retT False
       else bindT (make_block TRY (Some (eh_target eh)) True None) (\<lambda>blk.
            bindT (getT pc) (\<lambda>here.
            seqT (fork here 0 0 (Some (Synblk (b_kind blk) (b_end blk) (b_entry_stack blk)
                    (Some (eh_depth eh)) (b_handler blk) (Some (eh_end eh)) (Some (eh_lasti eh)))))
              (retT True))))"

definition handle_exception_311 :: "bool trace" where
  "handle_exception_311 =
     bindT get_inst (\<lambda>inst.
     bindT (getT (\<lambda>s. \<not> in_with s \<and> has_active_try s \<and> i_opname inst \<notin> set no_raise_ops)) (\<lambda>raises.
       if raises then seqT (fork_to (i_next inst)) (seqT adjust_except_stack (retT True))
       else seqT advance_pc (
         bindT (getT (\<lambda>s. if in_with s then None else get_exception s)) (\<lambda>eh.
           case eh of None \<Rightarrow> retT False | Some e \<Rightarrow> enter_try_block e))))"

definition handler_npush :: "synblk option \<Rightarrow> nat res" where
  "handler_npush h =
     (case h of
        None \<Rightarrow> Inl TypeError
      | Some b \<Rightarrow> if b_kind b = EXCEPT \<or> b_kind b = FINALLY then Inr 6 else Inl KeyError)"

definition raise_to_handler_310 :: "inst \<Rightarrow> unit trace" where
  "raise_to_handler_310 inst =
     seqT (fork_to (i_next inst)) (
     bindT (getT (get_top_block TRY)) (\<lambda>blk. case blk of
         None \<Rightarrow> raiseT ValueError
       | Some tryblk \<Rightarrow>
           seqT (pop_block_and_above tryblk) (
           bindT (getT (\<lambda>s. length (stack s))) (\<lambda>nstack.
           bindT (liftT (handler_npush (b_handler tryblk))) (\<lambda>npush.
             case b_end tryblk of
               None \<Rightarrow> raiseT TypeError
             | Some e \<Rightarrow>
                 fork e (nstack - b_entry_stack tryblk) npush (b_handler tryblk))))))"

definition handle_exception_310 :: "bool trace" where
  "handle_exception_310 =
     bindT get_inst (\<lambda>inst.
     bindT (getT (\<lambda>s. has_active_try s \<and> i_opname inst \<notin> set no_raise_ops)) (\<lambda>raises.
       if raises then seqT (raise_to_handler_310 inst) (retT True)
       else seqT advance_pc (retT False)))"

definition run_handle_exception :: "bool trace" where
  "run_handle_exception =
     bindT version (\<lambda>py. if 11 \<le> py then handle_exception_311 else handle_exception_310)"

definition is_implicit_new_block :: "bool trace" where
  "is_implicit_new_block =
     bindT get_inst (\<lambda>inst. getT (\<lambda>s.
       i_offset inst \<in> set (c_labels (bytecode s))
       \<or> i_opname inst \<in> set (new_blockers (c_py (bytecode s)))))"

definition guard_with_as :: "unit trace" where
  "guard_with_as =
     bindT version (\<lambda>py.
       if 14 \<le> py then retT ()
       else if py < 10 then raiseT NotImplementedError
       else bindT get_inst (\<lambda>inst.
         if i_opname inst \<in> {''SETUP_WITH'', ''BEFORE_WITH''}
         then bindT (getT (\<lambda>s. c_table (bytecode s))) (\<lambda>table.
              bindT (liftT (dget table (i_next inst))) (\<lambda>nxt.
                if i_opname nxt \<noteq> ''POP_TOP'' then raiseT UnsupportedError else retT ()))
         else retT ()))"

text \<open>One iteration of the inner loop; the value says whether to leave it.\<close>

definition trace_step :: "bool trace" where
  "trace_step =
     seqT dispatch (
     bindT (getT terminated) (\<lambda>fin.
       if fin then retT True
       else bindT run_handle_exception (\<lambda>ends.
         if ends then retT True
         else bindT is_implicit_new_block (\<lambda>implicit.
           if implicit then seqT guard_with_as (seqT split_new_block (retT True))
           else retT False))))"

partial_function (option) trace_block :: "tstate \<Rightarrow> tstate res option" where
  "trace_block s =
     (case trace_step s of
        Inl e \<Rightarrow> Some (Inl e)
      | Inr r \<Rightarrow> if fst r then Some (Inr (snd r)) else trace_block (snd r))"

declare trace_block.simps [code]

section \<open>The trace runner\<close>

definition identity :: "tstate \<Rightarrow> int \<times> nat" where
  "identity s = (pc_initial s, nstack_initial s)"

record runner =
  pending :: "tstate list"
  finished :: "tstate list"
  first_encounter :: "int list"

definition add_finished :: "tstate \<Rightarrow> tstate list \<Rightarrow> tstate list" where
  "add_finished s fs = (if identity s \<in> identity ` set fs then fs else fs @ [s])"

text \<open>
  One iteration of the outer loop. \<open>finished\<close> holds the state object itself, so the outgoing
  phis that \<open>get_outgoing_states\<close> stores are seen there.
\<close>

definition run_step :: "tstate \<Rightarrow> runner \<Rightarrow> runner res option" where
  "run_step s r =
     (if identity s \<in> identity ` set (finished r) then Some (Inr r)
      else if pc_initial s \<in> set (first_encounter r) then Some (Inl AssertionError)
      else case trace_block s of
        None \<Rightarrow> None
      | Some (Inl e) \<Rightarrow> Some (Inl e)
      | Some (Inr s') \<Rightarrow>
          (case get_outgoing_states s' of
             Inl e \<Rightarrow> Some (Inl e)
           | Inr (out, s'') \<Rightarrow>
               Some (Inr (r\<lparr>pending := pending r @ out, finished := add_finished s'' (finished r),
                            first_encounter := first_encounter r @ [pc_initial s]\<rparr>))))"

partial_function (option) run_loop :: "runner \<Rightarrow> runner res option" where
  "run_loop r =
     (case pending r of
        [] \<Rightarrow> Some (Inr r)
      | s # rest \<Rightarrow>
          (case run_step s (r\<lparr>pending := rest\<rparr>) of
             None \<Rightarrow> None
           | Some (Inl e) \<Rightarrow> Some (Inl e)
           | Some (Inr r') \<Rightarrow> run_loop r'))"

declare run_loop.simps [code]

definition first_runner :: "code \<Rightarrow> runner res" where
  "first_runner bc =
     bindE (new_state bc 0 0 [] []) (\<lambda>s. Inr \<lparr>pending = [s], finished = [], first_encounter = []\<rparr>)"

definition trace_all :: "code \<Rightarrow> runner res option" where
  "trace_all bc = (case first_runner bc of Inl e \<Rightarrow> Some (Inl e) | Inr r \<Rightarrow> run_loop r)"

section \<open>The control flow graph\<close>

definition add_state_edges :: "tstate \<Rightarrow> (int, int) cfgraph \<Rightarrow> (int, int) cfgraph res" where
  "add_state_edges s g = foldE (\<lambda>e. add_edge (pc_initial s) (e_pc e) 0) (outedges s) g"

definition build_cfg :: "tstate list \<Rightarrow> (int, int) cfgraph res option" where
  "build_cfg all_states =
     (case foldE add_state_edges all_states
             (fold (\<lambda>s. add_node (pc_initial s)) all_states new_cfgraph) of
        Inl e \<Rightarrow> Some (Inl e)
      | Inr g \<Rightarrow>
          (case set_entry_point 0 g of Inl e \<Rightarrow> Some (Inl e) | Inr g' \<Rightarrow> process g'))"

section \<open>Block infos\<close>

record block_info =
  bi_insts :: "(int \<times> kwargs) list"
  bi_outgoing_phis :: "(string, string) dict"
  bi_blockstack :: "synblk list"
  bi_active_try_block :: "synblk option"
  bi_outgoing_edgepushed :: "(int, string list) dict"

definition dupdate :: "('k, 'v) dict \<Rightarrow> ('k, 'v) dict \<Rightarrow> ('k, 'v) dict" where
  "dupdate d extra = fold (\<lambda>(k, v). dset k v) extra d"

definition process_function_attributes :: "tstate \<Rightarrow> int \<times> kwargs \<Rightarrow> (int \<times> kwargs) res" where
  "process_function_attributes s p =
     bindE (dget (c_table (bytecode s)) (fst p)) (\<lambda>inst.
       if i_opname inst = ''MAKE_FUNCTION'' then
         bindE (dget (snd p) ''res'') (\<lambda>res.
           case res of
             VStr r \<Rightarrow> Inr (fst p, dupdate (snd p) (get_function_attributes r s))
           | _ \<Rightarrow> Inr p)
       else Inr p)"

definition adapt_state_infos :: "tstate \<Rightarrow> block_info res" where
  "adapt_state_infos s =
     bindE (if 13 \<le> c_py (bytecode s) then mapE (process_function_attributes s) (insts s)
            else Inr (insts s)) (\<lambda>is.
       Inr \<lparr>bi_insts = is, bi_outgoing_phis = outgoing_phis s, bi_blockstack = blockstack_initial s,
            bi_active_try_block = find_initial_try_block s,
            bi_outgoing_edgepushed = get_outgoing_edgepushed s\<rparr>)"

definition collect_infos :: "tstate list \<Rightarrow> (int, block_info) dict res" where
  "collect_infos fs =
     foldE (\<lambda>s d. bindE (adapt_state_infos s) (\<lambda>si. unique_set (pc_initial s) si d))
       (sort_key pc_initial fs) []"

end
