(* ===== verification/FlowProps.thy ===== *)
theory FlowProps
  imports Flow
begin

text \<open>
  Properties of the trace: names of registers are distinct, one block and the whole trace
  return, and what holds of the finished states.
\<close>

section \<open>Register names\<close>

lemma numbered_suffix:
  "rev (takeWhile is_digit (rev (p @ ''.'' @ show_nat k))) = show_nat k"
proof -
  have "takeWhile is_digit (rev (show_nat k) @ CHR ''.'' # rev p) = rev (show_nat k)"
    by (subst takeWhile_append2)
       (auto simp: is_digit_def dest: show_nat_digits)
  then show ?thesis by simp
qed

lemma numbered_inject: "p @ ''.'' @ show_nat i = q @ ''.'' @ show_nat j \<Longrightarrow> i = j"
  by (metis numbered_suffix show_nat_inject)

lemma numbered_distinct: "numbered ts \<Longrightarrow> distinct ts"
  unfolding distinct_conv_nth numbered_def by (metis numbered_inject)

lemma temp_name_inject: "temp_name p a n i = temp_name q b m j \<Longrightarrow> i = j"
  using numbered_inject[of "''$'' @ p @ show_int a @ n" i "''$'' @ q @ show_int b @ m" j]
  by (simp add: temp_name_def)

section \<open>New states\<close>

definition phi_name :: "nat list \<Rightarrow> int \<Rightarrow> nat \<Rightarrow> string" where
  "phi_name nullvals p i = temp_name (if i \<in> set nullvals then ''null$'' else ''phi'') p [] i"

definition entry_state :: "code \<Rightarrow> int \<Rightarrow> nat \<Rightarrow> synblk list \<Rightarrow> nat list \<Rightarrow> nat \<Rightarrow> tstate" where
  "entry_state bc p n bs nv k =
     (blank_state bc p n bs)\<lparr>stack := map (phi_name nv p) [0..<k],
        temp_registers := map (phi_name nv p) [0..<k],
        phis := map (\<lambda>i. (phi_name nv p i, i)) [0..<k]\<rparr>"

lemma phi_name_inject [simp]: "phi_name nv p i = phi_name nv p j \<longleftrightarrow> i = j"
  by (auto simp: phi_name_def dest: temp_name_inject)

lemma dset_new: "k \<notin> fst ` set d \<Longrightarrow> dset k v d = d @ [(k, v)]"
  by (induction d) auto

lemma forT_snoc: "forT (xs @ [x]) f s = bindT (forT xs f) (\<lambda>_. f x) s"
  by (induction xs arbitrary: s)
     (auto simp: seqT_def bindT_def retT_def split: sum.splits)

lemma add_phi_entry:
  "add_phi nv k (entry_state bc p n bs nv k) = Inr ((), entry_state bc p n bs nv (Suc k))"
proof -
  have "phi_name nv p k \<notin> fst ` set (map (\<lambda>i. (phi_name nv p i, i)) [0..<k])" by auto
  note new = dset_new[OF this]
  show ?thesis
    by (simp add: add_phi_def make_temp_def new_temp_def bindT_def seqT_def modifyT_def push_def
        entry_state_def blank_state_def phi_name_def[symmetric] new split: if_split)
qed

lemma new_state_entry: "new_state bc p n bs nv = Inr (entry_state bc p n bs nv n)"
proof -
  have "forT [0..<k] (add_phi nv) (blank_state bc p n bs) = Inr ((), entry_state bc p n bs nv k)" for k
  proof (induction k)
    case 0
    show ?case by (simp add: retT_def entry_state_def blank_state_def)
  next
    case (Suc k)
    then show ?case by (simp add: forT_snoc bindT_def add_phi_entry del: upt_Suc add: upt_Suc_append)
  qed
  then show ?thesis by (simp add: new_state_def)
qed

lemma entry_state_sel [simp]:
  "bytecode (entry_state bc p n bs nv k) = bc" "pc_initial (entry_state bc p n bs nv k) = p"
  "pc (entry_state bc p n bs nv k) = p" "nstack_initial (entry_state bc p n bs nv k) = n"
  "phis (entry_state bc p n bs nv k) = map (\<lambda>i. (phi_name nv p i, i)) [0..<k]"
  "outgoing_phis (entry_state bc p n bs nv k) = []"
  "outedges (entry_state bc p n bs nv k) = []"
  by (simp_all add: entry_state_def blank_state_def)

lemma entry_state_ok: "state_ok (entry_state bc p n bs nv k)"
proof (rule state_okI)
  let ?s = "entry_state bc p n bs nv k"
  show "numbered (temp_registers ?s)"
    unfolding numbered_def entry_state_def phi_name_def using temp_name_number by simp
  show "set (stack ?s) \<subseteq> known ?s"
    by (auto simp: entry_state_def known_def intro: belongs_self)
qed (simp_all add: entry_state_def blank_state_def regs_of_insts_def attr_regs_def opt_regs_def)

section \<open>One block\<close>

lemma safe_run_handle_exception: "safe K run_handle_exception (\<lambda>_. {})"
  unfolding run_handle_exception_def handle_exception_311_def handle_exception_310_def
    raise_to_handler_310_def enter_try_block_def
  by (rule safe_handlers safe_intros)+

lemma safe_is_implicit: "safe K is_implicit_new_block (\<lambda>_. {})"
  unfolding is_implicit_new_block_def by (rule safe_intros)+

lemma safe_guard_with_as: "safe K guard_with_as (\<lambda>_. {})"
  unfolding guard_with_as_def by (rule safe_intros)+

lemma safe_trace_step: "safe K trace_step (\<lambda>_. {})"
  unfolding trace_step_def
  by (rule safe_dispatch safe_run_handle_exception safe_is_implicit safe_guard_with_as safe_intros)+

lemma trace_step_keeps:
  assumes "state_ok s" and "trace_step s = Inr (b, s')"
  shows "state_ok s'" "extends s s'"
  using safeD[OF safe_trace_step[of "{}"] assms(1) _ assms(2)] by auto

text \<open>A step that stays in the block has moved to a later instruction of the table.\<close>

lemma bindT_Inr:
  "bindT m f s = Inr (y, t) \<longleftrightarrow> (\<exists>x u. m s = Inr (x, u) \<and> f x u = Inr (y, t))"
  by (auto simp: bindT_def split: sum.splits)

lemma seqT_Inr:
  "seqT m k s = Inr (y, t) \<longleftrightarrow> (\<exists>u. m s = Inr ((), u) \<and> k u = Inr (y, t))"
  by (auto simp: seqT_def bindT_Inr)

lemma retT_Inr: "retT x s = Inr (y, t) \<longleftrightarrow> y = x \<and> t = s"
  by (auto simp: retT_def)

lemma getT_Inr: "getT f s = Inr (y, t) \<longleftrightarrow> y = f s \<and> t = s"
  by (auto simp: getT_def)

lemma dispatch_in_table:
  assumes "dispatch s = Inr (x, t)"
  shows "pc s \<in> dom (map_of (c_table (bytecode s)))"
proof -
  obtain u v where "pop_ended_blocks s = Inr ((), u)" and "get_inst u = Inr v"
    using assms by (auto simp: dispatch_def seqT_Inr bindT_Inr)
  then have "pc u = pc s \<and> bytecode u = bytecode s" and "pc u \<in> dom (map_of (c_table (bytecode u)))"
    by (auto simp: pop_ended_blocks_def modifyT_def get_inst_def liftT_def dget_def
             split: if_splits option.splits sum.splits)
  then show ?thesis by simp
qed

lemma advance_pc_later:
  assumes "forward_code (bytecode s)" and "advance_pc s = Inr (x, t)"
  shows "pc s < pc t"
  using assms
  by (auto simp: advance_pc_def bindT_Inr get_inst_def liftT_def dget_def modifyT_def forward_code_def
           split: option.splits)

definition after_advance :: "nat \<Rightarrow> bool trace" where
  "after_advance py =
     (if 11 \<le> py then
        bindT (getT (\<lambda>s. if in_with s then None else get_exception s)) (\<lambda>eh.
          case eh of None \<Rightarrow> retT False | Some e \<Rightarrow> enter_try_block e)
      else retT False)"

lemma safe_after_advance: "safe K (after_advance py) (\<lambda>_. {})"
  unfolding after_advance_def enter_try_block_def by (rule safe_intros)+

lemma leaves_or_advances:
  assumes "(if raises then seqT m (seqT m' (retT True)) else seqT advance_pc k) s = Inr (False, t)"
  shows "\<exists>u. advance_pc s = Inr ((), u) \<and> k u = Inr (False, t)"
  using assms by (cases raises) (auto simp: seqT_Inr retT_Inr)

lemma handle_exception_advances:
  assumes "run_handle_exception s = Inr (False, t)"
  shows "\<exists>u. advance_pc s = Inr ((), u) \<and> after_advance (c_py (bytecode s)) u = Inr (False, t)"
proof -
  have run: "(if 11 \<le> c_py (bytecode s) then handle_exception_311 else handle_exception_310) s
      = Inr (False, t)"
    using assms by (simp add: run_handle_exception_def version_def bindT_def getT_def)
  then obtain i where i: "get_inst s = Inr (i, s)"
    by (cases "dget (c_table (bytecode s)) (pc s)")
       (auto simp: handle_exception_311_def handle_exception_310_def bindT_def get_inst_def liftT_def
             split: if_splits)
  show ?thesis
  proof (cases "11 \<le> c_py (bytecode s)")
    case True
    let ?raises = "\<not> in_with s \<and> has_active_try s \<and> i_opname i \<notin> set no_raise_ops"
    have "handle_exception_311 s = (if ?raises
        then seqT (fork_to (i_next i)) (seqT adjust_except_stack (retT True))
        else seqT advance_pc (after_advance (c_py (bytecode s)))) s"
      using True by (simp add: handle_exception_311_def after_advance_def bindT_def[of get_inst] i
          bindT_def[of "getT (\<lambda>s. \<not> in_with s \<and> _ s)"] getT_def)
    then show ?thesis
      using run True leaves_or_advances[of ?raises "fork_to (i_next i)" adjust_except_stack] by simp
  next
    case False
    let ?raises = "has_active_try s \<and> i_opname i \<notin> set no_raise_ops"
    have "handle_exception_310 s = (if ?raises
        then seqT (retT ()) (seqT (raise_to_handler_310 i) (retT True))
        else seqT advance_pc (after_advance (c_py (bytecode s)))) s"
      using False by (simp add: handle_exception_310_def after_advance_def bindT_def[of get_inst] i
          bindT_def[of "getT _"] getT_def seqT_def[of "retT ()"] bindT_def[of "retT ()"] retT_def[of "()"])
    then show ?thesis
      using run False leaves_or_advances[of ?raises "retT ()" "raise_to_handler_310 i"] by simp
  qed
qed

lemma handle_exception_later:
  assumes ok: "state_ok s" and fw: "forward_code (bytecode s)"
    and run: "run_handle_exception s = Inr (False, t)"
  shows "pc s < pc t"
proof -
  obtain u where adv: "advance_pc s = Inr ((), u)"
    and rest: "after_advance (c_py (bytecode s)) u = Inr (False, t)"
    using handle_exception_advances[OF run] by blast
  have "state_ok u" and "extends s u"
    using safeD[OF safe_advance_pc[of "{}"] ok _ adv] by auto
  moreover from this have "extends u t"
    using safeD[OF safe_after_advance[of "{}"] _ _ rest] by auto
  ultimately have "pc u \<le> pc t" using fw by (simp add: extends_def)
  with advance_pc_later[OF fw adv] show ?thesis by simp
qed

lemma trace_step_later:
  assumes ok: "state_ok s" and fw: "forward_code (bytecode s)" and run: "trace_step s = Inr (False, t)"
  shows "pc s \<in> dom (map_of (c_table (bytecode s))) \<and> pc s < pc t"
proof -
  obtain u v where d: "dispatch s = Inr ((), u)" and h: "run_handle_exception u = Inr (False, v)"
    and i: "is_implicit_new_block v = Inr (False, t)"
    using run by (auto simp: trace_step_def seqT_Inr bindT_Inr getT_Inr retT_Inr split: if_splits)
  have "state_ok u" "extends s u"
    using safeD[OF safe_dispatch[of "{}"] ok _ d] by auto
  then have "pc s \<le> pc u" and fu: "forward_code (bytecode u)"
    using fw by (simp_all add: extends_def)
  moreover have "pc u < pc v" using handle_exception_later[OF \<open>state_ok u\<close> fu h] .
  moreover have "v = t"
    using i by (auto simp: is_implicit_new_block_def bindT_Inr getT_Inr get_inst_def liftT_def
                     split: sum.splits)
  ultimately show ?thesis using dispatch_in_table[OF d] by simp
qed

text \<open>The offsets of the table from the program counter on: they shrink with every step.\<close>

definition offsets_left :: "tstate \<Rightarrow> int set" where
  "offsets_left s = {k \<in> dom (map_of (c_table (bytecode s))). pc s \<le> k}"

lemma finite_offsets_left [simp]: "finite (offsets_left s)"
  by (simp add: offsets_left_def finite_dom_map_of)

lemma trace_block_returns:
  assumes "state_ok s" and "forward_code (bytecode s)"
  shows "\<exists>r. trace_block s = Some r"
  using assms
proof (induction "card (offsets_left s)" arbitrary: s rule: less_induct)
  case less
  show ?case
  proof (cases "\<exists>t. trace_step s = Inr (False, t)")
    case False
    then show ?thesis
      by (subst trace_block.simps) (auto split: sum.splits)
  next
    case True
    then obtain t where run: "trace_step s = Inr (False, t)" by blast
    note keeps = trace_step_keeps[OF less.prems(1) run]
      and later = trace_step_later[OF less.prems run]
    have "bytecode t = bytecode s" using keeps(2) by (simp add: extends_def)
    with later have "offsets_left t \<subseteq> offsets_left s - {pc s}" and "pc s \<in> offsets_left s"
      by (auto simp: offsets_left_def)
    then have "offsets_left t \<subset> offsets_left s" by blast
    then have "card (offsets_left t) < card (offsets_left s)" by (simp add: psubset_card_mono)
    then have "\<exists>r. trace_block t = Some r"
      using less.hyps keeps(1) less.prems(2) \<open>bytecode t = bytecode s\<close> by simp
    with run show ?thesis by (subst trace_block.simps) simp
  qed
qed

lemma trace_block_keeps:
  assumes "trace_block s = Some (Inr t)" and "state_ok s"
  shows "state_ok t \<and> extends s t"
proof -
  have "\<forall>t. r = Inr t \<longrightarrow> state_ok s \<longrightarrow> state_ok t \<and> extends s t"
    if "trace_block s = Some r" for r
  proof (rule trace_block.raw_induct[OF _ that], intro allI impI)
    fix self s r t
    assume IH: "\<And>s r. self s = Some r
        \<Longrightarrow> \<forall>t. r = Inr t \<longrightarrow> state_ok s \<longrightarrow> state_ok t \<and> extends s t"
      and run: "(case trace_step s of Inl e \<Rightarrow> Some (Inl e)
        | Inr r \<Rightarrow> if fst r then Some (Inr (snd r)) else self (snd r)) = Some r"
      and r: "r = Inr t" and ok: "state_ok s"
    obtain b u where step: "trace_step s = Inr (b, u)"
      using run r by (auto split: sum.splits)
    note keeps = trace_step_keeps[OF ok step]
    show "state_ok t \<and> extends s t"
    proof (cases b)
      case True
      with run r step keeps show ?thesis by simp
    next
      case False
      with run r step have "self u = Some (Inr t)" by simp
      with IH keeps have "state_ok t" "extends u t" by blast+
      with keeps(2) show ?thesis using extends_trans by blast
    qed
  qed
  with assms show ?thesis by blast
qed

section \<open>Outgoing states\<close>

definition edge_entry :: "code \<Rightarrow> edge \<Rightarrow> tstate" where
  "edge_entry bc e =
     entry_state bc (e_pc e) (length (e_stack e)) (e_blockstack e) (null_positions (e_stack e))
       (length (e_stack e))"

definition phi_pairs :: "edge \<Rightarrow> (string \<times> string) list" where
  "phi_pairs e =
     map (\<lambda>i. (phi_name (null_positions (e_stack e)) (e_pc e) i, e_stack e ! i)) [0..<length (e_stack e)]"

lemma unique_set_Inr:
  "unique_set k v d = Inr d' \<longleftrightarrow> k \<notin> set (dkeys d) \<and> d' = d @ [(k, v)]"
  by (auto simp: unique_set_def map_of_eq_None_iff split: if_splits)

lemma unique_sets:
  assumes "foldE (\<lambda>(k, i) d. unique_set k (f i) d) ps d = Inr d'" and "distinct (dkeys d)"
  shows "d' = d @ map (\<lambda>(k, i). (k, f i)) ps \<and> distinct (dkeys d')"
  using assms
proof (induction ps arbitrary: d)
  case Nil
  then show ?case by simp
next
  case (Cons p ps)
  obtain k i where p: "p = (k, i)" by (cases p)
  with Cons.prems obtain d1 where "unique_set k (f i) d = Inr d1"
    and rest: "foldE (\<lambda>(k, i) d. unique_set k (f i) d) ps d1 = Inr d'"
    by (auto simp: res_simps)
  then have d1: "d1 = d @ [(k, f i)]" and "distinct (dkeys d1)"
    using Cons.prems(2) by (auto simp: unique_set_Inr)
  from Cons.IH[OF rest \<open>distinct (dkeys d1)\<close>]
  have "d' = d1 @ map (\<lambda>(k, i). (k, f i)) ps" and "distinct (dkeys d')" by blast+
  moreover from this(1) have "d' = d @ map (\<lambda>(k, i). (k, f i)) (p # ps)"
    unfolding p d1 by simp
  ultimately show ?case by blast
qed

lemma edge_state_entry: "edge_state bc e = Inr (edge_entry bc e)"
  by (simp add: edge_state_def edge_entry_def new_state_entry)

lemma outgoing_states_spec:
  assumes "outgoing_states bc es out = Inr (ret, out')" and "distinct (dkeys out)"
  shows "ret = map (edge_entry bc) es \<and> out' = out @ concat (map phi_pairs es) \<and> distinct (dkeys out')"
  using assms
proof (induction es arbitrary: out ret)
  case Nil
  then show ?case by simp
next
  case (Cons e es)
  then obtain out1 rest where m: "map_phis e (phis (edge_entry bc e)) out = Inr out1"
    and rest: "outgoing_states bc es out1 = Inr (rest, out')" and ret: "ret = edge_entry bc e # rest"
    by (auto simp: edge_state_entry res_simps)
  have "map (\<lambda>(k, i). (k, e_stack e ! i)) (phis (edge_entry bc e)) = phi_pairs e"
    by (simp add: edge_entry_def phi_pairs_def)
  with unique_sets[OF m[unfolded map_phis_def] Cons.prems(2)]
  have out1: "out1 = out @ phi_pairs e" and "distinct (dkeys out1)" by metis+
  from Cons.IH[OF rest this(2)]
  have "rest = map (edge_entry bc) es" "out' = out1 @ concat (map phi_pairs es)" "distinct (dkeys out')"
    by blast+
  moreover from this(2) have "out' = out @ concat (map phi_pairs (e # es))" unfolding out1 by simp
  ultimately show ?case using ret by simp
qed

lemma get_outgoing_spec:
  assumes "get_outgoing_states s = Inr (ret, s')"
  shows "ret = map (edge_entry (bytecode s)) (outedges s)"
    and "s' = s\<lparr>outgoing_phis := concat (map phi_pairs (outedges s))\<rparr>"
    and "distinct (dkeys (outgoing_phis s'))"
proof -
  obtain out where out: "outgoing_states (bytecode s) (outedges s) [] = Inr (ret, out)"
    and s': "s' = s\<lparr>outgoing_phis := out\<rparr>"
    using assms by (auto simp: get_outgoing_states_def res_simps split: if_splits)
  from outgoing_states_spec[OF out]
  have parts: "ret = map (edge_entry (bytecode s)) (outedges s)"
    "out = concat (map phi_pairs (outedges s))" "distinct (dkeys out)"
    by (simp, simp, metis (no_types) distinct.simps(1) list.map(1))
  show "ret = map (edge_entry (bytecode s)) (outedges s)" by (rule parts(1))
  show "s' = s\<lparr>outgoing_phis := concat (map phi_pairs (outedges s))\<rparr>"
    unfolding s' parts(2)[symmetric] ..
  show "distinct (dkeys (outgoing_phis s'))" unfolding s' using parts(3) by simp
qed

lemma state_ok_outgoing: "state_ok s \<Longrightarrow> state_ok (s\<lparr>outgoing_phis := out\<rparr>)"
  by (rule state_ok_frame) (auto simp: state_ok_def)

section \<open>The invariant of the trace\<close>

definition is_entry :: "code \<Rightarrow> tstate \<Rightarrow> bool" where
  "is_entry bc s \<longleftrightarrow> (\<exists>p n bs nv. s = entry_state bc p n bs nv n)"

text \<open>A finished state: its invariant holds and its outgoing phis are those of its edges.\<close>

definition is_finished :: "code \<Rightarrow> tstate \<Rightarrow> bool" where
  "is_finished bc s \<longleftrightarrow>
     bytecode s = bc \<and> state_ok s
   \<and> outgoing_phis s = concat (map phi_pairs (outedges s)) \<and> distinct (dkeys (outgoing_phis s))"

definition targets_in :: "tstate list \<Rightarrow> tstate list \<Rightarrow> bool" where
  "targets_in fs ts \<longleftrightarrow>
     (\<forall>s \<in> set fs. \<forall>e \<in> set (outedges s). (e_pc e, length (e_stack e)) \<in> identity ` set ts)"

lemma targets_in_mono:
  "targets_in fs ts \<Longrightarrow> identity ` set ts \<subseteq> identity ` set ts' \<Longrightarrow> targets_in fs ts'"
  unfolding targets_in_def by blast

lemma targets_in_snoc: "targets_in (fs @ [u]) ts \<longleftrightarrow> targets_in fs ts \<and> targets_in [u] ts"
  unfolding targets_in_def by auto

definition trace_edges :: "tstate list \<Rightarrow> (int \<times> int) set" where
  "trace_edges fs = {(pc_initial s, e_pc e) | s e. s \<in> set fs \<and> e \<in> set (outedges s)}"

lemma trace_edgesI:
  "u \<in> set fs \<Longrightarrow> e \<in> set (outedges u) \<Longrightarrow> (pc_initial u, e_pc e) \<in> trace_edges fs"
  unfolding trace_edges_def by blast

definition linked :: "tstate list \<Rightarrow> tstate list \<Rightarrow> bool" where
  "linked fs ts \<longleftrightarrow> (\<forall>t \<in> set ts. (0, pc_initial t) \<in> (trace_edges fs)\<^sup>*)"

lemma linked_mono: "linked fs ts \<Longrightarrow> trace_edges fs \<subseteq> trace_edges gs \<Longrightarrow> linked gs ts"
  unfolding linked_def using rtrancl_mono by blast

lemma linked_simps [simp]:
  "linked fs []"
  "linked fs (t # ts) \<longleftrightarrow> (0, pc_initial t) \<in> (trace_edges fs)\<^sup>* \<and> linked fs ts"
  "linked fs (ts @ us) \<longleftrightarrow> linked fs ts \<and> linked fs us"
  by (auto simp: linked_def)

definition run_inv :: "code \<Rightarrow> runner \<Rightarrow> bool" where
  "run_inv bc r \<longleftrightarrow>
     (\<forall>s \<in> set (pending r). is_entry bc s)
   \<and> (\<forall>s \<in> set (finished r). is_finished bc s)
   \<and> first_encounter r = map pc_initial (finished r) \<and> distinct (first_encounter r)
   \<and> targets_in (finished r) (finished r @ pending r)
   \<and> (0, 0) \<in> identity ` set (finished r @ pending r)
   \<and> linked (finished r) (finished r @ pending r)"

lemma is_entryD:
  assumes "is_entry bc s"
  shows "state_ok s" "bytecode s = bc" "pc s = pc_initial s"
  using assms entry_state_ok by (auto simp: is_entry_def)

lemma is_entry_edge: "is_entry bc (edge_entry bc e)"
  unfolding is_entry_def edge_entry_def by blast

lemma identity_edge_entry [simp]: "identity (edge_entry bc e) = (e_pc e, length (e_stack e))"
  by (simp add: identity_def edge_entry_def)

lemma extends_identity: "extends s t \<Longrightarrow> identity t = identity s"
  by (simp add: extends_def identity_def)

lemma run_step_cases:
  assumes "run_step s r = Some (Inr r')" and "state_ok s"
  obtains (seen) "identity s \<in> identity ` set (finished r)" "r' = r"
  | (traced) t where "trace_block s = Some (Inr t)" "state_ok t" "extends s t"
      "pc_initial s \<notin> set (first_encounter r)" "identity s \<notin> identity ` set (finished r)"
      "distinct (dkeys (concat (map phi_pairs (outedges t))))"
      "r' = r\<lparr>pending := pending r @ map (edge_entry (bytecode t)) (outedges t),
              finished := finished r @ [t\<lparr>outgoing_phis := concat (map phi_pairs (outedges t))\<rparr>],
              first_encounter := first_encounter r @ [pc_initial s]\<rparr>"
proof (cases "identity s \<in> identity ` set (finished r)")
  case True
  from assms(1) True have "r' = r" by (simp add: run_step_def)
  from seen[OF True this] show ?thesis .
next
  case False
  have fresh: "pc_initial s \<notin> set (first_encounter r)"
    using assms(1) False by (simp add: run_step_def split: if_splits)
  obtain t where block: "trace_block s = Some (Inr t)"
    using assms(1) False fresh
    by (cases "trace_block s"; cases "the (trace_block s)") (simp_all add: run_step_def)
  obtain out u where outs: "get_outgoing_states t = Inr (out, u)"
    using assms(1) False fresh block
    by (cases "get_outgoing_states t") (simp_all add: run_step_def split: prod.splits)
  have r': "r' = r\<lparr>pending := pending r @ out, finished := add_finished u (finished r),
               first_encounter := first_encounter r @ [pc_initial s]\<rparr>"
    using assms(1) False fresh block outs by (simp add: run_step_def)
  note spec = get_outgoing_spec[OF outs]
  from trace_block_keeps[OF block assms(2)] have keeps: "state_ok t" "extends s t" by auto
  have "identity u = identity s"
    using spec(2) extends_identity[OF keeps(2)] by (simp add: identity_def)
  with False have new: "add_finished u (finished r) = finished r @ [u]"
    by (simp add: add_finished_def)
  have dist: "distinct (dkeys (concat (map phi_pairs (outedges t))))"
    using spec(3) unfolding spec(2) by simp
  from traced[OF block keeps fresh False dist]
  show ?thesis using r'[unfolded new spec(1), unfolded spec(2)] by blast
qed

lemma run_step_inv:
  assumes inv: "run_inv bc r" and p: "pending r = s # rest"
    and run: "run_step s (r\<lparr>pending := rest\<rparr>) = Some (Inr r')"
  shows "run_inv bc r'"
proof -
  have entry: "is_entry bc s" "\<And>u. u \<in> set rest \<Longrightarrow> is_entry bc u"
    and fin: "\<And>u. u \<in> set (finished r) \<Longrightarrow> is_finished bc u"
    and first: "first_encounter r = map pc_initial (finished r)" "distinct (first_encounter r)"
    and targets: "targets_in (finished r) (finished r @ s # rest)"
    and zero: "(0, 0) \<in> identity ` set (finished r @ s # rest)"
    and link: "linked (finished r) (finished r @ [s] @ rest)"
    using inv p unfolding run_inv_def by auto
  note ok = is_entryD[OF entry(1)]
  from run ok(1) show ?thesis
  proof (cases rule: run_step_cases)
    case seen
    then have "identity ` set (finished r @ s # rest) = identity ` set (finished r @ rest)" by auto
    moreover have "targets_in (finished r) (finished r @ rest)"
      using targets by (rule targets_in_mono) (simp only: calculation order_refl)
    moreover have "(0, 0) \<in> identity ` set (finished r @ rest)"
      using zero by (simp only: calculation)
    ultimately show ?thesis
      using seen(2) entry(2) fin first link by (simp add: run_inv_def)
  next
    case (traced t)
    let ?u = "t\<lparr>outgoing_phis := concat (map phi_pairs (outedges t))\<rparr>"
    have bc: "bytecode t = bc" using traced(3) ok(2) by (simp add: extends_def)
    have id: "identity ?u = identity s" "pc_initial ?u = pc_initial s" "outedges ?u = outedges t"
      using extends_identity[OF traced(3)] traced(3) by (simp_all add: identity_def extends_def)
    have "is_finished bc ?u"
      using state_ok_outgoing[OF traced(2)] bc traced(6) by (simp add: is_finished_def)
    let ?all = "(finished r @ [?u]) @ rest @ map (edge_entry bc) (outedges t)"
    have more: "identity ` set (finished r @ s # rest) \<subseteq> identity ` set ?all"
      using id(1) by auto
    have "targets_in (finished r @ [?u]) ?all"
      unfolding targets_in_snoc
    proof
      show "targets_in (finished r) ?all" using targets more by (rule targets_in_mono)
      show "targets_in [?u] ?all" unfolding targets_in_def by (auto intro: rev_image_eqI)
    qed
    moreover have "(0, 0) \<in> identity ` set ?all" using zero more by blast
    moreover have "\<forall>u \<in> set (rest @ map (edge_entry bc) (outedges t)). is_entry bc u"
      using entry(2) is_entry_edge by auto
    moreover have "\<forall>u \<in> set (finished r @ [?u]). is_finished bc u"
      using fin \<open>is_finished bc ?u\<close> by auto
    moreover have "first_encounter r @ [pc_initial s] = map pc_initial (finished r @ [?u])"
      using first(1) id(2) by simp
    moreover have "distinct (first_encounter r @ [pc_initial s])"
      using first(2) traced(4) by simp
    moreover have "linked (finished r @ [?u]) ?all"
    proof -
      have "trace_edges (finished r) \<subseteq> trace_edges (finished r @ [?u])"
        unfolding trace_edges_def by auto
      with link have old: "linked (finished r @ [?u]) (finished r @ [s] @ rest)"
        by (rule linked_mono)
      then have "linked (finished r @ [?u]) [?u]"
        using id(2) by simp
      moreover have "linked (finished r @ [?u]) (map (edge_entry bc) (outedges t))"
      proof -
        have "(pc_initial s, e_pc e) \<in> trace_edges (finished r @ [?u])" if "e \<in> set (outedges t)" for e
          using trace_edgesI[of ?u "finished r @ [?u]" e] that id(2,3) by simp
        moreover have "(0, pc_initial s) \<in> (trace_edges (finished r @ [?u]))\<^sup>*"
          using old by simp
        ultimately show ?thesis
          by (auto simp: linked_def edge_entry_def intro: rtrancl_into_rtrancl)
      qed
      ultimately show ?thesis using old by simp
    qed
    moreover have "pending r' = rest @ map (edge_entry bc) (outedges t)"
      "finished r' = finished r @ [?u]" "first_encounter r' = first_encounter r @ [pc_initial s]"
      by (simp_all add: traced(7) bc)
    ultimately show ?thesis
      unfolding run_inv_def by (simp only: simp_thms)
  qed
qed

section \<open>The trace returns\<close>

lemma trace_block_in_table:
  assumes "trace_block s = Some (Inr t)"
  shows "pc s \<in> dom (map_of (c_table (bytecode s)))"
proof -
  obtain u where "dispatch s = Inr ((), u)"
    using assms by (subst (asm) trace_block.simps)
      (auto simp: trace_step_def seqT_def bindT_def[of dispatch] split: sum.splits)
  then show ?thesis by (rule dispatch_in_table)
qed

definition fresh_offsets :: "code \<Rightarrow> runner \<Rightarrow> int set" where
  "fresh_offsets bc r = dom (map_of (c_table bc)) - set (first_encounter r)"

lemma run_step_returns:
  assumes "state_ok s" and "forward_code (bytecode s)"
  shows "\<exists>x. run_step s r = Some x"
  using trace_block_returns[OF assms]
  by (auto simp: run_step_def split: sum.splits option.splits)

lemma run_step_smaller:
  assumes inv: "run_inv bc r" and p: "pending r = s # rest"
    and run: "run_step s (r\<lparr>pending := rest\<rparr>) = Some (Inr r')"
  shows "card (fresh_offsets bc r') < card (fresh_offsets bc r)
    \<or> (fresh_offsets bc r' = fresh_offsets bc r \<and> length (pending r') < length (pending r))"
proof -
  have "is_entry bc s" using inv p by (simp add: run_inv_def)
  note ok = is_entryD[OF this]
  from run ok(1) show ?thesis
  proof (cases rule: run_step_cases)
    case seen
    with p show ?thesis by (simp add: fresh_offsets_def)
  next
    case (traced t)
    have "pc_initial s \<in> fresh_offsets bc r"
      using trace_block_in_table[OF traced(1)] ok traced(4) by (simp add: fresh_offsets_def)
    moreover have "fresh_offsets bc r' = fresh_offsets bc r - {pc_initial s}"
      using traced(7) by (auto simp: fresh_offsets_def)
    moreover have "finite (fresh_offsets bc r)" by (simp add: fresh_offsets_def finite_dom_map_of)
    ultimately show ?thesis by (metis card_Diff1_less)
  qed
qed

lemma run_loop_returns:
  assumes "forward_code bc" and "run_inv bc r"
  shows "\<exists>x. run_loop r = Some x \<and> (\<forall>r'. x = Inr r' \<longrightarrow> run_inv bc r' \<and> pending r' = [])"
proof -
  let ?R = "inv_image (less_than <*lex*> less_than)
              (\<lambda>r. (card (fresh_offsets bc r), length (pending r)))"
  have "wf ?R" by auto
  then show ?thesis
    using assms(2)
  proof (induction r rule: wf_induct_rule)
    case (less r)
    show ?case
    proof (cases "pending r")
      case Nil
      with less.prems show ?thesis by (subst run_loop.simps) simp
    next
      case (Cons s rest)
      have "is_entry bc s" using less.prems Cons by (simp add: run_inv_def)
      then obtain x where x: "run_step s (r\<lparr>pending := rest\<rparr>) = Some x"
        using run_step_returns is_entryD assms(1) by metis
      show ?thesis
      proof (cases x)
        case (Inl e)
        with x Cons show ?thesis by (subst run_loop.simps) simp
      next
        case (Inr r')
        with x have step: "run_step s (r\<lparr>pending := rest\<rparr>) = Some (Inr r')" by simp
        have "(r', r) \<in> ?R" using run_step_smaller[OF less.prems Cons step] by auto
        from less.IH[OF this run_step_inv[OF less.prems Cons step]] step Cons
        show ?thesis by (subst run_loop.simps) simp
      qed
    qed
  qed
qed

lemma first_runner_inv: "\<exists>r. first_runner bc = Inr r \<and> run_inv bc r"
proof -
  have "is_entry bc (entry_state bc 0 0 [] [] 0)" unfolding is_entry_def by blast
  then show ?thesis
    by (simp add: first_runner_def new_state_entry run_inv_def targets_in_def linked_def identity_def)
qed

lemma trace_all_returns:
  assumes "forward_code bc"
  shows "\<exists>x. trace_all bc = Some x \<and> (\<forall>r. x = Inr r \<longrightarrow> run_inv bc r \<and> pending r = [])"
proof -
  obtain r where "first_runner bc = Inr r" "run_inv bc r" using first_runner_inv by blast
  with run_loop_returns[OF assms] show ?thesis by (auto simp: trace_all_def)
qed

section \<open>The graph of the trace\<close>

lemma fold_add_node:
  assumes "cfg_wf g"
  shows "cfg_wf (fold (\<lambda>s. add_node (pc_initial s)) fs g)
    \<and> g_edges (fold (\<lambda>s. add_node (pc_initial s)) fs g) = g_edges g
    \<and> set (g_nodes (fold (\<lambda>s. add_node (pc_initial s)) fs g)) = set (g_nodes g) \<union> pc_initial ` set fs"
  using assms
proof (induction fs arbitrary: g)
  case (Cons s fs)
  from cfg_wf_add_node[OF Cons.prems, of "pc_initial s"] Cons.IH[of "add_node (pc_initial s) g"]
  show ?case by (auto simp: add_node_def)
qed simp

lemma add_edges_ok:
  assumes "cfg_wf g" and "a \<in> set (g_nodes g)" and "\<And>e. e \<in> set es \<Longrightarrow> e_pc e \<in> set (g_nodes g)"
  shows "\<exists>g'. foldE (\<lambda>e. add_edge a (e_pc e) d) es g = Inr g' \<and> cfg_wf g'
    \<and> g_nodes g' = g_nodes g \<and> g_edges g' = g_edges g \<union> {(a, e_pc e) | e. e \<in> set es}"
  using assms
proof (induction es arbitrary: g)
  case (Cons e es)
  let ?g = "unchecked_add_edge a (e_pc e) d g"
  have "e_pc e \<in> set (g_nodes g)" using Cons.prems(3) by simp
  note wf = cfg_wf_add_edge[OF Cons.prems(1,2) this, of d]
  have nodes: "g_nodes ?g = g_nodes g" by (simp add: unchecked_add_edge_def)
  obtain g' where "foldE (\<lambda>e. add_edge a (e_pc e) d) es ?g = Inr g'" "cfg_wf g'"
    "g_nodes g' = g_nodes ?g" "g_edges g' = g_edges ?g \<union> {(a, e_pc e) | e. e \<in> set es}"
    using Cons.IH[OF wf(1)] Cons.prems nodes by auto
  moreover have "add_edge a (e_pc e) d g = Inr ?g"
    using Cons.prems by (simp add: add_edge_def)
  ultimately show ?case using wf(2) nodes by auto
qed simp

lemma add_all_edges_ok:
  assumes "cfg_wf g" and "pc_initial ` set fs \<subseteq> set (g_nodes g)"
    and "\<And>s e. s \<in> set fs \<Longrightarrow> e \<in> set (outedges s) \<Longrightarrow> e_pc e \<in> set (g_nodes g)"
  shows "\<exists>g'. foldE add_state_edges fs g = Inr g' \<and> cfg_wf g' \<and> g_nodes g' = g_nodes g
    \<and> g_edges g' = g_edges g \<union> trace_edges fs"
  using assms
proof (induction fs arbitrary: g)
  case Nil
  then show ?case by (simp add: trace_edges_def)
next
  case (Cons s fs)
  obtain g1 where g1: "add_state_edges s g = Inr g1" "cfg_wf g1" "g_nodes g1 = g_nodes g"
    "g_edges g1 = g_edges g \<union> {(pc_initial s, e_pc e) | e. e \<in> set (outedges s)}"
    using add_edges_ok[OF Cons.prems(1), of "pc_initial s" "outedges s" 0] Cons.prems(2,3)
    by (auto simp: add_state_edges_def)
  obtain g' where "foldE add_state_edges fs g1 = Inr g'" "cfg_wf g'" "g_nodes g' = g_nodes g1"
    "g_edges g' = g_edges g1 \<union> trace_edges fs"
    using Cons.IH[OF g1(2)] Cons.prems(2,3) g1(3) by auto
  moreover have "trace_edges (s # fs)
      = {(pc_initial s, e_pc e) | e. e \<in> set (outedges s)} \<union> trace_edges fs"
    by (auto simp: trace_edges_def)
  ultimately show ?case using g1 by auto
qed

lemma build_cfg_ok:
  assumes "run_inv bc r" and "pending r = []"
  shows "\<exists>g. build_cfg (finished r) = Some (Inr g) \<and> cfg_wf g \<and> entry_point g = Some 0
    \<and> set (g_nodes g) = pc_initial ` set (finished r) \<and> dead_nodes g = []
    \<and> g_edges g = trace_edges (finished r)"
proof -
  let ?fs = "finished r"
  let ?g0 = "fold (\<lambda>s. add_node (pc_initial s)) (finished r) (new_cfgraph :: (int, int) cfgraph)"
  have empty: "g_edges (new_cfgraph :: (int, int) cfgraph) = {}"
    "set (g_nodes (new_cfgraph :: (int, int) cfgraph)) = {}"
    by (simp_all add: new_cfgraph_def g_edges_def arcs_def)
  have wf_new: "cfg_wf (new_cfgraph :: (int, int) cfgraph)" by (rule cfg_wf_new)
  have targets: "targets_in ?fs ?fs" and zero: "(0, 0) \<in> identity ` set ?fs"
    and link: "linked ?fs ?fs"
    using assms by (simp_all add: run_inv_def)
  have g0: "cfg_wf ?g0" "g_edges ?g0 = {}" "set (g_nodes ?g0) = pc_initial ` set ?fs"
    using fold_add_node[OF wf_new, of ?fs] unfolding empty by simp_all
  have "\<exists>g1. foldE add_state_edges ?fs ?g0 = Inr g1 \<and> cfg_wf g1 \<and> g_nodes g1 = g_nodes ?g0
      \<and> g_edges g1 = g_edges ?g0 \<union> trace_edges ?fs"
  proof (rule add_all_edges_ok[OF g0(1)])
    show "e_pc e \<in> set (g_nodes ?g0)" if "s \<in> set ?fs" "e \<in> set (outedges s)" for s e
      using targets that g0(3) unfolding targets_in_def identity_def by fastforce
  qed (simp add: g0(3))
  then obtain g1 where g1: "foldE add_state_edges ?fs ?g0 = Inr g1" "cfg_wf g1"
    "g_nodes g1 = g_nodes ?g0" "g_edges g1 = trace_edges ?fs"
    unfolding g0(2) by auto
  have in0: "0 \<in> set (g_nodes g1)" using zero g1(3) g0(3) by (auto simp: identity_def)
  let ?g2 = "g1\<lparr>entry_point := Some 0\<rparr>"
  have g2: "set_entry_point 0 g1 = Inr ?g2" using in0 by (simp add: set_entry_point_def)
  have wf2: "cfg_wf ?g2" using cfg_wf_set_entry[OF g1(2) g2] by simp
  have edges2: "g_edges ?g2 = trace_edges ?fs" using g1(4) by (simp add: g_edges_def)
  have arcs: "arcs (g_succs ?g2) = trace_edges ?fs" using edges2 by (simp add: g_edges_def)
  have all: "pc_initial ` set ?fs \<subseteq> reachable (g_succs ?g2) [0]"
    using link unfolding reachable_def arcs linked_def by auto
  obtain g where g: "process ?g2 = Some (Inr g)" "cfg_wf g" "entry_point g = Some 0"
    "set (g_nodes g) = reachable (g_succs ?g2) [0]"
    "set (dead_nodes g) = set (g_nodes ?g2) - reachable (g_succs ?g2) [0]"
    "g_edges g = {(a, b) \<in> g_edges ?g2. a \<in> reachable (g_succs ?g2) [0]}"
    using process_live[OF wf2] by auto
  have "reachable (g_succs ?g2) [0] \<subseteq> set (g_nodes ?g2)"
    using reachable_in[OF cfg_wf_stays[OF wf2]] in0 by simp
  then have same: "reachable (g_succs ?g2) [0] = pc_initial ` set ?fs"
    using all g1(3) g0(3) by auto
  have "g_edges g = trace_edges ?fs"
    unfolding g(6) same edges2 by (auto simp: trace_edges_def)
  moreover have "dead_nodes g = []"
    using g(5) g1(3) g0(3) unfolding same by simp
  ultimately show ?thesis
    using g same g1(1) g2 by (simp add: build_cfg_def)
qed

section \<open>Properties\<close>

text \<open>
  C13. Every opcode handler, of every Python version, keeps the trace state sound: after it the
  temporary registers are still pairwise distinct; every register on the stack and on an
  outgoing edge was made by this state; the used registers are exactly those of the recorded
  instructions; a state with an outgoing edge has terminated; and the handler has not changed
  which block the state traces, nor dropped an instruction or edge recorded before.
\<close>

theorem dispatch_keeps_registers:
  assumes "state_ok s" and "dispatch s = Inr ((), s')"
  shows "distinct (temp_registers s') \<and> set (stack s') \<subseteq> known s'
    \<and> (\<forall>e \<in> set (outedges s'). set (e_stack e) \<subseteq> known s')
    \<and> set (used_regs s') = regs_of_insts (insts s')
    \<and> regs_of_insts (insts s') \<subseteq> known s' \<union> labels_of_ops
    \<and> (outedges s' = [] \<or> terminated s')
    \<and> identity s' = identity s \<and> phis s' = phis s
    \<and> (\<exists>is. insts s' = insts s @ is) \<and> (\<exists>es. outedges s' = outedges s @ es)"
proof -
  note keeps = safeD[OF safe_dispatch[of "{}"] assms(1) _ assms(2)]
  have ok: "state_ok s'" and ext: "extends s s'" using keeps by auto
  note parts = state_ok_parts[OF ok]
  from ext have "phis s' = phis s" "\<exists>is. insts s' = insts s @ is" "\<exists>es. outedges s' = outedges s @ es"
    unfolding extends_def by blast+
  with parts numbered_distinct[OF parts(1)] extends_identity[OF ext] show ?thesis by auto
qed

definition sample_inst :: "int \<Rightarrow> string \<Rightarrow> int option \<Rightarrow> bool \<Rightarrow> int \<times> inst" where
  "sample_inst p name a rel =
     (p, \<lparr>i_offset = p, i_next = p + 2, i_opname = name, i_arg = a, i_lineno = 1, i_jrel = rel,
          i_jabs = False\<rparr>)"

definition sample_code :: code where
  "sample_code =
     \<lparr>c_py = 13,
      c_table = [sample_inst 0 ''LOAD_CONST'' (Some 1) False, sample_inst 2 ''JUMP_FORWARD'' (Some 0) True,
                 sample_inst 4 ''RETURN_VALUE'' None False],
      c_labels = [0, 4], c_entries = [], c_varnames = [''x''], c_cellvars = 0, c_freevars = 0\<rparr>"

definition sample_state :: tstate where
  "sample_state = entry_state sample_code 2 1 [] [] 1"

theorem dispatch_keeps_registers_witness:
  "\<exists>s'. dispatch sample_state = Inr ((), s') \<and> distinct (temp_registers s') \<and> set (stack s') \<subseteq> known s'
    \<and> outedges s' \<noteq> [] \<and> terminated s'"
proof -
  have "map_sum id (length \<circ> outedges \<circ> snd) (dispatch sample_state) = Inr 1" by code_simp
  then obtain s' where run: "dispatch sample_state = Inr ((), s')" and "length (outedges s') = 1"
    by (cases "dispatch sample_state") auto
  moreover from this(2) have "outedges s' \<noteq> []" by force
  moreover have "state_ok sample_state" unfolding sample_state_def by (rule entry_state_ok)
  ultimately show ?thesis using dispatch_keeps_registers[of sample_state s'] by blast
qed

lemma sample_forward: "forward_code sample_code"
  by (auto simp: forward_code_def sample_code_def sample_inst_def split: if_splits)

text \<open>
  C14. The finished states of a trace are consistent with each other: every block is traced
  once, block 0 with an empty stack; every outgoing edge leads to a finished state whose
  entry stack has the depth of the edge; the phi node of the target for stack position \<open>i\<close>
  receives the register the edge holds there; and no phi node is set twice on the way out of
  a block.
\<close>

theorem trace_is_consistent:
  assumes "forward_code bc" and "trace_all bc = Some (Inr r)"
  shows "distinct (map pc_initial (finished r)) \<and> (\<exists>s \<in> set (finished r). identity s = (0, 0))
    \<and> (\<forall>s \<in> set (finished r). \<forall>e \<in> set (outedges s).
         (\<exists>t \<in> set (finished r). pc_initial t = e_pc e \<and> nstack_initial t = length (e_stack e))
       \<and> (\<forall>i < length (e_stack e).
            map_of (outgoing_phis s) (phi_name (null_positions (e_stack e)) (e_pc e) i)
              = Some (e_stack e ! i)))"
proof -
  have inv: "run_inv bc r" "pending r = []"
    using trace_all_returns[OF assms(1)] assms(2) by auto
  have "\<exists>s \<in> set (finished r). identity s = (0, 0)"
    using inv by (force simp: run_inv_def)
  moreover have "(\<exists>t \<in> set (finished r). pc_initial t = e_pc e \<and> nstack_initial t = length (e_stack e))
       \<and> (\<forall>i < length (e_stack e).
            map_of (outgoing_phis s) (phi_name (null_positions (e_stack e)) (e_pc e) i)
              = Some (e_stack e ! i))"
    if s: "s \<in> set (finished r)" and e: "e \<in> set (outedges s)" for s e
  proof
    have "(e_pc e, length (e_stack e)) \<in> identity ` set (finished r)"
      using inv s e by (auto simp: run_inv_def targets_in_def)
    then show "\<exists>t \<in> set (finished r). pc_initial t = e_pc e \<and> nstack_initial t = length (e_stack e)"
      by (auto simp: identity_def)
    have fin: "outgoing_phis s = concat (map phi_pairs (outedges s))" "distinct (dkeys (outgoing_phis s))"
      using inv s by (auto simp: run_inv_def is_finished_def)
    show "\<forall>i < length (e_stack e).
        map_of (outgoing_phis s) (phi_name (null_positions (e_stack e)) (e_pc e) i) = Some (e_stack e ! i)"
    proof (intro allI impI map_of_is_SomeI[OF fin(2)])
      fix i assume "i < length (e_stack e)"
      then have "(phi_name (null_positions (e_stack e)) (e_pc e) i, e_stack e ! i) \<in> set (phi_pairs e)"
        by (auto simp: phi_pairs_def)
      then show "(phi_name (null_positions (e_stack e)) (e_pc e) i, e_stack e ! i) \<in> set (outgoing_phis s)"
        unfolding fin(1) using e by (simp only: set_concat set_map) blast
    qed
  qed
  moreover have "distinct (map pc_initial (finished r))"
    using inv(1) unfolding run_inv_def by metis
  ultimately show ?thesis by blast
qed

definition trace_summary :: "runner \<Rightarrow> (int \<times> string list list) list" where
  "trace_summary r = map (\<lambda>s. (pc_initial s, map e_stack (outedges s))) (finished r)"

lemma sample_trace:
  obtains r where "trace_all sample_code = Some (Inr r)"
    and "trace_summary r = [(0, [[''$const0.0.1'']]), (4, [])]"
proof -
  have "map_option (map_sum id trace_summary) (trace_all sample_code)
      = Some (Inr [(0, [[''$const0.0.1'']]), (4, [])])"
    by code_simp
  then show ?thesis
    using that by (cases "trace_all sample_code"; cases "the (trace_all sample_code)") simp_all
qed

theorem trace_is_consistent_witness:
  "\<exists>r s e. trace_all sample_code = Some (Inr r) \<and> s \<in> set (finished r) \<and> e \<in> set (outedges s)
     \<and> e_stack e = [''$const0.0.1''] \<and> distinct (map pc_initial (finished r))
     \<and> map_of (outgoing_phis s) (phi_name (null_positions (e_stack e)) (e_pc e) 0) = Some ''$const0.0.1''"
proof -
  obtain r where run: "trace_all sample_code = Some (Inr r)"
    and sum: "trace_summary r = [(0, [[''$const0.0.1'']]), (4, [])]"
    by (rule sample_trace)
  then obtain s fs where fs: "finished r = s # fs" and "map e_stack (outedges s) = [[''$const0.0.1'']]"
    by (cases "finished r") (simp_all add: trace_summary_def)
  then obtain e where e: "e \<in> set (outedges s)" and stack: "e_stack e = [''$const0.0.1'']"
    by (cases "outedges s") simp_all
  have s: "s \<in> set (finished r)" using fs by simp
  note facts = trace_is_consistent[OF sample_forward run]
  from facts s e have "\<forall>i < length (e_stack e).
      map_of (outgoing_phis s) (phi_name (null_positions (e_stack e)) (e_pc e) i) = Some (e_stack e ! i)"
    by blast
  then have "map_of (outgoing_phis s) (phi_name (null_positions (e_stack e)) (e_pc e) 0)
      = Some (e_stack e ! 0)"
    using stack by simp
  with facts run s e stack show ?thesis by (metis nth_Cons_0)
qed

text \<open>
  Building the control flow graph of a trace never fails: every edge joins two blocks of
  the graph, block 0 is the entry, and since the trace only visits blocks that an edge leads
  to, the dead block elimination removes nothing.
\<close>

theorem flow_graph_is_live:
  assumes "forward_code bc" and "trace_all bc = Some (Inr r)"
  shows "\<exists>g. build_cfg (finished r) = Some (Inr g) \<and> cfg_wf g \<and> entry_point g = Some 0
    \<and> set (g_nodes g) = pc_initial ` set (finished r) \<and> dead_nodes g = []
    \<and> g_edges g = {(pc_initial s, e_pc e) | s e. s \<in> set (finished r) \<and> e \<in> set (outedges s)}"
proof -
  have "run_inv bc r" "pending r = []"
    using trace_all_returns[OF assms(1)] assms(2) by auto
  from build_cfg_ok[OF this] show ?thesis by (simp add: trace_edges_def)
qed

theorem flow_graph_is_live_witness:
  "\<exists>r g. trace_all sample_code = Some (Inr r) \<and> build_cfg (finished r) = Some (Inr g)
     \<and> set (g_nodes g) = {0, 4} \<and> dead_nodes g = []"
proof -
  obtain r where run: "trace_all sample_code = Some (Inr r)"
    and sum: "trace_summary r = [(0, [[''$const0.0.1'']]), (4, [])]"
    by (rule sample_trace)
  have "map pc_initial (finished r) = map fst (trace_summary r)" by (simp add: trace_summary_def)
  then have "set (map pc_initial (finished r)) = {0, 4}" unfolding sum by simp
  with flow_graph_is_live[OF sample_forward run] run show ?thesis unfolding set_map by metis
qed

end
