(* ===== verification/PrunePhis.thy ===== *)
theory PrunePhis
  imports FlowProps "HOL-Library.List_Lexorder" "HOL-Library.Char_ord" "HOL-Library.While_Combinator"
begin

text \<open>
  Pruning redundant phi nodes: \<open>Flow._prune_phis\<close> in \<open>numba_cuda/core/byteflow.py\<close>. A site is a
  register together with the identity of the state that passes it on. \<open>propagate_phi_map\<close>
  replaces every phi node among the sites of a phi by that node's own sites until only
  definitions are left. Sets are lists without duplicates, a \<open>defaultdict\<close> of sets is a
  function.
\<close>

section \<open>The code\<close>

type_synonym site = "string \<times> int \<times> nat"

definition phi_set :: "tstate list \<Rightarrow> string list" where
  "phi_set fs = fold (\<lambda>s acc. set_update acc (dkeys (phis s))) fs []"

definition used_phis :: "tstate \<Rightarrow> string list" where
  "used_phis s = filter (\<lambda>p. p \<in> set (used_regs s)) (dkeys (phis s))"

definition add_site :: "tstate \<Rightarrow> string \<times> string \<Rightarrow> (string, site list) dict \<Rightarrow> (string, site list) dict"
where
  "add_site s pr d =
     dset (fst pr) (set_add (snd pr, identity s) (case map_of d (fst pr) of None \<Rightarrow> [] | Some v \<Rightarrow> v)) d"

definition find_use_defs :: "tstate list \<Rightarrow> (string, site list) dict" where
  "find_use_defs fs = fold (\<lambda>s d. fold (add_site s) (outgoing_phis s) d) fs []"

text \<open>\<open>defsites |= phismap[rhs]\<close> changes the set that the map holds for \<open>phi\<close>.\<close>

record phi_state =
  ph_sites :: "string \<Rightarrow> site list"
  ph_black :: "string \<Rightarrow> site list"
  ph_changing :: bool

definition expand_site :: "string list \<Rightarrow> string \<Rightarrow> site \<Rightarrow> phi_state \<Rightarrow> phi_state" where
  "expand_site ps phi site st =
     (if fst site \<in> set ps then
        st\<lparr>ph_sites := (ph_sites st)(phi := set_update (ph_sites st phi) (ph_sites st (fst site))),
           ph_black := (ph_black st)(phi := set_add site (ph_black st phi))\<rparr>
      else st)"

definition remove_black :: "string \<Rightarrow> phi_state \<Rightarrow> phi_state" where
  "remove_black phi st =
     (let to_remove = ph_black st phi; defsites = ph_sites st phi
      in if \<exists>x \<in> set to_remove. x \<in> set defsites then
           st\<lparr>ph_sites := (ph_sites st)(phi := filter (\<lambda>x. x \<notin> set to_remove) defsites),
              ph_changing := True\<rparr>
         else st)"

definition process_phi :: "string list \<Rightarrow> string \<Rightarrow> phi_state \<Rightarrow> phi_state" where
  "process_phi ps phi st =
     remove_black phi (fold (expand_site ps phi) (sort (ph_sites st phi)) st)"

definition propagate_round :: "string list \<Rightarrow> string list \<Rightarrow> phi_state \<Rightarrow> phi_state" where
  "propagate_round ps ks st = fold (process_phi ps) (sort ks) (st\<lparr>ph_changing := False\<rparr>)"

definition propagate_phi_map ::
  "string list \<Rightarrow> (string, site list) dict \<Rightarrow> (string \<Rightarrow> site list) option" where
  "propagate_phi_map ps d =
     map_option ph_sites
       (while_option ph_changing (propagate_round ps (dkeys d))
         \<lparr>ph_sites = (\<lambda>k. case map_of d k of None \<Rightarrow> [] | Some v \<Rightarrow> v), ph_black = (\<lambda>_. []),
          ph_changing = True\<rparr>)"

definition new_outgoing :: "string list \<Rightarrow> (string \<Rightarrow> site list) \<Rightarrow> int \<times> nat \<Rightarrow> (string, string) dict"
where
  "new_outgoing keep sites ident =
     fold (\<lambda>phi out. fold (\<lambda>site out. if snd site = ident then dset phi (fst site) out else out)
                          (sites phi) out) keep []"

definition prune_phis :: "tstate list \<Rightarrow> tstate list option" where
  "prune_phis fs =
     (let keep = fold (\<lambda>s acc. set_update acc (used_phis s)) fs []
      in map_option
           (\<lambda>sites. map (\<lambda>s. s\<lparr>outgoing_phis := new_outgoing keep sites (identity s)\<rparr>) fs)
           (propagate_phi_map (phi_set fs) (find_use_defs fs)))"

text \<open>\<open>Flow.run\<close>: the trace, the graph, the pruned phis and the block infos.\<close>

definition flow_run :: "code \<Rightarrow> ((int, int) cfgraph \<times> (int, block_info) dict) res option" where
  "flow_run bc =
     (case trace_all bc of
        None \<Rightarrow> None
      | Some (Inl e) \<Rightarrow> Some (Inl e)
      | Some (Inr r) \<Rightarrow>
          (case build_cfg (finished r) of
             None \<Rightarrow> None
           | Some (Inl e) \<Rightarrow> Some (Inl e)
           | Some (Inr g) \<Rightarrow>
               map_option (\<lambda>fs. bindE (collect_infos fs) (\<lambda>infos. Inr (g, infos)))
                 (prune_phis (finished r))))"

section \<open>Sites that reach a phi\<close>

text \<open>\<open>site_at n p x\<close>: the site \<open>x\<close> reaches the phi \<open>p\<close> through \<open>n\<close> other phi nodes.\<close>

fun site_at :: "string list \<Rightarrow> (string \<Rightarrow> site list) \<Rightarrow> nat \<Rightarrow> string \<Rightarrow> site \<Rightarrow> bool" where
  "site_at ps f 0 p x \<longleftrightarrow> x \<in> set (f p)"
| "site_at ps f (Suc n) p x \<longleftrightarrow> (\<exists>y \<in> set (f p). fst y \<in> set ps \<and> site_at ps f n (fst y) x)"

lemma site_at_trans:
  "site_at ps f n p z \<Longrightarrow> fst z \<in> set ps \<Longrightarrow> site_at ps f m (fst z) x \<Longrightarrow> site_at ps f (n + Suc m) p x"
  by (induction n arbitrary: p) auto

section \<open>One step\<close>

lemma fold_expand:
  assumes "st' = fold (expand_site ps p) xs st"
  shows "set (ph_sites st' p) = set (ph_sites st p)
      \<union> (\<Union>y \<in> {y \<in> set xs. fst y \<in> set ps}. set (ph_sites st (fst y)))"
    and "set (ph_black st' p) = set (ph_black st p) \<union> {y \<in> set xs. fst y \<in> set ps}"
    and "q \<noteq> p \<Longrightarrow> ph_sites st' q = ph_sites st q \<and> ph_black st' q = ph_black st q"
    and "ph_changing st' = ph_changing st"
proof -
  have "set (ph_sites st' p) = set (ph_sites st p)
      \<union> (\<Union>y \<in> {y \<in> set xs. fst y \<in> set ps}. set (ph_sites st (fst y)))
    \<and> set (ph_black st' p) = set (ph_black st p) \<union> {y \<in> set xs. fst y \<in> set ps}
    \<and> (\<forall>q. q \<noteq> p \<longrightarrow> ph_sites st' q = ph_sites st q \<and> ph_black st' q = ph_black st q)
    \<and> ph_changing st' = ph_changing st"
    unfolding assms
  proof (induction xs rule: rev_induct)
    case (snoc x xs)
    let ?st = "fold (expand_site ps p) xs st"
    have "set (ph_sites ?st (fst x)) \<subseteq> set (ph_sites ?st p) \<union> set (ph_sites st (fst x))"
      using snoc by (cases "fst x = p") auto
    moreover have "set (ph_sites st (fst x)) \<subseteq> set (ph_sites ?st p) \<union> set (ph_sites ?st (fst x))"
      using snoc by (cases "fst x = p") auto
    ultimately have "set (ph_sites ?st p) \<union> set (ph_sites ?st (fst x))
        = set (ph_sites ?st p) \<union> set (ph_sites st (fst x))" by blast
    note grow = this
    show ?case
    proof (cases "fst x \<in> set ps")
      case False
      then have "{y \<in> set (xs @ [x]). fst y \<in> set ps} = {y \<in> set xs. fst y \<in> set ps}" by auto
      with False snoc show ?thesis by (simp add: expand_site_def)
    next
      case True
      then have sel: "{y \<in> set (xs @ [x]). fst y \<in> set ps} = insert x {y \<in> set xs. fst y \<in> set ps}" by auto
      have sites: "set (ph_sites (expand_site ps p x ?st) p) = set (ph_sites ?st p) \<union> set (ph_sites st (fst x))"
        and black: "set (ph_black (expand_site ps p x ?st) p) = insert x (set (ph_black ?st p))"
        and other: "q \<noteq> p \<Longrightarrow> ph_sites (expand_site ps p x ?st) q = ph_sites ?st q
          \<and> ph_black (expand_site ps p x ?st) q = ph_black ?st q"
        and ch: "ph_changing (expand_site ps p x ?st) = ph_changing ?st" for q
        using True grow by (simp_all add: expand_site_def)
      show ?thesis
        unfolding sel fold_append fold_simps o_apply id_apply sites black ch
        using snoc other by auto
    qed
  qed simp
  then show "set (ph_sites st' p) = set (ph_sites st p)
      \<union> (\<Union>y \<in> {y \<in> set xs. fst y \<in> set ps}. set (ph_sites st (fst y)))"
    "set (ph_black st' p) = set (ph_black st p) \<union> {y \<in> set xs. fst y \<in> set ps}"
    "q \<noteq> p \<Longrightarrow> ph_sites st' q = ph_sites st q \<and> ph_black st' q = ph_black st q"
    "ph_changing st' = ph_changing st"
    by blast+
qed

definition phis_in :: "string list \<Rightarrow> phi_state \<Rightarrow> string \<Rightarrow> site set" where
  "phis_in ps st p = {y \<in> set (ph_sites st p). fst y \<in> set ps}"

definition grown :: "string list \<Rightarrow> phi_state \<Rightarrow> string \<Rightarrow> site set" where
  "grown ps st p = set (ph_sites st p) \<union> (\<Union>y \<in> phis_in ps st p. set (ph_sites st (fst y)))"

definition blackened :: "string list \<Rightarrow> phi_state \<Rightarrow> string \<Rightarrow> site set" where
  "blackened ps st p = set (ph_black st p) \<union> phis_in ps st p"

lemma process_phi_spec:
  assumes "st' = process_phi ps p st"
  shows "set (ph_sites st' p) = grown ps st p - blackened ps st p"
    and "set (ph_black st' p) = blackened ps st p"
    and "q \<noteq> p \<Longrightarrow> ph_sites st' q = ph_sites st q \<and> ph_black st' q = ph_black st q"
    and "ph_changing st' \<longleftrightarrow> ph_changing st \<or> blackened ps st p \<inter> grown ps st p \<noteq> {}"
proof -
  let ?m = "fold (expand_site ps p) (sort (ph_sites st p)) st"
  note ex = fold_expand[where ps = ps and p = p and xs = "sort (ph_sites st p)" and st = st, OF refl]
  have grown: "set (ph_sites ?m p) = grown ps st p"
    using ex(1) by (simp add: grown_def phis_in_def)
  have black: "set (ph_black ?m p) = blackened ps st p"
    using ex(2) by (simp add: blackened_def phis_in_def)
  have st': "st' = remove_black p ?m" using assms by (simp add: process_phi_def)
  show "set (ph_sites st' p) = grown ps st p - blackened ps st p"
    unfolding st' remove_black_def Let_def grown[symmetric] black[symmetric] by auto
  show "set (ph_black st' p) = blackened ps st p"
    unfolding st' remove_black_def Let_def black[symmetric] by simp
  show "q \<noteq> p \<Longrightarrow> ph_sites st' q = ph_sites st q \<and> ph_black st' q = ph_black st q"
    using ex(3) unfolding st' remove_black_def Let_def by simp
  show "ph_changing st' \<longleftrightarrow> ph_changing st \<or> blackened ps st p \<inter> grown ps st p \<noteq> {}"
    unfolding st' remove_black_def Let_def grown[symmetric] black[symmetric] using ex(4) by auto
qed

section \<open>The invariant\<close>

text \<open>
  Every original site of a phi is still among its sites or has been expanded; and for an
  expanded site each definition behind it is present, or can be reached from a site that is
  present or expanded and is closer to the definition.
\<close>

definition closer :: "string list \<Rightarrow> (string \<Rightarrow> site list) \<Rightarrow> nat \<Rightarrow> site set \<Rightarrow> site \<Rightarrow> bool" where
  "closer ps f n Z x \<longleftrightarrow> (\<exists>z \<in> Z. fst z \<in> set ps \<and> (\<exists>m < n. site_at ps f m (fst z) x))"

definition covers :: "string list \<Rightarrow> (string \<Rightarrow> site list) \<Rightarrow> string \<Rightarrow> site set \<Rightarrow> site set \<Rightarrow> bool" where
  "covers ps f p S B \<longleftrightarrow>
     set (f p) \<subseteq> S \<union> B
   \<and> (\<forall>y \<in> B. fst y \<in> set ps)
   \<and> (\<forall>y \<in> S \<union> B. \<exists>n. site_at ps f n p y)
   \<and> (\<forall>y \<in> B. \<forall>n x. fst x \<notin> set ps \<longrightarrow> site_at ps f n (fst y) x \<longrightarrow> x \<in> S \<or> closer ps f n (S \<union> B) x)"

lemma coversD:
  assumes "covers ps f p S B"
  shows "y \<in> set (f p) \<Longrightarrow> y \<in> S \<or> y \<in> B" and "y \<in> B \<Longrightarrow> fst y \<in> set ps"
    and "y \<in> S \<or> y \<in> B \<Longrightarrow> \<exists>n. site_at ps f n p y"
    and "y \<in> B \<Longrightarrow> fst x \<notin> set ps \<Longrightarrow> site_at ps f n (fst y) x \<Longrightarrow> x \<in> S \<or> closer ps f n (S \<union> B) x"
  using assms unfolding covers_def by blast+

lemma closer_mono: "closer ps f n Z x \<Longrightarrow> Z \<subseteq> Z' \<Longrightarrow> n \<le> n' \<Longrightarrow> closer ps f n' Z' x"
  unfolding closer_def by (meson order_less_le_trans subsetD)

lemma covers_closer_present:
  assumes cov: "covers ps f p S B" and x: "fst x \<notin> set ps" and "closer ps f n (S \<union> B) x"
  shows "x \<in> S \<or> closer ps f n S x"
proof -
  have "x \<in> S \<or> closer ps f n S x"
    if "z \<in> S \<union> B" "fst z \<in> set ps" "m < n" "site_at ps f m (fst z) x" for z m
    using that
  proof (induction m arbitrary: z rule: less_induct)
    case (less m)
    show ?case
    proof (cases "z \<in> S")
      case True
      with less.prems show ?thesis unfolding closer_def by blast
    next
      case False
      with less.prems have "z \<in> B" by blast
      from coversD(4)[OF cov this x less.prems(4)] show ?thesis
        unfolding closer_def[of ps f m] using less.IH less.prems(3) by (meson order_less_trans)
    qed
  qed
  with assms(3) show ?thesis unfolding closer_def by blast
qed

lemma covers_reached:
  assumes cov: "covers ps f p S B" and x: "fst x \<notin> set ps" and at: "site_at ps f n p x"
  shows "x \<in> S \<or> closer ps f n S x"
proof (cases n)
  case 0
  with at have "x \<in> set (f p)" by simp
  with coversD(1,2)[OF cov] x show ?thesis by blast
next
  case (Suc m)
  with at obtain y where y: "y \<in> set (f p)" "fst y \<in> set ps" "site_at ps f m (fst y) x" by auto
  then have "closer ps f n (S \<union> B) x"
    using coversD(1)[OF cov y(1)] unfolding closer_def Suc by blast
  with covers_closer_present[OF cov x] show ?thesis .
qed

definition phi_inv :: "string list \<Rightarrow> (string \<Rightarrow> site list) \<Rightarrow> phi_state \<Rightarrow> bool" where
  "phi_inv ps f st \<longleftrightarrow>
     (\<forall>p. covers ps f p (set (ph_sites st p)) (set (ph_black st p))
        \<and> set (ph_sites st p) \<inter> set (ph_black st p) = {})"

lemma process_phi_inv:
  assumes inv: "phi_inv ps f st"
  shows "phi_inv ps f (process_phi ps p st)"
proof -
  let ?st = "process_phi ps p st"
  let ?S = "set (ph_sites st p)" and ?B = "set (ph_black st p)"
  let ?S' = "grown ps st p - blackened ps st p" and ?B' = "blackened ps st p"
  note spec = process_phi_spec[where ps = ps and p = p and st = st, OF refl]
  have cov: "covers ps f q (set (ph_sites st q)) (set (ph_black st q))" for q
    using inv by (simp add: phi_inv_def)
  have more: "?S \<union> ?B \<subseteq> ?S' \<union> ?B'" "?S' \<union> ?B' = grown ps st p \<union> ?B'"
    by (auto simp: grown_def blackened_def)
  have black: "fst y \<in> set ps" if "y \<in> ?B'" for y
    using that coversD(2)[OF cov[of p], of y] unfolding blackened_def phis_in_def by blast
  have keep: "x \<in> ?S'" if "x \<in> grown ps st p" "fst x \<notin> set ps" for x
    using that black by blast
  have "covers ps f p ?S' ?B'"
    unfolding covers_def
  proof (intro conjI ballI allI impI)
    show "set (f p) \<subseteq> ?S' \<union> ?B'" using coversD(1)[OF cov[of p]] more(1) by blast
    show "fst y \<in> set ps" if "y \<in> ?B'" for y using that by (rule black)
    show "\<exists>n. site_at ps f n p y" if "y \<in> ?S' \<union> ?B'" for y
    proof -
      have "y \<in> ?S \<or> y \<in> ?B \<or> (\<exists>z \<in> ?S. fst z \<in> set ps \<and> y \<in> set (ph_sites st (fst z)))"
        using that unfolding grown_def blackened_def phis_in_def by blast
      then show ?thesis
        using coversD(3)[OF cov] site_at_trans by meson
    qed
    fix y n x
    assume y: "y \<in> ?B'" and x: "fst x \<notin> set ps" and at: "site_at ps f n (fst y) x"
    show "x \<in> ?S' \<or> closer ps f n (?S' \<union> ?B') x"
    proof (cases "y \<in> ?B")
      case True
      from coversD(4)[OF cov this x at] show ?thesis
      proof
        assume "x \<in> ?S"
        then have "x \<in> grown ps st p" by (simp add: grown_def)
        from keep[OF this x] show ?thesis ..
      next
        assume "closer ps f n (?S \<union> ?B) x"
        from closer_mono[OF this more(1) order_refl] show ?thesis ..
      qed
    next
      case False
      with y have "y \<in> phis_in ps st p" by (simp add: blackened_def)
      then have sub: "set (ph_sites st (fst y)) \<subseteq> grown ps st p" by (auto simp: grown_def)
      from covers_reached[OF cov x at] show ?thesis
      proof
        assume "x \<in> set (ph_sites st (fst y))"
        with sub have "x \<in> grown ps st p" by blast
        from keep[OF this x] show ?thesis ..
      next
        assume near: "closer ps f n (set (ph_sites st (fst y))) x"
        have "set (ph_sites st (fst y)) \<subseteq> ?S' \<union> ?B'" using sub more(2) by blast
        from closer_mono[OF near this order_refl] show ?thesis ..
      qed
    qed
  qed
  then show ?thesis
    unfolding phi_inv_def using spec inv[unfolded phi_inv_def]
    by (metis Diff_disjoint inf_commute)
qed

section \<open>The loop\<close>

text \<open>A round without a change leaves no phi among the sites of the processed keys.\<close>

definition settled :: "string list \<Rightarrow> string set \<Rightarrow> phi_state \<Rightarrow> bool" where
  "settled ps K st \<longleftrightarrow> ph_changing st \<or> (\<forall>p \<in> K. phis_in ps st p = {})"

lemma process_phi_settled:
  assumes inv: "phi_inv ps f st" and settled: "settled ps K st"
  shows "settled ps (insert p K) (process_phi ps p st)"
proof (cases "ph_changing (process_phi ps p st)")
  case True
  then show ?thesis by (simp add: settled_def)
next
  case False
  note spec = process_phi_spec[where ps = ps and p = p and st = st, OF refl]
  from False spec(4) have same: "\<not> ph_changing st" and none: "blackened ps st p \<inter> grown ps st p = {}"
    by auto
  have "phis_in ps st p \<subseteq> blackened ps st p \<inter> grown ps st p"
    by (auto simp: blackened_def grown_def phis_in_def)
  with none have empty: "phis_in ps st p = {}" by blast
  then have "grown ps st p = set (ph_sites st p)" by (simp add: grown_def)
  with spec(1) none have "set (ph_sites (process_phi ps p st) p) = set (ph_sites st p)" by blast
  with empty have "phis_in ps (process_phi ps p st) p = {}" by (simp add: phis_in_def)
  moreover have "phis_in ps (process_phi ps p st) q = {}" if "q \<in> K" "q \<noteq> p" for q
    using that settled same spec(3)[OF that(2)] by (simp add: settled_def phis_in_def)
  ultimately show ?thesis unfolding settled_def by blast
qed

text \<open>Sites and expanded sites come from a finite set; a change adds an expanded site.\<close>

definition within :: "string set \<Rightarrow> site set \<Rightarrow> phi_state \<Rightarrow> bool" where
  "within K U st \<longleftrightarrow>
     (\<forall>p. set (ph_sites st p) \<subseteq> U \<and> set (ph_black st p) \<subseteq> U)
   \<and> (\<forall>p. p \<notin> K \<longrightarrow> ph_sites st p = [] \<and> ph_black st p = [])"

definition blacks :: "phi_state \<Rightarrow> (string \<times> site) set" where
  "blacks st = {(p, y). y \<in> set (ph_black st p)}"

lemma process_phi_within:
  assumes "within K U st" and "p \<in> K"
  shows "within K U (process_phi ps p st)"
proof -
  note spec = process_phi_spec[where ps = ps and p = p and st = st, OF refl]
  have "grown ps st p \<subseteq> U" "blackened ps st p \<subseteq> U"
    using assms(1) by (auto simp: within_def grown_def blackened_def phis_in_def)
  with assms spec show ?thesis unfolding within_def by (metis Diff_subset order_trans)
qed

lemma process_phi_blacks:
  assumes inv: "phi_inv ps f st"
  shows "blacks st \<subseteq> blacks (process_phi ps p st)"
    and "ph_changing (process_phi ps p st) \<Longrightarrow> ph_changing st \<or> blacks st \<noteq> blacks (process_phi ps p st)"
proof -
  note spec = process_phi_spec[where ps = ps and p = p and st = st, OF refl]
  have old: "y \<in> set (ph_black (process_phi ps p st) q)" if "y \<in> set (ph_black st q)" for q y
    using that spec(2) spec(3)[of q] by (cases "q = p") (auto simp: blackened_def)
  then show "blacks st \<subseteq> blacks (process_phi ps p st)" by (auto simp: blacks_def)
  assume "ph_changing (process_phi ps p st)"
  with spec(4) consider "ph_changing st" | "blackened ps st p \<inter> grown ps st p \<noteq> {}" by blast
  then show "ph_changing st \<or> blacks st \<noteq> blacks (process_phi ps p st)"
  proof cases
    case 2
    have disj: "set (ph_sites st p) \<inter> set (ph_black st p) = {}"
      using inv by (simp add: phi_inv_def)
    have "phis_in ps st p \<noteq> {}"
    proof
      assume "phis_in ps st p = {}"
      then have "blackened ps st p = set (ph_black st p)" "grown ps st p = set (ph_sites st p)"
        by (simp_all add: blackened_def grown_def)
      with 2 disj show False by blast
    qed
    then obtain y where "y \<in> phis_in ps st p" by blast
    with disj have "y \<notin> set (ph_black st p)" "y \<in> blackened ps st p"
      by (auto simp: phis_in_def blackened_def)
    with spec(2) have "(p, y) \<notin> blacks st" "(p, y) \<in> blacks (process_phi ps p st)"
      by (simp_all add: blacks_def)
    then show ?thesis by blast
  qed simp
qed

lemma round_facts:
  assumes "phi_inv ps f st" and "within K U st" and "set ks \<subseteq> K" and "settled ps D st"
  shows "let st' = fold (process_phi ps) ks st in
     phi_inv ps f st' \<and> within K U st' \<and> settled ps (D \<union> set ks) st' \<and> blacks st \<subseteq> blacks st'
   \<and> (ph_changing st' \<longrightarrow> ph_changing st \<or> blacks st \<noteq> blacks st')"
  using assms
proof (induction ks arbitrary: st D)
  case (Cons p ks)
  let ?st = "process_phi ps p st"
  note step = process_phi_inv[OF Cons.prems(1), of p] process_phi_settled[OF Cons.prems(1,4), of p]
    process_phi_blacks[OF Cons.prems(1), of p]
  have "within K U ?st" using process_phi_within Cons.prems(2,3) by simp
  from Cons.IH[OF step(1) this _ step(2)] Cons.prems(3) step(3,4)
  show ?case by (auto simp: Let_def)
qed (simp add: Let_def)

lemma phi_inv_cong:
  "phi_inv ps f (st\<lparr>ph_changing := b\<rparr>) = phi_inv ps f st"
  "within K U (st\<lparr>ph_changing := b\<rparr>) = within K U st"
  "blacks (st\<lparr>ph_changing := b\<rparr>) = blacks st"
  "phis_in ps (st\<lparr>ph_changing := b\<rparr>) = phis_in ps st"
  by (simp_all add: phi_inv_def within_def blacks_def phis_in_def[abs_def])

lemma propagate_round_facts:
  assumes "phi_inv ps f st" and "within (set ks) U st"
  shows "phi_inv ps f (propagate_round ps ks st)" and "within (set ks) U (propagate_round ps ks st)"
    and "settled ps (set ks) (propagate_round ps ks st)"
    and "blacks st \<subseteq> blacks (propagate_round ps ks st)"
    and "ph_changing (propagate_round ps ks st) \<Longrightarrow> blacks st \<noteq> blacks (propagate_round ps ks st)"
proof -
  have "phi_inv ps f (st\<lparr>ph_changing := False\<rparr>)" "within (set ks) U (st\<lparr>ph_changing := False\<rparr>)"
    using assms by (simp_all only: phi_inv_cong)
  from round_facts[OF this, of "sort ks" "{}"]
  show "phi_inv ps f (propagate_round ps ks st)" "within (set ks) U (propagate_round ps ks st)"
    "settled ps (set ks) (propagate_round ps ks st)"
    "blacks st \<subseteq> blacks (propagate_round ps ks st)"
    "ph_changing (propagate_round ps ks st) \<Longrightarrow> blacks st \<noteq> blacks (propagate_round ps ks st)"
    by (auto simp: propagate_round_def Let_def phi_inv_cong settled_def)
qed

section \<open>Properties\<close>

definition sites_of :: "(string, site list) dict \<Rightarrow> string \<Rightarrow> site list" where
  "sites_of d k = (case map_of d k of None \<Rightarrow> [] | Some v \<Rightarrow> v)"

definition start_phis :: "(string, site list) dict \<Rightarrow> phi_state" where
  "start_phis d = \<lparr>ph_sites = sites_of d, ph_black = (\<lambda>_. []), ph_changing = True\<rparr>"

definition all_sites :: "(string, site list) dict \<Rightarrow> site set" where
  "all_sites d = (\<Union>p \<in> set d. set (snd p))"

lemma sites_of_cases: "sites_of d k = [] \<or> (k \<in> set (dkeys d) \<and> set (sites_of d k) \<subseteq> all_sites d)"
proof (cases "map_of d k")
  case None
  then show ?thesis by (simp add: sites_of_def)
next
  case (Some v)
  then have "(k, v) \<in> set d" by (rule map_of_SomeD)
  with Some show ?thesis by (force simp: sites_of_def all_sites_def)
qed

lemma start_phis_inv: "phi_inv ps (sites_of d) (start_phis d)"
proof -
  have "site_at ps (sites_of d) 0 p y" if "y \<in> set (sites_of d p)" for p y
    using that by simp
  then show ?thesis
    by (auto simp only: phi_inv_def covers_def start_phis_def phi_state.simps list.set) blast
qed

lemma start_phis_within: "within (set (dkeys d)) (all_sites d) (start_phis d)"
proof -
  have "set (sites_of d p) \<subseteq> all_sites d" "p \<notin> set (dkeys d) \<Longrightarrow> sites_of d p = []" for p
    using sites_of_cases[of d p] by auto
  then show ?thesis by (simp add: within_def start_phis_def)
qed

lemma blacks_within: "within K U st \<Longrightarrow> blacks st \<subseteq> K \<times> U"
  unfolding within_def blacks_def by (clarsimp) (metis empty_iff list.set(1) subsetD)

lemma propagate_returns:
  "\<exists>st. while_option ph_changing (propagate_round ps (dkeys d)) (start_phis d) = Some st
     \<and> phi_inv ps (sites_of d) st \<and> (\<forall>p. phis_in ps st p = {})"
proof -
  let ?K = "set (dkeys d)" and ?U = "all_sites d" and ?step = "propagate_round ps (dkeys d)"
  let ?P = "\<lambda>st. phi_inv ps (sites_of d) st \<and> within ?K ?U st \<and> settled ps ?K st"
  let ?left = "\<lambda>st. ?K \<times> ?U - blacks st"
  let ?f = "\<lambda>st. 2 * card (?left st) + (if ph_changing st then 1 else 0 :: nat)"
  have start: "?P (start_phis d)"
    using start_phis_inv start_phis_within by (simp add: settled_def start_phis_def)
  have step: "?P (?step st) \<and> ?f (?step st) < ?f st" if P: "?P st" and ch: "ph_changing st" for st
  proof -
    note facts = propagate_round_facts[OF conjunct1[OF P] conjunct1[OF conjunct2[OF P]]]
    have fin: "finite (?left st)" by (simp add: all_sites_def)
    have sub: "?left (?step st) \<subseteq> ?left st" using facts(4) by blast
    have "?f (?step st) < ?f st"
    proof (cases "ph_changing (?step st)")
      case True
      have "blacks (?step st) \<subseteq> ?K \<times> ?U" using facts(2) by (rule blacks_within)
      with facts(4) facts(5)[OF True] have "?left (?step st) \<subset> ?left st" by blast
      then have "card (?left (?step st)) < card (?left st)" using fin by (rule psubset_card_mono[rotated])
      with True ch show ?thesis by simp
    next
      case False
      have "card (?left (?step st)) \<le> card (?left st)" using sub fin by (rule card_mono[rotated])
      with False ch show ?thesis by simp
    qed
    with facts show ?thesis by blast
  qed
  obtain st where run: "while_option ph_changing ?step (start_phis d) = Some st"
    using measure_while_option_Some[where P = ?P and b = ph_changing and c = ?step and f = ?f,
        OF step start] by blast
  have P: "?P st"
    using while_option_rule[where P = ?P, OF _ run start] step by blast
  have "\<not> ph_changing st" using while_option_stop[OF run] .
  with P have "\<forall>p \<in> ?K. phis_in ps st p = {}" unfolding settled_def by blast
  moreover have "phis_in ps st p = {}" if "p \<notin> ?K" for p
    using P that by (simp add: within_def phis_in_def)
  ultimately have "phis_in ps st p = {}" for p by blast
  with P run show ?thesis by blast
qed

lemma propagate_sites:
  "\<exists>sites. propagate_phi_map ps d = Some sites
     \<and> (\<forall>p x. x \<in> set (sites p) \<longleftrightarrow> fst x \<notin> set ps \<and> (\<exists>n. site_at ps (sites_of d) n p x))"
proof -
  obtain st where run: "while_option ph_changing (propagate_round ps (dkeys d)) (start_phis d) = Some st"
    and inv: "phi_inv ps (sites_of d) st" and none: "\<And>p. phis_in ps st p = {}"
    using propagate_returns by blast
  have "propagate_phi_map ps d = Some (ph_sites st)"
    using run by (simp add: propagate_phi_map_def start_phis_def sites_of_def[abs_def])
  moreover have "x \<in> set (ph_sites st p) \<longleftrightarrow> fst x \<notin> set ps \<and> (\<exists>n. site_at ps (sites_of d) n p x)"
    for p x
  proof
    assume x: "x \<in> set (ph_sites st p)"
    with none[of p] have "fst x \<notin> set ps" unfolding phis_in_def by blast
    moreover have "covers ps (sites_of d) p (set (ph_sites st p)) (set (ph_black st p))"
      using inv by (simp add: phi_inv_def)
    from coversD(3)[OF this, of x] x have "\<exists>n. site_at ps (sites_of d) n p x" by blast
    ultimately show "fst x \<notin> set ps \<and> (\<exists>n. site_at ps (sites_of d) n p x)" by blast
  next
    assume "fst x \<notin> set ps \<and> (\<exists>n. site_at ps (sites_of d) n p x)"
    then obtain n where x: "fst x \<notin> set ps" and at: "site_at ps (sites_of d) n p x" by blast
    have "covers ps (sites_of d) p (set (ph_sites st p)) (set (ph_black st p))"
      using inv by (simp add: phi_inv_def)
    from covers_reached[OF this x at] show "x \<in> set (ph_sites st p)"
      using none[of p] unfolding closer_def phis_in_def by blast
  qed
  ultimately show ?thesis by blast
qed

text \<open>
  C15. The iterative search for the definitions behind each phi node ends, and it finds for every
  phi exactly the sites that are definitions (no phi nodes) and reach it through a chain of
  phi nodes, also when the chains have cycles.
\<close>

theorem propagate_finds_definitions:
  "\<exists>sites. propagate_phi_map ps d = Some sites
     \<and> (\<forall>p x. x \<in> set (sites p) \<longleftrightarrow> fst x \<notin> set ps \<and> (\<exists>n. site_at ps (sites_of d) n p x))"
  by (rule propagate_sites)

lemma flow_run_total:
  assumes "forward_code bc"
  shows "\<exists>x. flow_run bc = Some x"
proof -
  obtain x where x: "trace_all bc = Some x"
    and inv: "\<And>r. x = Inr r \<Longrightarrow> run_inv bc r \<and> pending r = []"
    using trace_all_returns[OF assms] by blast
  show ?thesis
  proof (cases x)
    case (Inl e)
    with x show ?thesis by (simp add: flow_run_def)
  next
    case (Inr r)
    obtain g where "build_cfg (finished r) = Some (Inr g)"
      using build_cfg_ok inv[OF Inr] by blast
    moreover obtain fs where "prune_phis (finished r) = Some fs"
      using propagate_sites[of "phi_set (finished r)" "find_use_defs (finished r)"]
      by (auto simp: prune_phis_def Let_def)
    ultimately show ?thesis using x Inr by (simp add: flow_run_def)
  qed
qed

text \<open>
  The flow analysis of a function returns for every bytecode whose instructions are each
  followed by one at a later offset: it ends with an error of the trace or of the block infos,
  or with the graph and the infos; tracing, building the graph and pruning never loop.
\<close>

theorem flow_run_returns:
  assumes "forward_code bc"
  shows "\<exists>x. flow_run bc = Some x"
  using assms by (rule flow_run_total)

theorem flow_run_returns_witness: "\<exists>x. flow_run sample_code = Some x"
  by (rule flow_run_returns[OF sample_forward])

end
