(* ===== verification/DummyArray.thy ===== *)
theory DummyArray
  imports Prelude
begin

text \<open>
  Layouts of arrays without their data: \<open>numba_cuda/cudadrv/dummyarray.py\<close>. Shapes, strides
  and offsets are Python integers; an offset is in bytes from the data pointer. The
  attributes that \<open>Array.__init__\<close> computes once are functions of the dimensions here.
\<close>

section \<open>Slices\<close>

text \<open>\<open>slice.indices\<close> of Python's library.\<close>

definition clamp_index :: "int \<Rightarrow> int \<Rightarrow> int \<Rightarrow> int \<Rightarrow> int" where
  "clamp_index sz lower upper i =
     (if i < 0 then max lower (i + sz) else min upper i)"

definition slice_indices ::
  "int option \<Rightarrow> int option \<Rightarrow> int option \<Rightarrow> int \<Rightarrow> (int \<times> int \<times> int) res" where
  "slice_indices start stop step sz =
     (let st = (case step of None \<Rightarrow> 1 | Some s \<Rightarrow> s)
      in if st = 0 then Inl ValueError
         else let lower = (if st < 0 then - 1 else 0); upper = (if st < 0 then sz - 1 else sz)
              in Inr (case start of None \<Rightarrow> if st < 0 then upper else lower
                                  | Some i \<Rightarrow> clamp_index sz lower upper i,
                      case stop of None \<Rightarrow> if st < 0 then lower else upper
                                 | Some i \<Rightarrow> clamp_index sz lower upper i,
                      st))"

datatype item = Index int | Slice "int option" "int option" "int option"

definition compute_size :: "int \<Rightarrow> int \<Rightarrow> int \<Rightarrow> int" where
  "compute_size start stop step =
     (let lo = (if 0 < step then start else stop); hi = (if 0 < step then stop else start);
          st = (if 0 < step then step else - step)
      in if hi \<le> lo then 0 else (hi - lo - 1) div st + 1)"

section \<open>Dimensions\<close>

record dim =
  d_start :: int
  d_stop :: int
  d_size :: int
  d_stride :: int
  d_single :: bool

definition new_dim :: "int \<Rightarrow> int \<Rightarrow> int \<Rightarrow> int \<Rightarrow> bool \<Rightarrow> dim res" where
  "new_dim start stop sz stride single =
     (if single \<and> sz \<noteq> 1 then Inl AssertionError
      else Inr \<lparr>d_start = start, d_stop = stop, d_size = sz, d_stride = stride, d_single = single\<rparr>)"

definition dim_slice :: "dim \<Rightarrow> int option \<Rightarrow> int option \<Rightarrow> int option \<Rightarrow> dim res" where
  "dim_slice d start stop step =
     bindE (slice_indices start stop step (d_size d)) (\<lambda>(i, j, st).
       let stride = st * d_stride d;
           b = d_start d + i * \<bar>d_stride d\<bar>;
           e = d_start d + j * \<bar>d_stride d\<bar>
       in new_dim b e (if stride = 0 then 1 else compute_size b e stride) stride False)"

definition dim_getitem :: "dim \<Rightarrow> item \<Rightarrow> dim res" where
  "dim_getitem d it =
     (case it of
        Slice start stop step \<Rightarrow> dim_slice d start stop step
      | Index i \<Rightarrow>
          bindE (if i \<noteq> - 1 then dim_slice d (Some i) (Some (i + 1)) None
                 else dim_slice d (Some (- 1)) None None)
            (\<lambda>sliced. if d_size sliced \<noteq> 1 then Inl IndexError
                      else new_dim (d_start sliced) (d_stop sliced) (d_size sliced) (d_stride sliced) True))"

definition get_offset :: "dim \<Rightarrow> int \<Rightarrow> int" where
  "get_offset d idx = d_start d + idx * d_stride d"

definition normalize_dim :: "dim \<Rightarrow> int \<Rightarrow> dim res" where
  "normalize_dim d base =
     new_dim (d_start d - base) (d_stop d - base) (d_size d) (d_stride d) (d_single d)"

definition copy_dim ::
  "dim \<Rightarrow> int option \<Rightarrow> int option \<Rightarrow> int option \<Rightarrow> int option \<Rightarrow> bool option \<Rightarrow> dim res" where
  "copy_dim d start stop sz stride single =
     new_dim (case start of None \<Rightarrow> d_start d | Some x \<Rightarrow> x) (case stop of None \<Rightarrow> d_stop d | Some x \<Rightarrow> x)
       (case sz of None \<Rightarrow> d_size d | Some x \<Rightarrow> x) (case stride of None \<Rightarrow> d_stride d | Some x \<Rightarrow> x)
       (case single of None \<Rightarrow> d_single d | Some x \<Rightarrow> x)"

definition dim_is_contiguous :: "dim \<Rightarrow> int \<Rightarrow> bool" where
  "dim_is_contiguous d itemsize \<longleftrightarrow> d_stride d = itemsize"

definition compute_index :: "int list \<Rightarrow> dim list \<Rightarrow> int" where
  "compute_index indices dims = sum_list (map (\<lambda>(i, d). get_offset d i) (zip indices dims))"

section \<open>Arrays\<close>

type_synonym extent = "int \<times> int"

record array =
  a_dims :: "dim list"
  a_itemsize :: int

datatype subarray = Sub array | Element extent

definition shape :: "array \<Rightarrow> int list" where
  "shape a = map d_size (a_dims a)"

definition strides :: "array \<Rightarrow> int list" where
  "strides a = map d_stride (a_dims a)"

definition a_size :: "array \<Rightarrow> int" where
  "a_size a = prod_list (shape a)"

fun c_flag :: "int \<Rightarrow> dim list \<Rightarrow> bool" where
  "c_flag sd [] = True"
| "c_flag sd (d # ds) =
     (if d_size d \<noteq> 1 then d_stride d = sd \<and> c_flag (sd * d_size d) ds else c_flag sd ds)"

text \<open>
  Both directions run the same loop. The early return for a dimension of size 0 inside the
  first loop is never taken: an array of size 0 has returned before.
\<close>

definition compute_layout :: "dim list \<Rightarrow> int \<Rightarrow> bool \<times> bool" where
  "compute_layout dims itemsize =
     (if dims = [] then (True, True)
      else if prod_list (map d_size dims) = 0 then (True, True)
      else if \<exists>d \<in> set dims. d_stride d = 0 then (False, False)
      else (c_flag itemsize (rev dims), c_flag itemsize dims))"

definition is_c_contig :: "array \<Rightarrow> bool" where
  "is_c_contig a = fst (compute_layout (a_dims a) (a_itemsize a))"

definition is_f_contig :: "array \<Rightarrow> bool" where
  "is_f_contig a = snd (compute_layout (a_dims a) (a_itemsize a))"

definition compute_extent :: "array \<Rightarrow> extent" where
  "compute_extent a =
     (let start = compute_index (map (\<lambda>_. 0) (a_dims a)) (a_dims a);
          stop = compute_index (map (\<lambda>s. s - 1) (shape a)) (a_dims a) + a_itemsize a
      in (start, max stop start))"

fun desc_dims :: "int \<Rightarrow> int list \<Rightarrow> int list \<Rightarrow> dim list" where
  "desc_dims offset (n # shp) (s # strds) =
     \<lparr>d_start = offset, d_stop = offset + n * s, d_size = n, d_stride = s, d_single = False\<rparr>
       # desc_dims 0 shp strds"
| "desc_dims offset _ _ = []"

definition from_desc :: "int \<Rightarrow> int list \<Rightarrow> int list \<Rightarrow> int \<Rightarrow> array" where
  "from_desc offset shp strds itemsize = \<lparr>a_dims = desc_dims offset shp strds, a_itemsize = itemsize\<rparr>"

section \<open>Reshaping without a copy\<close>

definition nth_res :: "'a list \<Rightarrow> nat \<Rightarrow> 'a res" where
  "nth_res xs i = (if i < length xs then Inr (xs ! i) else Inl IndexError)"

text \<open>The axes from \<open>ni\<close> to \<open>nj\<close> of the new shape against those from \<open>oi\<close> to \<open>oj\<close> of the old.\<close>

definition match_axes ::
  "int list \<Rightarrow> int list \<Rightarrow> int \<times> int \<times> nat \<times> nat \<Rightarrow> (int \<times> int \<times> nat \<times> nat) res option" where
  "match_axes olddims newdims =
     loopE (\<lambda>(np, op, nj, oj). np \<noteq> op)
       (\<lambda>(np, op, nj, oj). Some
          (if np < op then bindE (nth_res newdims nj) (\<lambda>d. Inr (np * d, op, nj + 1, oj))
           else bindE (nth_res olddims oj) (\<lambda>d. Inr (np, op * d, nj, oj + 1))))"

text \<open>Whether the old axes can be combined. All indices are below \<open>oj\<close>, which was reached.\<close>

definition can_combine :: "bool \<Rightarrow> int list \<Rightarrow> int list \<Rightarrow> nat \<Rightarrow> nat \<Rightarrow> bool" where
  "can_combine f_order olddims oldstrides oi oj =
     (\<forall>k \<in> set [oi..<oj - 1].
        if f_order then oldstrides ! (k + 1) = olddims ! k * oldstrides ! k
        else oldstrides ! k = olddims ! (k + 1) * oldstrides ! (k + 1))"

definition fill_strides :: "bool \<Rightarrow> int list \<Rightarrow> int list \<Rightarrow> nat \<Rightarrow> nat \<Rightarrow> nat \<Rightarrow> nat \<Rightarrow> int list \<Rightarrow> int list" where
  "fill_strides f_order newdims oldstrides oi oj ni nj ns =
     (if f_order
      then fold (\<lambda>k ns. ns[k := ns ! (k - 1) * newdims ! (k - 1)]) [ni + 1..<nj] (ns[ni := oldstrides ! oi])
      else fold (\<lambda>k ns. ns[k - 1 := ns ! k * newdims ! k]) (rev [ni + 1..<nj]) (ns[nj - 1 := oldstrides ! (oj - 1)]))"

type_synonym reshape_state = "nat \<times> nat \<times> nat \<times> nat \<times> int list option"

text \<open>One round of the main loop; no strides (\<open>None\<close>) once a copy is needed.\<close>

definition reshape_step ::
  "bool \<Rightarrow> int list \<Rightarrow> int list \<Rightarrow> int list \<Rightarrow> reshape_state \<Rightarrow> reshape_state res option" where
  "reshape_step f_order olddims oldstrides newdims = (\<lambda>(oi, oj, ni, nj, ns).
     bindO (match_axes olddims newdims (newdims ! ni, olddims ! oi, nj, oj)) (\<lambda>(np, op, nj, oj).
       Some (Inr (if can_combine f_order olddims oldstrides oi oj
                  then (oj, oj + 1, nj, nj + 1,
                        map_option (fill_strides f_order newdims oldstrides oi oj ni nj) ns)
                  else (oi, oj, ni, nj, None)))))"

definition trailing_strides :: "bool \<Rightarrow> int list \<Rightarrow> int \<Rightarrow> nat \<Rightarrow> int list \<Rightarrow> int list res" where
  "trailing_strides f_order newdims itemsize ni ns =
     (let last_stride = (if 1 \<le> ni then ns ! (ni - 1) else itemsize)
      in bindE (if f_order then bindE (py_index newdims (int ni - 1)) (\<lambda>d. Inr (last_stride * d))
                else Inr last_stride)
           (\<lambda>last. Inr (fold (\<lambda>k ns. ns[k := last]) [ni..<length newdims] ns)))"

definition attempt_nocopy_reshape ::
  "int list \<Rightarrow> int list \<Rightarrow> int list \<Rightarrow> int list \<Rightarrow> int \<Rightarrow> bool \<Rightarrow> int list option res option" where
  "attempt_nocopy_reshape dims strds newdims newstrides itemsize f_order =
     (let old = filter (\<lambda>p. fst p \<noteq> 1) (zip dims strds); olddims = map fst old; oldstrides = map snd old
      in if prod_list newdims \<noteq> prod_list olddims then Some (Inr None)
         else if prod_list newdims = 0
         then Some (Inr (Some (fold (\<lambda>i ns. ns[i := itemsize]) [0..<length newdims] newstrides)))
         else bindO (loopE (\<lambda>(oi, oj, ni, nj, ns). ns \<noteq> None \<and> ni < length newdims \<and> oi < length olddims)
                       (reshape_step f_order olddims oldstrides newdims) (0, 1, 0, 1, Some newstrides))
                (\<lambda>(oi, oj, ni, nj, ns).
                   case ns of
                     None \<Rightarrow> Some (Inr None)
                   | Some ns \<Rightarrow> Some (bindE (trailing_strides f_order newdims itemsize ni ns) (\<lambda>ns. Inr (Some ns)))))"

section \<open>Strides of contiguous arrays\<close>

text \<open>The strides after the first one: products of the sizes before it.\<close>

fun running_strides :: "int \<Rightarrow> int \<Rightarrow> int list \<Rightarrow> int list" where
  "running_strides itemsize tot [] = []"
| "running_strides itemsize tot (n # ns) = tot * n * itemsize # running_strides itemsize (tot * n) ns"

definition iter_strides_f_contig :: "int \<Rightarrow> int list \<Rightarrow> int list" where
  "iter_strides_f_contig itemsize shp = itemsize # running_strides itemsize 1 (butlast shp)"

definition iter_strides_c_contig :: "int \<Rightarrow> int list \<Rightarrow> int list" where
  "iter_strides_c_contig itemsize shp = rev (itemsize # running_strides itemsize 1 (rev (drop 1 shp)))"

section \<open>Contiguous extents\<close>

text \<open>\<open>itertools.product\<close> of ranges: the last index runs fastest.\<close>

fun index_product :: "int list \<Rightarrow> int list list" where
  "index_product [] = [[]]"
| "index_product (n # ns) =
     concat (map (\<lambda>i. map ((#) (int i)) (index_product ns)) [0..<nat n])"

definition iter_contiguous_extent :: "array \<Rightarrow> extent list" where
  "iter_contiguous_extent a =
     (if is_c_contig a \<or> is_f_contig a then [compute_extent a]
      else
        let dims = a_dims a;
            first_inner = d_stride (hd dims) < d_stride (last dims);
            inner = (if first_inner then hd dims else last dims);
            outer = (if first_inner then tl dims else butlast dims)
        in if dim_is_contiguous inner (a_itemsize a)
           then map (\<lambda>is. let base = compute_index is outer in (base + d_start inner, base + d_stop inner))
                  (index_product (map d_size outer))
           else map (\<lambda>is. let off = compute_index is dims in (off, off + a_itemsize a))
                  (index_product (shape a)))"

section \<open>Reshape, squeeze, ravel\<close>

text \<open>The position of the only unknown dimension, and the product of the known ones.\<close>

fun scan_newdims :: "int list \<Rightarrow> nat \<Rightarrow> int option \<Rightarrow> int \<Rightarrow> (int option \<times> int) res" where
  "scan_newdims [] i unknown known = Inr (unknown, known)"
| "scan_newdims (d # ds) i unknown known =
     (if d < 0 then
        case unknown of None \<Rightarrow> scan_newdims ds (i + 1) (Some (int i)) known | Some _ \<Rightarrow> Inl ValueError
      else scan_newdims ds (i + 1) unknown (known * d))"

definition infer_newdims :: "int \<Rightarrow> int list \<Rightarrow> int list res" where
  "infer_newdims tot newdims =
     bindE (scan_newdims newdims 0 None 1) (\<lambda>(unknown, known).
       case unknown of
         None \<Rightarrow> Inr newdims
       | Some i \<Rightarrow>
           if known = 0 \<or> tot mod known \<noteq> 0 then Inl ValueError
           else Inr (take (nat i) newdims @ [tot div known] @ drop (nat i + 1) newdims))"

datatype order = OrderC | OrderF | OrderA

definition reshape :: "array \<Rightarrow> int list \<Rightarrow> order \<Rightarrow> (array \<times> extent list option) res option" where
  "reshape a newdims ord =
     (if newdims = shape a then Some (Inr (a, None))
      else bindO (Some (infer_newdims (a_size a) newdims)) (\<lambda>newdims.
        let f_order = (case ord of OrderC \<Rightarrow> False | OrderF \<Rightarrow> True | OrderA \<Rightarrow> is_f_contig a)
        in if prod_list newdims \<noteq> a_size a then Some (Inl ValueError)
           else bindO
             (if (if f_order then is_f_contig a else is_c_contig a)
              then Some (Inr (if f_order then iter_strides_f_contig (a_itemsize a) newdims
                              else iter_strides_c_contig (a_itemsize a) newdims))
              else bindO (attempt_nocopy_reshape (shape a) (strides a) newdims
                            (replicate (length newdims) 0) (a_itemsize a) f_order)
                     (\<lambda>r. Some (case r of None \<Rightarrow> Inl NotImplementedError | Some ns \<Rightarrow> Inr ns)))
             (\<lambda>newstrides.
               Some (Inr (from_desc (fst (compute_extent a)) newdims newstrides (a_itemsize a),
                          Some (iter_contiguous_extent a))))))"

definition squeeze :: "array \<Rightarrow> int list option \<Rightarrow> (array \<times> extent list) res" where
  "squeeze a axis =
     bindE (case axis of
              None \<Rightarrow> Inr (filter (\<lambda>(n, st). n \<noteq> 1) (zip (shape a) (strides a)))
            | Some axes \<Rightarrow>
                bindE (mapE (\<lambda>ax. bindE (py_index (shape a) ax) (\<lambda>n. if n \<noteq> 1 then Inl ValueError else Inr ())) axes)
                  (\<lambda>_. Inr (map snd (filter (\<lambda>(i, p). int i \<notin> set axes)
                                       (zip [0..<length (a_dims a)] (zip (shape a) (strides a)))))))
       (\<lambda>ps. Inr (from_desc (fst (compute_extent a)) (map fst ps) (map snd ps) (a_itemsize a),
                  iter_contiguous_extent a))"

definition ravel :: "array \<Rightarrow> order \<Rightarrow> (array \<times> extent list) res" where
  "ravel a ord =
     (if (ord \<noteq> OrderF \<and> is_c_contig a) \<or> (ord \<noteq> OrderC \<and> is_f_contig a)
      then Inr (from_desc (fst (compute_extent a)) [a_size a] [a_itemsize a] (a_itemsize a),
                iter_contiguous_extent a)
      else Inl NotImplementedError)"

section \<open>Indexing\<close>

definition arr_getitem :: "array \<Rightarrow> item list \<Rightarrow> subarray res option" where
  "arr_getitem a items =
     (if length (a_dims a) < length items then Some (Inl IndexError)
      else
        let padded = items @ replicate (length (a_dims a) - length items) (Slice None None None)
        in bindO (Some (mapE (\<lambda>(d, it). dim_getitem d it) (zip (a_dims a) padded))) (\<lambda>dims.
             let newshape = map d_size (filter (\<lambda>d. \<not> d_single d) dims);
                 arr = \<lparr>a_dims = dims, a_itemsize = a_itemsize a\<rparr>
             in if newshape \<noteq> [] then bindO (reshape arr newshape OrderC) (\<lambda>(b, _). Some (Inr (Sub b)))
                else Some (Inr (Element (compute_extent arr)))))"

definition is_slice :: "item \<Rightarrow> bool" where
  "is_slice it = (case it of Slice _ _ _ \<Rightarrow> True | Index _ \<Rightarrow> False)"

text \<open>The key is a single item or a tuple of items.\<close>

definition is_element_indexing :: "item + item list \<Rightarrow> nat \<Rightarrow> bool" where
  "is_element_indexing key ndim =
     (case key of
        Inl it \<Rightarrow> \<not> is_slice it
      | Inr its \<Rightarrow> length its = ndim \<and> \<not> list_ex is_slice its)"

end
