(* ===== verification/Reshape.thy ===== *)
theory Reshape
  imports DummyArray
begin

text \<open>
  Correctness of \<open>attempt_nocopy_reshape\<close>: it ends without an error for every shape, and the
  strides it finds give every element the offset it had.
\<close>

section \<open>Offsets by linear index\<close>

text \<open>The offset of the \<open>l\<close>-th element, counting the last index fastest (C) or the first (F).\<close>

fun offs :: "bool \<Rightarrow> int list \<Rightarrow> int list \<Rightarrow> int \<Rightarrow> int" where
  "offs f (d # ds) (s # ss) l =
     (if f then (l mod d) * s + offs f ds ss (l div d)
      else (l div prod_list ds) * s + offs f ds ss (l mod prod_list ds))"
| "offs f _ _ l = 0"

lemma prod_list_pos: "(\<forall>d \<in> set ds. 0 < d) \<Longrightarrow> 0 < prod_list (ds :: int list)"
  by (induction ds) auto

lemma prod_list_nonneg: "(\<forall>d \<in> set ds. 0 \<le> d) \<Longrightarrow> 0 \<le> prod_list (ds :: int list)"
  by (induction ds) auto

lemma mod_mult_div: "0 < b \<Longrightarrow> (l mod (a * b)) div b = (l div b) mod (a :: int)" if "0 < a" for a
  using that by (subst mult.commute) (simp add: zmod_zmult2_eq)

lemma mod_mult_mod: "(l mod (a * b)) mod b = l mod (b :: int)"
  by (simp add: mod_mult_right_eq mod_mod_cancel)

lemma offs_append_C:
  assumes "length A = length SA" and "\<forall>d \<in> set (A @ B). 0 < d" and "0 \<le> l" and "l < prod_list (A @ B)"
  shows "offs False (A @ B) (SA @ SB) l
    = offs False A SA (l div prod_list B) + offs False B SB (l mod prod_list B)"
  using assms
proof (induction A SA arbitrary: l rule: list_induct2)
  case Nil
  then show ?case by simp
next
  case (Cons d A s SA)
  have pos: "0 < prod_list A" "0 < prod_list B" using Cons.prems by (auto intro: prod_list_pos)
  have "l div (prod_list A * prod_list B) = l div prod_list B div prod_list A"
    using pos by (subst mult.commute) (simp add: zdiv_zmult2_eq)
  moreover have "0 \<le> l mod (prod_list A * prod_list B)" "l mod (prod_list A * prod_list B) < prod_list (A @ B)"
    using pos by simp_all
  ultimately show ?case using Cons pos by (simp add: mod_mult_div mod_mult_mod)
qed

lemma offs_append_F:
  assumes "length A = length SA" and "\<forall>d \<in> set (A @ B). 0 < d"
  shows "offs True (A @ B) (SA @ SB) l
    = offs True A SA (l mod prod_list A) + offs True B SB (l div prod_list A)"
  using assms
proof (induction A SA arbitrary: l rule: list_induct2)
  case Nil
  then show ?case by simp
next
  case (Cons d A s SA)
  have pos: "0 < d" "0 < prod_list A" using Cons.prems by (auto intro: prod_list_pos)
  have "l div (d * prod_list A) = l div d div prod_list A"
    using pos by (simp add: zdiv_zmult2_eq)
  moreover have "l mod (d * prod_list A) mod d = l mod d" by (simp add: mod_mod_cancel)
  moreover have "l mod (d * prod_list A) div d = l div d mod prod_list A"
    using mod_mult_div[OF pos(2,1), of l] by (simp add: mult.commute)
  ultimately show ?case using Cons by simp
qed

text \<open>Axes that can be combined are one axis with the innermost stride.\<close>

lemma offs_group_C:
  assumes "length ds = length ss" and "ds \<noteq> []" and "\<forall>d \<in> set ds. 0 < d"
    and "\<forall>k. k + 1 < length ds \<longrightarrow> ss ! k = ds ! (k + 1) * ss ! (k + 1)"
  shows "offs False ds ss l = l * last ss \<and> hd ss = prod_list (tl ds) * last ss"
  using assms
proof (induction ds ss arbitrary: l rule: list_induct2)
  case Nil
  then show ?case by simp
next
  case (Cons d ds s ss)
  show ?case
  proof (cases "ds = []")
    case True
    with Cons.hyps show ?thesis by simp
  next
    case False
    then have ss: "ss \<noteq> []" using Cons.hyps by auto
    have step: "\<forall>k. k + 1 < length ds \<longrightarrow> ss ! k = ds ! (k + 1) * ss ! (k + 1)"
      using Cons.prems(3) by (metis Suc_eq_plus1 Suc_less_eq length_Cons nth_Cons_Suc)
    have "s = ds ! 0 * ss ! 0" using Cons.prems(3) False by (auto dest: spec[of _ 0])
    also have "\<dots> = hd ds * (prod_list (tl ds) * last ss)"
      using Cons.IH[OF False _ step] Cons.prems(2) False ss by (simp add: hd_conv_nth)
    also have "\<dots> = prod_list ds * last ss" using False by (cases ds) simp_all
    finally have s: "s = prod_list ds * last ss" .
    have "offs False (d # ds) (s # ss) l
        = (l div prod_list ds) * (prod_list ds * last ss) + (l mod prod_list ds) * last ss"
      using Cons.IH[OF False _ step] Cons.prems(2) by (simp add: s)
    also have "\<dots> = (l div prod_list ds * prod_list ds + l mod prod_list ds) * last ss"
      by (simp only: distrib_right mult.assoc)
    also have "\<dots> = l * last ss" by simp
    finally show ?thesis using s ss by simp
  qed
qed

lemma offs_group_F:
  assumes "length ds = length ss" and "ds \<noteq> []"
    and "\<forall>k. k + 1 < length ds \<longrightarrow> ss ! (k + 1) = ds ! k * ss ! k" and "0 \<le> l" and "l < prod_list ds"
    and "\<forall>d \<in> set ds. 0 < d"
  shows "offs True ds ss l = l * hd ss"
  using assms
proof (induction ds ss arbitrary: l rule: list_induct2)
  case Nil
  then show ?case by simp
next
  case (Cons d ds s ss)
  show ?case
  proof (cases "ds = []")
    case True
    with Cons show ?thesis by simp
  next
    case False
    then have ss: "ss \<noteq> []" using Cons.hyps by auto
    have step: "\<forall>k. k + 1 < length ds \<longrightarrow> ss ! (k + 1) = ds ! k * ss ! k"
      using Cons.prems(2) by (metis Suc_eq_plus1 Suc_less_eq length_Cons nth_Cons_Suc)
    have "hd ss = d * s" using Cons.prems(2) False ss by (auto simp: hd_conv_nth dest: spec[of _ 0])
    have d: "0 < d" using Cons.prems by simp
    then have "d * (l div d) \<le> l" using minus_mod_eq_mult_div[of l d] pos_mod_sign[OF d, of l] by linarith
    then have "d * (l div d) < d * prod_list ds" using Cons.prems(4) by simp
    then have "l div d < prod_list ds" using d by (simp only: mult_less_cancel_left_pos)
    moreover have "0 \<le> l div d" using Cons.prems(3) d by (simp add: pos_imp_zdiv_nonneg_iff)
    ultimately have "offs True ds ss (l div d) = (l div d) * hd ss"
      using Cons.IH[OF False step] Cons.prems by simp
    with \<open>hd ss = d * s\<close> have "offs True (d # ds) (s # ss) l = (l mod d) * s + (l div d) * (d * s)"
      by simp
    also have "\<dots> = (l mod d + l div d * d) * s" by (simp only: distrib_right mult.assoc)
    also have "\<dots> = l * s" by simp
    finally show ?thesis by simp
  qed
qed

text \<open>Axes of size 1 add nothing.\<close>

lemma offs_drop_ones:
  assumes "length ds = length ss" and "\<forall>d \<in> set ds. 0 < d" and "0 \<le> l" and "l < prod_list ds"
  shows "offs f (map fst (filter (\<lambda>p. fst p \<noteq> 1) (zip ds ss))) (map snd (filter (\<lambda>p. fst p \<noteq> 1) (zip ds ss))) l
    = offs f ds ss l"
  using assms
proof (induction ds ss arbitrary: l rule: list_induct2)
  case Nil
  then show ?case by simp
next
  case (Cons d ds s ss)
  have prod: "prod_list (map fst (filter (\<lambda>p. fst p \<noteq> 1) (zip ds ss))) = prod_list ds"
    using Cons.hyps by (induction ds ss rule: list_induct2) auto
  have pos: "0 < prod_list ds" using Cons.prems by (auto intro: prod_list_pos)
  show ?case
  proof (cases "d = 1")
    case True
    with Cons pos show ?thesis by (simp add: prod)
  next
    case False
    have d: "0 < d" using Cons.prems by simp
    then have "d * (l div d) \<le> l" using minus_mod_eq_mult_div[of l d] pos_mod_sign[OF d, of l] by linarith
    then have "d * (l div d) < d * prod_list ds" using Cons.prems(3) by simp
    then have "l div d < prod_list ds" using d by (simp only: mult_less_cancel_left_pos)
    moreover have "0 \<le> l div d" using Cons.prems(2) d by (simp add: pos_imp_zdiv_nonneg_iff)
    moreover have "0 \<le> l mod prod_list ds" "l mod prod_list ds < prod_list ds" using pos by simp_all
    ultimately show ?thesis using Cons False by (cases f) (simp_all add: prod)
  qed
qed

lemma prod_drop_ones:
  "length ds = length ss \<Longrightarrow> prod_list (map fst (filter (\<lambda>p. fst p \<noteq> 1) (zip ds ss))) = prod_list (ds :: int list)"
  by (induction ds ss rule: list_induct2) auto

lemma offs_trailing_ones:
  assumes "length A = length SA" and "\<forall>d \<in> set A. 0 < d" and "\<forall>d \<in> set B. d = 1"
    and "0 \<le> l" and "l < prod_list A"
  shows "offs f (A @ B) (SA @ SB) l = offs f A SA l"
proof -
  have one: "prod_list B = 1" using assms(3) by (induction B) auto
  have ones: "offs f B SB 0 = 0" for f
    using assms(3)
  proof (induction B arbitrary: SB)
    case (Cons b B)
    then show ?case by (cases SB) auto
  qed simp
  have pos: "\<forall>d \<in> set (A @ B). 0 < d" using assms(2,3) by auto
  show ?thesis
  proof (cases f)
    case True
    with offs_append_F[OF assms(1) pos] assms(4,5) ones show ?thesis by simp
  next
    case False
    with offs_append_C[OF assms(1) pos] assms(4,5) one ones show ?thesis by simp
  qed
qed

section \<open>Matching axes\<close>

definition seg :: "'a list \<Rightarrow> nat \<Rightarrow> nat \<Rightarrow> 'a list" where
  "seg xs i j = take (j - i) (drop i xs)"

lemma seg_Suc: "i \<le> j \<Longrightarrow> j < length xs \<Longrightarrow> seg xs i (Suc j) = seg xs i j @ [xs ! j]"
  by (simp add: seg_def Suc_diff_le take_Suc_conv_app_nth)

lemma take_seg: "i \<le> j \<Longrightarrow> take j xs = take i xs @ seg xs i j"
  by (metis le_add_diff_inverse seg_def take_add)

lemma drop_seg: "i \<le> j \<Longrightarrow> drop i xs = seg xs i j @ drop j xs"
  by (metis append_take_drop_id drop_drop le_add_diff_inverse2 seg_def)

lemma length_seg: "j \<le> length xs \<Longrightarrow> length (seg xs i j) = j - i"
  by (simp add: seg_def)

lemma nth_seg: "k < j - i \<Longrightarrow> j \<le> length xs \<Longrightarrow> seg xs i j ! k = xs ! (i + k)"
  by (simp add: seg_def)

lemma set_seg: "set (seg xs i j) \<subseteq> set xs"
  unfolding seg_def by (meson in_set_dropD in_set_takeD subsetI)

lemma prod_seg_Suc: "i \<le> j \<Longrightarrow> j < length xs \<Longrightarrow> prod_list (seg xs i (Suc j)) = prod_list (seg xs i j) * (xs ! j :: int)"
  by (simp add: seg_Suc)

lemma prod_seg_grows:
  assumes "\<forall>d \<in> set xs. 0 < (d :: int)" and "i \<le> j"
  shows "prod_list (seg xs i j) \<le> prod_list (drop i xs)"
proof -
  have pos: "0 < prod_list (seg xs i j)" "0 < prod_list (drop j xs)"
    using assms(1) set_seg[of xs i j] by (auto intro!: prod_list_pos dest: in_set_dropD)
  have "prod_list (drop i xs) = prod_list (seg xs i j) * prod_list (drop j xs)"
    using drop_seg[OF assms(2), of xs] by simp
  with pos show ?thesis by (simp add: mult_le_cancel_left1)
qed

lemma match_axes_ok:
  assumes old: "\<forall>d \<in> set od. 0 < d" and new: "\<forall>d \<in> set nd. 0 < d"
    and rest: "prod_list (drop ni nd) = prod_list (drop oi od)" and "ni < length nd" and "oi < length od"
  shows "\<exists>x nj oj. match_axes od nd (nd ! ni, od ! oi, Suc ni, Suc oi) = Some (Inr (x, x, nj, oj))
    \<and> ni < nj \<and> nj \<le> length nd \<and> oi < oj \<and> oj \<le> length od \<and> prod_list (seg nd ni nj) = prod_list (seg od oi oj)"
proof -
  let ?P = "\<lambda>(np, op, nj, oj). ni < nj \<and> nj \<le> length nd \<and> oi < oj \<and> oj \<le> length od
    \<and> np = prod_list (seg nd ni nj) \<and> op = prod_list (seg od oi oj)"
  let ?m = "\<lambda>(np :: int, op :: int, nj, oj). (length nd - nj) + (length od - oj)"
  have "\<exists>s. match_axes od nd (nd ! ni, od ! oi, Suc ni, Suc oi) = Some (Inr s) \<and> ?P s \<and> \<not> (\<lambda>(np, op, nj, oj). np \<noteq> op) s"
    unfolding match_axes_def
  proof (rule loopE_rule[where P = ?P and r = "measure ?m"])
    show "?P (nd ! ni, od ! oi, Suc ni, Suc oi)"
      using assms(4,5) by (simp add: seg_Suc) (simp add: seg_def)
  next
    fix s assume "?P s" and "(\<lambda>(np, op, nj, oj). np \<noteq> op) s"
    then obtain np op nj oj where s: "s = (np, op, nj, oj)" and ne: "np \<noteq> op"
      and r: "ni < nj" "nj \<le> length nd" "oi < oj" "oj \<le> length od"
        "np = prod_list (seg nd ni nj)" "op = prod_list (seg od oi oj)" by auto
    have bounds: "np \<le> prod_list (drop ni nd)" "op \<le> prod_list (drop oi od)"
      using prod_seg_grows[OF new, of ni nj] prod_seg_grows[OF old, of oi oj] r by simp_all
    show "\<exists>s'. (\<lambda>(np, op, nj, oj). Some
          (if np < op then bindE (nth_res nd nj) (\<lambda>d. Inr (np * d, op, nj + 1, oj))
           else bindE (nth_res od oj) (\<lambda>d. Inr (np, op * d, nj, oj + 1)))) s = Some (Inr s')
        \<and> ?P s' \<and> (s', s) \<in> measure ?m"
    proof (cases "np < op")
      case True
      have "nj \<noteq> length nd"
      proof
        assume "nj = length nd"
        then have "np = prod_list (drop ni nd)" using r(5) by (simp add: seg_def)
        with True bounds(2) rest show False by simp
      qed
      with r(2) have lt: "nj < length nd" by simp
      with True r show ?thesis by (simp add: s nth_res_def prod_seg_Suc)
    next
      case False
      have "oj \<noteq> length od"
      proof
        assume "oj = length od"
        then have "op = prod_list (drop oi od)" using r(6) by (simp add: seg_def)
        with False ne bounds(1) rest show False by simp
      qed
      with r(4) have lt: "oj < length od" by simp
      with False r show ?thesis by (simp add: s nth_res_def prod_seg_Suc)
    qed
  qed simp
  then show ?thesis by auto
qed

section \<open>New strides\<close>

definition filled_up :: "nat \<Rightarrow> nat \<Rightarrow> int list \<Rightarrow> int list \<Rightarrow> int list \<Rightarrow> bool" where
  "filled_up a b nd ns R \<longleftrightarrow> length R = length ns \<and> (\<forall>i. i < a \<or> b \<le> i \<longrightarrow> R ! i = ns ! i)
     \<and> (\<forall>k. a \<le> k \<and> k < b \<longrightarrow> R ! k = R ! (k - 1) * nd ! (k - 1))"

definition filled_down :: "nat \<Rightarrow> nat \<Rightarrow> int list \<Rightarrow> int list \<Rightarrow> int list \<Rightarrow> bool" where
  "filled_down a b nd ns R \<longleftrightarrow> length R = length ns \<and> (\<forall>i. i < a - 1 \<or> b - 1 \<le> i \<longrightarrow> R ! i = ns ! i)
     \<and> (\<forall>k. a \<le> k \<and> k < b \<longrightarrow> R ! (k - 1) = R ! k * nd ! k)"

lemma filled_upD:
  assumes "filled_up a b nd ns R"
  shows "length R = length ns" and "i < a \<or> b \<le> i \<Longrightarrow> R ! i = ns ! i"
    and "a \<le> k \<Longrightarrow> k < b \<Longrightarrow> R ! k = R ! (k - 1) * nd ! (k - 1)"
  using assms unfolding filled_up_def by blast+

lemma filled_downD:
  assumes "filled_down a b nd ns R"
  shows "length R = length ns" and "i < a - 1 \<or> b - 1 \<le> i \<Longrightarrow> R ! i = ns ! i"
    and "a \<le> k \<Longrightarrow> k < b \<Longrightarrow> R ! (k - 1) = R ! k * nd ! k"
  using assms unfolding filled_down_def by blast+

lemma filled_up_step:
  assumes R: "filled_up a b nd ns R" and "0 < a" and "a \<le> b" and b: "b < length ns"
  shows "filled_up a (Suc b) nd ns (R[b := R ! (b - 1) * nd ! (b - 1)])"
  unfolding filled_up_def
proof (intro conjI allI impI)
  let ?R = "R[b := R ! (b - 1) * nd ! (b - 1)]"
  note D = filled_upD[OF R]
  show "length ?R = length ns" using D(1) by simp
  show "?R ! i = ns ! i" if "i < a \<or> Suc b \<le> i" for i
  proof -
    have "i \<noteq> b" and "i < a \<or> b \<le> i" using that assms(3) by auto
    with D(2)[of i] show ?thesis by simp
  qed
  show "?R ! k = ?R ! (k - 1) * nd ! (k - 1)" if k: "a \<le> k \<and> k < Suc b" for k
  proof (cases "k = b")
    case True
    have "?R ! (b - 1) = R ! (b - 1)" using assms(2,3) by (intro nth_list_update_neq) simp
    with True D(1) b show ?thesis by simp
  next
    case False
    with k assms(2) have "k < b" "k - 1 \<noteq> b" by auto
    with D(3)[of k] k show ?thesis by (simp add: nth_list_update_neq)
  qed
qed

lemma fill_up:
  assumes "0 < a" and "b \<le> length ns"
  shows "filled_up a b nd ns (fold (\<lambda>k ns. ns[k := ns ! (k - 1) * nd ! (k - 1)]) [a..<b] ns)"
  using assms
proof (induction b)
  case 0
  then show ?case by (simp add: filled_up_def)
next
  case (Suc b)
  show ?case
  proof (cases "a \<le> b")
    case False
    then have "[a..<Suc b] = []" by simp
    then show ?thesis using False by (simp add: filled_up_def)
  next
    case True
    with Suc have "filled_up a b nd ns (fold (\<lambda>k ns. ns[k := ns ! (k - 1) * nd ! (k - 1)]) [a..<b] ns)" by simp
    from filled_up_step[OF this Suc.prems(1) True] Suc.prems(2) True show ?thesis by simp
  qed
qed

lemma filled_down_step:
  assumes R: "filled_down a b nd (ns[b - 1 := ns ! b * nd ! b]) R" and "0 < a" and "a \<le> b" and b: "b < length ns"
  shows "filled_down a (Suc b) nd ns R"
  unfolding filled_down_def
proof (intro conjI allI impI)
  note D = filled_downD[OF R]
  show "length R = length ns" using D(1) by simp
  show "R ! i = ns ! i" if i: "i < a - 1 \<or> Suc b - 1 \<le> i" for i
  proof -
    have "i \<noteq> b - 1" using i assms(2,3) by linarith
    moreover have "i < a - 1 \<or> b - 1 \<le> i" using i by linarith
    ultimately show ?thesis using D(2)[of i] by simp
  qed
  show "R ! (k - 1) = R ! k * nd ! k" if k: "a \<le> k \<and> k < Suc b" for k
  proof (cases "k = b")
    case True
    have "R ! (b - 1) = ns ! b * nd ! b" using D(2)[of "b - 1"] assms(2,3) b by simp
    moreover have "R ! b = ns ! b" using D(2)[of b] assms(2,3) by simp
    ultimately show ?thesis by (simp add: True)
  next
    case False
    with k D(3)[of k] show ?thesis by simp
  qed
qed

lemma fill_down:
  assumes "0 < a" and "b \<le> length ns"
  shows "filled_down a b nd ns (fold (\<lambda>k ns. ns[k - 1 := ns ! k * nd ! k]) (rev [a..<b]) ns)"
  using assms
proof (induction b arbitrary: ns)
  case 0
  then show ?case by (simp add: filled_down_def)
next
  case (Suc b)
  show ?case
  proof (cases "a \<le> b")
    case False
    then have "[a..<Suc b] = []" by simp
    then show ?thesis using False by (simp add: filled_down_def)
  next
    case True
    with Suc have "filled_down a b nd (ns[b - 1 := ns ! b * nd ! b])
        (fold (\<lambda>k ns. ns[k - 1 := ns ! k * nd ! k]) (rev [a..<b]) (ns[b - 1 := ns ! b * nd ! b]))" by simp
    from filled_down_step[OF this Suc.prems(1) True] Suc.prems(2) True show ?thesis by simp
  qed
qed

lemma fill_strides_ok:
  assumes "ni < nj" and "nj \<le> length nd" and "length ns = length nd"
    and R_def: "R = fill_strides f nd os oi oj ni nj ns"
  shows "length R = length nd" and "\<And>i. i < ni \<Longrightarrow> R ! i = ns ! i"
    and "f \<Longrightarrow> R ! ni = os ! oi" and "f \<Longrightarrow> ni < k \<Longrightarrow> k < nj \<Longrightarrow> R ! k = R ! (k - 1) * nd ! (k - 1)"
    and "\<not> f \<Longrightarrow> R ! (nj - 1) = os ! (oj - 1)" and "\<not> f \<Longrightarrow> ni < k \<Longrightarrow> k < nj \<Longrightarrow> R ! (k - 1) = R ! k * nd ! k"
proof -
  have up: "filled_up (ni + 1) nj nd (ns[ni := os ! oi]) R" if f
    using fill_up[of "ni + 1" nj "ns[ni := os ! oi]" nd] assms that by (simp add: fill_strides_def)
  have down: "filled_down (ni + 1) nj nd (ns[nj - 1 := os ! (oj - 1)]) R" if "\<not> f"
    using fill_down[of "ni + 1" nj "ns[nj - 1 := os ! (oj - 1)]" nd] assms that by (simp add: fill_strides_def)
  show "length R = length nd"
    using filled_upD(1)[OF up] filled_downD(1)[OF down] assms(3) by (cases f) simp_all
  show "R ! i = ns ! i" if "i < ni" for i
    using filled_upD(2)[OF up, of i] filled_downD(2)[OF down, of i] that assms(1) by (cases f) simp_all
  show "R ! ni = os ! oi" if f
    using filled_upD(2)[OF up[OF that], of ni] assms(1,2,3) by simp
  show "R ! k = R ! (k - 1) * nd ! (k - 1)" if f "ni < k" "k < nj"
    using filled_upD(3)[OF up[OF that(1)], of k] that by simp
  show "R ! (nj - 1) = os ! (oj - 1)" if "\<not> f"
    using filled_downD(2)[OF down[OF that], of "nj - 1"] assms(1,2,3) by simp
  show "R ! (k - 1) = R ! k * nd ! k" if "\<not> f" "ni < k" "k < nj"
    using filled_downD(3)[OF down[OF that(1)], of k] that by simp
qed

lemma group_offs:
  assumes nd: "\<forall>d \<in> set nd. 0 < d" and od: "\<forall>d \<in> set od. 0 < d" and len: "length os = length od" "length ns = length nd"
    and r: "ni < nj" "nj \<le> length nd" "oi < oj" "oj \<le> length od"
    and prod: "prod_list (seg nd ni nj) = prod_list (seg od oi oj)" and comb: "can_combine f od os oi oj"
    and l: "0 \<le> l" "l < prod_list (seg nd ni nj)"
    and R_def: "R = fill_strides f nd os oi oj ni nj ns"
  shows "offs f (seg nd ni nj) (seg R ni nj) l = offs f (seg od oi oj) (seg os oi oj) l"
proof -
  note R = fill_strides_ok[OF r(1,2) len(2) R_def]
  have seg: "length (seg nd ni nj) = length (seg R ni nj)" "length (seg od oi oj) = length (seg os oi oj)"
    "seg nd ni nj \<noteq> []" "seg od oi oj \<noteq> []" "seg R ni nj \<noteq> []" "seg os oi oj \<noteq> []"
    using r len R(1) by (auto simp: seg_def)
  have pos: "\<forall>d \<in> set (seg nd ni nj). 0 < d" "\<forall>d \<in> set (seg od oi oj). 0 < d"
    using nd od set_seg[of nd ni nj] set_seg[of od oi oj] by blast+
  have ends: "hd (seg R ni nj) = R ! ni" "hd (seg os oi oj) = os ! oi"
    "last (seg R ni nj) = R ! (nj - 1)" "last (seg os oi oj) = os ! (oj - 1)"
    using r len R(1) seg(5,6) by (simp_all add: hd_conv_nth last_conv_nth nth_seg length_seg)
  have at: "seg nd ni nj ! k = nd ! (ni + k)" "seg R ni nj ! k = R ! (ni + k)" if "k < nj - ni" for k
    using that r R(1) by (simp_all add: nth_seg)
  have at': "seg od oi oj ! k = od ! (oi + k)" "seg os oi oj ! k = os ! (oi + k)" if "k < oj - oi" for k
    using that r len by (simp_all add: nth_seg)
  show ?thesis
  proof (cases f)
    case True
    have "seg R ni nj ! (k + 1) = seg nd ni nj ! k * seg R ni nj ! k" if "k + 1 < length (seg nd ni nj)" for k
      using that r at[of k] at[of "k + 1"] R(4)[of "ni + k + 1"] True
      by (simp add: length_seg mult.commute)
    then have "offs True (seg nd ni nj) (seg R ni nj) l = l * R ! ni"
      using offs_group_F[OF seg(1,3) _ l pos(1)] ends by simp
    moreover have "seg os oi oj ! (k + 1) = seg od oi oj ! k * seg os oi oj ! k"
      if "k + 1 < length (seg od oi oj)" for k
      using that r at'[of k] at'[of "k + 1"] comb True by (simp add: length_seg can_combine_def)
    then have "offs True (seg od oi oj) (seg os oi oj) l = l * os ! oi"
      using offs_group_F[OF seg(2,4) _ l(1) l(2)[unfolded prod] pos(2)] ends by simp
    ultimately show ?thesis using True R(3) by simp
  next
    case False
    have "seg R ni nj ! k = seg nd ni nj ! (k + 1) * seg R ni nj ! (k + 1)" if "k + 1 < length (seg nd ni nj)" for k
      using that r at[of k] at[of "k + 1"] R(6)[of "ni + k + 1"] False
      by (simp add: length_seg mult.commute)
    then have "offs False (seg nd ni nj) (seg R ni nj) l = l * R ! (nj - 1)"
      using offs_group_C[OF seg(1,3) pos(1)] ends by simp
    moreover have "seg os oi oj ! k = seg od oi oj ! (k + 1) * seg os oi oj ! (k + 1)"
      if "k + 1 < length (seg od oi oj)" for k
      using that r at'[of k] at'[of "k + 1"] comb False by (simp add: length_seg can_combine_def)
    then have "offs False (seg od oi oj) (seg os oi oj) l = l * os ! (oj - 1)"
      using offs_group_C[OF seg(2,4) pos(2)] ends by simp
    ultimately show ?thesis using False R(5) by simp
  qed
qed

section \<open>The main loop\<close>

text \<open>
  Before each round: the axes done so far have the same number of elements on both sides,
  and every element of them the same offset.
\<close>

definition reshape_inv ::
  "bool \<Rightarrow> int list \<Rightarrow> int list \<Rightarrow> int list \<Rightarrow> reshape_state \<Rightarrow> bool" where
  "reshape_inv f od os nd st =
     (case st of (oi, oj, ni, nj, s) \<Rightarrow>
        case s of
          None \<Rightarrow> True
        | Some ns \<Rightarrow> oj = Suc oi \<and> nj = Suc ni \<and> oi \<le> length od \<and> ni \<le> length nd \<and> length ns = length nd
            \<and> prod_list (take ni nd) = prod_list (take oi od)
            \<and> (\<forall>l. 0 \<le> l \<longrightarrow> l < prod_list (take ni nd) \<longrightarrow>
                 offs f (take ni nd) (take ni ns) l = offs f (take oi od) (take oi os) l))"

lemma offs_join:
  assumes nd: "\<forall>d \<in> set (A @ B). 0 < d" and od: "\<forall>d \<in> set (C @ D). 0 < d"
    and len: "length A = length SA" "length C = length SC"
    and prod: "prod_list A = prod_list C" "prod_list B = prod_list D"
    and left: "\<And>l. 0 \<le> l \<Longrightarrow> l < prod_list A \<Longrightarrow> offs f A SA l = offs f C SC l"
    and right: "\<And>l. 0 \<le> l \<Longrightarrow> l < prod_list B \<Longrightarrow> offs f B SB l = offs f D SD l"
    and l: "0 \<le> l" "l < prod_list (A @ B)"
  shows "offs f (A @ B) (SA @ SB) l = offs f (C @ D) (SC @ SD) l"
proof -
  have pos: "0 < prod_list A" "0 < prod_list B"
    using nd by (auto intro: prod_list_pos)
  have less: "l div x < y" if "0 < x" "l < x * y" for x y :: int
  proof -
    have "x * (l div x) \<le> l" using minus_mod_eq_mult_div[of l x] pos_mod_sign[OF that(1), of l] by linarith
    with that have "x * (l div x) < x * y" by linarith
    with that(1) show ?thesis by (simp only: mult_less_cancel_left_pos)
  qed
  show ?thesis
  proof (cases f)
    case True
    have "0 \<le> l div prod_list A" "l div prod_list A < prod_list B"
      using less[of "prod_list A" "prod_list B"] pos l by (simp_all add: pos_imp_zdiv_nonneg_iff)
    moreover have "0 \<le> l mod prod_list A" "l mod prod_list A < prod_list A" using pos by simp_all
    ultimately show ?thesis
      using offs_append_F[OF len(1) nd] offs_append_F[OF len(2) od] left right True prod by simp
  next
    case False
    have "0 \<le> l div prod_list B" "l div prod_list B < prod_list A"
      using less[of "prod_list B" "prod_list A"] pos l by (simp_all add: pos_imp_zdiv_nonneg_iff mult.commute)
    moreover have "0 \<le> l mod prod_list B" "l mod prod_list B < prod_list B" using pos by simp_all
    moreover have "l < prod_list (C @ D)" using l prod by simp
    ultimately show ?thesis
      using offs_append_C[OF len(1) nd l] offs_append_C[OF len(2) od l(1)] left right False prod by simp
  qed
qed

lemma reshape_step_ok:
  assumes nd: "\<forall>d \<in> set nd. 0 < d" and od: "\<forall>d \<in> set od. 0 < d" and len: "length os = length od"
    and tot: "prod_list nd = prod_list od"
    and inv: "reshape_inv f od os nd (oi, oj, ni, nj, Some ns)" and "ni < length nd" and "oi < length od"
  shows "\<exists>st'. reshape_step f od os nd (oi, oj, ni, nj, Some ns) = Some (Inr st') \<and> reshape_inv f od os nd st'
    \<and> (case st' of (oi', oj', ni', nj', s) \<Rightarrow> s \<noteq> None \<longrightarrow> ni < ni')"
proof -
  from inv have I: "oj = Suc oi" "nj = Suc ni" "length ns = length nd" "prod_list (take ni nd) = prod_list (take oi od)"
    "\<And>l. 0 \<le> l \<Longrightarrow> l < prod_list (take ni nd) \<Longrightarrow>
        offs f (take ni nd) (take ni ns) l = offs f (take oi od) (take oi os) l"
    by (auto simp: reshape_inv_def)
  have "0 < prod_list (take ni nd)" using nd by (auto intro!: prod_list_pos dest: in_set_takeD)
  moreover have "prod_list (take ni nd) * prod_list (drop ni nd) = prod_list (take oi od) * prod_list (drop oi od)"
    using tot by (metis append_take_drop_id prod_list.append)
  ultimately have rest: "prod_list (drop ni nd) = prod_list (drop oi od)" using I(4) by simp
  from match_axes_ok[OF od nd rest assms(6,7)] obtain x nj' oj' where
    run: "match_axes od nd (nd ! ni, od ! oi, nj, oj) = Some (Inr (x, x, nj', oj'))"
    and r: "ni < nj'" "nj' \<le> length nd" "oi < oj'" "oj' \<le> length od"
    and prod: "prod_list (seg nd ni nj') = prod_list (seg od oi oj')" using I(1,2) by auto
  show ?thesis
  proof (cases "can_combine f od os oi oj'")
    case False
    with run show ?thesis by (simp add: reshape_step_def reshape_inv_def)
  next
    case True
    define R where "R = fill_strides f nd os oi oj' ni nj' ns"
    note R = fill_strides_ok[OF r(1,2) I(3) R_def]
    have eqR: "take ni R = take ni ns"
      using R(1,2) r I(3) by (intro nth_equalityI) simp_all
    have "offs f (take nj' nd) (take nj' R) l = offs f (take oj' od) (take oj' os) l"
      if l: "0 \<le> l" "l < prod_list (take nj' nd)" for l
    proof -
      have splits: "take nj' nd = take ni nd @ seg nd ni nj'" "take nj' R = take ni R @ seg R ni nj'"
        "take oj' od = take oi od @ seg od oi oj'" "take oj' os = take oi os @ seg os oi oj'"
        using r by (simp_all add: take_seg)
      show ?thesis unfolding splits
      proof (rule offs_join)
        show "\<forall>d \<in> set (take ni nd @ seg nd ni nj'). 0 < d"
          using nd set_seg[of nd ni nj'] by (auto dest: in_set_takeD)
        show "\<forall>d \<in> set (take oi od @ seg od oi oj'). 0 < d"
          using od set_seg[of od oi oj'] by (auto dest: in_set_takeD)
        show "length (take ni nd) = length (take ni R)" "length (take oi od) = length (take oi os)"
          using R(1) len by simp_all
        show "prod_list (take ni nd) = prod_list (take oi od)" by (rule I(4))
        show "prod_list (seg nd ni nj') = prod_list (seg od oi oj')" by (rule prod)
        show "offs f (take ni nd) (take ni R) l = offs f (take oi od) (take oi os) l"
          if "0 \<le> l" "l < prod_list (take ni nd)" for l
          using I(5)[OF that] by (simp add: eqR)
        show "offs f (seg nd ni nj') (seg R ni nj') l = offs f (seg od oi oj') (seg os oi oj') l"
          if "0 \<le> l" "l < prod_list (seg nd ni nj')" for l
          by (rule group_offs[OF nd od len I(3) r prod True that R_def])
        show "0 \<le> l" by (rule l(1))
        show "l < prod_list (take ni nd @ seg nd ni nj')" using l(2) splits(1) by simp
      qed
    qed
    moreover have "prod_list (take nj' nd) = prod_list (take oj' od)"
      using I(4) prod r take_seg[of ni nj' nd] take_seg[of oi oj' od] by simp
    ultimately have "reshape_inv f od os nd (oj', oj' + 1, nj', nj' + 1, Some R)"
      using r R(1) by (simp add: reshape_inv_def)
    moreover have "reshape_step f od os nd (oi, oj, ni, nj, Some ns) = Some (Inr (oj', oj' + 1, nj', nj' + 1, Some R))"
      using run True by (simp add: reshape_step_def R_def)
    ultimately show ?thesis using r(1) by auto
  qed
qed

lemma reshape_loop_ok:
  assumes nd: "\<forall>d \<in> set nd. 0 < d" and od: "\<forall>d \<in> set od. 0 < d" and len: "length os = length od"
    and tot: "prod_list nd = prod_list od" and "length ns = length nd"
  shows "\<exists>st. loopE (\<lambda>(oi, oj, ni, nj, ns). ns \<noteq> None \<and> ni < length nd \<and> oi < length od)
      (reshape_step f od os nd) (0, 1, 0, 1, Some ns) = Some (Inr st) \<and> reshape_inv f od os nd st
    \<and> (case st of (oi, oj, ni, nj, s) \<Rightarrow> s \<noteq> None \<longrightarrow> length nd \<le> ni \<or> length od \<le> oi)"
proof -
  let ?b = "\<lambda>(oi, oj, ni, nj, ns). ns \<noteq> None \<and> ni < length nd \<and> oi < length od"
  let ?m = "\<lambda>st :: reshape_state. case st of (oi, oj, ni, nj, s) \<Rightarrow>
      (case s of None \<Rightarrow> 0 | Some ns \<Rightarrow> Suc (length nd - ni))"
  have "\<exists>st. loopE ?b (reshape_step f od os nd) (0, 1, 0, 1, Some ns) = Some (Inr st)
      \<and> reshape_inv f od os nd st \<and> \<not> ?b st"
  proof (rule loopE_rule[where P = "reshape_inv f od os nd" and r = "measure ?m"])
    show "reshape_inv f od os nd (0, 1, 0, 1, Some ns)"
      using assms(5) by (cases nd; cases od) (auto simp: reshape_inv_def)
  next
    fix st assume inv: "reshape_inv f od os nd st" and b: "?b st"
    obtain oi oj ni nj xs where st: "st = (oi, oj, ni, nj, Some xs)" and lt: "ni < length nd" "oi < length od"
      using b by auto
    from reshape_step_ok[OF nd od len tot inv[unfolded st] lt] obtain st' where
      run: "reshape_step f od os nd st = Some (Inr st')" and inv': "reshape_inv f od os nd st'"
      and prog: "case st' of (oi', oj', ni', nj', s) \<Rightarrow> s \<noteq> None \<longrightarrow> ni < ni'"
      using st by blast
    obtain oi' oj' ni' nj' s' where st': "st' = (oi', oj', ni', nj', s')" by (cases st') auto
    have "?m st' < ?m st" using prog lt(1) by (cases s') (auto simp: st st')
    with run inv' show "\<exists>s'. reshape_step f od os nd st = Some (Inr s') \<and> reshape_inv f od os nd s' \<and> (s', st) \<in> measure ?m"
      by (intro exI[of _ st']) simp
  qed simp
  then obtain st where st: "loopE ?b (reshape_step f od os nd) (0, 1, 0, 1, Some ns) = Some (Inr st)"
    "reshape_inv f od os nd st" "\<not> ?b st" by blast
  obtain oi oj ni nj s where eq: "st = (oi, oj, ni, nj, s)" by (cases st) auto
  from st(3) have "s \<noteq> None \<longrightarrow> length nd \<le> ni \<or> length od \<le> oi" by (auto simp: eq not_less)
  with st(1,2) show ?thesis unfolding eq by blast
qed

lemma prod_list_one: "\<forall>d \<in> set ds. 0 < (d :: int) \<Longrightarrow> prod_list ds = 1 \<Longrightarrow> d \<in> set ds \<Longrightarrow> d = 1"
proof (induction ds)
  case (Cons a ds)
  have pos: "0 < prod_list ds" "0 < a" using Cons.prems by (auto intro: prod_list_pos)
  from Cons.prems(2) have "a * prod_list ds = 1" by simp
  with pos have "a = 1" "prod_list ds = 1" by (simp_all add: pos_zmult_eq_1_iff)
  with Cons show ?case by auto
qed simp

lemma trailing_ok:
  assumes "length ns = length nd" and "ni \<le> length nd" and "f \<Longrightarrow> nd \<noteq> []"
  shows "\<exists>R. trailing_strides f nd itemsize ni ns = Inr R \<and> length R = length nd \<and> take ni R = take ni ns"
proof -
  have fold: "length (fold (\<lambda>k ns. ns[k := x]) ks ns) = length ns
      \<and> ((\<forall>k \<in> set ks. ni \<le> k) \<longrightarrow> take ni (fold (\<lambda>k ns. ns[k := x]) ks ns) = take ni ns)"
    for x :: int and ks :: "nat list" and ns :: "int list"
    by (induction ks arbitrary: ns) auto
  have "\<exists>d. py_index nd (int ni - 1) = Inr d" if f
  proof -
    have "0 < length nd" using assms(3)[OF that] by simp
    then have "- int (length nd) \<le> int ni - 1" and "int ni - 1 < int (length nd)"
      using assms(2) by linarith+
    then show ?thesis by (simp add: py_index_def)
  qed
  then show ?thesis
    using fold assms(1) by (cases f) (auto simp: trailing_strides_def Let_def)
qed

lemma attempt_reshape_result:
  assumes dims: "\<forall>d \<in> set dims. 0 < d" and new: "\<forall>d \<in> set newdims. 0 < d"
    and len: "length strds = length dims" "length newstrides = length newdims" and F: "f \<Longrightarrow> newdims \<noteq> []"
  shows "\<exists>r. attempt_nocopy_reshape dims strds newdims newstrides itemsize f = Some (Inr r)
    \<and> (\<forall>ns. r = Some ns \<longrightarrow> length ns = length newdims \<and> prod_list newdims = prod_list dims
         \<and> (\<forall>l. 0 \<le> l \<longrightarrow> l < prod_list dims \<longrightarrow> offs f newdims ns l = offs f dims strds l))"
proof -
  let ?old = "filter (\<lambda>p. fst p \<noteq> 1) (zip dims strds)"
  define od os where "od = map fst ?old" and "os = map snd ?old"
  have od: "\<forall>d \<in> set od. 0 < d" "\<forall>d \<in> set od. d \<noteq> 1" and lo: "length os = length od"
    using dims by (auto simp: od_def os_def dest: set_zip_leftD)
  have prod: "prod_list od = prod_list dims"
    using len(1) by (simp add: od_def prod_drop_ones)
  have old: "offs f od os l = offs f dims strds l" if "0 \<le> l" "l < prod_list dims" for l
    using offs_drop_ones[of dims strds l f] dims len(1) that by (simp add: od_def os_def)
  show ?thesis
  proof (cases "prod_list newdims = prod_list od")
    case False
    then show ?thesis by (simp add: attempt_nocopy_reshape_def Let_def flip: od_def os_def)
  next
    case tot: True
    have "prod_list newdims \<noteq> 0" using prod_list_pos[OF new] by simp
    with tot have unfolded: "attempt_nocopy_reshape dims strds newdims newstrides itemsize f =
        bindO (loopE (\<lambda>(oi, oj, ni, nj, ns). ns \<noteq> None \<and> ni < length newdims \<and> oi < length od)
                       (reshape_step f od os newdims) (0, 1, 0, 1, Some newstrides))
                (\<lambda>(oi, oj, ni, nj, ns).
                   case ns of
                     None \<Rightarrow> Some (Inr None)
                   | Some ns \<Rightarrow> Some (bindE (trailing_strides f newdims itemsize ni ns) (\<lambda>ns. Inr (Some ns))))"
      by (simp add: attempt_nocopy_reshape_def Let_def flip: od_def os_def)
    from reshape_loop_ok[OF new od(1) lo tot len(2)] obtain st where
      loop: "loopE (\<lambda>(oi, oj, ni, nj, ns). ns \<noteq> None \<and> ni < length newdims \<and> oi < length od)
        (reshape_step f od os newdims) (0, 1, 0, 1, Some newstrides) = Some (Inr st)"
      and inv: "reshape_inv f od os newdims st"
      and fin: "case st of (oi, oj, ni, nj, s) \<Rightarrow> s \<noteq> None \<longrightarrow> length newdims \<le> ni \<or> length od \<le> oi" by blast
    obtain oi oj ni nj s where st: "st = (oi, oj, ni, nj, s)" by (cases st) auto
    show ?thesis
    proof (cases s)
      case None
      with loop st unfolded show ?thesis by simp
    next
      case (Some ns)
      from inv st Some have I: "oi \<le> length od" "ni \<le> length newdims" "length ns = length newdims"
        "prod_list (take ni newdims) = prod_list (take oi od)"
        "\<And>l. 0 \<le> l \<Longrightarrow> l < prod_list (take ni newdims) \<Longrightarrow>
            offs f (take ni newdims) (take ni ns) l = offs f (take oi od) (take oi os) l"
        by (auto simp: reshape_inv_def)
      have pos: "0 < prod_list (take ni newdims)" using new by (auto intro!: prod_list_pos dest: in_set_takeD)
      have "prod_list (take ni newdims) * prod_list (drop ni newdims) = prod_list (take oi od) * prod_list (drop oi od)"
        using tot by (metis append_take_drop_id prod_list.append)
      with pos I(4) have rest: "prod_list (drop ni newdims) = prod_list (drop oi od)" by simp
      have oi: "oi = length od"
      proof (rule ccontr)
        assume "oi \<noteq> length od"
        with I(1) fin st Some have lt: "oi < length od" and "length newdims \<le> ni" by auto
        then have "prod_list (drop oi od) = 1" using rest by simp
        moreover have "od ! oi \<in> set (drop oi od)" using lt Cons_nth_drop_Suc[OF lt] by (metis list.set_intros(1))
        moreover have "\<forall>d \<in> set (drop oi od). 0 < d" using od(1) by (auto dest: in_set_dropD)
        ultimately have "od ! oi = 1" using prod_list_one[of "drop oi od" "od ! oi"] by simp
        with lt od(2) show False by auto
      qed
      then have "prod_list (drop ni newdims) = 1" using rest by simp
      then have ones: "\<forall>d \<in> set (drop ni newdims). d = 1"
        using new prod_list_one[of "drop ni newdims"] by (auto dest: in_set_dropD)
      obtain R where R: "trailing_strides f newdims itemsize ni ns = Inr R" "length R = length newdims"
        "take ni R = take ni ns"
        using trailing_ok[OF I(3,2) F] by blast
      have "offs f newdims R l = offs f dims strds l" if l: "0 \<le> l" "l < prod_list dims" for l
      proof -
        have l': "l < prod_list (take ni newdims)" using l(2) prod tot I(4) oi by simp
        have "offs f (take ni newdims @ drop ni newdims) (take ni R @ drop ni R) l = offs f (take ni newdims) (take ni R) l"
          using new ones l(1) l' R(2) by (intro offs_trailing_ones) (auto dest: in_set_takeD)
        then have "offs f newdims R l = offs f (take ni newdims) (take ni ns) l"
          by (simp only: append_take_drop_id) (simp only: R(3))
        with I(5)[OF l(1) l'] oi lo old[OF l] show ?thesis by simp
      qed
      with R loop st Some unfolded tot prod show ?thesis by simp
    qed
  qed
qed

text \<open>
  C27. Reshaping without a copy: for all shapes with positive sizes the search ends without an
  error, and when it finds strides for the new shape, the numbers of elements agree and every
  element keeps its offset, in C order and in Fortran order. (A Fortran-order reshape to no
  dimensions is excluded: there the code indexes the empty shape.)
\<close>

theorem reshape_keeps_offsets:
  assumes "\<forall>d \<in> set dims. 0 < d" and "\<forall>d \<in> set newdims. 0 < d"
    and "length strds = length dims" and "length newstrides = length newdims" and "f_order \<longrightarrow> newdims \<noteq> []"
  shows "\<exists>r. attempt_nocopy_reshape dims strds newdims newstrides itemsize f_order = Some (Inr r)
    \<and> (\<forall>ns. r = Some ns \<longrightarrow> length ns = length newdims \<and> prod_list newdims = prod_list dims
         \<and> (\<forall>l. 0 \<le> l \<longrightarrow> l < prod_list dims \<longrightarrow> offs f_order newdims ns l = offs f_order dims strds l))"
  using attempt_reshape_result[OF assms(1-4)] assms(5) by blast

theorem reshape_keeps_offsets_witness:
  "attempt_nocopy_reshape [2, 3, 1] [48, 16, 7] [6] [0] 8 False = Some (Inr (Some [16]))
   \<and> offs False [6] [16] 4 = offs False [2, 3, 1] [48, 16, 7] 4"
proof -
  have "attempt_nocopy_reshape [2, 3, 1] [48, 16, 7] [6] [0] 8 False = Some (Inr (Some [16]))" by code_simp
  with reshape_keeps_offsets[of "[2, 3, 1]" "[6]" "[48, 16, 7]" "[0]" False 8] show ?thesis by auto
qed

end
