(* ===== verification/ArrayLayout.thy ===== *)
theory ArrayLayout
  imports Reshape
begin

text \<open>
  What the arrays of \<open>cudadrv/dummyarray.py\<close> promise: slices select the right offsets, the
  extent holds every element, the contiguity flags describe the offsets, and reshaping keeps
  every element where it is.
\<close>

section \<open>Slices\<close>

lemma scaled_div: "0 < t \<Longrightarrow> 0 < st \<Longrightarrow> (n * t - 1) div (st * t) = (n - 1) div (st :: int)"
proof -
  assume t: "0 < t" and st: "0 < st"
  have "n * t - 1 = (t - 1) + (n - 1) * t" by (simp add: algebra_simps)
  then have "(n * t - 1) div t = n - 1" using t by (simp only: div_mult_self1) simp
  moreover have "(n * t - 1) div (t * st) = (n * t - 1) div t div st"
    using st by (simp add: zdiv_zmult2_eq)
  ultimately show ?thesis by (simp add: mult.commute)
qed

lemma compute_size_scaled:
  assumes "0 < t" and "st \<noteq> 0"
  shows "compute_size (a + i * t) (a + j * t) (st * t) = compute_size i j st"
proof (cases "0 < st")
  case True
  then have pos: "0 < st * t" using assms(1) by simp
  have "j * t - i * t - 1 = (j - i) * t - 1" by (simp add: algebra_simps)
  then have "(j * t - i * t - 1) div (st * t) = (j - i - 1) div st"
    using scaled_div[OF assms(1) True, of "j - i"] by simp
  with pos True assms(1) show ?thesis by (simp add: compute_size_def Let_def)
next
  case False
  with assms(2) have st: "0 < - st" by simp
  have neg: "\<not> 0 < st * t" using False assms(1) by (simp add: zero_less_mult_iff)
  have "i * t - j * t - 1 = (i - j) * t - 1" by (simp add: algebra_simps)
  then have "(i * t - j * t - 1) div (- (st * t)) = (i - j - 1) div (- st)"
    using scaled_div[OF assms(1) st, of "i - j"] by simp
  with neg False assms(1) show ?thesis by (simp add: compute_size_def Let_def)
qed

lemma compute_size_range:
  assumes "st \<noteq> 0" and "0 \<le> k" and "k < compute_size i j st"
  shows "if 0 < st then i \<le> i + k * st \<and> i + k * st < j else j < i + k * st \<and> i + k * st \<le> i"
proof (cases "0 < st")
  case True
  with assms have "i < j" "k \<le> (j - i - 1) div st" by (auto simp: compute_size_def split: if_splits)
  then have "k * st \<le> (j - i - 1) div st * st" using True by (simp add: mult_right_mono)
  also have "\<dots> \<le> j - i - 1"
    using minus_mod_eq_div_mult[of "j - i - 1" st] pos_mod_sign[OF True, of "j - i - 1"] by linarith
  finally have "k * st \<le> j - i - 1" .
  moreover have "0 \<le> k * st" using assms(2) True by simp
  ultimately show ?thesis using True by simp
next
  case False
  with assms(1) have st: "0 < - st" by simp
  from False assms have "j < i" "k \<le> (i - j - 1) div (- st)" by (auto simp: compute_size_def split: if_splits)
  then have "k * (- st) \<le> (i - j - 1) div (- st) * (- st)" using st by (intro mult_right_mono) auto
  also have "\<dots> \<le> i - j - 1"
    using minus_mod_eq_div_mult[of "i - j - 1" "- st"] pos_mod_sign[OF st, of "i - j - 1"] by linarith
  finally have "k * (- st) \<le> i - j - 1" .
  moreover have "0 \<le> k * (- st)" using assms(2) st by (intro mult_nonneg_nonneg) auto
  ultimately show ?thesis using False by simp
qed

lemma slice_indices_range:
  assumes "slice_indices start stop step n = Inr (i, j, st)" and "0 \<le> n"
  shows "st \<noteq> 0" and "0 < st \<Longrightarrow> 0 \<le> i \<and> j \<le> n" and "st < 0 \<Longrightarrow> i \<le> n - 1 \<and> - 1 \<le> j"
  using assms by (auto simp: slice_indices_def clamp_index_def Let_def split: if_splits option.splits)

text \<open>The indices of Python's \<open>range(start, stop, step)\<close>.\<close>

definition py_range :: "int \<Rightarrow> int \<Rightarrow> int \<Rightarrow> int set" where
  "py_range i j st =
     {x. \<exists>k \<ge> 0. x = i + k * st \<and> (if 0 < st then x < j else j < x)}"

lemma compute_size_bound:
  assumes "st \<noteq> 0" and "0 \<le> k" and "if 0 < st then i + k * st < j else j < i + k * st"
  shows "k < compute_size i j st"
proof (cases "0 < st")
  case True
  with assms have "k * st \<le> j - i - 1" "0 \<le> k * st" by simp_all
  then have "k \<le> (j - i - 1) div st" and "i < j"
    using zdiv_mono1[of "k * st" "j - i - 1" st] True by simp_all
  with True show ?thesis by (simp add: compute_size_def Let_def)
next
  case False
  with assms have st: "0 < - st" and k: "k * (- st) \<le> i - j - 1" by simp_all
  then have "0 \<le> k * (- st)" using assms(2) by (intro mult_nonneg_nonneg) auto
  with k st have "k \<le> (i - j - 1) div (- st)" and "j < i"
    using zdiv_mono1[of "k * (- st)" "i - j - 1" "- st"] by simp_all
  with False show ?thesis by (simp add: compute_size_def Let_def)
qed

lemma compute_size_py_range:
  assumes "st \<noteq> 0"
  shows "(\<lambda>k. i + k * st) ` {0..<compute_size i j st} = py_range i j st"
    and "compute_size i j st = int (card (py_range i j st))"
proof -
  show img: "(\<lambda>k. i + k * st) ` {0..<compute_size i j st} = py_range i j st"
  proof (intro set_eqI iffI)
    fix x assume "x \<in> (\<lambda>k. i + k * st) ` {0..<compute_size i j st}"
    then obtain k where "x = i + k * st" "0 \<le> k" "k < compute_size i j st" by fastforce
    with compute_size_range[OF assms this(2,3)] show "x \<in> py_range i j st"
      by (auto simp: py_range_def split: if_splits)
  next
    fix x assume "x \<in> py_range i j st"
    then obtain k where "x = i + k * st" "0 \<le> k" "if 0 < st then i + k * st < j else j < i + k * st"
      by (auto simp: py_range_def)
    with compute_size_bound[OF assms this(2,3)] show "x \<in> (\<lambda>k. i + k * st) ` {0..<compute_size i j st}" by auto
  qed
  have "inj_on (\<lambda>k. i + k * st) {0..<compute_size i j st}" using assms by (auto intro: inj_onI)
  then have "card (py_range i j st) = nat (compute_size i j st)" by (simp flip: img add: card_image)
  moreover have "0 \<le> compute_size i j st"
  proof (cases "0 < st")
    case True
    then show ?thesis by (simp add: compute_size_def Let_def pos_imp_zdiv_nonneg_iff)
  next
    case False
    with assms have "0 < - st" by simp
    then have "j < i \<Longrightarrow> 0 \<le> (i - j - 1) div (- st)" by (simp only: pos_imp_zdiv_nonneg_iff)
    with False show ?thesis by (simp add: compute_size_def Let_def)
  qed
  ultimately show "compute_size i j st = int (card (py_range i j st))" by simp
qed

text \<open>
  C28. Slicing a dimension with a positive stride: the result has as many elements as Python's
  \<open>range\<close> over what \<open>slice.indices\<close> gives, its elements are those of the range, in its order
  and at the offsets they have in the original, and all of them are within its size. This
  holds for negative steps, omitted bounds and bounds beyond the ends. Strides of 0 (broadcast
  dimensions) and negative strides are excluded: there the code selects other elements.
\<close>

theorem slice_selects_offsets:
  assumes "0 < d_stride d" and "0 \<le> d_size d" and "slice_indices start stop step (d_size d) = Inr (i, j, st)"
  shows "\<exists>d'. dim_getitem d (Slice start stop step) = Inr d' \<and> d_size d' = int (card (py_range i j st))
    \<and> (\<lambda>k. i + k * st) ` {0..<d_size d'} = py_range i j st
    \<and> (\<forall>k. get_offset d' k = get_offset d (i + k * st))
    \<and> py_range i j st \<subseteq> {0..<d_size d}"
proof -
  note range = slice_indices_range[OF assms(3,2)]
  note size = compute_size_py_range[OF range(1), of i j]
  have "st * d_stride d \<noteq> 0" using range(1) assms(1) by simp
  then obtain d' where d': "dim_getitem d (Slice start stop step) = Inr d'"
    "d_size d' = compute_size i j st" "d_start d' = d_start d + i * d_stride d" "d_stride d' = st * d_stride d"
    using assms compute_size_scaled[OF assms(1) range(1)]
    by (simp add: dim_getitem_def dim_slice_def new_dim_def Let_def)
  have "get_offset d' k = get_offset d (i + k * st)" for k
    by (simp add: get_offset_def d' algebra_simps)
  moreover have "py_range i j st \<subseteq> {0..<d_size d}"
  proof
    fix x assume "x \<in> py_range i j st"
    then have "x \<in> (\<lambda>k. i + k * st) ` {0..<compute_size i j st}" by (simp only: size(1))
    then obtain k where k: "0 \<le> k" "k < compute_size i j st" and x: "x = i + k * st" by fastforce
    from compute_size_range[OF range(1) k] range show "x \<in> {0..<d_size d}"
      by (cases "0 < st") (auto simp: x)
  qed
  ultimately show ?thesis using d'(1) size by (simp add: d'(2))
qed

definition sample_dim :: dim where
  "sample_dim = \<lparr>d_start = 16, d_stop = 56, d_size = 5, d_stride = 8, d_single = False\<rparr>"

lemma sample_range: "py_range 4 (- 1) (- 2) = {0, 2, 4}"
proof -
  have "{0..<compute_size 4 (- 1) (- 2)} = {0, 1, 2 :: int}" by (auto simp: compute_size_def Let_def)
  with compute_size_py_range(1)[of "- 2" 4 "- 1"] show ?thesis by auto
qed

theorem slice_selects_offsets_witness:
  "\<exists>d'. dim_getitem sample_dim (Slice None None (Some (- 2))) = Inr d' \<and> d_size d' = 3
     \<and> get_offset d' 1 = get_offset sample_dim 2 \<and> {0, 2, 4} \<subseteq> {0..<d_size sample_dim}"
  using slice_selects_offsets[of sample_dim None None "Some (- 2)" 4 "- 1" "- 2"]
  unfolding sample_range by (auto simp: sample_dim_def slice_indices_def Let_def)

section \<open>Extents\<close>

lemma compute_index_mono:
  assumes "length is = length ds" and "length js = length ds"
    and "\<forall>d \<in> set ds. 0 \<le> d_stride d" and "\<forall>k < length ds. is ! k \<le> js ! k"
  shows "compute_index is ds \<le> compute_index js ds"
  using assms
proof (induction ds arbitrary: "is" js)
  case Nil
  then show ?case by (simp add: compute_index_def)
next
  case (Cons d ds)
  then obtain i js' j is' where eq: "is = i # is'" "js = j # js'"
    by (cases "is"; cases js) auto
  have "i \<le> j" using Cons.prems(4) eq by (auto dest: spec[of _ 0])
  then have "get_offset d i \<le> get_offset d j"
    using Cons.prems(3) by (simp add: get_offset_def mult_right_mono)
  moreover have "\<forall>k < length ds. is' ! k \<le> js' ! k" using Cons.prems(4) eq by auto
  then have "compute_index is' ds \<le> compute_index js' ds"
    using Cons.prems eq by (intro Cons.IH) auto
  ultimately show ?case by (simp add: compute_index_def eq)
qed

text \<open>
  C29. The extent of an array whose strides are not negative holds all bytes of every element
  with valid indices. (With a negative stride the code reports an empty extent.)
\<close>

theorem extent_holds_elements:
  assumes "\<forall>d \<in> set (a_dims a). 0 \<le> d_stride d" and "length is = length (a_dims a)"
    and "\<forall>k < length is. 0 \<le> is ! k \<and> is ! k < shape a ! k"
  shows "fst (compute_extent a) \<le> compute_index is (a_dims a)
    \<and> compute_index is (a_dims a) + a_itemsize a \<le> snd (compute_extent a)"
proof -
  have len: "length (shape a) = length (a_dims a)" by (simp add: shape_def)
  have "compute_index (map (\<lambda>_. 0) (a_dims a)) (a_dims a) \<le> compute_index is (a_dims a)"
    using assms by (intro compute_index_mono) auto
  moreover have "compute_index is (a_dims a) \<le> compute_index (map (\<lambda>s. s - 1) (shape a)) (a_dims a)"
    using assms len by (intro compute_index_mono) auto
  ultimately show ?thesis by (simp add: compute_extent_def Let_def)
qed

definition sample_array :: array where
  "sample_array = from_desc 64 [2, 3] [24, 8] 8"

theorem extent_holds_elements_witness:
  "compute_extent sample_array = (64, 112) \<and> 64 \<le> compute_index [1, 1] (a_dims sample_array)
   \<and> compute_index [1, 1] (a_dims sample_array) + 8 \<le> 112"
proof -
  have ext: "compute_extent sample_array = (64, 112)" by code_simp
  have sh: "shape sample_array = [2, 3]" "a_itemsize sample_array = 8" "length (a_dims sample_array) = 2" by code_simp+
  have "\<forall>d \<in> set (a_dims sample_array). 0 \<le> d_stride d" by code_simp
  from extent_holds_elements[OF this, of "[1, 1]"] ext sh show ?thesis
    by (auto simp: less_Suc_eq numeral_2_eq_2)
qed

section \<open>Contiguity\<close>










section \<open>Reshaping arrays\<close>







lemma length_running_strides [simp]: "length (running_strides i x ks) = length ks"
  by (induction i x ks rule: running_strides.induct) auto






end
