(* ===== verification/IRNodes.thy ===== *)
theory IRNodes
  imports CFGraph "HOL-Library.List_Lexorder" "HOL-Library.Char_ord"
begin

text \<open>
  The nodes of the IR (\<open>core/ir.py\<close>): expressions, statements, terminators and blocks, the
  variables a node lists, and the control flow graph of a set of blocks
  (\<open>core/analysis.py\<close>, \<open>compute_cfg_from_blocks\<close>).

  A variable is its name (scopes and locations play no part in the analyses). A field of an
  expression holds a variable, an instruction, a sequence, a dictionary, a block offset, the
  object \<open>UNDEFINED\<close> or any other Python object; those objects are the type parameter \<open>'c\<close>.
\<close>

section \<open>Nodes\<close>

datatype 'c attr =
    VarA string
  | InstA "'c inst"
  | SeqA "'c attr list"
  | DictA "(string \<times> 'c attr) list"
  | IntA int
  | UndefinedA
  | OtherA 'c
and 'c inst =
    Expr string "(string \<times> 'c attr) list"
  | Yield string int

datatype 'c rhs =
    InstR "'c inst"
  | VarR string
  | ArgR string int
  | ConstR 'c
  | GlobalR string 'c
  | FreeVarR int string 'c

datatype 'c stmt =
    Assign "'c rhs" string
  | SetItem string string string
  | StaticSetItem string "'c attr" string string
  | DelItem string string
  | SetAttr string string string
  | DelAttr string string
  | StoreMap string string string
  | Del string
  | Raise "string option"
  | StaticRaise "'c option" "'c attr list option"
  | DynamicRaise "'c option" "'c attr list option"
  | TryRaise "string option"
  | StaticTryRaise "'c option" "'c attr list option"
  | DynamicTryRaise "'c option" "'c attr list option"
  | Return string
  | Jump int
  | Branch string int int
  | Print "string list" "string option" "(string \<times> 'c attr) list"
  | EnterWith string int int
  | PopBlock

section \<open>Variables of a node\<close>

fun rec_list_vars :: "'c attr \<Rightarrow> string list" and inst_vars :: "'c inst \<Rightarrow> string list" where
  "rec_list_vars (VarA v) = [v]"
| "rec_list_vars (InstA i) = inst_vars i"
| "rec_list_vars (SeqA vs) = concat (map rec_list_vars vs)"
| "rec_list_vars (DictA kvs) = concat (map (\<lambda>kv. rec_list_vars (snd kv)) kvs)"
| "rec_list_vars (IntA n) = []"
| "rec_list_vars UndefinedA = []"
| "rec_list_vars (OtherA c) = []"
| "inst_vars (Expr op kws) = concat (map (\<lambda>kv. rec_list_vars (snd kv)) kws)"
| "inst_vars (Yield v index) = [v]"

definition opt_vars :: "string option \<Rightarrow> string list" where
  "opt_vars ov = (case ov of None \<Rightarrow> [] | Some v \<Rightarrow> [v])"

definition args_vars :: "'c attr list option \<Rightarrow> string list" where
  "args_vars oas = (case oas of None \<Rightarrow> [] | Some as \<Rightarrow> rec_list_vars (SeqA as))"

definition rhs_vars :: "'c rhs \<Rightarrow> string list" where
  "rhs_vars e = (case e of InstR i \<Rightarrow> inst_vars i | VarR v \<Rightarrow> [v] | _ \<Rightarrow> [])"

text \<open>The values of \<open>__dict__\<close> in the order the constructor sets them.\<close>

definition list_vars :: "'c stmt \<Rightarrow> string list" where
  "list_vars st =
     (case st of
        Assign e target \<Rightarrow> rhs_vars e @ [target]
      | SetItem target index v \<Rightarrow> [target, index, v]
      | StaticSetItem target index index_var v \<Rightarrow> [target] @ rec_list_vars index @ [index_var, v]
      | DelItem target index \<Rightarrow> [target, index]
      | SetAttr target attr v \<Rightarrow> [target, v]
      | DelAttr target attr \<Rightarrow> [target]
      | StoreMap dct key v \<Rightarrow> [dct, key, v]
      | Del v \<Rightarrow> []
      | Raise exc \<Rightarrow> opt_vars exc
      | StaticRaise cls args \<Rightarrow> args_vars args
      | DynamicRaise cls args \<Rightarrow> args_vars args
      | TryRaise exc \<Rightarrow> opt_vars exc
      | StaticTryRaise cls args \<Rightarrow> args_vars args
      | DynamicTryRaise cls args \<Rightarrow> args_vars args
      | Return v \<Rightarrow> [v]
      | Jump target \<Rightarrow> []
      | Branch cond truebr falsebr \<Rightarrow> [cond]
      | Print args vararg cs \<Rightarrow> args @ opt_vars vararg @ rec_list_vars (DictA cs)
      | EnterWith contextmanager b e \<Rightarrow> [contextmanager]
      | PopBlock \<Rightarrow> [])"

section \<open>Terminators\<close>

definition is_exit :: "'c stmt \<Rightarrow> bool" where
  "is_exit st =
     (case st of Raise _ \<Rightarrow> True | StaticRaise _ _ \<Rightarrow> True | DynamicRaise _ _ \<Rightarrow> True | Return _ \<Rightarrow> True
      | _ \<Rightarrow> False)"

definition is_terminator :: "'c stmt \<Rightarrow> bool" where
  "is_terminator st \<longleftrightarrow> is_exit st \<or> (case st of Jump _ \<Rightarrow> True | Branch _ _ _ \<Rightarrow> True | _ \<Rightarrow> False)"

definition get_targets :: "'c stmt \<Rightarrow> int list res" where
  "get_targets st =
     (if is_exit st then Inr []
      else case st of
          Jump target \<Rightarrow> Inr [target]
        | Branch cond truebr falsebr \<Rightarrow> Inr [truebr, falsebr]
        | _ \<Rightarrow> Inl AttributeError)"

definition is_del :: "'c stmt \<Rightarrow> bool" where
  "is_del st = (case st of Del _ \<Rightarrow> True | _ \<Rightarrow> False)"

section \<open>Blocks\<close>

text \<open>A block is its body; the blocks of a function are a dictionary by offset.\<close>

type_synonym 'c block = "'c stmt list"
type_synonym 'c blocks = "(int, 'c block) dict"

definition terminator :: "'c block \<Rightarrow> 'c stmt res" where
  "terminator body = py_index body (- 1)"

definition is_terminated :: "'c block \<Rightarrow> bool" where
  "is_terminated body \<longleftrightarrow> body \<noteq> [] \<and> is_terminator (last body)"

definition verify_block :: "'c block \<Rightarrow> unit res" where
  "verify_block body =
     (if \<not> is_terminated body then Inl VerificationError
      else if list_ex is_terminator (butlast body) then Inl VerificationError
      else Inr ())"

definition prepend :: "'c stmt \<Rightarrow> 'c block \<Rightarrow> 'c block" where
  "prepend st body = st # body"

definition find_variable_assignment :: "string \<Rightarrow> 'c block \<Rightarrow> 'c stmt option" where
  "find_variable_assignment v body =
     List.find (\<lambda>st. case st of Assign e target \<Rightarrow> target = v | _ \<Rightarrow> False) body"

definition remove_dels :: "'c blocks \<Rightarrow> 'c blocks" where
  "remove_dels blocks = map (\<lambda>(k, body). (k, filter (\<lambda>st. \<not> is_del st) body)) blocks"

section \<open>The graph of the blocks\<close>

definition add_targets :: "int \<times> 'c block \<Rightarrow> (int, unit) cfgraph \<Rightarrow> (int, unit) cfgraph res" where
  "add_targets = (\<lambda>(k, body) g.
     bindE (terminator body) (\<lambda>term.
     bindE (get_targets term) (\<lambda>ts. foldE (\<lambda>t g. add_edge k t () g) ts g)))"

definition build_block_graph :: "'c blocks \<Rightarrow> (int, unit) cfgraph res" where
  "build_block_graph blocks =
     bindE (foldE add_targets blocks (fold add_node (dkeys blocks) new_cfgraph)) (\<lambda>g.
     if blocks = [] then Inl ValueError else set_entry_point (Min (set (dkeys blocks))) g)"

definition compute_cfg_from_blocks :: "'c blocks \<Rightarrow> (int, unit) cfgraph res option" where
  "compute_cfg_from_blocks blocks = bindO (Some (build_block_graph blocks)) process"

lemma terminator_last: "terminator body = (if body = [] then Inl IndexError else Inr (last body))"
  by (auto simp: terminator_def py_index_def last_conv_nth nat_diff_distrib' Suc_le_eq)

lemma verify_block_ok:
  "verify_block body = Inr () \<longleftrightarrow> body \<noteq> [] \<and> is_terminator (last body) \<and> (\<forall>st \<in> set (butlast body). \<not> is_terminator st)"
  by (auto simp: verify_block_def is_terminated_def list_ex_iff)

lemma terminator_targets: "is_terminator st \<Longrightarrow> \<exists>ts. get_targets st = Inr ts"
  by (auto simp: is_terminator_def get_targets_def split: stmt.splits)

section \<open>The graph has the jumps as edges\<close>

text \<open>
  Blocks as the interpreter leaves them: every body ends with its only terminator, and jumps
  lead to blocks.
\<close>

definition block_targets :: "'c block \<Rightarrow> int list" where
  "block_targets body = (case get_targets (last body) of Inr ts \<Rightarrow> ts | Inl _ \<Rightarrow> [])"

definition blocks_ok :: "'c blocks \<Rightarrow> bool" where
  "blocks_ok blocks \<longleftrightarrow> blocks \<noteq> [] \<and> distinct (dkeys blocks) \<and>
     (\<forall>(k, body) \<in> set blocks. verify_block body = Inr () \<and> set (block_targets body) \<subseteq> set (dkeys blocks))"

definition block_edges :: "'c blocks \<Rightarrow> (int \<times> int) set" where
  "block_edges blocks = {(k, t). \<exists>body. (k, body) \<in> set blocks \<and> t \<in> set (block_targets body)}"

lemma add_block_edges_ok:
  assumes "cfg_wf g" and "k \<in> set (g_nodes g)" and "set ts \<subseteq> set (g_nodes g)"
  shows "\<exists>g'. foldE (\<lambda>t g. add_edge k t () g) ts g = Inr g' \<and> cfg_wf g' \<and> g_nodes g' = g_nodes g
    \<and> g_edges g' = g_edges g \<union> {k} \<times> set ts"
  using assms
proof (induction ts arbitrary: g)
  case Nil
  then show ?case by simp
next
  case (Cons t ts)
  let ?g = "unchecked_add_edge k t () g"
  have "cfg_wf ?g" "g_edges ?g = insert (k, t) (g_edges g)" "g_nodes ?g = g_nodes g"
    using cfg_wf_add_edge[of g k t "()"] Cons.prems by (auto simp: unchecked_add_edge_def)
  with Cons.IH[of ?g] Cons.prems show ?case by (auto simp: add_edge_def)
qed

lemma add_targets_ok:
  assumes "verify_block body = Inr ()" and "cfg_wf g" and "k \<in> set (g_nodes g)"
    and "set (block_targets body) \<subseteq> set (g_nodes g)"
  shows "\<exists>g'. add_targets (k, body) g = Inr g' \<and> cfg_wf g' \<and> g_nodes g' = g_nodes g
    \<and> g_edges g' = g_edges g \<union> {k} \<times> set (block_targets body)"
proof -
  from assms(1) have body: "body \<noteq> []" "is_terminator (last body)" by (simp_all add: verify_block_ok)
  then obtain ts where "get_targets (last body) = Inr ts" using terminator_targets by blast
  with body have "add_targets (k, body) g = foldE (\<lambda>t g. add_edge k t () g) (block_targets body) g"
    by (simp add: add_targets_def terminator_last block_targets_def)
  with add_block_edges_ok[OF assms(2-4)] show ?thesis by simp
qed

lemma add_all_targets_ok:
  assumes "cfg_wf g" and "\<forall>(k, body) \<in> set bs. verify_block body = Inr () \<and> k \<in> set (g_nodes g)
      \<and> set (block_targets body) \<subseteq> set (g_nodes g)"
  shows "\<exists>g'. foldE add_targets bs g = Inr g' \<and> cfg_wf g' \<and> g_nodes g' = g_nodes g
    \<and> g_edges g' = g_edges g \<union> block_edges bs"
  using assms
proof (induction bs arbitrary: g)
  case Nil
  then show ?case by (simp add: block_edges_def)
next
  case (Cons b bs)
  obtain k body where b: "b = (k, body)" by (cases b)
  from Cons.prems b obtain g1 where g1: "add_targets b g = Inr g1" "cfg_wf g1" "g_nodes g1 = g_nodes g"
    "g_edges g1 = g_edges g \<union> {k} \<times> set (block_targets body)"
    using add_targets_ok[of body g k] by auto
  with Cons.prems Cons.IH[of g1] obtain g2 where "foldE add_targets bs g1 = Inr g2" "cfg_wf g2"
    "g_nodes g2 = g_nodes g" "g_edges g2 = g_edges g1 \<union> block_edges bs" by auto
  moreover have "block_edges (b # bs) = {k} \<times> set (block_targets body) \<union> block_edges bs"
    by (auto simp: block_edges_def b)
  ultimately show ?case using g1 by auto
qed

lemma add_nodes_wf:
  assumes "cfg_wf g"
  shows "cfg_wf (fold add_node ns g) \<and> set (g_nodes (fold add_node ns g)) = set (g_nodes g) \<union> set ns
    \<and> g_edges (fold add_node ns g) = g_edges g"
  using assms
proof (induction ns arbitrary: g)
  case (Cons n ns)
  have "set (g_nodes (add_node n g)) = insert n (set (g_nodes g))" by (simp add: add_node_def)
  with Cons.IH[of "add_node n g"] cfg_wf_add_node[OF Cons.prems, of n] show ?case by auto
qed simp

lemma new_cfgraph_empty [simp]: "g_nodes new_cfgraph = []" "g_edges new_cfgraph = {}"
  by (simp_all add: new_cfgraph_def g_edges_def arcs_def)

lemma block_graph_ok:
  assumes "blocks_ok blocks"
  shows "\<exists>g. compute_cfg_from_blocks blocks = Some (Inr g) \<and> cfg_wf g
    \<and> set (g_nodes g) = (block_edges blocks)\<^sup>* `` {Min (set (dkeys blocks))}
    \<and> g_edges g = {(a, b) \<in> block_edges blocks. a \<in> set (g_nodes g)}
    \<and> entry_point g = Some (Min (set (dkeys blocks))) \<and> set (g_nodes g) \<subseteq> set (dkeys blocks)"
proof -
  let ?g0 = "fold add_node (dkeys blocks) (new_cfgraph :: (int, unit) cfgraph)" and ?m = "Min (set (dkeys blocks))"
  from assms have ne: "blocks \<noteq> []" by (simp add: blocks_ok_def)
  have "cfg_wf (new_cfgraph :: (int, unit) cfgraph)" by (rule cfg_wf_new)
  then have g0: "cfg_wf ?g0" "set (g_nodes ?g0) = set (dkeys blocks)" "g_edges ?g0 = {}"
    using add_nodes_wf[of "new_cfgraph :: (int, unit) cfgraph" "dkeys blocks"] by simp_all
  have pre: "\<forall>(k, body) \<in> set blocks. verify_block body = Inr () \<and> k \<in> set (g_nodes ?g0)
      \<and> set (block_targets body) \<subseteq> set (g_nodes ?g0)"
    using assms unfolding g0(2) by (auto simp: blocks_ok_def rev_image_eqI)
  from add_all_targets_ok[OF g0(1) pre] obtain g1 where
    g1: "foldE add_targets blocks ?g0 = Inr g1" "cfg_wf g1" "g_nodes g1 = g_nodes ?g0" "g_edges g1 = block_edges blocks"
    using g0(3) by auto
  have m: "?m \<in> set (dkeys blocks)" using ne by (intro Min_in) auto
  then obtain g2 where g2: "set_entry_point ?m g1 = Inr g2"
    using g1(3) g0(2) by (simp add: set_entry_point_def)
  note e = cfg_wf_set_entry[OF g1(2) g2]
  have nodes: "g_nodes g2 = g_nodes g1" using g2 by (auto simp: set_entry_point_def split: if_splits)
  have "build_block_graph blocks = Inr g2" using g1(1) g2 ne by (simp add: build_block_graph_def)
  moreover from process_live[OF e(1,3)] obtain g where
    g: "process g2 = Some (Inr g)" "cfg_wf g" "entry_point g = Some ?m"
    "set (g_nodes g) = reachable (g_succs g2) [?m]"
    "g_edges g = {(a, b) \<in> g_edges g2. a \<in> reachable (g_succs g2) [?m]}"
    by auto
  ultimately have "compute_cfg_from_blocks blocks = Some (Inr g)" by (simp add: compute_cfg_from_blocks_def)
  moreover have "set (g_nodes g) = (block_edges blocks)\<^sup>* `` {?m}"
    using g(4) e(2) g1(4) by (simp add: reachable_def g_edges_def)
  moreover have "set (g_nodes g) \<subseteq> set (dkeys blocks)"
  proof -
    have "reachable (g_succs g2) [?m] \<subseteq> set (g_nodes g2)"
      using reachable_in[OF cfg_wf_stays[OF e(1)], of "[?m]"] m nodes g1(3) g0(2) by simp
    then show ?thesis using g(4) nodes g1(3) g0(2) by simp
  qed
  ultimately show ?thesis using g e(2) g1(4) by auto
qed

end
