(* ===== verification/Liveness.thy ===== *)
theory Liveness
  imports IRNodes
begin

unbundle bit_operations_syntax

text \<open>
  The analyses of variable lifetimes in \<open>core/analysis.py\<close>: uses and definitions of each
  block, the variables live at the entry of each block (computed on bitsets), the variables
  that die in or after a block, and the variables available at each block.

  A map from offsets to sets of variables is a dictionary of lists; a bitset is an integer.
\<close>

type_synonym varmap = "(int, string list) dict"

section \<open>Uses and definitions\<close>

record use_defs =
  usemap :: varmap
  defmap :: varmap

text \<open>
  The definition is recorded before the variables of the statement are listed, so the target of
  an assignment counts as a use only if the right-hand side reads it.
\<close>

definition use_def_stmt :: "'c stmt \<Rightarrow> string list \<times> string list \<Rightarrow> string list \<times> string list" where
  "use_def_stmt st = (\<lambda>(use_set, def_set).
     let def_set = (case st of
           Assign e target \<Rightarrow> if target \<notin> set (rhs_vars e) then set_add target def_set else def_set
         | _ \<Rightarrow> def_set)
     in (fold (\<lambda>v us. if v \<notin> set def_set then set_add v us else us) (list_vars st) use_set, def_set))"

definition use_def_block :: "'c block \<Rightarrow> string list \<times> string list" where
  "use_def_block body = fold use_def_stmt body ([], [])"

definition compute_use_defs :: "'c blocks \<Rightarrow> use_defs" where
  "compute_use_defs blocks =
     \<lparr>usemap = map (\<lambda>(k, body). (k, fst (use_def_block body))) blocks,
      defmap = map (\<lambda>(k, body). (k, snd (use_def_block body))) blocks\<rparr>"

section \<open>Bitsets\<close>

text \<open>Each variable gets the next free bit when it is first met.\<close>

definition number_name :: "string \<Rightarrow> (string, nat) dict \<times> string list \<Rightarrow> (string, nat) dict \<times> string list" where
  "number_name name = (\<lambda>(index, names).
     if name \<in> set (dkeys index) then (index, names) else (dset name (length names) index, names @ [name]))"

definition number_names :: "varmap \<Rightarrow> varmap \<Rightarrow> (string, nat) dict \<times> string list" where
  "number_names var_use_map var_def_map =
     fold (fold number_name) (dvalues var_def_map @ dvalues var_use_map) ([], [])"

definition from_bytes :: "int list \<Rightarrow> int" where
  "from_bytes buf = foldr (\<lambda>b acc. b + 256 * acc) buf 0"

definition to_bytes :: "nat \<Rightarrow> int \<Rightarrow> int list res" where
  "to_bytes n x =
     (if x < 0 \<or> 256 ^ n \<le> x then Inl OverflowError else Inr (map (\<lambda>i. x div 256 ^ i mod 256) [0..<n]))"

definition set_name_bit :: "(string, nat) dict \<Rightarrow> string \<Rightarrow> int list \<Rightarrow> int list res" where
  "set_name_bit index name buf =
     bindE (dget index name) (\<lambda>i.
       let k = drop_bit 3 i
       in if k < length buf then Inr (buf[k := buf ! k OR push_bit (i AND 7) 1]) else Inl IndexError)"

definition to_bits :: "nat \<Rightarrow> (string, nat) dict \<Rightarrow> string list \<Rightarrow> int res" where
  "to_bits nbytes index name_set =
     bindE (foldE (set_name_bit index) name_set (replicate nbytes 0)) (\<lambda>buf. Inr (from_bytes buf))"

definition byte_bits :: "int \<Rightarrow> nat list" where
  "byte_bits v = filter (\<lambda>b. v AND push_bit b 1 \<noteq> 0) [0..<8]"

definition add_byte_names :: "string list \<Rightarrow> nat \<times> int \<Rightarrow> string list \<Rightarrow> string list res" where
  "add_byte_names names = (\<lambda>(byte_pos, byte) live.
     if byte = 0 then Inr live
     else let base = push_bit 3 byte_pos
       in foldE (\<lambda>b live. bindE (py_index names (int (base + b))) (\<lambda>v. Inr (set_add v live)))
            (byte_bits byte) live)"

definition bits_to_names :: "nat \<Rightarrow> string list \<Rightarrow> int \<Rightarrow> string list res" where
  "bits_to_names nbytes names bits =
     bindE (to_bytes nbytes bits) (\<lambda>blob. foldE (add_byte_names names) (zip [0..<length blob] blob) [])"

section \<open>Fixpoints over the graph\<close>

type_synonym bitmap = "(int, int) dict"

definition map_offsets :: "int list \<Rightarrow> (int \<Rightarrow> 'v res) \<Rightarrow> (int, 'v) dict res" where
  "map_offsets offsets f = mapE (\<lambda>k. bindE (f k) (\<lambda>v. Inr (k, v))) offsets"

text \<open>\<open>merged = m[k] | incoming\<close>, stored when it differs; the flag is \<open>changed\<close>.\<close>

definition merge_bits :: "int \<Rightarrow> int \<Rightarrow> bitmap \<times> bool \<Rightarrow> (bitmap \<times> bool) res" where
  "merge_bits k incoming = (\<lambda>(m, changed).
     bindE (dget m k) (\<lambda>old.
       let merged = old OR incoming
       in if merged \<noteq> old then Inr (dset k merged m, True) else Inr (m, changed)))"

definition push_reach :: "(int, int list) dict \<Rightarrow> int \<Rightarrow> bitmap \<times> bool \<Rightarrow> (bitmap \<times> bool) res" where
  "push_reach succs offset = (\<lambda>(m, changed).
     bindE (dget m offset) (\<lambda>cur.
     bindE (dget succs offset) (\<lambda>outs.
       foldE (\<lambda>out_blk. merge_bits out_blk cur) outs (m, changed))))"

definition reach_sweep :: "int list \<Rightarrow> (int, int list) dict \<Rightarrow> bitmap \<Rightarrow> bitmap res option" where
  "reach_sweep offsets succs m =
     bindO (loopE snd (\<lambda>(m, changed). Some (foldE (push_reach succs) offsets (m, False))) (m, True))
       (\<lambda>(m, changed). Some (Inr m))"

definition push_live :: "(int, int list) dict \<Rightarrow> bitmap \<Rightarrow> bitmap \<Rightarrow> int \<Rightarrow> bitmap \<times> bool \<Rightarrow> (bitmap \<times> bool) res" where
  "push_live preds def_reach_map def_bits offset = (\<lambda>(m, changed).
     bindE (dget m offset) (\<lambda>live_vars.
     bindE (dget preds offset) (\<lambda>incs.
       foldE (\<lambda>inc_blk s.
           bindE (dget def_reach_map inc_blk) (\<lambda>r.
           bindE (dget def_bits inc_blk) (\<lambda>d.
             merge_bits inc_blk ((live_vars AND r) AND NOT d) s))) incs (m, changed))))"

definition live_sweep ::
  "int list \<Rightarrow> (int, int list) dict \<Rightarrow> bitmap \<Rightarrow> bitmap \<Rightarrow> bitmap \<Rightarrow> bitmap res option" where
  "live_sweep offsets preds def_reach_map def_bits m =
     bindO (loopE snd (\<lambda>(m, changed). Some (foldE (push_live preds def_reach_map def_bits) (rev offsets) (m, False)))
              (m, True))
       (\<lambda>(m, changed). Some (Inr m))"

section \<open>Live variables\<close>

definition neighbours :: "(int \<times> 'd) list res \<Rightarrow> int list res" where
  "neighbours r = bindE r (\<lambda>es. Inr (map fst es))"

definition compute_live_map ::
  "(int, 'd) cfgraph \<Rightarrow> 'c blocks \<Rightarrow> varmap \<Rightarrow> varmap \<Rightarrow> varmap res option" where
  "compute_live_map cfg blocks var_use_map var_def_map =
     (let (index, names) = number_names var_use_map var_def_map;
          nbytes = (length names + 7) div 8;
          offsets = dkeys blocks
      in bindO (Some (map_offsets offsets (\<lambda>k. bindE (dget var_def_map k) (to_bits nbytes index)))) (\<lambda>def_bits.
         bindO (Some (map_offsets offsets (\<lambda>k. bindE (dget var_use_map k) (to_bits nbytes index)))) (\<lambda>use_bits.
         bindO (Some (map_offsets offsets (\<lambda>k. neighbours (successors cfg k)))) (\<lambda>succs.
         bindO (Some (map_offsets offsets (\<lambda>k. neighbours (predecessors cfg k)))) (\<lambda>preds.
         bindO (Some (map_offsets offsets (\<lambda>k.
                  bindE (dget def_bits k) (\<lambda>d. bindE (dget use_bits k) (\<lambda>u. Inr (d OR u)))))) (\<lambda>def_reach.
         bindO (reach_sweep offsets succs def_reach) (\<lambda>def_reach_map.
         bindO (Some (map_offsets offsets (dget use_bits))) (\<lambda>live.
         bindO (live_sweep offsets preds def_reach_map def_bits live) (\<lambda>live_bits.
           Some (map_offsets offsets (\<lambda>k. bindE (dget live_bits k) (bits_to_names nbytes names))))))))))))"

section \<open>Dead variables\<close>

text \<open>A \<open>defaultdict(set)\<close>: a missing key reads as the empty set.\<close>

definition dget_set :: "varmap \<Rightarrow> int \<Rightarrow> string list" where
  "dget_set m k = (case map_of m k of None \<Rightarrow> [] | Some vs \<Rightarrow> vs)"

definition set_minus :: "string list \<Rightarrow> string list \<Rightarrow> string list" where
  "set_minus xs ys = filter (\<lambda>x. x \<notin> set ys) xs"

definition set_unions :: "string list list \<Rightarrow> string list" where
  "set_unions xss = fold (\<lambda>ys xs. set_update xs ys) xss []"

record dead_maps =
  dm_internal :: varmap
  dm_escaping :: varmap
  dm_exit :: varmap

definition dead_step ::
  "(int, 'd) cfgraph \<Rightarrow> varmap \<Rightarrow> varmap \<Rightarrow> int \<times> 'c block \<Rightarrow> dead_maps \<Rightarrow> dead_maps res" where
  "dead_step cfg live_map var_def_map = (\<lambda>(offset, body) dm.
     bindE (dget live_map offset) (\<lambda>lv.
     bindE (dget var_def_map offset) (\<lambda>dv.
     bindE (neighbours (successors cfg offset)) (\<lambda>outs.
     bindE (map_offsets outs (dget live_map)) (\<lambda>outgoing_live_map.
     bindE (terminator body) (\<lambda>term.
       let cur_live_set = set_update lv dv;
           terminator_liveset = remdups (list_vars term);
           combined_liveset = set_update (set_unions (dvalues outgoing_live_map)) terminator_liveset;
           internal_set = set_minus cur_live_set combined_liveset;
           escaping_live_set = set_minus cur_live_set internal_set
       in bindE (foldE (\<lambda>(out_blk, new_live_set) esc.
                    bindE (dget var_def_map out_blk) (\<lambda>dv.
                      Inr (dset out_blk (set_update (dget_set esc out_blk)
                             (set_minus escaping_live_set (set_update new_live_set dv))) esc)))
                  outgoing_live_map (dm_escaping dm)) (\<lambda>esc.
            Inr \<lparr>dm_internal = dset offset internal_set (dm_internal dm), dm_escaping = esc,
                 dm_exit = (if outgoing_live_map = [] then dset offset terminator_liveset (dm_exit dm)
                            else dm_exit dm)\<rparr>)))))))"

record dead_result =
  dead_internal :: varmap
  dead_escaping :: varmap
  dead_combined :: varmap

definition compute_dead_maps ::
  "(int, 'd) cfgraph \<Rightarrow> 'c blocks \<Rightarrow> varmap \<Rightarrow> varmap \<Rightarrow> dead_result res" where
  "compute_dead_maps cfg blocks live_map var_def_map =
     bindE (foldE (dead_step cfg live_map var_def_map) blocks \<lparr>dm_internal = [], dm_escaping = [], dm_exit = []\<rparr>)
       (\<lambda>dm.
         let all_vars = set_unions (dvalues live_map);
             dead_vars = set_update (set_update (set_unions (dvalues (dm_internal dm)))
                           (set_unions (dvalues (dm_escaping dm)))) (set_unions (dvalues (dm_exit dm)));
             missing_vars = set_minus all_vars dead_vars
         in if missing_vars \<noteq> [] \<and> find_exit_points cfg \<noteq> [] then Inl RuntimeError
            else Inr \<lparr>dead_internal = dm_internal dm, dead_escaping = dm_escaping dm,
                      dead_combined = map (\<lambda>k. (k, set_update (dget_set (dm_internal dm) k)
                                                     (dget_set (dm_escaping dm) k))) (dkeys blocks)\<rparr>)"

section \<open>Available variables\<close>

text \<open>
  Reading a missing key of the \<open>defaultdict\<close> stores an empty set, which the fingerprint
  (the sizes of all sets, in order) sees.
\<close>

definition touch :: "int \<Rightarrow> varmap \<Rightarrow> varmap" where
  "touch k m = (case map_of m k of None \<Rightarrow> dset k [] m | Some _ \<Rightarrow> m)"

definition fix_point_progress :: "varmap \<Rightarrow> nat list" where
  "fix_point_progress m = map length (dvalues m)"

definition avail_step :: "(int, 'd) cfgraph \<Rightarrow> varmap \<Rightarrow> varmap \<Rightarrow> int \<Rightarrow> varmap \<Rightarrow> varmap res" where
  "avail_step cfg var_def_map var_dead_map offset m =
     (let m = touch offset m
      in bindE (dget var_def_map offset) (\<lambda>dv.
         bindE (dget var_dead_map offset) (\<lambda>xv.
         bindE (neighbours (successors cfg offset)) (\<lambda>succs.
           let avail = set_minus (set_update (dget_set m offset) dv) xv
           in Inr (fold (\<lambda>succ m. dset succ (set_update (dget_set m succ) avail) m) succs m)))))"

definition compute_live_variables ::
  "(int, 'd) cfgraph \<Rightarrow> 'c blocks \<Rightarrow> varmap \<Rightarrow> varmap \<Rightarrow> varmap res option" where
  "compute_live_variables cfg blocks var_def_map var_dead_map =
     bindO (loopE (\<lambda>(old_point, m). old_point \<noteq> Some (fix_point_progress m))
              (\<lambda>(old_point, m).
                 Some (bindE (foldE (avail_step cfg var_def_map var_dead_map) (dkeys blocks) m) (\<lambda>m'.
                   Inr (Some (fix_point_progress m), m'))))
              (None, []))
       (\<lambda>(old_point, m). Some (Inr m))"

end
