(* ===== verification/BitFlow.thy ===== *)
theory BitFlow
  imports Liveness
begin

text \<open>
  The two fixpoint loops of \<open>compute_live_map\<close> share a contract, stated as a locale: a pass over
  the blocks merges into each neighbour the bits of a block that the neighbour lets through.
  The locale proves that the loop ends with the bits that flow along paths; both loops of the
  code are interpretations of it. Then the bitsets themselves: numbering the variables, and
  turning sets into integers and back.
\<close>

section \<open>Bitmaps as sets of bits\<close>

definition bits :: "int \<Rightarrow> nat set" where
  "bits x = {j. bit x j}"

lemma in_bits [simp]: "j \<in> bits x \<longleftrightarrow> bit x j"
  by (simp add: bits_def)

lemma bits_inject: "bits x = bits y \<longleftrightarrow> x = y"
  by (auto simp: bits_def bit_eq_iff set_eq_iff)

lemma bits_or [simp]: "bits (x OR y) = bits x \<union> bits y"
  by (auto simp: bit_or_iff)

definition bval :: "bitmap \<Rightarrow> int \<Rightarrow> int" where
  "bval m k = (case map_of m k of None \<Rightarrow> 0 | Some v \<Rightarrow> v)"

definition bmap :: "bitmap \<Rightarrow> int \<Rightarrow> nat set" where
  "bmap m k = bits (bval m k)"

lemma bit_bmap: "bit (bval m k) j \<longleftrightarrow> j \<in> bmap m k"
  by (simp add: bmap_def)

lemma dget_bval: "k \<in> set (dkeys m) \<Longrightarrow> dget m k = Inr (bval m k)"
proof -
  assume "k \<in> set (dkeys m)"
  then have "map_of m k \<noteq> None" by (simp add: map_of_eq_None_iff)
  then show ?thesis by (auto simp: dget_def bval_def)
qed

lemma bval_dset: "bval (dset k v m) k' = (if k' = k then v else bval m k')"
  by (simp add: bval_def)

lemma bmap_outside: "k \<notin> set (dkeys m) \<Longrightarrow> bmap m k = {}"
  by (simp add: bmap_def bval_def bits_def map_of_eq_None_iff[symmetric])

lemma foldE_cong: "(\<And>x s. x \<in> set xs \<Longrightarrow> f x s = g x s) \<Longrightarrow> foldE f xs s = foldE g xs s"
  by (induction xs arbitrary: s) (auto simp: bindE_def split: sum.splits)

text \<open>The flag tells whether the bitmap has changed.\<close>

lemma merge_bits_step:
  assumes "k \<in> set (dkeys m)"
  shows "\<exists>m'. merge_bits k x (m, ch) = Inr (m', ch \<or> bmap m' \<noteq> bmap m) \<and> dkeys m' = dkeys m
    \<and> bmap m' = (bmap m)(k := bmap m k \<union> bits x)"
proof (cases "bval m k OR x = bval m k")
  case True
  then have "bmap m k \<union> bits x = bmap m k" by (metis bits_or bmap_def)
  with True assms show ?thesis by (simp add: merge_bits_def dget_bval Let_def)
next
  case False
  let ?m = "dset k (bval m k OR x) m"
  have keys: "dkeys ?m = dkeys m" using assms by (intro dset_keys_present) auto
  have map: "bmap ?m = (bmap m)(k := bmap m k \<union> bits x)" by (auto simp: bmap_def bval_dset fun_eq_iff)
  have "bmap m k \<union> bits x \<noteq> bmap m k"
    using False by (metis bits_or bmap_def bits_inject)
  then have "bmap ?m \<noteq> bmap m" unfolding map by (auto simp: fun_eq_iff)
  with False assms keys map show ?thesis by (simp add: merge_bits_def dget_bval Let_def)
qed

lemma merge_all:
  assumes "set bs \<subseteq> set (dkeys m)"
  shows "\<exists>m'. foldE (\<lambda>b s. merge_bits b (c b) s) bs (m, ch) = Inr (m', ch \<or> bmap m' \<noteq> bmap m)
    \<and> dkeys m' = dkeys m \<and> bmap m' = (\<lambda>k. if k \<in> set bs then bmap m k \<union> bits (c k) else bmap m k)"
  using assms
proof (induction bs arbitrary: m ch)
  case Nil
  then show ?case by (auto simp: fun_eq_iff)
next
  case (Cons b bs)
  then obtain m1 where m1: "merge_bits b (c b) (m, ch) = Inr (m1, ch \<or> bmap m1 \<noteq> bmap m)" "dkeys m1 = dkeys m"
    "bmap m1 = (bmap m)(b := bmap m b \<union> bits (c b))"
    using merge_bits_step[of b m "c b" ch] by auto
  from Cons.IH[of m1 "ch \<or> bmap m1 \<noteq> bmap m"] Cons.prems m1(2) obtain m2 where
    m2: "foldE (\<lambda>b s. merge_bits b (c b) s) bs (m1, ch \<or> bmap m1 \<noteq> bmap m)
          = Inr (m2, (ch \<or> bmap m1 \<noteq> bmap m) \<or> bmap m2 \<noteq> bmap m1)"
      "dkeys m2 = dkeys m1" "bmap m2 = (\<lambda>k. if k \<in> set bs then bmap m1 k \<union> bits (c k) else bmap m1 k)" by auto
  have eq: "bmap m2 = (\<lambda>k. if k \<in> set (b # bs) then bmap m k \<union> bits (c k) else bmap m k)"
    unfolding m2(3) m1(3) by (auto simp: fun_eq_iff)
  have "bmap m1 k \<subseteq> bmap m2 k" "bmap m k \<subseteq> bmap m1 k" for k unfolding m2(3) m1(3) by auto
  then have "bmap m2 \<noteq> bmap m \<longleftrightarrow> bmap m1 \<noteq> bmap m \<or> bmap m2 \<noteq> bmap m1"
    by (metis fun_eq_iff subset_antisym)
  with m1 m2 eq show ?case by (auto simp: disj_assoc)
qed

section \<open>Bits that flow along paths\<close>

text \<open>
  Bit \<open>j\<close> flows to \<open>b\<close>: it is one of the bits of \<open>b\<close> at the start, or flows to a node with \<open>b\<close>
  among its neighbours, and \<open>b\<close> lets it pass.
\<close>

inductive flows ::
  "(int \<Rightarrow> int list) \<Rightarrow> (int \<Rightarrow> nat \<Rightarrow> bool) \<Rightarrow> (int \<Rightarrow> nat set) \<Rightarrow> int \<Rightarrow> nat \<Rightarrow> bool"
  for nbrs pass start where
  flow_start: "j \<in> start b \<Longrightarrow> flows nbrs pass start b j"
| flow_step: "flows nbrs pass start a j \<Longrightarrow> b \<in> set (nbrs a) \<Longrightarrow> pass b j \<Longrightarrow> flows nbrs pass start b j"

lemma flows_bound: "flows nbrs pass start b j \<Longrightarrow> \<exists>k. j \<in> start k"
  by (induction rule: flows.induct) auto

definition nbr_list :: "(int, int list) dict \<Rightarrow> int \<Rightarrow> int list" where
  "nbr_list nb a = (case map_of nb a of None \<Rightarrow> [] | Some bs \<Rightarrow> bs)"

definition nbrs_ok :: "int list \<Rightarrow> (int, int list) dict \<Rightarrow> bool" where
  "nbrs_ok offs nb \<longleftrightarrow> dkeys nb = offs \<and> (\<forall>a \<in> set offs. set (nbr_list nb a) \<subseteq> set offs)"

lemma nbr_list_get: "nbrs_ok offs nb \<Longrightarrow> a \<in> set offs \<Longrightarrow> dget nb a = Inr (nbr_list nb a)"
proof -
  assume "nbrs_ok offs nb" and "a \<in> set offs"
  then have "map_of nb a \<noteq> None" by (auto simp: nbrs_ok_def map_of_eq_None_iff)
  then show ?thesis by (auto simp: dget_def nbr_list_def)
qed

locale bit_flow =
  fixes push :: "(int, int list) dict \<Rightarrow> int \<Rightarrow> bitmap \<times> bool \<Rightarrow> (bitmap \<times> bool) res"
    and contrib :: "int \<Rightarrow> int \<Rightarrow> int"
    and pass :: "int \<Rightarrow> nat \<Rightarrow> bool"
    and env_ok :: "int list \<Rightarrow> bool"
  assumes push_law: "dkeys m = offs \<Longrightarrow> nbrs_ok offs nb \<Longrightarrow> env_ok offs \<Longrightarrow> a \<in> set offs \<Longrightarrow>
      push nb a (m, ch) = foldE (\<lambda>b s. merge_bits b (contrib b (bval m a)) s) (nbr_list nb a) (m, ch)"
    and contrib_bit: "bit (contrib b v) j \<longleftrightarrow> bit v j \<and> pass b j"
begin

definition closed :: "(int, int list) dict \<Rightarrow> int list \<Rightarrow> (int \<Rightarrow> nat set) \<Rightarrow> bool" where
  "closed nb xs S \<longleftrightarrow> (\<forall>a \<in> set xs. \<forall>b \<in> set (nbr_list nb a). {j \<in> S a. pass b j} \<subseteq> S b)"

lemma push_step:
  assumes "dkeys m = offs" "nbrs_ok offs nb" "env_ok offs" "a \<in> set offs"
  shows "\<exists>m'. push nb a (m, ch) = Inr (m', ch \<or> bmap m' \<noteq> bmap m) \<and> dkeys m' = offs
    \<and> (\<forall>b. bmap m' b = bmap m b \<union> (if b \<in> set (nbr_list nb a) then {j \<in> bmap m a. pass b j} else {}))"
proof -
  have "set (nbr_list nb a) \<subseteq> set (dkeys m)" using assms(1,2,4) by (auto simp: nbrs_ok_def)
  from merge_all[OF this, of "\<lambda>b. contrib b (bval m a)" ch] obtain m' where
    "push nb a (m, ch) = Inr (m', ch \<or> bmap m' \<noteq> bmap m)" "dkeys m' = dkeys m"
    "bmap m' = (\<lambda>k. if k \<in> set (nbr_list nb a) then bmap m k \<union> bits (contrib k (bval m a)) else bmap m k)"
    using push_law[OF assms] by auto
  moreover have "bits (contrib k (bval m a)) = {j \<in> bmap m a. pass k j}" for k
    by (auto simp: contrib_bit bmap_def)
  ultimately show ?thesis using assms(1) by simp
qed

lemma sweep_step:
  assumes "dkeys m = offs" "nbrs_ok offs nb" "env_ok offs" "set xs \<subseteq> set offs"
  shows "\<exists>m'. foldE (push nb) xs (m, ch) = Inr (m', ch \<or> bmap m' \<noteq> bmap m) \<and> dkeys m' = offs
    \<and> (\<forall>k. bmap m k \<subseteq> bmap m' k)
    \<and> (\<forall>S. closed nb offs S \<longrightarrow> (\<forall>k. bmap m k \<subseteq> S k) \<longrightarrow> (\<forall>k. bmap m' k \<subseteq> S k))
    \<and> (bmap m' = bmap m \<longrightarrow> closed nb xs (bmap m))"
  using assms(1,4)
proof (induction xs arbitrary: m ch)
  case Nil
  then show ?case by (auto simp: closed_def)
next
  case (Cons a xs)
  from Cons.prems(2) have a: "a \<in> set offs" and sub: "set xs \<subseteq> set offs" by auto
  from push_step[OF Cons.prems(1) assms(2,3) a, of ch] obtain m1 where
    m1: "push nb a (m, ch) = Inr (m1, ch \<or> bmap m1 \<noteq> bmap m)" "dkeys m1 = offs"
      "\<forall>b. bmap m1 b = bmap m b \<union> (if b \<in> set (nbr_list nb a) then {j \<in> bmap m a. pass b j} else {})" by blast
  from Cons.IH[OF m1(2) sub, of "ch \<or> bmap m1 \<noteq> bmap m"] obtain m2 where
    m2: "foldE (push nb) xs (m1, ch \<or> bmap m1 \<noteq> bmap m) = Inr (m2, (ch \<or> bmap m1 \<noteq> bmap m) \<or> bmap m2 \<noteq> bmap m1)"
      "dkeys m2 = offs" "\<forall>k. bmap m1 k \<subseteq> bmap m2 k"
      "\<forall>S. closed nb offs S \<longrightarrow> (\<forall>k. bmap m1 k \<subseteq> S k) \<longrightarrow> (\<forall>k. bmap m2 k \<subseteq> S k)"
      "bmap m2 = bmap m1 \<longrightarrow> closed nb xs (bmap m1)" by blast
  have mono: "\<forall>k. bmap m k \<subseteq> bmap m1 k" using m1(3) by auto
  have ne: "bmap m2 \<noteq> bmap m \<longleftrightarrow> bmap m1 \<noteq> bmap m \<or> bmap m2 \<noteq> bmap m1"
    using mono m2(3) by (metis fun_eq_iff subset_antisym)
  have "foldE (push nb) (a # xs) (m, ch) = Inr (m2, ch \<or> bmap m2 \<noteq> bmap m)"
    by (simp only: foldE.simps m1(1) bindE_simps m2(1) ne disj_assoc)
  moreover have "\<forall>k. bmap m2 k \<subseteq> S k" if "closed nb offs S" "\<forall>k. bmap m k \<subseteq> S k" for S
  proof -
    have "\<forall>b. bmap m1 b \<subseteq> S b"
      using m1(3) that a unfolding closed_def by (fastforce split: if_splits)
    with m2(4) that(1) show ?thesis by blast
  qed
  moreover have "closed nb (a # xs) (bmap m)" if eq: "bmap m2 = bmap m"
  proof -
    from ne eq have same: "bmap m1 = bmap m" "bmap m2 = bmap m1" by blast+
    from m2(5) same have "closed nb xs (bmap m)" by (simp only: HOL.simp_thms)
    moreover have "{j \<in> bmap m a. pass b j} \<subseteq> bmap m b" if "b \<in> set (nbr_list nb a)" for b
    proof -
      have "{j \<in> bmap m a. pass b j} \<subseteq> bmap m1 b" using m1(3) that by auto
      then show ?thesis by (simp only: same)
    qed
    ultimately show ?thesis by (simp only: closed_def list.set ball_simps) blast
  qed
  ultimately show ?case using m2(2,3) mono by blast
qed

lemma closed_flows: "nbrs_ok offs nb \<Longrightarrow> closed nb offs (\<lambda>b. {j. flows (nbr_list nb) pass start b j})"
  by (auto simp: closed_def intro: flow_step)

lemma flows_least:
  assumes "nbrs_ok offs nb" and "closed nb offs S" and "\<And>k. start k \<subseteq> S k" and "\<And>k. k \<notin> set offs \<Longrightarrow> start k = {}"
  shows "{j. flows (nbr_list nb) pass start b j} \<subseteq> S b"
proof
  have out: "nbr_list nb a = []" if "a \<notin> set offs" for a
    using that assms(1) by (auto simp: nbrs_ok_def nbr_list_def map_of_eq_None_iff[symmetric] split: option.splits)
  fix j assume "j \<in> {j. flows (nbr_list nb) pass start b j}"
  then have "flows (nbr_list nb) pass start b j" by simp
  then show "j \<in> S b"
  proof induction
    case (flow_start j b)
    with assms(3) show ?case by auto
  next
    case (flow_step a j b)
    then have "a \<in> set offs" using out by (cases "a \<in> set offs") auto
    with flow_step assms(2) show ?case unfolding closed_def by blast
  qed
qed

lemma loop_result:
  assumes "dkeys m0 = offs" "nbrs_ok offs nb" "env_ok offs" "set order = set offs"
    and fin: "\<And>k. finite (bmap m0 k)"
  shows "\<exists>m. loopE snd (\<lambda>(m, changed). Some (foldE (push nb) order (m, False))) (m0, True) = Some (Inr (m, False))
    \<and> dkeys m = offs \<and> (\<forall>k. bmap m k = {j. flows (nbr_list nb) pass (bmap m0) k j})"
proof -
  define S where "S k = {j. flows (nbr_list nb) pass (bmap m0) k j}" for k
  have closedS: "closed nb offs S" unfolding S_def by (rule closed_flows[OF assms(2)])
  have finS: "finite (S k)" for k
  proof (rule finite_subset)
    show "S k \<subseteq> (\<Union>k \<in> set offs. bmap m0 k)"
      using flows_bound bmap_outside[of _ m0] assms(1) unfolding S_def by fastforce
    show "finite (\<Union>k \<in> set offs. bmap m0 k)" using fin by simp
  qed
  let ?P = "\<lambda>(m, ch). dkeys m = offs \<and> (\<forall>k. bmap m0 k \<subseteq> bmap m k) \<and> (\<forall>k. bmap m k \<subseteq> S k)
      \<and> (\<not> ch \<longrightarrow> closed nb offs (bmap m))"
  let ?size = "\<lambda>m. \<Sum>k \<in> set offs. card (S k - bmap m k)"
  let ?r = "measures [\<lambda>(m, ch). ?size m, \<lambda>(m, ch). if ch then 1 else (0 :: nat)]"
  have step: "\<exists>s'. (\<lambda>(m, changed). Some (foldE (push nb) order (m, False))) s = Some (Inr s') \<and> ?P s' \<and> (s', s) \<in> ?r"
    if P: "?P s" and b: "snd s" for s
  proof -
    obtain m where s: "s = (m, True)" using b by (cases s) auto
    with P have m: "dkeys m = offs" "\<forall>k. bmap m0 k \<subseteq> bmap m k" "\<forall>k. bmap m k \<subseteq> S k" by auto
    from sweep_step[OF m(1) assms(2,3), of order False] assms(4) obtain m' where
      m': "foldE (push nb) order (m, False) = Inr (m', bmap m' \<noteq> bmap m)" "dkeys m' = offs"
        "\<forall>k. bmap m k \<subseteq> bmap m' k"
        "\<forall>S. closed nb offs S \<longrightarrow> (\<forall>k. bmap m k \<subseteq> S k) \<longrightarrow> (\<forall>k. bmap m' k \<subseteq> S k)"
        "bmap m' = bmap m \<longrightarrow> closed nb order (bmap m)" by auto
    have sub: "\<forall>k. bmap m' k \<subseteq> S k" using m'(4) closedS m(3) by blast
    have dec: "?size m' < ?size m" if "bmap m' \<noteq> bmap m"
    proof (rule sum_strict_mono_ex1)
      show "finite (set offs)" by simp
      show "\<forall>k \<in> set offs. card (S k - bmap m' k) \<le> card (S k - bmap m k)"
        using m'(3) finS by (auto intro!: card_mono)
      from that obtain k where k: "bmap m' k \<noteq> bmap m k" by (auto simp: fun_eq_iff)
      then have "k \<in> set offs" using bmap_outside[of k m] bmap_outside[of k m'] m(1) m'(2) by auto
      moreover have "S k - bmap m' k \<subset> S k - bmap m k" using k m'(3) sub by blast
      ultimately show "\<exists>k \<in> set offs. card (S k - bmap m' k) < card (S k - bmap m k)"
        using finS by (intro bexI[of _ k] psubset_card_mono) auto
    qed
    have "closed nb offs (bmap m')" if "bmap m' = bmap m"
      using m'(5) that assms(4) by (simp add: closed_def)
    moreover have "\<forall>k. bmap m0 k \<subseteq> bmap m' k" using m(2) m'(3) by blast
    ultimately have "?P (m', bmap m' \<noteq> bmap m)" using m'(2) sub by simp
    moreover have "((m', bmap m' \<noteq> bmap m), s) \<in> ?r"
    proof (cases "bmap m' = bmap m")
      case True
      then show ?thesis by (simp add: s)
    next
      case False
      with dec show ?thesis by (simp add: s)
    qed
    ultimately show ?thesis using m'(1) s by auto
  qed
  have start: "?P (m0, True)" using assms(1) by (auto simp: S_def intro: flow_start)
  from loopE_rule[where P = ?P and r = ?r and b = snd, OF start wf_measures step] obtain s' where s': "loopE snd (\<lambda>(m, changed). Some (foldE (push nb) order (m, False))) (m0, True) = Some (Inr s')"
    "?P s'" "\<not> snd s'"
    by blast
  obtain m where m: "s' = (m, False)" using s'(3) by (cases s') auto
  with s'(2) have inv: "dkeys m = offs" "\<forall>k. bmap m0 k \<subseteq> bmap m k" "\<forall>k. bmap m k \<subseteq> S k" "closed nb offs (bmap m)" by auto
  have "S k \<subseteq> bmap m k" for k
    unfolding S_def
    by (rule flows_least[OF assms(2) inv(4)]) (use inv(2) bmap_outside[of _ m0] assms(1) in auto)
  with inv s'(1) m show ?thesis unfolding S_def by (metis subset_antisym)
qed

end

section \<open>The two loops of the code\<close>

interpretation reach: bit_flow push_reach "\<lambda>b v. v" "\<lambda>b j. True" "\<lambda>offs. True"
  by unfold_locales (auto simp: push_reach_def dget_bval nbr_list_get)

interpretation live: bit_flow "\<lambda>nb. push_live nb R D" "\<lambda>b v. (v AND bval R b) AND NOT (bval D b)"
  "\<lambda>b j. bit (bval R b) j \<and> \<not> bit (bval D b) j" "\<lambda>offs. dkeys R = offs \<and> dkeys D = offs" for R D
proof (unfold_locales, goal_cases)
  case (1 m offs nb a ch)
  then have sub: "set (nbr_list nb a) \<subseteq> set offs" by (auto simp: nbrs_ok_def)
  have "push_live nb R D a (m, ch) = foldE (\<lambda>inc_blk s.
           bindE (dget R inc_blk) (\<lambda>r. bindE (dget D inc_blk) (\<lambda>d.
             merge_bits inc_blk ((bval m a AND r) AND NOT d) s))) (nbr_list nb a) (m, ch)"
    using 1 by (simp add: push_live_def dget_bval nbr_list_get)
  also have "\<dots> = foldE (\<lambda>b s. merge_bits b ((bval m a AND bval R b) AND NOT (bval D b)) s) (nbr_list nb a) (m, ch)"
    using 1 sub by (intro foldE_cong) (simp add: dget_bval subset_iff)
  finally show ?case .
next
  case (2 b v j)
  then show ?case by (auto simp: bit_and_iff bit_not_iff)
qed

section \<open>Numbering the variables\<close>

definition numbered :: "(string, nat) dict \<Rightarrow> string list \<Rightarrow> bool" where
  "numbered index names \<longleftrightarrow> distinct names \<and>
     (\<forall>v k. map_of index v = Some k \<longleftrightarrow> k < length names \<and> names ! k = v)"

lemma number_name_ok:
  assumes "numbered index names" and "number_name v (index, names) = (index', names')"
  shows "numbered index' names' \<and> set names' = insert v (set names)"
proof (cases "v \<in> set (dkeys index)")
  case True
  then have "map_of index v \<noteq> None" by (simp add: map_of_eq_None_iff)
  then have "v \<in> set names" using assms(1) by (auto simp: numbered_def)
  with True assms show ?thesis by (auto simp: number_name_def)
next
  case False
  then have "map_of index v = None" by (simp add: map_of_eq_None_iff)
  then have v: "v \<notin> set names"
    using assms(1) unfolding numbered_def by (metis in_set_conv_nth option.distinct(1))
  from False assms(2) have eq: "index' = dset v (length names) index" "names' = names @ [v]"
    by (auto simp: number_name_def)
  have "map_of index' w = Some k \<longleftrightarrow> k < length names' \<and> names' ! k = w" for w k
    using assms(1) v unfolding eq by (auto simp: numbered_def nth_append less_Suc_eq)
  with v assms(1) show ?thesis by (auto simp: numbered_def eq)
qed

lemma number_fold_ok:
  assumes "numbered index names" and "fold number_name vs (index, names) = (index', names')"
  shows "numbered index' names' \<and> set names' = set names \<union> set vs"
  using assms
proof (induction vs arbitrary: index names)
  case Nil
  then show ?case by simp
next
  case (Cons v vs)
  obtain i1 n1 where 1: "number_name v (index, names) = (i1, n1)" by (cases "number_name v (index, names)")
  from number_name_ok[OF Cons.prems(1) 1] Cons.IH[of i1 n1] Cons.prems(2) 1 show ?case by auto
qed

lemma number_names_ok:
  assumes "number_names um dm = (index, names)"
  shows "numbered index names \<and> set names = (\<Union>vs \<in> set (dvalues dm) \<union> set (dvalues um). set vs)"
proof -
  have "numbered i n \<and> set n = set n0 \<union> (\<Union>vs \<in> set vss. set vs)"
    if "fold (fold number_name) vss (i0, n0) = (i, n)" "numbered i0 n0" for vss i0 n0 i n
    using that
  proof (induction vss arbitrary: i0 n0)
    case Nil
    then show ?case by simp
  next
    case (Cons vs vss)
    obtain i1 n1 where 1: "fold number_name vs (i0, n0) = (i1, n1)" by (cases "fold number_name vs (i0, n0)")
    from number_fold_ok[OF Cons.prems(2) 1] Cons.IH[of i1 n1] Cons.prems(1) 1 show ?case by auto
  qed
  from this[of "dvalues dm @ dvalues um" "[]" "[]" index names] assms show ?thesis
    by (auto simp: number_names_def numbered_def)
qed

section \<open>Bytes\<close>

lemma bit_byte_cons:
  fixes b acc :: int
  assumes "0 \<le> b" "b < 256"
  shows "bit (b + 256 * acc) k \<longleftrightarrow> (if k < 8 then bit b k else bit acc (k - 8))"
proof -
  have t: "take_bit 8 (b + 256 * acc) = b" using assms by (simp add: take_bit_eq_mod)
  have d: "drop_bit 8 (b + 256 * acc) = acc" using assms by (simp add: drop_bit_eq_div)
  show ?thesis
  proof (cases "k < 8")
    case True
    then have "bit (b + 256 * acc) k \<longleftrightarrow> bit (take_bit 8 (b + 256 * acc)) k" by (simp add: bit_take_bit_iff)
    with True t show ?thesis by simp
  next
    case False
    then have "bit (b + 256 * acc) k \<longleftrightarrow> bit (drop_bit 8 (b + 256 * acc)) (k - 8)" by (simp add: bit_drop_bit_eq)
    with False d show ?thesis by simp
  qed
qed

definition is_bytes :: "int list \<Rightarrow> bool" where
  "is_bytes buf \<longleftrightarrow> (\<forall>b \<in> set buf. 0 \<le> b \<and> b < 256)"

lemma from_bytes_range: "is_bytes buf \<Longrightarrow> 0 \<le> from_bytes buf \<and> from_bytes buf < 256 ^ length buf"
proof (induction buf)
  case (Cons b buf)
  then have "0 \<le> b" "b < 256" "0 \<le> from_bytes buf" "from_bytes buf + 1 \<le> 256 ^ length buf"
    by (auto simp: is_bytes_def)
  moreover from this(4) have "256 * (from_bytes buf + 1) \<le> 256 * 256 ^ length buf" by (intro mult_left_mono) auto
  ultimately show ?case by (simp add: from_bytes_def)
qed (simp add: from_bytes_def)

lemma from_bytes_bit:
  "is_bytes buf \<Longrightarrow> bit (from_bytes buf) k \<longleftrightarrow> k div 8 < length buf \<and> bit (buf ! (k div 8)) (k mod 8)"
proof (induction buf arbitrary: k)
  case Nil
  then show ?case by (simp add: from_bytes_def)
next
  case (Cons b buf)
  then have b: "0 \<le> b" "b < 256" and IH: "\<And>k. bit (from_bytes buf) k \<longleftrightarrow> k div 8 < length buf \<and> bit (buf ! (k div 8)) (k mod 8)"
    by (auto simp: is_bytes_def)
  have eq: "from_bytes (b # buf) = b + 256 * from_bytes buf" by (simp add: from_bytes_def)
  show ?case
  proof (cases "k < 8")
    case True
    then show ?thesis unfolding eq bit_byte_cons[OF b] by simp
  next
    case False
    then have "k div 8 = Suc ((k - 8) div 8)" "k mod 8 = (k - 8) mod 8" by (simp_all add: div_if mod_if)
    with False show ?thesis unfolding eq bit_byte_cons[OF b] by (simp add: IH)
  qed
qed

lemma byte_digit: "bit (x div 256 ^ i mod 256) b \<longleftrightarrow> b < 8 \<and> bit x (8 * i + b)" for x :: int
proof -
  have "x div 256 ^ i = drop_bit (8 * i) x" by (simp add: drop_bit_eq_div power_mult)
  moreover have "y mod 256 = take_bit 8 y" for y :: int by (simp add: take_bit_eq_mod)
  ultimately show ?thesis by (simp add: bit_take_bit_iff bit_drop_bit_eq add.commute)
qed

lemma byte_or:
  assumes "0 \<le> b" "b < 256" "k < 8"
  shows "0 \<le> b OR push_bit k 1 \<and> b OR push_bit k 1 < (256 :: int)"
    and "bit (b OR push_bit k 1) j \<longleftrightarrow> bit b j \<or> j = k"
proof -
  have b: "take_bit 8 b = b" using assms by (simp add: take_bit_eq_mod)
  have "take_bit 8 (push_bit k 1) = (push_bit k 1 :: int)"
    by (rule bit_eqI) (use assms(3) in \<open>auto simp: bit_take_bit_iff bit_push_bit_iff bit_1_iff\<close>)
  then have "take_bit 8 (b OR push_bit k 1) = b OR push_bit k 1" by (simp add: b take_bit_or)
  then show "0 \<le> b OR push_bit k 1 \<and> b OR push_bit k 1 < (256 :: int)"
    using take_bit_nonnegative[of 8 "b OR push_bit k 1"] take_bit_int_less_exp[of 8 "b OR push_bit k 1"] by simp
  show "bit (b OR push_bit k 1) j \<longleftrightarrow> bit b j \<or> j = k"
    by (auto simp: bit_or_iff bit_push_bit_iff bit_1_iff bit_exp_iff)
qed

lemma bits_range:
  fixes x :: int
  assumes "\<And>j. bit x j \<Longrightarrow> j < n"
  shows "0 \<le> x \<and> x < 2 ^ n"
proof -
  have "take_bit n x = x" by (rule bit_eqI) (use assms in \<open>auto simp: bit_take_bit_iff\<close>)
  then show ?thesis using take_bit_nonnegative[of n x] take_bit_int_less_exp[of n x] by simp
qed

section \<open>Sets as bitsets\<close>

lemma bit_index: "drop_bit 3 i = i div 8" "i AND 7 = i mod 8" for i :: nat
  using take_bit_eq_mask[of 3 i] by (simp_all add: drop_bit_eq_div take_bit_eq_mod mask_eq_exp_minus_1)

lemma set_name_bit_ok:
  assumes "is_bytes buf" and "map_of index v = Some i" and "i div 8 < length buf"
  shows "\<exists>buf'. set_name_bit index v buf = Inr buf' \<and> is_bytes buf' \<and> length buf' = length buf
    \<and> (\<forall>j. bit (from_bytes buf') j \<longleftrightarrow> bit (from_bytes buf) j \<or> j = i)"
proof -
  let ?k = "i div 8" and ?b = "buf ! (i div 8)"
  let ?buf = "buf[?k := ?b OR push_bit (i mod 8) 1]"
  have b: "0 \<le> ?b" "?b < 256" using assms(1,3) by (auto simp: is_bytes_def)
  have "i mod 8 < 8" by simp
  note or = byte_or[OF b this]
  have byt: "is_bytes ?buf"
    unfolding is_bytes_def
  proof
    fix x assume "x \<in> set ?buf"
    then have "x = ?b OR push_bit (i mod 8) 1 \<or> x \<in> set buf" using set_update_subset_insert by fastforce
    with or(1) assms(1) show "0 \<le> x \<and> x < 256" by (auto simp: is_bytes_def)
  qed
  have "bit (from_bytes ?buf) j \<longleftrightarrow> bit (from_bytes buf) j \<or> j = i" for j
  proof (cases "j div 8 = ?k")
    case True
    then have "j mod 8 = i mod 8 \<longleftrightarrow> j = i" by (metis div_mod_decomp)
    moreover have "bit (from_bytes ?buf) j \<longleftrightarrow> bit (?b OR push_bit (i mod 8) 1) (j mod 8)"
      unfolding from_bytes_bit[OF byt] True using assms(3) by simp
    moreover have "bit (from_bytes buf) j \<longleftrightarrow> bit ?b (j mod 8)"
      unfolding from_bytes_bit[OF assms(1)] True using assms(3) by simp
    ultimately show ?thesis by (simp only: or(2))
  next
    case False
    then have "j \<noteq> i" by auto
    then show ?thesis
      unfolding from_bytes_bit[OF byt] from_bytes_bit[OF assms(1)] using False by auto
  qed
  moreover have "set_name_bit index v buf = Inr ?buf"
    using assms(2,3) by (simp add: set_name_bit_def dget_def bit_index Let_def)
  ultimately show ?thesis using byt by (metis length_list_update)
qed

lemma to_bits_ok:
  assumes num: "numbered index names" and sub: "set vs \<subseteq> set names"
  shows "\<exists>x. to_bits ((length names + 7) div 8) index vs = Inr x \<and> 0 \<le> x \<and> x < 256 ^ ((length names + 7) div 8)
    \<and> bits x = {k. k < length names \<and> names ! k \<in> set vs}"
proof -
  let ?n = "(length names + 7) div 8"
  have fold: "\<exists>buf'. foldE (set_name_bit index) ws buf = Inr buf' \<and> is_bytes buf' \<and> length buf' = ?n
      \<and> (\<forall>j. bit (from_bytes buf') j \<longleftrightarrow> bit (from_bytes buf) j \<or> (\<exists>w \<in> set ws. map_of index w = Some j))"
    if "set ws \<subseteq> set names" "is_bytes buf" "length buf = ?n" for ws buf
    using that
  proof (induction ws arbitrary: buf)
    case Nil
    then show ?case by simp
  next
    case (Cons w ws)
    from Cons.prems(1) obtain i where i: "i < length names" "names ! i = w" by (auto simp: in_set_conv_nth)
    then have w: "map_of index w = Some i" using num by (simp add: numbered_def)
    have "i div 8 < length buf" using i(1) Cons.prems(3) by linarith
    from set_name_bit_ok[OF Cons.prems(2) w this] obtain b1 where
      b1: "set_name_bit index w buf = Inr b1" "is_bytes b1" "length b1 = length buf"
        "\<forall>j. bit (from_bytes b1) j \<longleftrightarrow> bit (from_bytes buf) j \<or> j = i" by blast
    from Cons.IH[of b1] b1 Cons.prems obtain b2 where
      "foldE (set_name_bit index) ws b1 = Inr b2" "is_bytes b2" "length b2 = ?n"
      "\<forall>j. bit (from_bytes b2) j \<longleftrightarrow> bit (from_bytes b1) j \<or> (\<exists>w \<in> set ws. map_of index w = Some j)" by auto
    with b1 w show ?case by auto
  qed
  have zero: "from_bytes (replicate n 0) = 0" for n by (induction n) (simp_all add: from_bytes_def)
  from fold[OF sub, of "replicate ?n 0"] obtain buf where
    buf: "foldE (set_name_bit index) vs (replicate ?n 0) = Inr buf" "is_bytes buf" "length buf = ?n"
      "\<forall>j. bit (from_bytes buf) j \<longleftrightarrow> (\<exists>w \<in> set vs. map_of index w = Some j)"
    by (auto simp: is_bytes_def zero)
  have "bits (from_bytes buf) = {k. k < length names \<and> names ! k \<in> set vs}"
    using buf(4) num by (auto simp: numbered_def bits_def)
  with buf from_bytes_range[OF buf(2)] show ?thesis by (simp add: to_bits_def)
qed

lemma bits_to_names_ok:
  assumes range: "0 \<le> x" "x < 256 ^ nbytes" and sub: "\<And>k. bit x k \<Longrightarrow> k < length names"
  shows "\<exists>vs. bits_to_names nbytes names x = Inr vs \<and> distinct vs \<and> set vs = {names ! k |k. bit x k}"
proof -
  have inner: "\<exists>vs'. foldE (\<lambda>b live. bindE (py_index names (int (base + b))) (\<lambda>v. Inr (set_add v live))) bs vs = Inr vs'
      \<and> distinct vs' \<and> set vs' = set vs \<union> {names ! (base + b) |b. b \<in> set bs}"
    if "\<forall>b \<in> set bs. base + b < length names" "distinct vs" for base bs vs
    using that
  proof (induction bs arbitrary: vs)
    case Nil
    then show ?case by simp
  next
    case (Cons b bs)
    then have "py_index names (int (base + b)) = Inr (names ! (base + b))" by (intro py_index_nat) simp
    with Cons.IH[of "set_add (names ! (base + b)) vs"] Cons.prems show ?case by (auto simp del: of_nat_add)
  qed
  have bb: "set (byte_bits (x div 256 ^ i mod 256)) = {b. b < 8 \<and> bit x (8 * i + b)}" for i
  proof -
    have "y AND push_bit b 1 \<noteq> 0 \<longleftrightarrow> bit y b" for y :: int and b
      by (simp add: bit_iff_and_push_bit_not_eq_0)
    then show ?thesis by (auto simp: byte_bits_def byte_digit)
  qed
  let ?blob = "map (\<lambda>i. x div 256 ^ i mod 256) [0..<nbytes]"
  have outer: "\<exists>vs'. foldE (add_byte_names names) (map (\<lambda>i. (i, x div 256 ^ i mod 256)) ns) vs = Inr vs'
      \<and> distinct vs' \<and> set vs' = set vs \<union> {names ! k |k. k div 8 \<in> set ns \<and> bit x k}"
    if "distinct vs" for ns vs
    using that
  proof (induction ns arbitrary: vs)
    case Nil
    then show ?case by simp
  next
    case (Cons i ns)
    let ?d = "x div 256 ^ i mod 256"
    have "\<exists>vs1. add_byte_names names (i, ?d) vs = Inr vs1 \<and> distinct vs1
        \<and> set vs1 = set vs \<union> {names ! (8 * i + b) |b. b \<in> set (byte_bits ?d)}"
    proof (cases "?d = 0")
      case True
      have "set (byte_bits 0) = {}" by (simp add: byte_bits_def)
      with True Cons.prems show ?thesis by (simp add: add_byte_names_def)
    next
      case False
      have "\<forall>b \<in> set (byte_bits ?d). 8 * i + b < length names" using bb[of i] sub by auto
      from inner[OF this Cons.prems] False show ?thesis
        by (simp add: add_byte_names_def push_bit_eq_mult Let_def mult.commute)
    qed
    then obtain vs1 where vs1: "add_byte_names names (i, ?d) vs = Inr vs1" "distinct vs1"
      "set vs1 = set vs \<union> {names ! (8 * i + b) |b. b \<in> set (byte_bits ?d)}" by blast
    have "{names ! (8 * i + b) |b. b < 8 \<and> bit x (8 * i + b)} = {names ! k |k. k div 8 = i \<and> bit x k}"
    proof (intro equalityI subsetI)
      fix v assume "v \<in> {names ! k |k. k div 8 = i \<and> bit x k}"
      then obtain k where "v = names ! k" "k div 8 = i" "bit x k" by blast
      then show "v \<in> {names ! (8 * i + b) |b. b < 8 \<and> bit x (8 * i + b)}"
        by (intro CollectI exI[of _ "k mod 8"]) auto
    qed force
    with vs1 bb[of i] Cons.IH[OF vs1(2)] show ?case by auto
  qed
  have "zip [0..<length ?blob] ?blob = map (\<lambda>i. (i, x div 256 ^ i mod 256)) [0..<nbytes]"
    by (simp add: zip_map2 zip_same_conv_map)
  moreover have "k div 8 < nbytes" if "bit x k" for k
  proof -
    have "take_bit (8 * nbytes) x = x" using range by (simp add: take_bit_eq_mod power_mult)
    with that have "k < 8 * nbytes" by (metis bit_take_bit_iff)
    then show ?thesis by (simp add: less_mult_imp_div_less mult.commute)
  qed
  then have "{names ! k |k. k div 8 \<in> set [0..<nbytes] \<and> bit x k} = {names ! k |k. bit x k}" by auto
  ultimately show ?thesis
    using outer[of "[]" "[0..<nbytes]"] range by (simp add: bits_to_names_def to_bytes_def)
qed

end
