(* ===== verification/LiveProps.thy ===== *)
theory LiveProps
  imports BitFlow
begin

text \<open>
  The live map: \<open>compute_live_map\<close> always returns, and holds at each block the variables with a
  use ahead on a path without a definition of it (through blocks the variable has reached).
\<close>

section \<open>What the analysis computes\<close>

definition vset :: "varmap \<Rightarrow> int \<Rightarrow> string set" where
  "vset m k = set (dget_set m k)"

text \<open>A variable is seen at \<open>b\<close>: a block with a path to \<open>b\<close> uses or defines it.\<close>

definition seen :: "(int \<times> int) set \<Rightarrow> varmap \<Rightarrow> varmap \<Rightarrow> int \<Rightarrow> string \<Rightarrow> bool" where
  "seen E um dm b v \<longleftrightarrow> (\<exists>a. (a, b) \<in> E\<^sup>* \<and> v \<in> vset um a \<union> vset dm a)"

inductive live_in :: "(int \<times> int) set \<Rightarrow> varmap \<Rightarrow> varmap \<Rightarrow> int \<Rightarrow> string \<Rightarrow> bool"
  for E um dm where
  live_use: "v \<in> vset um b \<Longrightarrow> live_in E um dm b v"
| live_flow: "(b, s) \<in> E \<Longrightarrow> live_in E um dm s v \<Longrightarrow> seen E um dm b v \<Longrightarrow> v \<notin> vset dm b \<Longrightarrow> live_in E um dm b v"

definition maps_ok :: "(int, 'd) cfgraph \<Rightarrow> 'c blocks \<Rightarrow> varmap \<Rightarrow> varmap \<Rightarrow> bool" where
  "maps_ok cfg blocks um dm \<longleftrightarrow> cfg_wf cfg \<and> set (g_nodes cfg) \<subseteq> set (dkeys blocks)
     \<and> dkeys um = dkeys blocks \<and> dkeys dm = dkeys blocks"

section \<open>Tables over the blocks\<close>

lemma map_offsets_ok:
  assumes "\<And>k. k \<in> set offs \<Longrightarrow> \<exists>v. f k = Inr v \<and> P k v"
  shows "\<exists>m. map_offsets offs f = Inr m \<and> dkeys m = offs \<and> (\<forall>k \<in> set offs. \<exists>v. map_of m k = Some v \<and> P k v)"
  using assms
proof (induction offs)
  case Nil
  then show ?case by (simp add: map_offsets_def)
next
  case (Cons k offs)
  obtain v where v: "f k = Inr v" "P k v" using Cons.prems by auto
  from Cons obtain m where m: "map_offsets offs f = Inr m" "dkeys m = offs"
    "\<forall>k \<in> set offs. \<exists>v. map_of m k = Some v \<and> P k v" by auto
  then have "map_offsets (k # offs) f = Inr ((k, v) # m)" by (simp add: map_offsets_def v)
  with m v show ?case by auto
qed

lemma successors_ok:
  fixes g :: "(int, 'd) cfgraph"
  assumes "cfg_wf g"
  shows "neighbours (successors g k) = Inr (g_succs g k)" and "neighbours (predecessors g k) = Inr (g_preds g k)"
proof -
  have data: "\<exists>d. dget (edge_data g) (a, b) = Inr d" if "(a, b) \<in> g_edges g" for a b
  proof -
    have "\<exists>d. map_of (edge_data g) (a, b) = Some d"
      using cfg_wfD(1)[OF assms] that unfolding tables_def by blast
    then show ?thesis by (auto simp: dget_def)
  qed
  have "neighbours (mapE (\<lambda>d. bindE (F d) (\<lambda>x. Inr (d, x))) ds) = Inr ds"
    if "\<And>d. d \<in> set ds \<Longrightarrow> \<exists>x. F d = Inr x" for F :: "int \<Rightarrow> 'd res" and ds
    using that
  proof (induction ds)
    case Nil
    then show ?case by (simp add: neighbours_def)
  next
    case (Cons d ds)
    obtain x where "F d = Inr x" using Cons.prems by auto
    with Cons show ?case by (auto simp: neighbours_def res_simps)
  qed
  moreover have "(k, d) \<in> g_edges g" if "d \<in> set (g_succs g k)" for d using that by (simp add: g_edges_def)
  moreover have "(d, k) \<in> g_edges g" if "d \<in> set (g_preds g k)" for d
    using that cfg_wfD(1)[OF assms] by (simp add: tables_def)
  ultimately show "neighbours (successors g k) = Inr (g_succs g k)" "neighbours (predecessors g k) = Inr (g_preds g k)"
    using data by (simp_all add: successors_def predecessors_def)
qed

lemma dget_vset: "k \<in> set (dkeys m) \<Longrightarrow> dget m k = Inr (dget_set m k)"
proof -
  assume "k \<in> set (dkeys m)"
  then have "map_of m k \<noteq> None" by (simp add: map_of_eq_None_iff)
  then show ?thesis by (auto simp: dget_def dget_set_def)
qed

section \<open>The live map\<close>

definition vbits :: "string list \<Rightarrow> string set \<Rightarrow> nat set" where
  "vbits names vs = {j. j < length names \<and> names ! j \<in> vs}"

lemma finite_vbits [simp]: "finite (vbits names vs)"
  by (simp add: vbits_def)

lemma bmap_from: "k \<in> set offs \<Longrightarrow> \<forall>k \<in> set offs. \<exists>x. map_of m k = Some x \<and> bits x = F k \<Longrightarrow> bmap m k = F k"
  by (auto simp: bmap_def bval_def)

lemma map_bits_ok:
  assumes "\<And>k. k \<in> set offs \<Longrightarrow> \<exists>x. f k = Inr x \<and> bits x = F k" and "\<And>k. k \<notin> set offs \<Longrightarrow> F k = {}"
  shows "\<exists>m. map_offsets offs f = Inr m \<and> dkeys m = offs \<and> (\<forall>b. bmap m b = F b)"
proof -
  from map_offsets_ok[where f = f and offs = offs and P = "\<lambda>k x. bits x = F k", OF assms(1)] obtain m where
    m: "map_offsets offs f = Inr m" "dkeys m = offs" "\<forall>k \<in> set offs. \<exists>x. map_of m k = Some x \<and> bits x = F k"
    by blast
  have "bmap m b = F b" for b
    using bmap_from[OF _ m(3), of b] bmap_outside[of b m] assms(2)[of b] m(2) by (cases "b \<in> set offs") auto
  with m show ?thesis by blast
qed

lemma reach_spec:
  assumes "\<And>a. set (nbrs a) = {b. (a, b) \<in> E}"
  shows "flows nbrs (\<lambda>b j. True) start b j \<longleftrightarrow> (\<exists>a. (a, b) \<in> E\<^sup>* \<and> j \<in> start a)"
proof
  show "flows nbrs (\<lambda>b j. True) start b j \<Longrightarrow> \<exists>a. (a, b) \<in> E\<^sup>* \<and> j \<in> start a"
    by (induction rule: flows.induct) (use assms in \<open>auto intro: rtrancl_into_rtrancl\<close>)
  assume "\<exists>a. (a, b) \<in> E\<^sup>* \<and> j \<in> start a"
  then obtain a where "(a, b) \<in> E\<^sup>*" "j \<in> start a" by blast
  then show "flows nbrs (\<lambda>b j. True) start b j"
    by (induction rule: rtrancl_induct) (use assms in \<open>auto intro: flow_start flow_step\<close>)
qed

lemma live_spec:
  assumes nbrs: "\<And>a. set (nbrs a) = {b. (b, a) \<in> E}" and j: "j < length names"
    and start: "\<And>b. start b = vbits names (vset um b)"
    and pass: "\<And>b s j. (b, s) \<in> E \<Longrightarrow> j < length names \<Longrightarrow>
      pass b j \<longleftrightarrow> seen E um dm b (names ! j) \<and> names ! j \<notin> vset dm b"
  shows "flows nbrs pass start b j \<longleftrightarrow> live_in E um dm b (names ! j)"
proof
  show "flows nbrs pass start b j \<Longrightarrow> live_in E um dm b (names ! j)"
  proof (induction rule: flows.induct)
    case (flow_start j' b)
    then show ?case by (auto simp: start vbits_def intro: live_use)
  next
    case (flow_step a j' b)
    obtain k where "j' \<in> start k" using flows_bound[OF flow_step(1)] by blast
    then have "j' < length names" by (simp add: start vbits_def)
    with flow_step show ?case using nbrs pass by (auto intro: live_flow)
  qed
  show "live_in E um dm b (names ! j) \<Longrightarrow> flows nbrs pass start b j"
  proof (induction b "names ! j" rule: live_in.induct)
    case (live_use b)
    then show ?case using j by (auto simp: start vbits_def intro: flow_start)
  next
    case (live_flow b s)
    then show ?case using nbrs pass j by (auto intro: flow_step)
  qed
qed

lemma live_map_result:
  fixes cfg :: "(int, 'd) cfgraph"
  assumes ok: "maps_ok cfg blocks um dm"
  shows "\<exists>L. compute_live_map cfg blocks um dm = Some (Inr L) \<and> dkeys L = dkeys blocks
    \<and> (\<forall>b \<in> set (dkeys blocks). vset L b = {v. live_in (g_edges cfg) um dm b v})"
proof -
  let ?offs = "dkeys blocks" and ?E = "g_edges cfg"
  obtain index names where nn: "number_names um dm = (index, names)" by (cases "number_names um dm")
  let ?n = "(length names + 7) div 8"
  from ok have wf: "cfg_wf cfg" "set (g_nodes cfg) \<subseteq> set ?offs" "dkeys um = ?offs" "dkeys dm = ?offs"
    by (simp_all add: maps_ok_def)
  have num: "numbered index names" using number_names_ok[OF nn] by simp
  have sub: "vset m b \<subseteq> set names" if "m = um \<or> m = dm" for m b
  proof -
    have "dget_set m b = [] \<or> dget_set m b \<in> set (dvalues m)"
      by (auto simp: dget_set_def image_iff dest!: map_of_SomeD split: option.splits) force
    then show ?thesis using that number_names_ok[OF nn] by (auto simp: vset_def)
  qed
  have outside: "vset m b = {}" if "b \<notin> set ?offs" "m = um \<or> m = dm" for m b
  proof -
    have "b \<notin> set (dkeys m)" using that wf(3,4) by metis
    then have "map_of m b = None" by (rule map_of_outside)
    then show ?thesis by (simp add: vset_def dget_set_def)
  qed
  have bits: "\<exists>m'. map_offsets ?offs (\<lambda>k. bindE (dget m k) (to_bits ?n index)) = Inr m' \<and> dkeys m' = ?offs
      \<and> (\<forall>b. bmap m' b = vbits names (vset m b))" if m: "m = um \<or> m = dm" for m
  proof -
    have "\<exists>x. bindE (dget m k) (to_bits ?n index) = Inr x \<and> bits x = vbits names (vset m k)"
      if "k \<in> set ?offs" for k
    proof -
      have "k \<in> set (dkeys m)" using that m wf(3,4) by metis
      then have "dget m k = Inr (dget_set m k)" by (rule dget_vset)
      with to_bits_ok[OF num, of "dget_set m k"] sub[OF m, of k] show ?thesis
        by (auto simp: vset_def vbits_def)
    qed
    moreover have "vbits names (vset m k) = {}" if "k \<notin> set ?offs" for k
      using outside[OF that m] by (simp add: vbits_def)
    ultimately show ?thesis by (rule map_bits_ok)
  qed
  from bits[of dm] obtain D where D: "map_offsets ?offs (\<lambda>k. bindE (dget dm k) (to_bits ?n index)) = Inr D"
    "dkeys D = ?offs" "\<forall>b. bmap D b = vbits names (vset dm b)" by auto
  from bits[of um] obtain U where U: "map_offsets ?offs (\<lambda>k. bindE (dget um k) (to_bits ?n index)) = Inr U"
    "dkeys U = ?offs" "\<forall>b. bmap U b = vbits names (vset um b)" by auto
  have nb: "\<exists>nb. map_offsets ?offs (\<lambda>k. Inr (F k)) = Inr nb \<and> nbrs_ok ?offs nb \<and> (\<forall>b. nbr_list nb b = F b)"
    if "\<And>a b. b \<in> set (F a) \<Longrightarrow> a \<in> set ?offs \<and> b \<in> set ?offs" for F :: "int \<Rightarrow> int list"
  proof -
    from map_offsets_ok[of ?offs "\<lambda>k. Inr (F k)" "\<lambda>k v. v = F k"] obtain nb where
      nb: "map_offsets ?offs (\<lambda>k. Inr (F k)) = Inr nb" "dkeys nb = ?offs" "\<forall>k \<in> set ?offs. map_of nb k = Some (F k)" by auto
    have "nbr_list nb b = F b" for b
    proof (cases "b \<in> set ?offs")
      case True
      with nb(3) have "map_of nb b = Some (F b)" by blast
      then show ?thesis by (simp add: nbr_list_def)
    next
      case False
      with that[of _ b] have "F b = []" by (cases "F b") auto
      moreover have "map_of nb b = None" using False nb(2) by (intro map_of_outside) simp
      ultimately show ?thesis by (simp add: nbr_list_def)
    qed
    with nb that show ?thesis by (auto simp: nbrs_ok_def)
  qed
  have inside: "a \<in> set ?offs \<and> b \<in> set ?offs" if "(a, b) \<in> ?E" for a b
    using cfg_wfD(3)[OF wf(1)] wf(2) that by blast
  have edges: "b \<in> set (g_succs cfg a) \<longleftrightarrow> (a, b) \<in> ?E" "a \<in> set (g_preds cfg b) \<longleftrightarrow> (a, b) \<in> ?E" for a b
    using cfg_wfD(1)[OF wf(1)] unfolding tables_def by blast+
  from nb[of "g_succs cfg"] edges inside obtain S where
    S: "map_offsets ?offs (\<lambda>k. Inr (g_succs cfg k)) = Inr S" "nbrs_ok ?offs S" "\<forall>b. nbr_list S b = g_succs cfg b" by blast
  from nb[of "g_preds cfg"] edges inside obtain P where
    P: "map_offsets ?offs (\<lambda>k. Inr (g_preds cfg k)) = Inr P" "nbrs_ok ?offs P" "\<forall>b. nbr_list P b = g_preds cfg b" by blast
  have get: "dget m k = Inr (bval m k)" if "dkeys m = ?offs" "k \<in> set ?offs" for m :: bitmap and k
    using that by (intro dget_bval) simp
  obtain DU where DU: "map_offsets ?offs (\<lambda>k. bindE (dget D k) (\<lambda>d. bindE (dget U k) (\<lambda>u. Inr (d OR u)))) = Inr DU"
    "dkeys DU = ?offs" "\<forall>b. bmap DU b = vbits names (vset um b \<union> vset dm b)"
  proof -
    have "\<exists>x. bindE (dget D k) (\<lambda>d. bindE (dget U k) (\<lambda>u. Inr (d OR u))) = Inr x \<and> bits x = vbits names (vset um k \<union> vset dm k)"
      if "k \<in> set ?offs" for k
    proof -
      have "bits (bval D k OR bval U k) = vbits names (vset um k \<union> vset dm k)"
        using D(3) U(3) by (auto simp: bmap_def vbits_def)
      with that show ?thesis by (simp add: get D(2) U(2))
    qed
    from map_bits_ok[where F = "\<lambda>k. vbits names (vset um k \<union> vset dm k)" and offs = ?offs, OF this] outside that
    show thesis by (auto simp: vbits_def)
  qed
  obtain V where V: "map_offsets ?offs (dget U) = Inr V" "dkeys V = ?offs" "\<forall>b. bmap V b = vbits names (vset um b)"
  proof -
    have "\<exists>x. dget U k = Inr x \<and> bits x = vbits names (vset um k)" if "k \<in> set ?offs" for k
      using that U(3) by (auto simp: get U(2) bmap_def)
    from map_bits_ok[where F = "\<lambda>k. vbits names (vset um k)" and offs = ?offs, OF this] outside that
    show thesis by (auto simp: vbits_def)
  qed
  from reach.loop_result[OF DU(2) S(2), of ?offs] DU(3) obtain R where
    R: "reach_sweep ?offs S DU = Some (Inr R)" "dkeys R = ?offs"
      "\<forall>k. bmap R k = {j. flows (g_succs cfg) (\<lambda>b j. True) (bmap DU) k j}"
    using S(3) by (auto simp: reach_sweep_def) (metis ext)
  have seen: "bit (bval R b) j \<longleftrightarrow> seen ?E um dm b (names ! j)" if "j < length names" for b j
  proof -
    have "set (g_succs cfg a) = {b. (a, b) \<in> ?E}" for a using edges(1) by auto
    from reach_spec[of "g_succs cfg" ?E, OF this]
    have "bit (bval R b) j \<longleftrightarrow> (\<exists>a. (a, b) \<in> ?E\<^sup>* \<and> j \<in> bmap DU a)"
      using R(3) by (simp add: bit_bmap)
    then show ?thesis using DU(3) that by (auto simp: seen_def vbits_def)
  qed
  have Pf: "nbr_list P = g_preds cfg" using P(3) by (simp add: fun_eq_iff)
  have finV: "finite (bmap V k)" for k by (simp add: V(3))
  have env: "dkeys R = ?offs \<and> dkeys D = ?offs" using R(2) D(2) by simp
  have "set (rev ?offs) = set ?offs" by simp
  from live.loop_result[OF V(2) P(2) env this finV] obtain W where
    W: "live_sweep ?offs P R D V = Some (Inr W)" "dkeys W = ?offs"
      "\<forall>k. bmap W k = {j. flows (g_preds cfg) (\<lambda>b j. bit (bval R b) j \<and> \<not> bit (bval D b) j) (bmap V) k j}"
    unfolding Pf live_sweep_def by fastforce
  have live: "bit (bval W b) j \<longleftrightarrow> live_in ?E um dm b (names ! j)" if j: "j < length names" for b j
  proof -
    have "bit (bval D b) j \<longleftrightarrow> names ! j \<in> vset dm b" if "j < length names" for b j
      using D(3) that by (simp add: bit_bmap vbits_def)
    then have "flows (g_preds cfg) (\<lambda>b j. bit (bval R b) j \<and> \<not> bit (bval D b) j) (bmap V) b j
        \<longleftrightarrow> live_in ?E um dm b (names ! j)"
      using edges(2) V(3) seen by (intro live_spec[OF _ j]) auto
    with W(3) show ?thesis by (simp add: bit_bmap)
  qed
  have bound: "j < length names" if "bit (bval W b) j" for b j
    using that W(3) flows_bound[of "g_preds cfg" _ "bmap V" b j] V(3) by (auto simp: bit_bmap vbits_def)
  have names: "v \<in> set names" if "live_in ?E um dm b v" for b v
    using that by induction (use sub in auto)
  have "\<exists>vs. bindE (dget W k) (bits_to_names ?n names) = Inr vs \<and> set vs = {v. live_in ?E um dm k v}"
    if "k \<in> set ?offs" for k
  proof -
    have "j < 8 * ?n" if "bit (bval W k) j" for j using bound[OF that] by linarith
    from bits_range[OF this] have range: "0 \<le> bval W k \<and> bval W k < 256 ^ ?n" by (simp add: power_mult)
    from bits_to_names_ok[of "bval W k" ?n names] range bound obtain vs where
      vs: "bits_to_names ?n names (bval W k) = Inr vs" "set vs = {names ! j |j. bit (bval W k) j}" by blast
    have "set vs = {v. live_in ?E um dm k v}"
    proof (intro equalityI subsetI)
      fix v assume "v \<in> set vs"
      with vs(2) obtain j where "v = names ! j" "bit (bval W k) j" by auto
      with live[of j k] bound[of k j] show "v \<in> {v. live_in ?E um dm k v}" by simp
    next
      fix v assume v: "v \<in> {v. live_in ?E um dm k v}"
      with names[of k v] obtain j where "v = names ! j" "j < length names" by (auto simp: in_set_conv_nth)
      with live[of j k] vs(2) v show "v \<in> set vs" by auto
    qed
    with vs(1) that show ?thesis by (simp add: get W(2))
  qed
  from map_offsets_ok[where offs = ?offs and P = "\<lambda>k vs. set vs = {v. live_in ?E um dm k v}", OF this] obtain L where
    L: "map_offsets ?offs (\<lambda>k. bindE (dget W k) (bits_to_names ?n names)) = Inr L" "dkeys L = ?offs"
      "\<forall>k \<in> set ?offs. \<exists>vs. map_of L k = Some vs \<and> set vs = {v. live_in ?E um dm k v}" by blast
  have "compute_live_map cfg blocks um dm = Some (Inr L)"
    using nn D(1) U(1) S(1) P(1) DU(1) R(1) V(1) W(1) L(1)
    by (simp add: compute_live_map_def successors_ok[OF wf(1)])
  with L show ?thesis by (auto simp: vset_def dget_set_def)
qed

end
