(* ===== verification/DeadMaps.thy ===== *)
theory DeadMaps
  imports LiveProps
begin

text \<open>
  What \<open>compute_use_defs\<close> and \<open>compute_dead_maps\<close> compute, and that the consistency check of the
  latter cannot fail when every block can reach an exit.
\<close>

section \<open>Uses and definitions of a block\<close>

definition reads :: "'c stmt \<Rightarrow> string list" where
  "reads st = (case st of Assign e target \<Rightarrow> rhs_vars e | _ \<Rightarrow> list_vars st)"

definition writes :: "'c stmt \<Rightarrow> string set" where
  "writes st = (case st of Assign e target \<Rightarrow> {target} | _ \<Rightarrow> {})"

definition assigned :: "'c block \<Rightarrow> string set" where
  "assigned body = (\<Union>st \<in> set body. writes st)"

definition mentioned :: "'c block \<Rightarrow> string set" where
  "mentioned body = (\<Union>st \<in> set body. set (list_vars st))"

text \<open>The variables read before any assignment, and those assigned without reading them.\<close>

fun exposed :: "'c block \<Rightarrow> string set" where
  "exposed [] = {}"
| "exposed (st # body) = set (reads st) \<union> (exposed body - writes st)"

definition defined :: "'c block \<Rightarrow> string set" where
  "defined body = (\<Union>st \<in> set body. writes st - set (reads st))"

lemma block_simps [simp]:
  "assigned [] = {}" "mentioned [] = {}" "defined [] = {}"
  "assigned (xs @ ys) = assigned xs \<union> assigned ys" "mentioned (xs @ ys) = mentioned xs \<union> mentioned ys"
  "assigned [st] = writes st" "mentioned [st] = set (list_vars st)"
  "defined (xs @ [st]) = defined xs \<union> (writes st - set (reads st))"
  by (auto simp: assigned_def mentioned_def defined_def)

lemma vars_of_stmt: "set (list_vars st) = set (reads st) \<union> writes st"
  by (cases st) (auto simp: list_vars_def reads_def writes_def)

lemma exposed_append: "exposed (xs @ ys) = exposed xs \<union> (exposed ys - assigned xs)"
  by (induction xs) (auto simp: assigned_def)

lemma defined_assigned: "defined body \<subseteq> assigned body" "assigned body \<subseteq> defined body \<union> exposed body"
proof -
  show "defined body \<subseteq> assigned body" by (auto simp: defined_def assigned_def)
  show "assigned body \<subseteq> defined body \<union> exposed body"
    by (induction body rule: rev_induct) (auto simp: exposed_append)
qed

lemma mentioned_split: "mentioned body \<subseteq> defined body \<union> exposed body"
proof (induction body rule: rev_induct)
  case (snoc st body)
  then show ?case using defined_assigned(2)[of body] by (auto simp: exposed_append vars_of_stmt)
qed simp

lemma use_def_stmt_sets:
  "set (fst (use_def_stmt st (us, ds))) = set us \<union> (set (list_vars st) - (set ds \<union> (writes st - set (reads st))))"
  "set (snd (use_def_stmt st (us, ds))) = set ds \<union> (writes st - set (reads st))"
proof -
  have addset: "set (fold (\<lambda>v us. if v \<notin> D then set_add v us else us) vs us) = set us \<union> (set vs - D)"
    for vs us and D :: "string set"
    by (induction vs arbitrary: us) auto
  have defs: "set (snd (use_def_stmt st (us, ds))) = set ds \<union> (writes st - set (reads st))"
    by (auto simp: use_def_stmt_def writes_def reads_def Let_def split: stmt.splits)
  have "fst (use_def_stmt st (us, ds))
      = fold (\<lambda>v xs. if v \<notin> set (snd (use_def_stmt st (us, ds))) then set_add v xs else xs) (list_vars st) us"
    by (simp add: use_def_stmt_def Let_def)
  then show "set (fst (use_def_stmt st (us, ds))) = set us \<union> (set (list_vars st) - (set ds \<union> (writes st - set (reads st))))"
    by (simp only: addset defs)
  show "set (snd (use_def_stmt st (us, ds))) = set ds \<union> (writes st - set (reads st))" by (rule defs)
qed

lemma use_def_block_sets: "set (fst (use_def_block body)) = exposed body \<and> set (snd (use_def_block body)) = defined body"
proof (induction body rule: rev_induct)
  case Nil
  then show ?case by (simp add: use_def_block_def)
next
  case (snoc st body)
  obtain us ds where st: "use_def_block body = (us, ds)" by (cases "use_def_block body")
  then have "use_def_block (body @ [st]) = use_def_stmt st (us, ds)" by (simp add: use_def_block_def)
  moreover have "set us = exposed body" "set ds = defined body" using snoc st by simp_all
  ultimately show ?case
    using use_def_stmt_sets[of st us ds] defined_assigned[of body]
    by (auto simp: exposed_append vars_of_stmt)
qed

lemma map_of_map_values: "map_of (map (\<lambda>(k, b). (k, f b)) m) k = map_option f (map_of m k)"
  by (induction m) auto

text \<open>
  C31. The use map of a block holds exactly the variables read before any assignment to them in
  the block. The definition map holds exactly those that some statement assigns without
  reading them itself: a variable that is only assigned from its own old value
  (\<open>i = inplace_binop(i)\<close>) is not in it. Every assigned variable is in one of the two maps.
\<close>

theorem use_defs_correct:
  assumes "map_of blocks k = Some body"
  shows "vset (usemap (compute_use_defs blocks)) k = exposed body
    \<and> vset (defmap (compute_use_defs blocks)) k = defined body
    \<and> assigned body \<subseteq> vset (usemap (compute_use_defs blocks)) k \<union> vset (defmap (compute_use_defs blocks)) k"
  using assms use_def_block_sets[of body] defined_assigned(2)[of body]
  by (auto simp: compute_use_defs_def vset_def dget_set_def map_of_map_values)

definition sample_blocks :: "nat blocks" where
  "sample_blocks =
     [(0, [Assign (ArgR ''n'' 0) ''n'', Assign (ConstR 0) ''i'', Jump 1]),
      (1, [Assign (InstR (Expr ''binop'' [(''lhs'', VarA ''i''), (''rhs'', VarA ''n'')])) ''c'', Branch ''c'' 2 3]),
      (2, [Assign (InstR (Expr ''inplace_binop'' [(''lhs'', VarA ''i'')])) ''i'', Jump 1]),
      (3, [Assign (InstR (Expr ''cast'' [(''value'', VarA ''i'')])) ''r'', Return ''r''])]"

theorem use_defs_correct_witness:
  "vset (usemap (compute_use_defs sample_blocks)) 2 = {''i''} \<and> vset (defmap (compute_use_defs sample_blocks)) 2 = {}
   \<and> vset (defmap (compute_use_defs sample_blocks)) 1 = {''c''}"
proof -
  have "map_of sample_blocks 2 = Some [Assign (InstR (Expr ''inplace_binop'' [(''lhs'', VarA ''i'')])) ''i'', Jump 1]"
    and "map_of sample_blocks 1 = Some [Assign (InstR (Expr ''binop'' [(''lhs'', VarA ''i''), (''rhs'', VarA ''n'')])) ''c'', Branch ''c'' 2 3]"
    by (simp_all add: sample_blocks_def)
  from use_defs_correct[OF this(1)] use_defs_correct[OF this(2)] show ?thesis
    by (auto simp: reads_def writes_def rhs_vars_def list_vars_def defined_def)
qed

section \<open>Dead variables of a block\<close>

definition term_vars :: "'c blocks \<Rightarrow> int \<Rightarrow> string set" where
  "term_vars blocks b = (case map_of blocks b of None \<Rightarrow> {} | Some body \<Rightarrow> set (list_vars (last body)))"

text \<open>What is needed after \<open>b\<close>: by a successor or by the terminator.\<close>

definition needed :: "(int \<times> int) set \<Rightarrow> 'c blocks \<Rightarrow> varmap \<Rightarrow> int \<Rightarrow> string set" where
  "needed E blocks L b = (\<Union>s \<in> {s. (b, s) \<in> E}. vset L s) \<union> term_vars blocks b"

definition current :: "varmap \<Rightarrow> varmap \<Rightarrow> int \<Rightarrow> string set" where
  "current L dm b = vset L b \<union> vset dm b"

definition dies_in :: "(int \<times> int) set \<Rightarrow> 'c blocks \<Rightarrow> varmap \<Rightarrow> varmap \<Rightarrow> int \<Rightarrow> string set" where
  "dies_in E blocks L dm b = current L dm b - needed E blocks L b"

definition leaves :: "(int \<times> int) set \<Rightarrow> 'c blocks \<Rightarrow> varmap \<Rightarrow> varmap \<Rightarrow> int \<Rightarrow> string set" where
  "leaves E blocks L dm b = current L dm b \<inter> needed E blocks L b"

definition dies_at :: "(int \<times> int) set \<Rightarrow> 'c blocks \<Rightarrow> varmap \<Rightarrow> varmap \<Rightarrow> int \<Rightarrow> string set" where
  "dies_at E blocks L dm s = (\<Union>p \<in> {p. (p, s) \<in> E}. leaves E blocks L dm p) - current L dm s"

definition dead_ok :: "(int, 'd) cfgraph \<Rightarrow> 'c blocks \<Rightarrow> varmap \<Rightarrow> varmap \<Rightarrow> bool" where
  "dead_ok cfg blocks L dm \<longleftrightarrow> cfg_wf cfg \<and> set (g_nodes cfg) \<subseteq> set (dkeys blocks) \<and> dkeys L = dkeys blocks
     \<and> dkeys dm = dkeys blocks \<and> distinct (dkeys blocks) \<and> (\<forall>(k, body) \<in> set blocks. body \<noteq> [])"

lemma vset_dset: "vset (dset k vs m) = (vset m)(k := set vs)"
  by (rule ext) (simp add: vset_def dget_set_def)

lemma dget_set_map: "k \<in> set ks \<Longrightarrow> dget_set (map (\<lambda>k. (k, g k)) ks) k = g k"
proof -
  have "map_of (map (\<lambda>k. (k, g k)) ks) k = (if k \<in> set ks then Some (g k) else None)" by (induction ks) auto
  then show "k \<in> set ks \<Longrightarrow> ?thesis" by (simp add: dget_set_def)
qed

lemma set_unions_set [simp]: "set (set_unions xss) = (\<Union>xs \<in> set xss. set xs)"
proof -
  have "set (fold (\<lambda>ys xs. set_update xs ys) xss acc) = set acc \<union> (\<Union>xs \<in> set xss. set xs)" for acc
    by (induction xss arbitrary: acc) auto
  then show ?thesis by (simp add: set_unions_def)
qed

lemma set_minus_set [simp]: "set (set_minus xs ys) = set xs - set ys"
  by (auto simp: set_minus_def)

lemma dead_ok_inside:
  assumes "dead_ok cfg blocks L dm" and "(a, b) \<in> g_edges cfg"
  shows "a \<in> set (dkeys blocks)" "b \<in> set (dkeys blocks)"
  using assms cfg_wfD(3)[of cfg] unfolding dead_ok_def by blast+

lemma map_offsets_get:
  assumes "set ks \<subseteq> set (dkeys m)"
  shows "map_offsets ks (dget m) = Inr (map (\<lambda>k. (k, dget_set m k)) ks)"
  unfolding map_offsets_def by (rule mapE_total) (use assms dget_vset in \<open>auto simp: subset_iff\<close>)

lemma escaping_fold:
  assumes "set ss \<subseteq> set (dkeys dm)"
  shows "\<exists>esc'. foldE (\<lambda>(out_blk, new_live_set) esc. bindE (dget dm out_blk) (\<lambda>dv.
            Inr (dset out_blk (set_update (dget_set esc out_blk)
                   (set_minus xs (set_update new_live_set dv))) esc))) (map (\<lambda>k. (k, dget_set L k)) ss) esc = Inr esc'
      \<and> vset esc' = (\<lambda>s. vset esc s \<union> (if s \<in> set ss then set xs - current L dm s else {}))"
  using assms
proof (induction ss arbitrary: esc)
  case Nil
  then show ?case by simp
next
  case (Cons s ss)
  let ?e = "dset s (set_update (dget_set esc s) (set_minus xs (set_update (dget_set L s) (dget_set dm s)))) esc"
  have "vset ?e = (vset esc)(s := vset esc s \<union> (set xs - current L dm s))"
    unfolding vset_dset by (simp add: vset_def current_def)
  moreover have "dget dm s = Inr (dget_set dm s)" using Cons.prems by (intro dget_vset) simp
  ultimately show ?case using Cons.IH[of ?e] Cons.prems by (auto simp: fun_eq_iff)
qed

lemma dead_step_ok:
  assumes ok: "dead_ok cfg blocks L dm" and k: "map_of blocks k = Some body"
  shows "\<exists>d'. dead_step cfg L dm (k, body) d = Inr d'
    \<and> vset (dm_internal d') = (vset (dm_internal d))(k := dies_in (g_edges cfg) blocks L dm k)
    \<and> vset (dm_escaping d') = (\<lambda>s. vset (dm_escaping d) s
         \<union> (if (k, s) \<in> g_edges cfg then leaves (g_edges cfg) blocks L dm k - current L dm s else {}))
    \<and> vset (dm_exit d') = (if \<exists>s. (k, s) \<in> g_edges cfg then vset (dm_exit d)
         else (vset (dm_exit d))(k := term_vars blocks k))"
proof -
  let ?E = "g_edges cfg"
  from ok have wf: "cfg_wf cfg" "dkeys L = dkeys blocks" "dkeys dm = dkeys blocks" by (simp_all add: dead_ok_def)
  from k have kin: "k \<in> set (dkeys blocks)" and ne: "body \<noteq> []"
    using ok by (auto simp: dead_ok_def dest!: map_of_SomeD intro: rev_image_eqI)
  have get: "dget L k = Inr (dget_set L k)" "dget dm k = Inr (dget_set dm k)"
    using kin wf(2,3) by (simp_all only: dget_vset)
  have succ: "s \<in> set (g_succs cfg k) \<longleftrightarrow> (k, s) \<in> ?E" for s
    using cfg_wfD(1)[OF wf(1)] unfolding tables_def by blast
  have sub: "set (g_succs cfg k) \<subseteq> set (dkeys blocks)" using succ dead_ok_inside(2)[OF ok] by blast
  have out: "map_offsets (g_succs cfg k) (dget L) = Inr (map (\<lambda>s. (s, dget_set L s)) (g_succs cfg k))"
    using sub wf(2) by (intro map_offsets_get) simp
  define cur where "cur = set_update (dget_set L k) (dget_set dm k)"
  define comb where "comb = set_update (set_unions (dvalues (map (\<lambda>s. (s, dget_set L s)) (g_succs cfg k))))
      (remdups (list_vars (last body)))"
  define int where "int = set_minus cur comb"
  define esc where "esc = set_minus cur int"
  have cur: "set cur = current L dm k" by (simp add: cur_def current_def vset_def)
  have comb: "set comb = needed ?E blocks L k"
    using succ by (auto simp: comb_def needed_def term_vars_def k vset_def)
  have int: "set int = dies_in ?E blocks L dm k" by (simp add: int_def cur comb dies_in_def)
  have esc: "set esc = leaves ?E blocks L dm k" by (auto simp: esc_def int cur dies_in_def leaves_def)
  have "set (g_succs cfg k) \<subseteq> set (dkeys dm)" using sub wf(3) by simp
  from escaping_fold[OF this, of esc L "dm_escaping d"] obtain e where
    e: "foldE (\<lambda>(out_blk, new_live_set) es. bindE (dget dm out_blk) (\<lambda>dv.
            Inr (dset out_blk (set_update (dget_set es out_blk)
                   (set_minus esc (set_update new_live_set dv))) es)))
          (map (\<lambda>s. (s, dget_set L s)) (g_succs cfg k)) (dm_escaping d) = Inr e"
      "vset e = (\<lambda>s. vset (dm_escaping d) s \<union> (if s \<in> set (g_succs cfg k) then set esc - current L dm s else {}))"
    by blast
  let ?d = "\<lparr>dm_internal = dset k int (dm_internal d), dm_escaping = e,
      dm_exit = (if map (\<lambda>s. (s, dget_set L s)) (g_succs cfg k) = [] then dset k (remdups (list_vars (last body))) (dm_exit d)
                 else dm_exit d)\<rparr>"
  have "dead_step cfg L dm (k, body) d = Inr ?d"
    unfolding dead_step_def prod.case get successors_ok[OF wf(1)] out terminator_last if_not_P[OF ne] bindE_simps
      Let_def cur_def[symmetric] comb_def[symmetric] int_def[symmetric] esc_def[symmetric] e(1) ..
  moreover have "g_succs cfg k = [] \<longleftrightarrow> \<not> (\<exists>s. (k, s) \<in> ?E)" using succ by (cases "g_succs cfg k") auto
  ultimately show ?thesis
    using e(2)[unfolded esc] int succ by (simp add: vset_dset term_vars_def k)
qed

lemma dead_fold_ok:
  assumes ok: "dead_ok cfg blocks L dm" and "\<forall>(k, body) \<in> set bs. map_of blocks k = Some body"
  shows "\<exists>d'. foldE (dead_step cfg L dm) bs d = Inr d'
    \<and> (\<forall>k. vset (dm_internal d') k = (if k \<in> set (dkeys bs) then dies_in (g_edges cfg) blocks L dm k else vset (dm_internal d) k))
    \<and> (\<forall>s. vset (dm_escaping d') s = vset (dm_escaping d) s
         \<union> (\<Union>p \<in> {p \<in> set (dkeys bs). (p, s) \<in> g_edges cfg}. leaves (g_edges cfg) blocks L dm p - current L dm s))
    \<and> (\<forall>k. vset (dm_exit d') k = (if k \<in> set (dkeys bs) \<and> \<not> (\<exists>s. (k, s) \<in> g_edges cfg)
         then term_vars blocks k else vset (dm_exit d) k))"
  using assms(2)
proof (induction bs arbitrary: d)
  case Nil
  then show ?case by simp
next
  case (Cons b bs)
  obtain k body where b: "b = (k, body)" by (cases b)
  with Cons.prems have "map_of blocks k = Some body" by simp
  from dead_step_ok[OF ok this, of d] obtain d1 where
    d1: "dead_step cfg L dm (k, body) d = Inr d1"
      "vset (dm_internal d1) = (vset (dm_internal d))(k := dies_in (g_edges cfg) blocks L dm k)"
      "vset (dm_escaping d1) = (\<lambda>s. vset (dm_escaping d) s
         \<union> (if (k, s) \<in> g_edges cfg then leaves (g_edges cfg) blocks L dm k - current L dm s else {}))"
      "vset (dm_exit d1) = (if \<exists>s. (k, s) \<in> g_edges cfg then vset (dm_exit d)
         else (vset (dm_exit d))(k := term_vars blocks k))" by blast
  from Cons.IH[of d1] Cons.prems obtain d2 where
    d2: "foldE (dead_step cfg L dm) bs d1 = Inr d2"
      "\<forall>k. vset (dm_internal d2) k = (if k \<in> set (dkeys bs) then dies_in (g_edges cfg) blocks L dm k else vset (dm_internal d1) k)"
      "\<forall>s. vset (dm_escaping d2) s = vset (dm_escaping d1) s
         \<union> (\<Union>p \<in> {p \<in> set (dkeys bs). (p, s) \<in> g_edges cfg}. leaves (g_edges cfg) blocks L dm p - current L dm s)"
      "\<forall>k. vset (dm_exit d2) k = (if k \<in> set (dkeys bs) \<and> \<not> (\<exists>s. (k, s) \<in> g_edges cfg)
         then term_vars blocks k else vset (dm_exit d1) k)" by auto
  have "foldE (dead_step cfg L dm) (b # bs) d = Inr d2" by (simp add: b d1(1) d2(1))
  moreover have "vset (dm_internal d2) x = (if x \<in> set (dkeys (b # bs)) then dies_in (g_edges cfg) blocks L dm x
      else vset (dm_internal d) x)" for x using d2(2) by (simp add: d1(2) b)
  moreover have "vset (dm_escaping d2) s = vset (dm_escaping d) s
      \<union> (\<Union>p \<in> {p \<in> set (dkeys (b # bs)). (p, s) \<in> g_edges cfg}. leaves (g_edges cfg) blocks L dm p - current L dm s)" for s
    using d2(3) by (auto simp: d1(3) b)
  moreover have "vset (dm_exit d2) x = (if x \<in> set (dkeys (b # bs)) \<and> \<not> (\<exists>s. (x, s) \<in> g_edges cfg)
      then term_vars blocks x else vset (dm_exit d) x)" for x using d2(4) by (auto simp: d1(4) b)
  ultimately show ?case by blast
qed

text \<open>Each current variable of a block dies on the way to an exit, or is used by its terminator.\<close>

lemma dies_on_way:
  assumes "(b, x) \<in> E\<^sup>*" and "\<not> (\<exists>s. (x, s) \<in> E)" and "v \<in> current L dm b"
  shows "\<exists>c. (b, c) \<in> E\<^sup>* \<and> (v \<in> dies_in E blocks L dm c \<or> v \<in> dies_at E blocks L dm c
      \<or> (\<not> (\<exists>s. (c, s) \<in> E) \<and> v \<in> term_vars blocks c))"
  using assms(1,3)
proof (induction rule: converse_rtrancl_induct)
  case base
  with assms(2) show ?case by (intro exI[of _ x]) (auto simp: dies_in_def needed_def)
next
  case (step a c)
  show ?case
  proof (cases "v \<in> current L dm c")
    case True
    with step.IH step.hyps(1) show ?thesis by (meson converse_rtrancl_into_rtrancl)
  next
    case False
    show ?thesis
    proof (cases "v \<in> dies_in E blocks L dm a")
      case True
      then show ?thesis by blast
    next
      case in_a: False
      with step.prems have "v \<in> leaves E blocks L dm a" by (auto simp: dies_in_def leaves_def)
      with False step.hyps(1) have "v \<in> dies_at E blocks L dm c" by (auto simp: dies_at_def)
      with step.hyps(1) show ?thesis by blast
    qed
  qed
qed

definition dead_maps_are ::
  "(int \<times> int) set \<Rightarrow> 'c blocks \<Rightarrow> varmap \<Rightarrow> varmap \<Rightarrow> dead_result \<Rightarrow> bool" where
  "dead_maps_are E blocks L dm r \<longleftrightarrow>
     (\<forall>k \<in> set (dkeys blocks). vset (dead_internal r) k = dies_in E blocks L dm k
        \<and> vset (dead_escaping r) k = dies_at E blocks L dm k
        \<and> vset (dead_combined r) k = dies_in E blocks L dm k \<union> dies_at E blocks L dm k)"

lemma dead_maps_result:
  assumes ok: "dead_ok cfg blocks L dm"
  shows "(\<exists>r. compute_dead_maps cfg blocks L dm = Inr r \<and> dead_maps_are (g_edges cfg) blocks L dm r)
      \<or> compute_dead_maps cfg blocks L dm = Inl RuntimeError"
    and "\<forall>b \<in> set (dkeys blocks). \<exists>x. (b, x) \<in> (g_edges cfg)\<^sup>* \<and> \<not> (\<exists>s. (x, s) \<in> g_edges cfg) \<Longrightarrow>
      \<exists>r. compute_dead_maps cfg blocks L dm = Inr r"
proof -
  let ?E = "g_edges cfg"
  have "\<forall>(k, body) \<in> set blocks. map_of blocks k = Some body" using ok by (auto simp: dead_ok_def)
  from dead_fold_ok[OF ok this, of "\<lparr>dm_internal = [], dm_escaping = [], dm_exit = []\<rparr>"] obtain d where
    d: "foldE (dead_step cfg L dm) blocks \<lparr>dm_internal = [], dm_escaping = [], dm_exit = []\<rparr> = Inr d"
      "\<forall>k. vset (dm_internal d) k = (if k \<in> set (dkeys blocks) then dies_in ?E blocks L dm k else {})"
      "\<forall>s. vset (dm_escaping d) s
         = (\<Union>p \<in> {p \<in> set (dkeys blocks). (p, s) \<in> ?E}. leaves ?E blocks L dm p - current L dm s)"
      "\<forall>k. vset (dm_exit d) k = (if k \<in> set (dkeys blocks) \<and> \<not> (\<exists>s. (k, s) \<in> ?E) then term_vars blocks k else {})"
    by (auto simp: vset_def dget_set_def)
  have esc: "vset (dm_escaping d) s = dies_at ?E blocks L dm s" for s
  proof -
    have "{p \<in> set (dkeys blocks). (p, s) \<in> ?E} = {p. (p, s) \<in> ?E}" using dead_ok_inside(1)[OF ok] by blast
    then show ?thesis by (simp only: d(3)[rule_format] dies_at_def) blast
  qed
  let ?r = "\<lparr>dead_internal = dm_internal d, dead_escaping = dm_escaping d,
      dead_combined = map (\<lambda>k. (k, set_update (dget_set (dm_internal d) k) (dget_set (dm_escaping d) k))) (dkeys blocks)\<rparr>"
  let ?dead = "set_update (set_update (set_unions (dvalues (dm_internal d)))
      (set_unions (dvalues (dm_escaping d)))) (set_unions (dvalues (dm_exit d)))"
  let ?missing = "set_minus (set_unions (dvalues L)) ?dead"
  have res: "compute_dead_maps cfg blocks L dm
      = (if ?missing \<noteq> [] \<and> find_exit_points cfg \<noteq> [] then Inl RuntimeError else Inr ?r)"
    by (simp add: compute_dead_maps_def d(1) Let_def)
  have "dead_maps_are ?E blocks L dm ?r"
    unfolding dead_maps_are_def
  proof (intro ballI conjI)
    fix k assume k: "k \<in> set (dkeys blocks)"
    show "vset (dead_internal ?r) k = dies_in ?E blocks L dm k" using d(2) k by simp
    show "vset (dead_escaping ?r) k = dies_at ?E blocks L dm k" using esc by simp
    have "vset (dead_combined ?r) k = vset (dm_internal d) k \<union> vset (dm_escaping d) k"
      using k by (simp only: vset_def dead_result.select_convs dget_set_map set_set_update)
    then show "vset (dead_combined ?r) k = dies_in ?E blocks L dm k \<union> dies_at ?E blocks L dm k"
      using d(2) k esc by simp
  qed
  with res show "(\<exists>r. compute_dead_maps cfg blocks L dm = Inr r \<and> dead_maps_are ?E blocks L dm r)
      \<or> compute_dead_maps cfg blocks L dm = Inl RuntimeError" by auto
  show "\<exists>r. compute_dead_maps cfg blocks L dm = Inr r"
    if exits: "\<forall>b \<in> set (dkeys blocks). \<exists>x. (b, x) \<in> ?E\<^sup>* \<and> \<not> (\<exists>s. (x, s) \<in> ?E)"
  proof -
    have member: "v \<in> (\<Union>xs \<in> set (dvalues m). set xs)" if "v \<in> vset m k" for m k v
    proof -
      from that obtain vs where "map_of m k = Some vs" "v \<in> set vs"
        by (cases "map_of m k") (simp_all add: vset_def dget_set_def)
      then show ?thesis using map_of_SomeD[of m k vs] by force
    qed
    have "set (set_unions (dvalues L)) \<subseteq> set ?dead"
    proof
      fix v assume "v \<in> set (set_unions (dvalues L))"
      then obtain b vs where b: "(b, vs) \<in> set L" "v \<in> set vs" by auto
      have dL: "dkeys L = dkeys blocks" "distinct (dkeys L)" using ok by (simp_all add: dead_ok_def)
      with b have v: "v \<in> current L dm b" by (simp add: current_def vset_def dget_set_def)
      have bin: "b \<in> set (dkeys blocks)" using b(1) dL(1)[symmetric] by force
      with exits obtain x where x: "(b, x) \<in> ?E\<^sup>*" "\<not> (\<exists>s. (x, s) \<in> ?E)" by blast
      from dies_on_way[OF x v, of blocks] obtain c where
        c: "(b, c) \<in> ?E\<^sup>*" "v \<in> dies_in ?E blocks L dm c \<or> v \<in> dies_at ?E blocks L dm c
          \<or> (\<not> (\<exists>s. (c, s) \<in> ?E) \<and> v \<in> term_vars blocks c)" by blast
      have "c \<in> set (dkeys blocks)"
        using c(1) bin dead_ok_inside(2)[OF ok] by (induction rule: rtrancl_induct) auto
      with c(2) d(2,4) esc have "v \<in> vset (dm_internal d) c \<or> v \<in> vset (dm_escaping d) c \<or> v \<in> vset (dm_exit d) c"
        by auto
      then show "v \<in> set ?dead" using member by (auto simp del: set_map)
    qed
    then have "set ?missing = {}" by (simp only: set_minus_set Diff_eq_empty_iff)
    then have "?missing = []" by (simp only: set_empty)
    with res show ?thesis by simp
  qed
qed

end
