(* ===== verification/PostProc.thy ===== *)
theory PostProc
  imports DeadMaps
begin

text \<open>
  Post-processing (\<open>core/postproc.py\<close>): the lazily computed variable lifetimes, and the insertion
  of \<open>Del\<close> statements. The inserted deletions are safe (no variable is read after its deletion
  unless it is assigned again) and complete (at an exit only the variables of the terminator
  are left).
\<close>

section \<open>Variable lifetimes\<close>

text \<open>The cached properties of \<open>VariableLifetime\<close>, each computed from the ones it reads.\<close>

definition vlt_livemap :: "'c blocks \<Rightarrow> (int, unit) cfgraph \<Rightarrow> varmap res option" where
  "vlt_livemap blocks cfg =
     compute_live_map cfg blocks (usemap (compute_use_defs blocks)) (defmap (compute_use_defs blocks))"

definition vlt_deadmaps :: "'c blocks \<Rightarrow> dead_result res option" where
  "vlt_deadmaps blocks =
     bindO (compute_cfg_from_blocks blocks) (\<lambda>cfg.
     bindO (vlt_livemap blocks cfg) (\<lambda>livemap.
       Some (compute_dead_maps cfg blocks livemap (defmap (compute_use_defs blocks)))))"

section \<open>Inserting deletions\<close>

text \<open>Over the statements in reverse: the variables used here and not afterwards.\<close>

fun delete_points :: "'c stmt list \<Rightarrow> string list \<Rightarrow> ('c stmt \<times> string list) list" where
  "delete_points [] internal = []"
| "delete_points (st # sts) internal =
     (let dead = filter (\<lambda>v. v \<in> set internal) (remdups (list_vars st))
      in (st, dead) # delete_points sts (set_minus internal dead))"

definition dels :: "string list \<Rightarrow> 'c stmt list" where
  "dels vs = map Del vs"

definition patch_body :: "bool \<Rightarrow> string list \<Rightarrow> string list \<Rightarrow> 'c block \<Rightarrow> 'c block res" where
  "patch_body extend_lifetimes internal escaping body =
     bindE (terminator body) (\<lambda>term.
       let delete_pts = delete_points (rev (butlast body)) internal;
           kept = (\<lambda>st. if is_del st then [] else [st]);
           new_body =
             (if extend_lifetimes
              then concat (map (\<lambda>(st, ds). kept st) (rev delete_pts))
                     @ concat (map (\<lambda>(st, ds). dels (rev (sort ds))) (rev delete_pts))
              else concat (map (\<lambda>(st, ds). kept st @ dels (rev (sort ds))) (rev delete_pts)))
             @ [term]
       in Inr (fold (\<lambda>v b. prepend (Del v) b) (sort escaping) new_body))"

definition patch_var_dels :: "bool \<Rightarrow> dead_result \<Rightarrow> 'c blocks \<Rightarrow> 'c blocks res" where
  "patch_var_dels extend_lifetimes r blocks =
     mapE (\<lambda>(offset, body).
         bindE (patch_body extend_lifetimes (dget_set (dead_internal r) offset) (dget_set (dead_escaping r) offset) body)
           (\<lambda>b. Inr (offset, b))) blocks"

definition insert_var_dels :: "bool \<Rightarrow> 'c blocks \<Rightarrow> 'c blocks res option" where
  "insert_var_dels extend_lifetimes blocks =
     bindO (vlt_deadmaps blocks) (\<lambda>r. Some (patch_var_dels extend_lifetimes r blocks))"

section \<open>Running statements\<close>

text \<open>
  The variables that are deleted (and not assigned since) and those that are alive, along a
  sequence of statements; and that no statement reads a deleted variable.
\<close>

definition deleted_after :: "'c stmt \<Rightarrow> string set \<Rightarrow> string set" where
  "deleted_after st D = (case st of Del v \<Rightarrow> insert v D | Assign e t \<Rightarrow> D - {t} | _ \<Rightarrow> D)"

definition alive_after :: "'c stmt \<Rightarrow> string set \<Rightarrow> string set" where
  "alive_after st A = (case st of Del v \<Rightarrow> A - {v} | Assign e t \<Rightarrow> insert t A | _ \<Rightarrow> A)"

fun no_use_after_del :: "string set \<Rightarrow> 'c stmt list \<Rightarrow> bool" where
  "no_use_after_del D [] = True"
| "no_use_after_del D (st # sts) =
     (set (reads st) \<inter> D = {} \<and> no_use_after_del (deleted_after st D) sts)"

definition deleted :: "string set \<Rightarrow> 'c stmt list \<Rightarrow> string set" where
  "deleted D sts = fold deleted_after sts D"

definition alive :: "string set \<Rightarrow> 'c stmt list \<Rightarrow> string set" where
  "alive A sts = fold alive_after sts A"

lemma run_append [simp]:
  "no_use_after_del D (xs @ ys) \<longleftrightarrow> no_use_after_del D xs \<and> no_use_after_del (deleted D xs) ys"
  "deleted D (xs @ ys) = deleted (deleted D xs) ys" "alive A (xs @ ys) = alive (alive A xs) ys"
  by (induction xs arbitrary: D) (auto simp: deleted_def alive_def)

lemma run_nil [simp]: "deleted D [] = D" "alive A [] = A"
  by (simp_all add: deleted_def alive_def)

lemma run_dels [simp]:
  "no_use_after_del D (dels vs)" "deleted D (dels vs) = D \<union> set vs" "alive A (dels vs) = A - set vs"
proof (induction vs arbitrary: D A)
  case Nil
  { case 1 then show ?case by (simp add: dels_def) }
  { case 2 then show ?case by (simp add: dels_def) }
  { case 3 then show ?case by (simp add: dels_def) }
next
  case (Cons v vs)
  { case 1 then show ?case using Cons.IH(1) by (simp add: dels_def reads_def list_vars_def) }
  { case 2 then show ?case using Cons.IH(2) by (auto simp: dels_def deleted_def deleted_after_def) }
  { case 3 then show ?case using Cons.IH(3) by (auto simp: dels_def alive_def alive_after_def) }
qed

lemma run_stmt:
  assumes "\<not> is_del st"
  shows "deleted D [st] = D - writes st" "alive A [st] = A \<union> writes st"
  using assms
  by (cases st; auto simp: deleted_def alive_def deleted_after_def alive_after_def writes_def is_del_def)+

lemma run_cons:
  assumes "\<not> is_del st"
  shows "deleted D (st # sts) = deleted (D - writes st) sts" "alive A (st # sts) = alive (A \<union> writes st) sts"
    "no_use_after_del D (st # sts) \<longleftrightarrow> set (reads st) \<inter> D = {} \<and> no_use_after_del (D - writes st) sts"
  using assms
  by (cases st; auto simp: deleted_def alive_def deleted_after_def alive_after_def writes_def is_del_def)+

lemma run_stmts:
  assumes "\<forall>st \<in> set sts. \<not> is_del st" and "D \<inter> exposed sts = {}"
  shows "no_use_after_del D sts \<and> deleted D sts = D - assigned sts \<and> alive A sts = A \<union> assigned sts"
  using assms
proof (induction sts rule: rev_induct)
  case (snoc st sts)
  then have "set (reads st) \<inter> (D - assigned sts) = {}" by (auto simp: exposed_append)
  with snoc run_stmt[of st] show ?case by (auto simp: exposed_append)
qed simp

section \<open>One block\<close>

lemma delete_points_snoc:
  "rev (delete_points (rev (xs @ [st])) internal) =
     (let dead = filter (\<lambda>v. v \<in> set internal) (remdups (list_vars st))
      in rev (delete_points (rev xs) (set_minus internal dead)) @ [(st, dead)])"
  by (simp add: Let_def)

lemma delete_points_stmts: "map fst (rev (delete_points (rev xs) internal)) = xs"
proof -
  have "map fst (delete_points ys internal) = ys" for ys internal
    by (induction ys arbitrary: internal) (auto simp: Let_def)
  then show ?thesis by (metis rev_map rev_rev_ident)
qed

lemma delete_points_vars:
  "(\<Union>p \<in> set (delete_points sts internal). set (snd p)) = set internal \<inter> mentioned sts"
  by (induction sts arbitrary: internal) (auto simp: Let_def mentioned_def)

definition kept :: "'c stmt \<Rightarrow> 'c stmt list" where
  "kept st = (if is_del st then [] else [st])"

lemma interleaved_ok:
  assumes "\<forall>st \<in> set xs. \<not> is_del st" and "D \<inter> exposed xs = {}"
  shows "no_use_after_del D (concat (map (\<lambda>(st, ds). kept st @ dels (rev (sort ds))) (rev (delete_points (rev xs) internal))))
    \<and> deleted D (concat (map (\<lambda>(st, ds). kept st @ dels (rev (sort ds))) (rev (delete_points (rev xs) internal))))
        = (D - assigned xs) \<union> (set internal \<inter> mentioned xs)
    \<and> alive A (concat (map (\<lambda>(st, ds). kept st @ dels (rev (sort ds))) (rev (delete_points (rev xs) internal))))
        = (A \<union> assigned xs) - (set internal \<inter> mentioned xs)"
  using assms
proof (induction xs arbitrary: internal rule: rev_induct)
  case Nil
  then show ?case by simp
next
  case (snoc st xs)
  define dead where "dead = filter (\<lambda>v. v \<in> set internal) (remdups (list_vars st))"
  define rest where "rest = set_minus internal dead"
  have dead: "set dead = set internal \<inter> set (list_vars st)" by (auto simp: dead_def)
  have rest: "set rest = set internal - set (list_vars st)" by (auto simp: rest_def dead)
  have pts: "rev (delete_points (rev (xs @ [st])) internal) = rev (delete_points (rev xs) rest) @ [(st, dead)]"
    by (simp only: delete_points_snoc Let_def dead_def rest_def)
  have k: "\<not> is_del st" "kept st = [st]" using snoc.prems(1) by (simp_all add: kept_def)
  have ex: "D \<inter> exposed xs = {}" "set (reads st) \<inter> (D - assigned xs) = {}"
    using snoc.prems(2) by (auto simp: exposed_append)
  have "set (reads st) \<inter> ((D - assigned xs) \<union> (set rest \<inter> mentioned xs)) = {}"
    using ex(2) by (auto simp: rest vars_of_stmt)
  then show ?case
    using snoc.IH[of rest] snoc.prems(1) ex(1) unfolding pts
    by (simp add: k(2) run_cons[OF k(1)] dead rest vars_of_stmt) blast
qed

lemma gathered_ok:
  assumes "\<forall>st \<in> set xs. \<not> is_del st" and "D \<inter> exposed xs = {}"
  shows "let q = concat (map (\<lambda>(st, ds). kept st) (rev (delete_points (rev xs) internal)))
             @ concat (map (\<lambda>(st, ds). dels (rev (sort ds))) (rev (delete_points (rev xs) internal)))
    in no_use_after_del D q \<and> deleted D q = (D - assigned xs) \<union> (set internal \<inter> mentioned xs)
      \<and> alive A q = (A \<union> assigned xs) - (set internal \<inter> mentioned xs)"
proof -
  let ?pts = "rev (delete_points (rev xs) internal)"
  have "concat (map (\<lambda>(st, ds). kept st) ?pts) = concat (map kept (map fst ?pts))"
    by (simp add: comp_def case_prod_unfold)
  also have "\<dots> = concat (map kept xs)" by (simp only: delete_points_stmts)
  also have "\<dots> = xs" using assms(1) by (induction xs) (auto simp: kept_def)
  finally have stmts: "concat (map (\<lambda>(st, ds). kept st) ?pts) = xs" .
  define vs where "vs = concat (map (\<lambda>(st, ds). rev (sort ds)) ?pts)"
  have deletions: "concat (map (\<lambda>(st, ds). dels (rev (sort ds))) ?pts) = dels vs"
    by (simp add: vs_def dels_def map_concat comp_def case_prod_unfold)
  have vs: "set vs = set internal \<inter> mentioned xs"
  proof -
    have "set (concat (map (\<lambda>(st, ds). rev (sort ds)) ?pts)) = (\<Union>p \<in> set (delete_points (rev xs) internal). set (snd p))"
      by (auto simp: case_prod_unfold)
    then show ?thesis by (simp only: vs_def delete_points_vars) (simp add: mentioned_def)
  qed
  show ?thesis unfolding Let_def stmts deletions using run_stmts[OF assms, of A] by (simp add: vs)
qed

text \<open>
  What a patched block does to the deleted and the alive variables: \<open>escaping\<close> go at its
  start, \<open>internal\<close> after their last statement.
\<close>

lemma patch_body_ok:
  assumes "verify_block body = Inr ()" and "\<forall>st \<in> set body. \<not> is_del st"
    and "(D \<union> set escaping) \<inter> exposed body = {}" and "set internal \<inter> set (list_vars (last body)) = {}"
  shows "\<exists>b. patch_body extend_lifetimes internal escaping body = Inr b \<and> no_use_after_del D b
    \<and> deleted D b = (D \<union> set escaping - assigned body) \<union> (set internal \<inter> mentioned body)
    \<and> alive A b = (A - set escaping \<union> assigned body) - (set internal \<inter> mentioned body)"
proof -
  define xs where "xs = butlast body"
  define t where "t = last body"
  from assms(1) have body: "body = xs @ [t]" and ne: "body \<noteq> []" and t: "is_terminator t"
    by (auto simp: verify_block_ok xs_def t_def)
  have wt: "writes t = {}" "\<not> is_del t"
    using t by (auto simp: is_terminator_def is_exit_def writes_def is_del_def split: stmt.splits)
  have it: "set internal \<inter> set (list_vars t) = {}" using assms(4) by (simp add: t_def)
  let ?D = "D \<union> set escaping" and ?A = "A - set escaping" and ?pts = "rev (delete_points (rev xs) internal)"
  define q where "q = (if extend_lifetimes then concat (map (\<lambda>(st, ds). kept st) ?pts) @ concat (map (\<lambda>(st, ds). dels (rev (sort ds))) ?pts)
      else concat (map (\<lambda>(st, ds). kept st @ dels (rev (sort ds))) ?pts))"
  have xs: "\<forall>st \<in> set xs. \<not> is_del st" "?D \<inter> exposed xs = {}" using assms(2,3) by (auto simp: body exposed_append)
  have q: "no_use_after_del ?D q" "deleted ?D q = (?D - assigned xs) \<union> (set internal \<inter> mentioned xs)"
    "alive ?A q = (?A \<union> assigned xs) - (set internal \<inter> mentioned xs)"
    using interleaved_ok[OF xs, of internal ?A] gathered_ok[OF xs, of internal ?A] by (auto simp: q_def Let_def)
  have "fold (\<lambda>v b. prepend (Del v) b) vs b = dels (rev vs) @ b" for vs and b :: "'a block"
    by (induction vs arbitrary: b) (auto simp: prepend_def dels_def)
  then have patched: "patch_body extend_lifetimes internal escaping body = Inr (dels (rev (sort escaping)) @ q @ [t])"
    using ne by (simp add: patch_body_def terminator_last q_def kept_def Let_def flip: xs_def t_def)
  have "set (reads t) \<inter> deleted ?D q = {}"
    using q(2) assms(3) it wt(1) by (auto simp: body exposed_append vars_of_stmt)
  then have "no_use_after_del D (dels (rev (sort escaping)) @ q @ [t])" using q(1) by simp
  moreover have "deleted D (dels (rev (sort escaping)) @ q @ [t]) = (?D - assigned body) \<union> (set internal \<inter> mentioned body)"
    using q(2) run_stmt(1)[OF wt(2)] it by (auto simp: body wt(1))
  moreover have "alive A (dels (rev (sort escaping)) @ q @ [t]) = (?A \<union> assigned body) - (set internal \<inter> mentioned body)"
    using q(3) run_stmt(2)[OF wt(2)] it by (auto simp: body wt(1))
  ultimately show ?thesis using patched by blast
qed

section \<open>All blocks\<close>

definition block_at :: "'c blocks \<Rightarrow> int \<Rightarrow> 'c block" where
  "block_at blocks b = (case map_of blocks b of None \<Rightarrow> [] | Some body \<Rightarrow> body)"

definition no_dels :: "'c blocks \<Rightarrow> bool" where
  "no_dels blocks \<longleftrightarrow> (\<forall>(k, body) \<in> set blocks. \<forall>st \<in> set body. \<not> is_del st)"

definition start_block :: "'c blocks \<Rightarrow> int" where
  "start_block blocks = Min (set (dkeys blocks))"

definition walk :: "(int \<times> int) set \<Rightarrow> int list \<Rightarrow> bool" where
  "walk E bs \<longleftrightarrow> successively (\<lambda>a b. (a, b) \<in> E) bs"

definition flow_edges :: "'c blocks \<Rightarrow> (int \<times> int) set" where
  "flow_edges blocks = {(a, b). (a, b) \<in> block_edges blocks \<and> (start_block blocks, a) \<in> (block_edges blocks)\<^sup>*}"

text \<open>The results of the analyses on well-formed blocks.\<close>

lemma analyses_ok:
  assumes ok: "blocks_ok blocks"
  defines "um \<equiv> usemap (compute_use_defs blocks)" and "dm \<equiv> defmap (compute_use_defs blocks)"
  shows "\<exists>cfg L. compute_cfg_from_blocks blocks = Some (Inr cfg) \<and> vlt_livemap blocks cfg = Some (Inr L)
    \<and> vlt_deadmaps blocks = Some (compute_dead_maps cfg blocks L dm)
    \<and> dead_ok cfg blocks L dm
    \<and> g_edges cfg = flow_edges blocks
    \<and> (\<forall>b \<in> set (dkeys blocks). vset L b = {v. live_in (g_edges cfg) um dm b v})"
proof -
  from block_graph_ok[OF ok] obtain cfg where
    cfg: "compute_cfg_from_blocks blocks = Some (Inr cfg)" "cfg_wf cfg"
      "set (g_nodes cfg) = (block_edges blocks)\<^sup>* `` {start_block blocks}"
      "g_edges cfg = {(a, b) \<in> block_edges blocks. a \<in> set (g_nodes cfg)}" "set (g_nodes cfg) \<subseteq> set (dkeys blocks)"
    unfolding start_block_def by blast
  have keys: "dkeys um = dkeys blocks" "dkeys dm = dkeys blocks"
    by (simp_all add: um_def dm_def compute_use_defs_def comp_def case_prod_unfold)
  then have "maps_ok cfg blocks um dm" using cfg by (simp add: maps_ok_def)
  from live_map_result[OF this] obtain L where
    L: "vlt_livemap blocks cfg = Some (Inr L)" "dkeys L = dkeys blocks"
      "\<forall>b \<in> set (dkeys blocks). vset L b = {v. live_in (g_edges cfg) um dm b v}"
    by (auto simp: vlt_livemap_def um_def dm_def)
  have "dead_ok cfg blocks L dm"
    using cfg L(2) keys ok by (auto simp: dead_ok_def blocks_ok_def verify_block_ok)
  moreover have "vlt_deadmaps blocks = Some (compute_dead_maps cfg blocks L dm)"
    by (simp add: vlt_deadmaps_def cfg(1) L(1) dm_def)
  moreover have "g_edges cfg = flow_edges blocks"
    using cfg(3,4) by (auto simp: flow_edges_def)
  ultimately show ?thesis using cfg(1) L by blast
qed

lemma live_seen: "live_in E um dm b v \<Longrightarrow> seen E um dm b v"
  by (cases rule: live_in.cases) (auto simp: seen_def)

lemma seen_step: "seen E um dm a v \<Longrightarrow> (a, b) \<in> E \<Longrightarrow> seen E um dm b v"
  unfolding seen_def by (meson rtrancl.rtrancl_into_rtrancl)

lemma patch_total:
  assumes "\<forall>(k, body) \<in> set blocks. body \<noteq> []"
  shows "\<exists>bs. patch_var_dels e r blocks = Inr bs \<and> dkeys bs = dkeys blocks
    \<and> (\<forall>k body. map_of blocks k = Some body \<longrightarrow>
         (\<exists>b. map_of bs k = Some b \<and> patch_body e (dget_set (dead_internal r) k) (dget_set (dead_escaping r) k) body = Inr b))"
  using assms
proof (induction blocks)
  case Nil
  then show ?case by (simp add: patch_var_dels_def)
next
  case (Cons kb blocks)
  obtain k body where kb: "kb = (k, body)" by (cases kb)
  then have "body \<noteq> []" using Cons.prems by simp
  then obtain b where b: "patch_body e (dget_set (dead_internal r) k) (dget_set (dead_escaping r) k) body = Inr b"
    by (simp add: patch_body_def terminator_last Let_def)
  from Cons obtain bs where "patch_var_dels e r blocks = Inr bs" "dkeys bs = dkeys blocks"
    "\<forall>k body. map_of blocks k = Some body \<longrightarrow>
         (\<exists>b. map_of bs k = Some b \<and> patch_body e (dget_set (dead_internal r) k) (dget_set (dead_escaping r) k) body = Inr b)"
    by auto
  with b show ?case by (auto simp: patch_var_dels_def kb)
qed

lemma insert_var_dels_result:
  assumes ok: "blocks_ok blocks"
  shows "\<exists>r. insert_var_dels e blocks = Some r \<and> (r = Inl RuntimeError \<or> (\<exists>bs. r = Inr bs))"
    and "\<forall>b. (start_block blocks, b) \<in> (block_edges blocks)\<^sup>* \<longrightarrow>
        (\<exists>x. (b, x) \<in> (block_edges blocks)\<^sup>* \<and> x \<notin> Domain (block_edges blocks)) \<Longrightarrow>
      \<exists>bs. insert_var_dels e blocks = Some (Inr bs)"
proof -
  let ?B = "block_edges blocks" and ?s = "start_block blocks"
  from analyses_ok[OF ok] obtain cfg :: "(int, unit) cfgraph" and L where
    A: "vlt_deadmaps blocks = Some (compute_dead_maps cfg blocks L (defmap (compute_use_defs blocks)))"
      "dead_ok cfg blocks L (defmap (compute_use_defs blocks))"
      "g_edges cfg = flow_edges blocks" by blast
  have "\<forall>(k, body) \<in> set blocks. body \<noteq> []" using A(2) by (simp add: dead_ok_def)
  note patch = patch_total[OF this, of e]
  show "\<exists>r. insert_var_dels e blocks = Some r \<and> (r = Inl RuntimeError \<or> (\<exists>bs. r = Inr bs))"
  proof -
    have "\<exists>bs. patch_var_dels e r blocks = Inr bs" for r using patch[of r] by blast
    then show ?thesis using dead_maps_result(1)[OF A(2)] by (auto simp: insert_var_dels_def A(1))
  qed
  assume exits: "\<forall>b. (?s, b) \<in> ?B\<^sup>* \<longrightarrow> (\<exists>x. (b, x) \<in> ?B\<^sup>* \<and> x \<notin> Domain ?B)"
  have "\<exists>x. (b, x) \<in> (g_edges cfg)\<^sup>* \<and> \<not> (\<exists>s. (x, s) \<in> g_edges cfg)" for b
  proof (cases "(?s, b) \<in> ?B\<^sup>*")
    case True
    with exits obtain x where x: "(b, x) \<in> ?B\<^sup>*" "x \<notin> Domain ?B" by blast
    from x(1) have "(b, x) \<in> (g_edges cfg)\<^sup>*"
    proof (induction rule: rtrancl_induct)
      case (step y z)
      then have "(?s, y) \<in> ?B\<^sup>*" using True by (meson rtrancl_trans)
      with step show ?case by (auto simp: A(3) flow_edges_def intro: rtrancl_into_rtrancl)
    qed simp
    with x(2) show ?thesis by (auto simp: A(3) flow_edges_def)
  next
    case False
    then show ?thesis by (intro exI[of _ b]) (auto simp: A(3) flow_edges_def)
  qed
  then obtain r where "compute_dead_maps cfg blocks L (defmap (compute_use_defs blocks)) = Inr r"
    using dead_maps_result(2)[OF A(2)] by blast
  with patch[of r] show "\<exists>bs. insert_var_dels e blocks = Some (Inr bs)" by (auto simp: insert_var_dels_def A(1))
qed

lemma mentioned_current:
  assumes "map_of blocks k = Some body"
    and "\<forall>b \<in> set (dkeys blocks). vset L b
      = {v. live_in E (usemap (compute_use_defs blocks)) (defmap (compute_use_defs blocks)) b v}"
  shows "exposed body \<subseteq> vset L k" "mentioned body \<subseteq> current L (defmap (compute_use_defs blocks)) k"
    "assigned body \<subseteq> current L (defmap (compute_use_defs blocks)) k"
    "vset (defmap (compute_use_defs blocks)) k = defined body"
proof -
  have k: "k \<in> set (dkeys blocks)" using assms(1) by (auto dest!: map_of_SomeD intro: rev_image_eqI)
  have ud: "vset (usemap (compute_use_defs blocks)) k = exposed body" "vset (defmap (compute_use_defs blocks)) k = defined body"
    using use_def_block_sets[of body] assms(1)
    by (simp_all add: compute_use_defs_def vset_def dget_set_def map_of_map_values)
  show live: "exposed body \<subseteq> vset L k" using assms(2) k ud(1) by (auto intro: live_use)
  show "mentioned body \<subseteq> current L (defmap (compute_use_defs blocks)) k"
    using mentioned_split[of body] live ud(2) by (auto simp: current_def)
  show "assigned body \<subseteq> current L (defmap (compute_use_defs blocks)) k"
    using defined_assigned(2)[of body] live ud(2) by (auto simp: current_def)
  show "vset (defmap (compute_use_defs blocks)) k = defined body" by (rule ud(2))
qed

text \<open>One block of a walk: what holds of the deleted and alive variables is passed on.\<close>

lemma patched_block_step:
  fixes blocks :: "'c blocks"
  assumes ok: "blocks_ok blocks" "no_dels blocks"
  defines "um \<equiv> usemap (compute_use_defs blocks)" and "dm \<equiv> defmap (compute_use_defs blocks)"
  assumes live: "\<forall>b \<in> set (dkeys blocks). vset L b = {v. live_in E um dm b v}"
    and k: "map_of blocks k = Some body"
    and I: "set internal = dies_in E blocks L dm k" and X: "set escaping = dies_at E blocks L dm k"
    and edges: "E \<subseteq> set (dkeys blocks) \<times> set (dkeys blocks)"
    and D: "D \<subseteq> {v. v \<notin> vset L k \<and> seen E um dm k v}"
    and A: "A \<subseteq> current L dm k \<union> dies_at E blocks L dm k"
  shows "\<exists>b. patch_body e internal escaping body = Inr b \<and> no_use_after_del D b
    \<and> (\<forall>s. (k, s) \<in> E \<longrightarrow> deleted D b \<subseteq> {v. v \<notin> vset L s \<and> seen E um dm s v})
    \<and> alive A b \<subseteq> leaves E blocks L dm k"
proof -
  have kin: "k \<in> set (dkeys blocks)" using k by (auto dest!: map_of_SomeD intro: rev_image_eqI)
  have kb: "(k, body) \<in> set blocks" using k by (rule map_of_SomeD)
  note cur = mentioned_current[OF k live[unfolded um_def dm_def], folded dm_def]
  have seen_cur: "seen E um dm b v" if "v \<in> current L dm b" "b \<in> set (dkeys blocks)" for b v
    using that live live_seen by (auto simp: current_def seen_def)
  have X_out: "v \<notin> current L dm k" "seen E um dm k v" if v: "v \<in> set escaping" for v
  proof -
    show "v \<notin> current L dm k" using v X by (simp add: dies_at_def)
    obtain p where p: "(p, k) \<in> E" "v \<in> leaves E blocks L dm p" using v X by (auto simp: dies_at_def)
    then have "seen E um dm p v" using seen_cur[of v p] edges by (auto simp: leaves_def)
    with p(1) show "seen E um dm k v" by (rule seen_step[rotated])
  qed
  have "verify_block body = Inr ()" "\<forall>st \<in> set body. \<not> is_del st"
    using ok kb by (auto simp: blocks_ok_def no_dels_def)
  moreover have "(D \<union> set escaping) \<inter> exposed body = {}" using D X_out(1) cur(1) by (auto simp: current_def)
  moreover have "set internal \<inter> set (list_vars (last body)) = {}"
    using I k by (auto simp: dies_in_def needed_def term_vars_def)
  ultimately obtain b where b: "patch_body e internal escaping body = Inr b" "no_use_after_del D b"
    "deleted D b = (D \<union> set escaping - assigned body) \<union> (set internal \<inter> mentioned body)"
    "alive A b = (A - set escaping \<union> assigned body) - (set internal \<inter> mentioned body)"
    using patch_body_ok[of body D escaping internal e A] by blast
  have "v \<notin> vset L s \<and> seen E um dm s v" if s: "(k, s) \<in> E" and v: "v \<in> deleted D b" for s v
  proof -
    consider "v \<in> D \<union> set escaping" "v \<notin> assigned body" | "v \<in> set internal" using v b(3) by auto
    then show ?thesis
    proof cases
      case 1
      have here: "v \<notin> vset L k" "seen E um dm k v" using 1(1) D X_out by (auto simp: current_def)
      have "v \<notin> vset dm k" using 1(2) cur(4) defined_assigned(1)[of body] by auto
      have "s \<in> set (dkeys blocks)" using s edges by auto
      then have "v \<notin> vset L s"
        using live here kin s \<open>v \<notin> vset dm k\<close> live_flow[of k s E um dm v] by auto
      with seen_step[OF here(2) s] show ?thesis by simp
    next
      case 2
      then have "v \<in> current L dm k" "v \<notin> vset L s" using I s by (auto simp: dies_in_def needed_def)
      with seen_cur[OF _ kin] seen_step[OF _ s] show ?thesis by blast
    qed
  qed
  moreover have "alive A b \<subseteq> leaves E blocks L dm k"
  proof
    fix v assume v: "v \<in> alive A b"
    then have c: "v \<in> current L dm k" using b(4) A X cur(3) by auto
    have "v \<notin> dies_in E blocks L dm k"
    proof
      assume dead: "v \<in> dies_in E blocks L dm k"
      have "v \<in> mentioned body"
      proof (cases "v \<in> vset dm k")
        case True
        then show ?thesis using cur(4) defined_assigned(1)[of body] by (auto simp: assigned_def mentioned_def vars_of_stmt)
      next
        case False
        with c live kin have "live_in E um dm k v" by (auto simp: current_def)
        then show ?thesis
        proof (cases rule: live_in.cases)
          case live_use
          moreover have "vset um k = exposed body"
            using use_def_block_sets[of body] k by (simp add: um_def compute_use_defs_def vset_def dget_set_def map_of_map_values)
          moreover have "exposed body \<subseteq> mentioned body"
            by (induction body) (auto simp: mentioned_def vars_of_stmt)
          ultimately show ?thesis by auto
        next
          case (live_flow s)
          then have "s \<in> set (dkeys blocks)" using edges by blast
          with live live_flow(2) have "v \<in> vset L s" by blast
          with live_flow dead show ?thesis by (auto simp: dies_in_def needed_def)
        qed
      qed
      with v b(4) I dead show False by auto
    qed
    with c show "v \<in> leaves E blocks L dm k" by (auto simp: leaves_def dies_in_def)
  qed
  ultimately show ?thesis using b by blast
qed

lemma filter_dels [simp]: "filter (\<lambda>st. \<not> is_del st) (dels vs) = []"
  by (induction vs) (auto simp: dels_def is_del_def)

lemma filter_points:
  fixes pts :: "('c stmt \<times> string list) list"
  assumes "\<forall>st \<in> set (map fst pts). \<not> is_del st"
  shows "filter (\<lambda>st. \<not> is_del st) (concat (map (\<lambda>(st, ds). kept st @ dels (f ds)) pts)) = map fst pts"
    and "filter (\<lambda>st. \<not> is_del st) (concat (map (\<lambda>(st, ds). kept st) pts)) = map fst pts"
    and "filter (\<lambda>st. \<not> is_del st) (concat (map (\<lambda>(st, ds). dels (f ds)) pts)) = ([] :: 'c stmt list)"
  using assms by (induction pts) (auto simp: kept_def)

lemma remove_dels_patched:
  assumes "patch_body e internal escaping body = Inr b" and "\<forall>st \<in> set body. \<not> is_del st"
  shows "filter (\<lambda>st. \<not> is_del st) b = body"
proof -
  define xs where "xs = butlast body"
  define t where "t = last body"
  from assms(1) have ne: "body \<noteq> []" by (auto simp: patch_body_def terminator_last split: if_splits)
  then have body: "body = xs @ [t]" by (simp add: xs_def t_def)
  let ?pts = "rev (delete_points (rev xs) internal)"
  have p: "filter (\<lambda>st. \<not> is_del st) (fold (\<lambda>v b. prepend (Del v) b) vs c) = filter (\<lambda>st. \<not> is_del st) c"
    for vs and c :: "'a block"
    by (induction vs arbitrary: c) (auto simp: prepend_def is_del_def)
  have stmts: "map fst ?pts = xs" by (rule delete_points_stmts)
  have nodel: "\<forall>st \<in> set (map fst ?pts). \<not> is_del st" "\<not> is_del t"
    using assms(2) unfolding stmts body by auto
  have b: "b = fold (\<lambda>v b. prepend (Del v) b) (sort escaping)
     ((if e then concat (map (\<lambda>(st, ds). kept st) ?pts) @ concat (map (\<lambda>(st, ds). dels (rev (sort ds))) ?pts)
       else concat (map (\<lambda>(st, ds). kept st @ dels (rev (sort ds))) ?pts)) @ [t])"
    using assms(1) ne unfolding patch_body_def terminator_last
    by (cases e) (auto simp: Let_def kept_def simp flip: xs_def t_def)
  show ?thesis
    unfolding b p using filter_points[OF nodel(1)] nodel(2) by (simp add: stmts flip: body)
qed

section \<open>The inserted deletions are right\<close>

definition along :: "'c blocks \<Rightarrow> int list \<Rightarrow> 'c stmt list" where
  "along blocks bs = concat (map (block_at blocks) bs)"

lemma walk_invariant:
  fixes blocks bs :: "'c blocks"
  assumes ok: "blocks_ok blocks" "no_dels blocks" and ins: "insert_var_dels e blocks = Some (Inr bs)"
    and w: "walk (block_edges blocks) ks" "ks \<noteq> []" "hd ks = start_block blocks"
  shows "no_use_after_del {} (along bs ks)
    \<and> (last ks \<notin> Domain (block_edges blocks) \<longrightarrow> alive {} (along bs ks) \<subseteq> set (list_vars (last (block_at blocks (last ks)))))"
proof -
  let ?B = "block_edges blocks" and ?E = "flow_edges blocks" and ?s = "start_block blocks"
  define um where "um = usemap (compute_use_defs blocks)"
  define dm where "dm = defmap (compute_use_defs blocks)"
  from analyses_ok[OF ok(1)] obtain cfg :: "(int, unit) cfgraph" and L where
    A: "vlt_deadmaps blocks = Some (compute_dead_maps cfg blocks L dm)" "dead_ok cfg blocks L dm" "g_edges cfg = ?E"
      "\<forall>b \<in> set (dkeys blocks). vset L b = {v. live_in (g_edges cfg) um dm b v}"
    unfolding um_def dm_def by blast
  note live = A(4)[unfolded A(3)]
  have edges: "?E \<subseteq> set (dkeys blocks) \<times> set (dkeys blocks)" using dead_ok_inside[OF A(2)] A(3) by auto
  from ins A(1) obtain r where r: "compute_dead_maps cfg blocks L dm = Inr r" "patch_var_dels e r blocks = Inr bs"
    by (cases "compute_dead_maps cfg blocks L dm") (auto simp: insert_var_dels_def)
  with dead_maps_result(1)[OF A(2)] A(3) have maps: "dead_maps_are ?E blocks L dm r" by auto
  have "\<forall>(k, body) \<in> set blocks. body \<noteq> []" using A(2) by (simp add: dead_ok_def)
  from patch_total[OF this, of e r] r(2) have patched: "\<exists>b. map_of bs k = Some b
      \<and> patch_body e (dget_set (dead_internal r) k) (dget_set (dead_escaping r) k) body = Inr b"
    if "map_of blocks k = Some body" for k body using that by auto
  have start: "?s \<in> set (dkeys blocks)" using ok(1) unfolding start_block_def blocks_ok_def by (intro Min_in) auto
  have step: "\<exists>b. map_of bs k = Some b \<and> no_use_after_del D b
      \<and> (\<forall>s. (k, s) \<in> ?E \<longrightarrow> deleted D b \<subseteq> {v. v \<notin> vset L s \<and> seen ?E um dm s v}) \<and> alive V b \<subseteq> leaves ?E blocks L dm k"
    if k: "k \<in> set (dkeys blocks)" and D: "D \<subseteq> {v. v \<notin> vset L k \<and> seen ?E um dm k v}"
      and V: "V \<subseteq> current L dm k \<union> dies_at ?E blocks L dm k" for k D V
  proof -
    from k obtain body where body: "map_of blocks k = Some body" by (cases "map_of blocks k") (auto simp: map_of_eq_None_iff)
    have "set (dget_set (dead_internal r) k) = dies_in ?E blocks L dm k"
      "set (dget_set (dead_escaping r) k) = dies_at ?E blocks L dm k"
      using maps k unfolding dead_maps_are_def vset_def by blast+
    from patched_block_step[OF ok live[unfolded um_def dm_def] body this[unfolded dm_def] edges
        D[unfolded um_def dm_def] V[unfolded dm_def], of e, folded um_def dm_def] patched[OF body]
    show ?thesis by fastforce
  qed
  have main: "no_use_after_del {} (along bs ks) \<and> (?s, last ks) \<in> ?B\<^sup>* \<and> last ks \<in> set (dkeys blocks)
      \<and> (\<forall>s. (last ks, s) \<in> ?E \<longrightarrow> deleted {} (along bs ks) \<subseteq> {v. v \<notin> vset L s \<and> seen ?E um dm s v})
      \<and> alive {} (along bs ks) \<subseteq> leaves ?E blocks L dm (last ks)"
    using w
  proof (induction ks rule: rev_induct)
    case (snoc k ks)
    show ?case
    proof (cases "ks = []")
      case True
      with snoc.prems have "k = ?s" by simp
      from step[of ?s "{}" "{}"] start obtain b where b: "map_of bs ?s = Some b" "no_use_after_del {} b"
        "\<forall>s. (?s, s) \<in> ?E \<longrightarrow> deleted {} b \<subseteq> {v. v \<notin> vset L s \<and> seen ?E um dm s v}"
        "alive {} b \<subseteq> leaves ?E blocks L dm ?s" by blast
      have "along bs (ks @ [k]) = b" by (simp add: along_def block_at_def b(1) True \<open>k = ?s\<close>)
      then show ?thesis using b start \<open>k = ?s\<close> by simp
    next
      case False
      with snoc.prems have prev: "walk ?B ks" "hd ks = ?s" "(last ks, k) \<in> ?B"
        by (auto simp: walk_def successively_append_iff)
      with snoc.IH False have IH: "no_use_after_del {} (along bs ks)" "(?s, last ks) \<in> ?B\<^sup>*" "last ks \<in> set (dkeys blocks)"
        "\<forall>s. (last ks, s) \<in> ?E \<longrightarrow> deleted {} (along bs ks) \<subseteq> {v. v \<notin> vset L s \<and> seen ?E um dm s v}"
        "alive {} (along bs ks) \<subseteq> leaves ?E blocks L dm (last ks)" by auto
      have e: "(last ks, k) \<in> ?E" using prev(3) IH(2) by (simp add: flow_edges_def)
      then have k: "k \<in> set (dkeys blocks)" using edges by auto
      have D: "deleted {} (along bs ks) \<subseteq> {v. v \<notin> vset L k \<and> seen ?E um dm k v}" using IH(4) e by blast
      have V: "alive {} (along bs ks) \<subseteq> current L dm k \<union> dies_at ?E blocks L dm k"
        using IH(5) e by (auto simp: dies_at_def)
      from step[OF k D V] obtain b where b: "map_of bs k = Some b" "no_use_after_del (deleted {} (along bs ks)) b"
        "\<forall>s. (k, s) \<in> ?E \<longrightarrow> deleted (deleted {} (along bs ks)) b \<subseteq> {v. v \<notin> vset L s \<and> seen ?E um dm s v}"
        "alive (alive {} (along bs ks)) b \<subseteq> leaves ?E blocks L dm k" by blast
      have "along bs (ks @ [k]) = along bs ks @ b" by (simp add: along_def block_at_def b(1))
      moreover have "(?s, k) \<in> ?B\<^sup>*" using IH(2) prev(3) by (rule rtrancl_into_rtrancl)
      ultimately show ?thesis using IH(1) b k by simp
    qed
  qed simp
  have "alive {} (along bs ks) \<subseteq> set (list_vars (last (block_at blocks (last ks))))" if exit: "last ks \<notin> Domain ?B"
  proof -
    have "leaves ?E blocks L dm (last ks) \<subseteq> term_vars blocks (last ks)"
      using exit by (auto simp: leaves_def needed_def flow_edges_def)
    also have "\<dots> \<subseteq> set (list_vars (last (block_at blocks (last ks))))"
      by (auto simp: term_vars_def block_at_def split: option.splits)
    finally show ?thesis using main by blast
  qed
  with main show ?thesis by blast
qed

lemma remove_dels_inserted:
  assumes "patch_var_dels e r blocks = Inr bs" and "no_dels blocks"
  shows "remove_dels bs = blocks"
  using assms
proof (induction blocks arbitrary: bs)
  case Nil
  then show ?case by (simp add: patch_var_dels_def remove_dels_def)
next
  case (Cons kb blocks)
  obtain k body where kb: "kb = (k, body)" by (cases kb)
  from Cons.prems(1) obtain b bs' where b: "patch_body e (dget_set (dead_internal r) k) (dget_set (dead_escaping r) k) body = Inr b"
    "patch_var_dels e r blocks = Inr bs'" "bs = (k, b) # bs'"
    by (auto simp: patch_var_dels_def kb res_simps)
  have "\<forall>st \<in> set body. \<not> is_del st" "no_dels blocks" using Cons.prems(2) by (auto simp: no_dels_def kb)
  with remove_dels_patched[OF b(1)] Cons.IH[OF b(2)] show ?case by (simp add: b(3) kb remove_dels_def)
qed

end
