(* ===== verification/Renaming.thy ===== *)
theory Renaming
  imports PostProc
begin

text \<open>
  New names and the renaming of variables: \<open>Scope\<close> with its table of redefinitions
  (\<open>core/ir.py\<close>) and \<open>replace_vars_stmt\<close>/\<open>replace_vars_inner\<close> (\<open>core/ir_utils.py\<close>) with the
  callback \<open>replace_var_callback\<close>. The callers replace one variable at a time, so the mapping
  is one pair of different names.
\<close>

section \<open>Scopes\<close>

record scope =
  localvars :: "string list"
  redefined :: "(string, nat) dict"
  var_redefinitions :: "(string, string list) dict"

definition scope_define :: "string \<Rightarrow> scope \<Rightarrow> scope res" where
  "scope_define name sc =
     (if name \<in> set (localvars sc) then Inl RedefinedError else Inr (sc\<lparr>localvars := localvars sc @ [name]\<rparr>))"

definition redefined_count :: "scope \<Rightarrow> string \<Rightarrow> nat" where
  "redefined_count sc name = (case map_of (redefined sc) name of None \<Rightarrow> 0 | Some ct \<Rightarrow> ct)"

definition version_name :: "string \<Rightarrow> nat \<Rightarrow> string" where
  "version_name name k = name @ ''.'' @ show_nat k"

text \<open>One try: the counter moves on; a name that is taken already asks for another try.\<close>

definition redefine_step :: "string \<Rightarrow> scope \<times> string option \<Rightarrow> (scope \<times> string option) res" where
  "redefine_step name = (\<lambda>(sc, r).
     let ct = redefined_count sc name;
         sc1 = sc\<lparr>redefined := dset name (ct + 1) (redefined sc)\<rparr>;
         newname = version_name name (ct + 1)
     in case scope_define newname sc1 of
          Inl e \<Rightarrow> if e = RedefinedError then Inr (sc1, None) else Inl e
        | Inr sc2 \<Rightarrow>
            Inr (sc2\<lparr>var_redefinitions := dset name
                   (set_add newname (case map_of (var_redefinitions sc2) name of None \<Rightarrow> [] | Some vs \<Rightarrow> vs))
                   (var_redefinitions sc2)\<rparr>, Some newname))"

definition redefine :: "string \<Rightarrow> scope \<Rightarrow> (string \<times> scope) res option" where
  "redefine name sc =
     (if name \<notin> set (localvars sc) then Some (bindE (scope_define name sc) (\<lambda>sc. Inr (name, sc)))
      else bindO (loopE (\<lambda>(sc, r). r = None) (\<lambda>st. Some (redefine_step name st)) (sc, None))
             (\<lambda>(sc, r). Some (Inr (the r, sc))))"

section \<open>Replacing a variable\<close>

definition replace_name :: "string \<Rightarrow> string \<Rightarrow> string \<Rightarrow> string" where
  "replace_name v w x = (if x = v then w else x)"

text \<open>\<open>visit_vars_inner\<close>: lists and tuples are searched, dictionaries are not.\<close>

fun replace_attr :: "string \<Rightarrow> string \<Rightarrow> 'c attr \<Rightarrow> 'c attr"
  and replace_inst :: "string \<Rightarrow> string \<Rightarrow> 'c inst \<Rightarrow> 'c inst" where
  "replace_attr v w (VarA x) = VarA (replace_name v w x)"
| "replace_attr v w (InstA i) = InstA (replace_inst v w i)"
| "replace_attr v w (SeqA as) = SeqA (map (replace_attr v w) as)"
| "replace_attr v w (DictA kvs) = DictA kvs"
| "replace_attr v w (IntA n) = IntA n"
| "replace_attr v w UndefinedA = UndefinedA"
| "replace_attr v w (OtherA c) = OtherA c"
| "replace_inst v w (Expr op kws) = Expr op (map (\<lambda>(k, a). (k, replace_attr v w a)) kws)"
| "replace_inst v w (Yield x index) = Yield (replace_name v w x) index"

definition replace_rhs :: "string \<Rightarrow> string \<Rightarrow> 'c rhs \<Rightarrow> 'c rhs" where
  "replace_rhs v w e =
     (case e of InstR i \<Rightarrow> InstR (replace_inst v w i) | VarR x \<Rightarrow> VarR (replace_name v w x) | _ \<Rightarrow> e)"

text \<open>\<open>visit_vars_stmt\<close>: the statements it does not list are left alone.\<close>

definition replace_stmt :: "string \<Rightarrow> string \<Rightarrow> 'c stmt \<Rightarrow> 'c stmt" where
  "replace_stmt v w st =
     (let f = replace_name v w
      in case st of
          Assign e target \<Rightarrow> Assign (replace_rhs v w e) (f target)
        | Return x \<Rightarrow> Return (f x)
        | Raise exc \<Rightarrow> Raise (map_option f exc)
        | Branch cond truebr falsebr \<Rightarrow> Branch (f cond) truebr falsebr
        | Jump target \<Rightarrow> Jump target
        | Del x \<Rightarrow> Del (f x)
        | DelAttr target a \<Rightarrow> DelAttr (f target) a
        | SetAttr target a x \<Rightarrow> SetAttr (f target) a (f x)
        | DelItem target index \<Rightarrow> DelItem (f target) (f index)
        | StaticSetItem target index index_var x \<Rightarrow> StaticSetItem (f target) index (f index_var) (f x)
        | SetItem target index x \<Rightarrow> SetItem (f target) (f index) (f x)
        | Print args vararg cs \<Rightarrow> Print (map f args) vararg cs
        | _ \<Rightarrow> st)"

section \<open>Names that are taken\<close>

lemma version_name_inject [simp]: "version_name name j = version_name name k \<longleftrightarrow> j = k"
  by (simp add: version_name_def)

text \<open>
  \<open>redefine\<close> of a variable of the scope ends, with a new version that was not in the scope and
  is in it then.
\<close>

lemma redefine_fresh:
  assumes "name \<in> set (localvars sc)"
  shows "\<exists>w sc'. redefine name sc = Some (Inr (w, sc')) \<and> w \<notin> set (localvars sc)
    \<and> set (localvars sc') = insert w (set (localvars sc)) \<and> (\<exists>k. w = version_name name k)"
proof -
  let ?P = "\<lambda>(sc' :: scope, r). case r of
      None \<Rightarrow> localvars sc' = localvars sc
    | Some w \<Rightarrow> w \<notin> set (localvars sc) \<and> localvars sc' = localvars sc @ [w] \<and> (\<exists>k. w = version_name name k)"
  let ?taken = "\<lambda>ct. {k. ct < k \<and> version_name name k \<in> set (localvars sc)}"
  let ?m = "\<lambda>(sc' :: scope, r :: string option). case r of Some _ \<Rightarrow> 0 | None \<Rightarrow> Suc (card (?taken (redefined_count sc' name)))"
  have fin: "finite (?taken ct)" for ct
  proof (rule finite_subset)
    show "?taken ct \<subseteq> version_name name -` set (localvars sc)" by auto
    show "finite (version_name name -` set (localvars sc))"
      by (rule finite_vimageI) (simp_all add: inj_on_def)
  qed
  have "\<exists>st. loopE (\<lambda>(sc, r). r = None) (\<lambda>st. Some (redefine_step name st)) (sc, None) = Some (Inr st)
    \<and> ?P st \<and> \<not> (case st of (sc, r) \<Rightarrow> r = None)"
  proof (rule loopE_rule[where P = ?P and r = "measure ?m"])
    fix st assume P: "?P st" and b: "case st of (sc, r) \<Rightarrow> r = None"
    then obtain sc' where st: "st = (sc', None)" and lv: "localvars sc' = localvars sc" by (cases st) auto
    let ?ct = "redefined_count sc' name"
    show "\<exists>s'. Some (redefine_step name st) = Some (Inr s') \<and> ?P s' \<and> (s', st) \<in> measure ?m"
    proof (cases "version_name name (Suc ?ct) \<in> set (localvars sc)")
      case True
      let ?sc = "sc'\<lparr>redefined := dset name (?ct + 1) (redefined sc')\<rparr>"
      have "redefine_step name st = Inr (?sc, None)"
        using True by (simp add: st redefine_step_def scope_define_def lv Let_def)
      moreover have "redefined_count ?sc name = Suc ?ct" by (simp add: redefined_count_def)
      moreover have "?taken (Suc ?ct) \<subset> ?taken ?ct" using True by auto
      then have "card (?taken (Suc ?ct)) < card (?taken ?ct)" by (rule psubset_card_mono[OF fin])
      ultimately show ?thesis by (intro exI[of _ "(?sc, None)"]) (simp add: st lv)
    next
      case False
      then show ?thesis by (auto simp: st redefine_step_def scope_define_def lv Let_def)
    qed
  qed simp_all
  then obtain sc' w where "loopE (\<lambda>(sc, r). r = None) (\<lambda>st. Some (redefine_step name st)) (sc, None) = Some (Inr (sc', Some w))"
    "w \<notin> set (localvars sc)" "localvars sc' = localvars sc @ [w]" "\<exists>k. w = version_name name k"
    by (auto split: option.splits)
  with assms show ?thesis by (simp add: redefine_def)
qed

section \<open>What a renamed statement reads\<close>

text \<open>
  Whether \<open>visit_vars_stmt\<close> reaches every variable the statement reads. It does not reach those
  of a dictionary, and none of \<open>StoreMap\<close>, \<open>EnterWith\<close>, \<open>TryRaise\<close> and the raises with
  arguments.
\<close>

fun attr_reached :: "'c attr \<Rightarrow> bool" and inst_reached :: "'c inst \<Rightarrow> bool" where
  "attr_reached (InstA i) \<longleftrightarrow> inst_reached i"
| "attr_reached (SeqA as) \<longleftrightarrow> (\<forall>a \<in> set as. attr_reached a)"
| "attr_reached (DictA kvs) \<longleftrightarrow> rec_list_vars (DictA kvs) = []"
| "attr_reached _ \<longleftrightarrow> True"
| "inst_reached (Expr op kws) \<longleftrightarrow> (\<forall>(k, a) \<in> set kws. attr_reached a)"
| "inst_reached (Yield x index) \<longleftrightarrow> True"

definition reads_reached :: "'c stmt \<Rightarrow> bool" where
  "reads_reached st =
     (case st of
        Assign (InstR i) target \<Rightarrow> inst_reached i
      | StoreMap _ _ _ \<Rightarrow> False
      | EnterWith _ _ _ \<Rightarrow> False
      | TryRaise exc \<Rightarrow> exc = None
      | StaticRaise cls args \<Rightarrow> args_vars args = []
      | DynamicRaise cls args \<Rightarrow> args_vars args = []
      | StaticTryRaise cls args \<Rightarrow> args_vars args = []
      | DynamicTryRaise cls args \<Rightarrow> args_vars args = []
      | StaticSetItem target index index_var x \<Rightarrow> rec_list_vars index = []
      | Print args vararg cs \<Rightarrow> vararg = None \<and> rec_list_vars (DictA cs) = []
      | _ \<Rightarrow> True)"

lemma replace_attr_vars:
  fixes a :: "'c attr" and i :: "'c inst"
  shows "attr_reached a \<Longrightarrow> rec_list_vars (replace_attr v w a) = map (replace_name v w) (rec_list_vars a)"
    and "inst_reached i \<Longrightarrow> inst_vars (replace_inst v w i) = map (replace_name v w) (inst_vars i)"
proof (induction a and i)
  case (SeqA as)
  then show ?case by (auto simp: map_concat comp_def intro!: arg_cong[where f = concat])
next
  case (DictA kvs)
  then show ?case by (simp del: rec_list_vars.simps add: rec_list_vars.simps(4)[symmetric])
next
  case (Expr op kws)
  have "map (\<lambda>kv. rec_list_vars (snd kv)) (map (\<lambda>(k, a). (k, replace_attr v w a)) kws)
      = map (\<lambda>kv. map (replace_name v w) (rec_list_vars (snd kv))) kws"
    using Expr by (auto simp: snds.simps)
  then have "concat (map (\<lambda>kv. rec_list_vars (snd kv)) (map (\<lambda>(k, a). (k, replace_attr v w a)) kws))
      = concat (map (\<lambda>kv. map (replace_name v w) (rec_list_vars (snd kv))) kws)" by (rule arg_cong)
  then show ?case unfolding map_map comp_def by (simp add: map_concat comp_def del: map_eq_conv)
qed simp_all


lemma map_replace_outside: "v \<notin> set xs \<Longrightarrow> map (replace_name v w) xs = xs"
  by (induction xs) (auto simp: replace_name_def)

lemma reads_replace_stmt:
  assumes "reads_reached st" and "\<And>e t. st \<noteq> Assign e t"
  shows "reads (replace_stmt v w st) = map (replace_name v w) (reads st)"
proof (cases st)
  case (Print args vararg cs)
  with assms(1) show ?thesis
    by (simp add: reads_reached_def reads_def list_vars_def replace_stmt_def opt_vars_def Let_def del: rec_list_vars.simps)
next
  case (StaticSetItem target index index_var x)
  with assms(1) show ?thesis
    by (simp add: reads_reached_def reads_def list_vars_def replace_stmt_def Let_def)
qed (use assms in \<open>auto simp: reads_reached_def reads_def list_vars_def replace_stmt_def opt_vars_def Let_def
      split: option.splits\<close>)

lemma reads_replace_rhs:
  assumes "reads_reached (Assign e t)"
  shows "rhs_vars (replace_rhs v w e) = map (replace_name v w) (rhs_vars e)"
  using assms by (cases e) (simp_all add: reads_reached_def rhs_vars_def replace_rhs_def replace_attr_vars(2))

text \<open>A statement that does not list the variable is not changed.\<close>

lemma replace_attr_outside:
  fixes a :: "'c attr" and i :: "'c inst"
  shows "v \<notin> set (rec_list_vars a) \<Longrightarrow> replace_attr v w a = a"
    and "v \<notin> set (inst_vars i) \<Longrightarrow> replace_inst v w i = i"
proof (induction a and i)
  case (SeqA as)
  then show ?case by (auto intro!: map_idI)
next
  case (Expr op kws)
  then show ?case by (auto simp: snds.simps intro!: map_idI)
qed (auto simp: replace_name_def)

end
