(* ===== verification/DomIntervals.thy ===== *)
theory DomIntervals
  imports DomSets
begin

text \<open>
  The two tables that the SSA construction (\<open>core/ssa.py\<close>) derives from the dominators: the
  intervals that answer "does \<open>a\<close> dominate \<open>b\<close>?" with two comparisons
  (\<open>_dominator_tree_intervals\<close>), and the iterated dominance frontiers
  (\<open>_iterated_domfronts\<close>).
\<close>

section \<open>Iterated dominance frontiers\<close>

text \<open>One entry of a sweep: the union of the frontiers of its members is added.\<close>

definition join_frontier ::
  "'n \<Rightarrow> ('n, 'n list) dict \<times> bool \<Rightarrow> (('n, 'n list) dict \<times> bool) res" where
  "join_frontier k = (\<lambda>(domfronts, keep_going).
     bindE (dget domfronts k) (\<lambda>vs.
     bindE (mapE (dget domfronts) vs) (\<lambda>sets.
       let inner = set_update [] (concat sets)
       in Inr (if set inner \<subseteq> set vs then (domfronts, keep_going)
               else (dset k (set_update vs inner) domfronts, True)))))"

definition iterated_domfronts :: "('n, 'n list) dict \<Rightarrow> ('n, 'n list) dict res option" where
  "iterated_domfronts domfronts =
     bindO (loopE snd (\<lambda>(df, keep_going). Some (foldE join_frontier (dkeys df) (df, False))) (domfronts, True))
       (\<lambda>(df, keep_going). Some (Inr df))"

definition front :: "('n, 'n list) dict \<Rightarrow> ('n \<times> 'n) set" where
  "front df = {(v, u). in_frontier df v u}"

definition fronts_in :: "'n set \<Rightarrow> ('n, 'n list) dict \<Rightarrow> bool" where
  "fronts_in K df \<longleftrightarrow> set (dkeys df) = K \<and> front df \<subseteq> K \<times> K"

lemma front_get:
  assumes "fronts_in K df" and "k \<in> K"
  obtains vs where "dget df k = Inr vs" and "set vs = front df `` {k}"
proof -
  from assms obtain vs where "map_of df k = Some vs"
    unfolding fronts_in_def by (metis map_of_outside option.exhaust map_of_eq_None_iff list.set_map)
  then show thesis by (intro that[of vs]) (auto simp: dget_def front_def in_frontier_def)
qed

lemma front_dset: "front (dset k vs df) = {(v, u) \<in> front df. v \<noteq> k} \<union> {k} \<times> set vs"
  by (auto simp: front_def in_frontier_def split: if_splits)

lemma join_frontier_ok:
  assumes df: "fronts_in K df" and k: "k \<in> K"
  shows "\<exists>df' b'. join_frontier k (df, b) = Inr (df', b') \<and> fronts_in K df' \<and> dkeys df' = dkeys df
    \<and> front df \<subseteq> front df' \<and> front df' \<subseteq> (front df)\<^sup>+
    \<and> (if \<forall>m u. (k, m) \<in> front df \<longrightarrow> (m, u) \<in> front df \<longrightarrow> (k, u) \<in> front df
       then df' = df \<and> b' = b else b' \<and> front df' \<noteq> front df)"
proof -
  from front_get[OF df k] obtain vs where vs: "dget df k = Inr vs" "set vs = front df `` {k}" .
  have "\<exists>s. dget df v = Inr s \<and> set s = front df `` {v}" if "v \<in> set vs" for v
  proof -
    have "v \<in> K" using df that vs(2) by (auto simp: fronts_in_def)
    from front_get[OF df this] show ?thesis by metis
  qed
  then obtain f where f: "\<And>v. v \<in> set vs \<Longrightarrow> dget df v = Inr (f v)" "\<And>v. v \<in> set vs \<Longrightarrow> set (f v) = front df `` {v}"
    by metis
  have sets: "mapE (dget df) vs = Inr (map f vs)" using f(1) by (rule mapE_total)
  let ?inner = "set_update [] (concat (map f vs))"
  have inner: "set ?inner = front df `` (front df `` {k})"
    using f(2) vs(2) by auto
  show ?thesis
  proof (cases "set ?inner \<subseteq> set vs")
    case True
    then have "join_frontier k (df, b) = Inr (df, b)" by (simp add: join_frontier_def vs(1) sets Let_def)
    moreover have "(k, m) \<in> front df \<Longrightarrow> (m, u) \<in> front df \<Longrightarrow> (k, u) \<in> front df" for m u
      using True unfolding inner vs(2) by blast
    ultimately show ?thesis using df by auto
  next
    case False
    let ?df = "dset k (set_update vs ?inner) df"
    have "join_frontier k (df, b) = Inr (?df, True)"
      using False by (simp add: join_frontier_def vs(1) sets Let_def del: set_set_update)
    moreover have fr: "front ?df = front df \<union> {k} \<times> set ?inner"
      using vs(2) by (auto simp: front_dset)
    moreover have "set ?inner \<subseteq> (front df)\<^sup>+ `` {k}" unfolding inner by (auto intro: trancl_into_trancl)
    moreover have "set ?inner \<subseteq> K" using df unfolding inner fronts_in_def by auto
    moreover have "dkeys ?df = dkeys df" using df k by (intro dset_keys_present) (simp add: fronts_in_def)
    moreover have "\<not> (\<forall>m u. (k, m) \<in> front df \<longrightarrow> (m, u) \<in> front df \<longrightarrow> (k, u) \<in> front df)"
      using False unfolding inner vs(2) by blast
    moreover have "front ?df \<noteq> front df" using False unfolding fr vs(2) by blast
    moreover have "fronts_in K ?df"
      using df k \<open>set ?inner \<subseteq> K\<close> unfolding fronts_in_def fr \<open>dkeys ?df = dkeys df\<close> by auto
    ultimately show ?thesis by (intro exI[of _ ?df] exI[of _ True]) auto
  qed
qed

lemma trancl_between: "r \<subseteq> s \<Longrightarrow> s \<subseteq> r\<^sup>+ \<Longrightarrow> s\<^sup>+ = r\<^sup>+"
  using trancl_mono[of _ r s] trancl_mono[of _ s "r\<^sup>+"] by (auto simp: trancl_id[OF trans_trancl])

lemma join_sweep_ok:
  assumes "fronts_in K df" and "set ks \<subseteq> K"
  shows "\<exists>df' b'. foldE join_frontier ks (df, b) = Inr (df', b') \<and> fronts_in K df' \<and> dkeys df' = dkeys df
    \<and> front df \<subseteq> front df' \<and> front df' \<subseteq> (front df)\<^sup>+
    \<and> (b' \<longrightarrow> \<not> b \<longrightarrow> front df' \<noteq> front df)
    \<and> (\<not> b' \<longrightarrow> df' = df \<and> (\<forall>k \<in> set ks. \<forall>m u. (k, m) \<in> front df \<longrightarrow> (m, u) \<in> front df \<longrightarrow> (k, u) \<in> front df))"
  using assms
proof (induction ks arbitrary: df b)
  case (Cons k ks)
  let ?closed = "\<forall>m u. (k, m) \<in> front df \<longrightarrow> (m, u) \<in> front df \<longrightarrow> (k, u) \<in> front df"
  from join_frontier_ok[OF Cons.prems(1), of k b] Cons.prems(2) obtain df1 b1 where
    one: "join_frontier k (df, b) = Inr (df1, b1)" "fronts_in K df1" "dkeys df1 = dkeys df"
      "front df \<subseteq> front df1" "front df1 \<subseteq> (front df)\<^sup>+"
      "if ?closed then df1 = df \<and> b1 = b else b1 \<and> front df1 \<noteq> front df" by auto
  from Cons.IH[OF one(2), of b1] Cons.prems(2) obtain df2 b2 where
    two: "foldE join_frontier ks (df1, b1) = Inr (df2, b2)" "fronts_in K df2" "dkeys df2 = dkeys df1"
      "front df1 \<subseteq> front df2" "front df2 \<subseteq> (front df1)\<^sup>+"
      "b2 \<longrightarrow> \<not> b1 \<longrightarrow> front df2 \<noteq> front df1"
      "\<not> b2 \<longrightarrow> df2 = df1 \<and> (\<forall>k \<in> set ks. \<forall>m u. (k, m) \<in> front df1 \<longrightarrow> (m, u) \<in> front df1 \<longrightarrow> (k, u) \<in> front df1)"
    by auto
  have "foldE join_frontier (k # ks) (df, b) = Inr (df2, b2)" using one(1) two(1) by simp
  moreover have "front df2 \<subseteq> (front df)\<^sup>+" using two(5) trancl_between[OF one(4,5)] by simp
  moreover have "b1 = b \<and> df1 = df \<and> ?closed \<or> b1 \<and> front df1 \<noteq> front df" using one(6) by (auto split: if_splits)
  moreover have "b1 \<longrightarrow> b2"
    using two(1) by (elim foldE_invariant[where P = "\<lambda>s. b1 \<longrightarrow> snd s", of _ _ "(df1, b1)" "(df2, b2)", simplified])
      (auto simp: join_frontier_def res_simps Let_def split: if_splits)
  ultimately show ?case using one two by (intro exI[of _ df2] exI[of _ b2]) auto
qed auto

lemma iterated_domfronts_result:
  assumes "fronts_in K df"
  shows "\<exists>df'. iterated_domfronts df = Some (Inr df') \<and> fronts_in K df' \<and> front df' = (front df)\<^sup>+"
proof -
  have finK: "finite K" using assms by (auto simp: fronts_in_def)
  let ?P = "\<lambda>(df', b). fronts_in K df' \<and> front df \<subseteq> front df' \<and> front df' \<subseteq> (front df)\<^sup>+
    \<and> (\<not> b \<longrightarrow> trans (front df'))"
  let ?m = "\<lambda>(df' :: ('a, 'a list) dict, b). if b then Suc (card (K \<times> K - front df')) else 0"
  have "\<exists>st. loopE snd (\<lambda>(df, keep_going). Some (foldE join_frontier (dkeys df) (df, False))) (df, True) = Some (Inr st)
    \<and> ?P st \<and> \<not> snd st"
  proof (rule loopE_rule[where P = ?P and r = "measure ?m"])
    fix st assume P: "?P st" and b: "snd st"
    obtain df1 where st: "st = (df1, True)" using b by (cases st) auto
    with P have df1: "fronts_in K df1" "front df \<subseteq> front df1" "front df1 \<subseteq> (front df)\<^sup>+" by auto
    have keys: "set (dkeys df1) = K" using df1(1) by (simp add: fronts_in_def)
    from join_sweep_ok[OF df1(1) eq_refl[OF keys], of False] obtain df2 b2 where
      sweep: "foldE join_frontier (dkeys df1) (df1, False) = Inr (df2, b2)" "fronts_in K df2"
        "front df1 \<subseteq> front df2" "front df2 \<subseteq> (front df1)\<^sup>+" "b2 \<longrightarrow> \<not> False \<longrightarrow> front df2 \<noteq> front df1"
        "\<not> b2 \<longrightarrow> df2 = df1 \<and> (\<forall>k \<in> set (dkeys df1). \<forall>m u. (k, m) \<in> front df1 \<longrightarrow> (m, u) \<in> front df1 \<longrightarrow> (k, u) \<in> front df1)"
      by blast
    have "trans (front df2)" if "\<not> b2"
    proof (rule transI)
      fix k m u assume "(k, m) \<in> front df2" "(m, u) \<in> front df2"
      moreover have "k \<in> K" using \<open>(k, m) \<in> front df2\<close> sweep(2) by (auto simp: fronts_in_def)
      ultimately show "(k, u) \<in> front df2" using sweep(6) that unfolding keys by blast
    qed
    moreover have "front df2 \<subseteq> (front df)\<^sup>+" using sweep(4) trancl_between[OF df1(2,3)] by simp
    moreover have "?m (df2, b2) < ?m st"
    proof (cases b2)
      case True
      have "K \<times> K - front df2 \<subset> K \<times> K - front df1"
        using sweep(2,3) sweep(5) True by (auto simp: fronts_in_def)
      then have "card (K \<times> K - front df2) < card (K \<times> K - front df1)"
        by (rule psubset_card_mono[rotated]) (simp add: finK)
      then show ?thesis by (simp add: st True)
    qed (simp add: st)
    ultimately show "\<exists>s'. (case st of (df, keep_going) \<Rightarrow> Some (foldE join_frontier (dkeys df) (df, False))) = Some (Inr s')
        \<and> ?P s' \<and> (s', st) \<in> measure ?m"
      using sweep(1,2,3) df1(2) by (intro exI[of _ "(df2, b2)"]) (auto simp: st)
  qed (use assms in auto)
  then obtain df' where run: "loopE snd (\<lambda>(df, keep_going). Some (foldE join_frontier (dkeys df) (df, False))) (df, True) = Some (Inr (df', False))"
    and df': "fronts_in K df'" "front df \<subseteq> front df'" "front df' \<subseteq> (front df)\<^sup>+" "trans (front df')" by auto
  have "front df' = (front df)\<^sup>+" using trancl_between[OF df'(2,3)] df'(4) by (simp add: trancl_id)
  with run df'(1) show ?thesis by (simp add: iterated_domfronts_def)
qed

section \<open>Intervals of the dominator tree\<close>

definition tree_children :: "('n option, 'n list) dict \<Rightarrow> 'n \<Rightarrow> 'n list" where
  "tree_children domtree node = (case map_of domtree (Some node) of None \<Rightarrow> [] | Some cs \<Rightarrow> cs)"

text \<open>The stack has its top first; an item is a node with the flag \<open>done\<close>.\<close>

type_synonym 'n interval_state = "('n \<times> bool) list \<times> ('n, nat) dict \<times> ('n, nat) dict \<times> nat"

definition interval_step :: "('n option, 'n list) dict \<Rightarrow> 'n interval_state \<Rightarrow> 'n interval_state" where
  "interval_step domtree = (\<lambda>(stack, enter, leave, counter).
     case stack of
       [] \<Rightarrow> (stack, enter, leave, counter)
     | (node, seen_all) # rest \<Rightarrow>
         if seen_all then (rest, enter, dset node counter leave, counter)
         else (rev (map (\<lambda>child. (child, False)) (tree_children domtree node)) @ (node, True) # rest,
               dset node counter enter, leave, counter + 1))"

definition dominator_tree_intervals ::
  "('n option, 'n list) dict \<Rightarrow> 'n \<Rightarrow> (('n, nat) dict \<times> ('n, nat) dict) option" where
  "dominator_tree_intervals domtree entry =
     map_option (\<lambda>(stack, enter, leave, counter). (enter, leave))
       (while_option (\<lambda>st. fst st \<noteq> []) (interval_step domtree) ([(entry, False)], [], [], 0))"

definition interval_dominates :: "('n, nat) dict \<Rightarrow> ('n, nat) dict \<Rightarrow> 'n \<Rightarrow> 'n \<Rightarrow> bool" where
  "interval_dominates enter leave a b =
     (the (map_of enter a) \<le> the (map_of enter b) \<and> the (map_of enter b) < the (map_of leave a))"

lemma map_of_setdefault:
  "map_of (dict_setdefault v k d) j = (if j = k \<and> map_of d k = None then Some v else map_of d j)"
  by (auto simp: dict_setdefault_def map_of_eq_None_iff)

text \<open>The children of a node in the tree.\<close>

lemma tree_children_fold:
  assumes "distinct (dkeys idom)" and "\<And>u v. (u, v) \<in> set idom \<Longrightarrow> v \<noteq> None"
  shows "set (tree_children (find_dominator_tree idom) n) = {u. map_of idom u = Some (Some n) \<and> u \<noteq> n}
    \<and> distinct (tree_children (find_dominator_tree idom) n)"
proof -
  define f where "f = (\<lambda>(u :: 'a, v) t. let t' = dict_setdefault [] (Some u) t
       in if Some u \<noteq> v then dset v (set_add u (case map_of t' v of None \<Rightarrow> [] | Some us \<Rightarrow> us)) t' else t')"
  have ch: "tree_children (f (u, Some w) t) n
      = (if n = w \<and> u \<noteq> w then set_add u (tree_children t n) else tree_children t n)" for u w t
    by (auto simp: f_def Let_def tree_children_def map_of_setdefault split: option.splits)
  have "set (tree_children (fold f ds t) n) = set (tree_children t n) \<union> {u. (u, Some n) \<in> set ds \<and> u \<noteq> n}
      \<and> (distinct (tree_children t n) \<longrightarrow> distinct (tree_children (fold f ds t) n))"
    if "\<forall>(u, v) \<in> set ds. v \<noteq> None" for ds t
    using that
  proof (induction ds arbitrary: t)
    case (Cons d ds)
    obtain u w where d: "d = (u, Some w)" using Cons.prems by (cases d) auto
    have IH: "set (tree_children (fold f ds (f d t)) n) = set (tree_children (f d t) n) \<union> {u. (u, Some n) \<in> set ds \<and> u \<noteq> n}
      \<and> (distinct (tree_children (f d t) n) \<longrightarrow> distinct (tree_children (fold f ds (f d t)) n))"
      using Cons.IH[of "f d t"] Cons.prems by simp
    then have "set (tree_children (fold f (d # ds) t) n) = set (tree_children t n) \<union> {u. (u, Some n) \<in> set (d # ds) \<and> u \<noteq> n}"
      by (auto simp: d ch split: if_splits)
    then show ?case using IH by (simp add: d ch split: if_splits)
  qed simp
  from this[of idom "[]"] assms show ?thesis
    by (auto simp: find_dominator_tree_def f_def[symmetric] tree_children_def)
qed


text \<open>
  What the traversal needs of dominance: the nodes under a node are the node and what is under
  its children, and the nodes above a node form a chain.
\<close>

definition dom_tree :: "('n \<Rightarrow> 'n \<Rightarrow> bool) \<Rightarrow> 'n set \<Rightarrow> ('n \<Rightarrow> 'n list) \<Rightarrow> 'n \<Rightarrow> bool" where
  "dom_tree D R ch entry \<longleftrightarrow> finite R \<and> entry \<in> R \<and> (\<forall>n \<in> R. D n n \<and> D entry n)
     \<and> (\<forall>a b. D a b \<longrightarrow> a \<in> R \<and> b \<in> R) \<and> (\<forall>a b c. D a b \<longrightarrow> D b c \<longrightarrow> D a c)
     \<and> (\<forall>a b. D a b \<longrightarrow> D b a \<longrightarrow> a = b)
     \<and> (\<forall>n. distinct (ch n))
     \<and> (\<forall>n c. c \<in> set (ch n) \<longrightarrow> c \<noteq> n \<and> D n c \<and> (\<forall>a. D a c \<longrightarrow> a = c \<or> D a n))
     \<and> (\<forall>n x. D n x \<longrightarrow> x = n \<or> (\<exists>c \<in> set (ch n). D c x))"

lemma dom_treeD:
  assumes "dom_tree D R ch entry"
  shows "finite R" "entry \<in> R" "n \<in> R \<Longrightarrow> D n n" "n \<in> R \<Longrightarrow> D entry n"
    "D a b \<Longrightarrow> a \<in> R" "D a b \<Longrightarrow> b \<in> R" "D a b \<Longrightarrow> D b c \<Longrightarrow> D a c" "D a b \<Longrightarrow> D b a \<Longrightarrow> a = b"
    "distinct (ch n)" "c \<in> set (ch n) \<Longrightarrow> c \<noteq> n" "c \<in> set (ch n) \<Longrightarrow> D n c"
    "c \<in> set (ch n) \<Longrightarrow> D a c \<Longrightarrow> a = c \<or> D a n" "D n x \<Longrightarrow> x = n \<or> (\<exists>c \<in> set (ch n). D c x)"
  using assms unfolding dom_tree_def by blast+

text \<open>
  Below the items \<open>S\<close> on the stack: an open node is above everything on top of it, and what it
  dominates has been entered or is waiting on top of it.
\<close>

fun layered :: "('n \<Rightarrow> 'n \<Rightarrow> bool) \<Rightarrow> 'n set \<Rightarrow> ('n \<times> bool) set \<Rightarrow> ('n \<times> bool) list \<Rightarrow> bool" where
  "layered D E S [] \<longleftrightarrow> True"
| "layered D E S ((a, flag) # ys) \<longleftrightarrow>
     (flag \<longrightarrow> (\<forall>y \<in> fst ` S. D a y) \<and> (\<forall>x. D a x \<longrightarrow> x \<in> E \<or> (\<exists>p. (p, False) \<in> S \<and> D p x)))
     \<and> layered D E (insert (a, flag) S) ys"

lemma layered_mono:
  assumes "layered D E S ys" and "\<And>a b c. D a b \<Longrightarrow> D b c \<Longrightarrow> D a c"
    and "\<And>y. y \<in> fst ` S' \<Longrightarrow> \<exists>z \<in> fst ` S. z = y \<or> D z y" and "E \<subseteq> E'"
    and "\<And>p x. (p, False) \<in> S \<Longrightarrow> D p x \<Longrightarrow> x \<in> E' \<or> (\<exists>q. (q, False) \<in> S' \<and> D q x)"
  shows "layered D E' S' ys"
  using assms(1,3-)
proof (induction ys arbitrary: S S')
  case (Cons y ys)
  obtain a flag where y: "y = (a, flag)" by (cases y)
  have "layered D E' (insert (a, flag) S') ys"
  proof (rule Cons.IH)
    show "layered D E (insert (a, flag) S) ys" using Cons.prems(1) by (simp add: y)
    show "\<exists>z \<in> fst ` insert (a, flag) S. z = w \<or> D z w" if "w \<in> fst ` insert (a, flag) S'" for w
      using that Cons.prems(2)[of w] by auto
    show "x \<in> E' \<or> (\<exists>q. (q, False) \<in> insert (a, flag) S' \<and> D q x)"
      if "(p, False) \<in> insert (a, flag) S" "D p x" for p x
      using that Cons.prems(4)[of p x] by auto
  qed (use Cons.prems in auto)
  moreover have "(\<forall>w \<in> fst ` S'. D a w) \<and> (\<forall>x. D a x \<longrightarrow> x \<in> E' \<or> (\<exists>p. (p, False) \<in> S' \<and> D p x))" if flag
  proof -
    have old: "\<forall>w \<in> fst ` S. D a w" "\<And>x. D a x \<Longrightarrow> x \<in> E \<or> (\<exists>p. (p, False) \<in> S \<and> D p x)"
      using Cons.prems(1) that unfolding y by simp_all
    have "D a w" if "w \<in> fst ` S'" for w using Cons.prems(2)[OF that] old(1) assms(2) by blast
    then show ?thesis using old(2) Cons.prems(3,4) by blast
  qed
  ultimately show ?case by (simp add: y)
qed simp

lemma layered_below: "layered D E S ys \<Longrightarrow> (a, True) \<in> set ys \<Longrightarrow> s \<in> fst ` S \<Longrightarrow> D a s"
proof (induction ys arbitrary: S)
  case (Cons y ys)
  obtain b flag where y: "y = (b, flag)" by (cases y)
  show ?case
  proof (cases "y = (a, True)")
    case False
    then show ?thesis using Cons.IH[of "insert (b, flag) S"] Cons.prems by (auto simp: y)
  qed (use Cons.prems in auto)
qed simp

text \<open>
  The invariant. \<open>E\<close> are the entered nodes and \<open>L\<close> those left; the others of \<open>E\<close> are open: they
  wait on the stack with the flag set, those without the flag have not been entered.
\<close>

inductive interval_inv :: "('n \<Rightarrow> 'n \<Rightarrow> bool) \<Rightarrow> 'n set \<Rightarrow> 'n interval_state \<Rightarrow> bool" for D R where
  interval_inv:
  "\<lbrakk>E = dom (map_of enter); L = dom (map_of leave); E \<subseteq> R; \<And>p. (p, False) \<in> set stack \<Longrightarrow> p \<in> R;
    E = L \<union> {n. (n, True) \<in> set stack}; \<And>n f. (n, f) \<in> set stack \<Longrightarrow> n \<notin> L; distinct (map fst stack);
    \<And>b. b \<in> E \<Longrightarrow> the (map_of enter b) < counter;
    \<And>a b. (a, True) \<in> set stack \<Longrightarrow> b \<in> E \<Longrightarrow> the (map_of enter a) \<le> the (map_of enter b) \<longleftrightarrow> D a b;
    \<And>l. l \<in> L \<Longrightarrow> the (map_of leave l) \<le> counter;
    \<And>l b. l \<in> L \<Longrightarrow> b \<in> E \<Longrightarrow> interval_dominates enter leave l b \<longleftrightarrow> D l b;
    \<And>l x. l \<in> L \<Longrightarrow> D l x \<Longrightarrow> x \<in> L;
    \<And>p x. (p, False) \<in> set stack \<Longrightarrow> D p x \<Longrightarrow> x \<notin> E;
    \<And>p q. (p, False) \<in> set stack \<Longrightarrow> (q, False) \<in> set stack \<Longrightarrow> D p q \<Longrightarrow> p = q;
    layered D E {} stack;
    \<And>x. x \<in> R \<Longrightarrow> x \<in> E \<or> (\<exists>p. (p, False) \<in> set stack \<and> D p x)\<rbrakk>
   \<Longrightarrow> interval_inv D R (stack, enter, leave, counter)"

lemma interval_leave:
  assumes tree: "dom_tree D R ch entry" and inv: "interval_inv D R ((a, True) # ys, enter, leave, counter)"
  shows "interval_inv D R (ys, enter, dset a counter leave, counter)"
  using inv
proof cases
  case (interval_inv E L)
  note i = interval_inv and d = dom_treeD[OF tree]
  have a: "a \<in> E" "a \<notin> L" using i(5) i(6)[of a True] by auto
  have E_a: "x \<in> E" if "D a x" for x using i(15) that by simp
  have sub: "x \<in> insert a L" if x: "D a x" for x
  proof (rule ccontr)
    assume out: "x \<notin> insert a L"
    with E_a[OF x] i(5) have "(x, True) \<in> set ys" by auto
    with i(15) have "D x a" using layered_below[of D E "{(a, True)}" ys x a] by simp
    with x out d(8) show False by blast
  qed
  show ?thesis
  proof (rule interval_inv.intros[where E = E and L = "insert a L"])
    show "insert a L = dom (map_of (dset a counter leave))" using i(2) by (auto simp: dom_def)
    show "E = insert a L \<union> {n. (n, True) \<in> set ys}" using i(5) by auto
    show "n \<notin> insert a L" if "(n, f) \<in> set ys" for n f
      using i(6)[of n f] i(7) that by (force simp: rev_image_eqI)
    show "the (map_of (dset a counter leave) l) \<le> counter" if "l \<in> insert a L" for l
      using i(10)[of l] that by auto
    show "interval_dominates enter (dset a counter leave) l b \<longleftrightarrow> D l b" if "l \<in> insert a L" "b \<in> E" for l b
    proof (cases "l = a")
      case True
      with i(8)[OF that(2)] i(9)[of a b] that(2) show ?thesis by (simp add: interval_dominates_def)
    next
      case False
      with i(11)[of l b] that show ?thesis by (simp add: interval_dominates_def)
    qed
    show "x \<in> insert a L" if "l \<in> insert a L" "D l x" for l x
      using i(12)[of l x] sub that by auto
    show "layered D E {} ys"
      by (rule layered_mono[of D E "{(a, True)}" ys "{}" E]) (use i(15) d(7) in auto)
    show "p = q" if "(p, False) \<in> set ys" "(q, False) \<in> set ys" "D p q" for p q
      using i(14)[of p q] that by simp
    show "x \<notin> E" if "(p, False) \<in> set ys" "D p x" for p x using i(13)[of p x] that by simp
    show "x \<in> E \<or> (\<exists>p. (p, False) \<in> set ys \<and> D p x)" if "x \<in> R" for x using i(16)[OF that] by auto
    show "the (map_of enter c) \<le> the (map_of enter b) \<longleftrightarrow> D c b" if "(c, True) \<in> set ys" "b \<in> E" for c b
      using i(9)[of c b] that by simp
    show "distinct (map fst ys)" using i(7) by simp
    show "p \<in> R" if "(p, False) \<in> set ys" for p using i(4)[of p] that by simp
  qed (rule i(1) i(3) i(8); assumption?)+
qed

lemma interval_enter:
  assumes tree: "dom_tree D R ch entry" and inv: "interval_inv D R ((n, False) # ys, enter, leave, counter)"
    and cs: "set cs = (\<lambda>c. (c, False)) ` set (ch n)" "distinct (map fst cs)"
  shows "interval_inv D R (cs @ (n, True) # ys, dset n counter enter, leave, counter + 1)
    \<and> n \<in> R \<and> n \<notin> dom (map_of enter)"
  using inv
proof cases
  case (interval_inv E L)
  note i = interval_inv
  note d = dom_treeD[OF tree]
  have n: "n \<in> R" "n \<notin> E" "D n n" using i(4)[of n] i(13)[of n n] d(3) by simp_all
  have lay: "layered D E {(n, False)} ys" using i(15) by simp
  have above: "D a n" if "(a, True) \<in> set ys" for a using layered_below[OF lay that, of n] by simp
  have child: "D n c" "c \<noteq> n" "c \<notin> E" "c \<in> R" if "c \<in> set (ch n)" for c
    using d(10,11)[OF that] i(13)[of n c] d(6) by auto
  have cs_iff: "(c, f) \<in> set cs \<longleftrightarrow> c \<in> set (ch n) \<and> \<not> f" for c f using cs(1) by auto
  have notin: "x \<notin> insert n E" if "p \<in> set (ch n)" "D p x" for p x
    using i(13)[of n x] d(7)[OF child(1)[OF that(1)] that(2)] d(8)[OF _ child(1)[OF that(1)]] child(2)[OF that(1)] that(2) by auto
  have apart: "p = n" if "(p, False) \<in> set ys" "D p n \<or> D n p" for p
    using i(14)[of p n] i(14)[of n p] that by auto
  have n_ys: "n \<notin> fst ` set ys" using i(7) by simp
  then have n_ys': "(n, f) \<notin> set ys" for f by (force simp: image_iff)
  have "interval_inv D R (cs @ (n, True) # ys, dset n counter enter, leave, counter + 1)"
  proof (rule interval_inv.intros[where E = "insert n E" and L = L])
    show "insert n E = dom (map_of (dset n counter enter))" using i(1) by (auto simp: dom_def)
    show "L = dom (map_of leave)" by (rule i(2))
    show "insert n E \<subseteq> R" using n i(3) by simp
    show "p \<in> R" if "(p, False) \<in> set (cs @ (n, True) # ys)" for p
      using that i(4)[of p] child(4)[of p] by (auto simp: cs_iff)
    show "insert n E = L \<union> {m. (m, True) \<in> set (cs @ (n, True) # ys)}" using i(5) by (auto simp: cs_iff)
    show "m \<notin> L" if "(m, f) \<in> set (cs @ (n, True) # ys)" for m f
      using that i(6)[of m f] i(6)[of n False] child(3)[of m] i(5) by (auto simp: cs_iff)
    show "distinct (map fst (cs @ (n, True) # ys))"
    proof -
      have "c \<notin> fst ` set ys" if c: "c \<in> set (ch n)" for c
      proof
        assume "c \<in> fst ` set ys"
        then obtain f where f: "(c, f) \<in> set ys" by auto
        show False
        proof (cases f)
          case True
          with f i(5) child(3)[OF c] show False by auto
        next
          case False
          with f apart[of c] child(1,2)[OF c] show False by auto
        qed
      qed
      moreover have "n \<notin> set (ch n)" using child(2)[of n] by blast
      ultimately show ?thesis using cs n_ys i(7) by (auto simp: image_image)
    qed
    show "the (map_of (dset n counter enter) b) < counter + 1" if "b \<in> insert n E" for b
      using that i(8)[of b] by auto
    show "the (map_of (dset n counter enter) a) \<le> the (map_of (dset n counter enter) b) \<longleftrightarrow> D a b"
      if "(a, True) \<in> set (cs @ (n, True) # ys)" "b \<in> insert n E" for a b
    proof (cases "a = n")
      case True
      with that(2) i(8)[of b] i(13)[of n b] n(2,3) show ?thesis by (cases "b = n") auto
    next
      case False
      with that(1) have a: "(a, True) \<in> set ys" by (auto simp: cs_iff)
      then have "a \<in> E" using i(5) by auto
      with that(2) i(8)[of a] i(9)[of a b] above[OF a] a False show ?thesis by (cases "b = n") auto
    qed
    show "the (map_of leave l) \<le> counter + 1" if "l \<in> L" for l using i(10)[OF that] by simp
    show "interval_dominates (dset n counter enter) leave l b \<longleftrightarrow> D l b" if "l \<in> L" "b \<in> insert n E" for l b
    proof (cases "b = n")
      case True
      have "\<not> D l n" using i(12)[OF that(1)] i(5) n(2) by blast
      with True i(10)[OF that(1)] show ?thesis by (simp add: interval_dominates_def)
    next
      case False
      with that(2) have b: "b \<in> E" by simp
      have "l \<noteq> n" using that(1) n(2) i(5) by auto
      with False i(11)[OF that(1) b] show ?thesis by (simp add: interval_dominates_def)
    qed
    show "x \<in> L" if "l \<in> L" "D l x" for l x using that by (rule i(12))
    show "x \<notin> insert n E" if "(p, False) \<in> set (cs @ (n, True) # ys)" "D p x" for p x
      using that notin[of p x] i(13)[of p x] apart[of p] n_ys' by (auto simp: cs_iff)
    show "p = q" if "(p, False) \<in> set (cs @ (n, True) # ys)" "(q, False) \<in> set (cs @ (n, True) # ys)" "D p q" for p q
    proof -
      have pq: "p \<in> set (ch n) \<or> (p, False) \<in> set ys" "q \<in> set (ch n) \<or> (q, False) \<in> set ys"
        using that(1,2) by (auto simp: cs_iff)
      show ?thesis
      proof (cases "p = q")
        case False
        have "\<not> q \<in> set (ch n)"
        proof
          assume q: "q \<in> set (ch n)"
          with d(12)[OF q that(3)] False have "D p n" by simp
          with pq(1) apart[of p] child(1,2)[of p] d(8)[of p n] n_ys' show False by auto
        qed
        with pq(2) have q: "(q, False) \<in> set ys" by simp
        from pq(1) show ?thesis
        proof
          assume "p \<in> set (ch n)"
          from d(7)[OF child(1)[OF this] that(3)] apart[OF q] q n_ys' show ?thesis by auto
        next
          assume "(p, False) \<in> set ys"
          with q that(3) show ?thesis using i(14)[of p q] by simp
        qed
      qed
    qed
    show "layered D (insert n E) {} (cs @ (n, True) # ys)"
    proof -
      have skip: "layered D F S (ds @ zs) \<longleftrightarrow> layered D F (set ds \<union> S) zs" if "\<And>c. (c, True) \<notin> set ds" for F S ds zs
        using that by (induction ds arbitrary: S) (auto simp: insert_commute)
      have "layered D (insert n E) (insert (n, True) (set cs)) ys"
      proof (rule layered_mono[OF lay d(7)])
        show "\<exists>z \<in> fst ` {(n, False)}. z = y \<or> D z y" if "y \<in> fst ` insert (n, True) (set cs)" for y
          using that child(1)[of y] by (auto simp: cs_iff)
        show "x \<in> insert n E \<or> (\<exists>q. (q, False) \<in> insert (n, True) (set cs) \<and> D q x)"
          if "(p, False) \<in> {(n, False)}" "D p x" for p x
          using that d(13)[of n x] by (auto simp: cs_iff)
      qed auto
      moreover have "x \<in> insert n E \<or> (\<exists>p. (p, False) \<in> set cs \<and> D p x)" if "D n x" for x
        using d(13)[OF that] by (auto simp: cs_iff)
      ultimately show ?thesis using child(1) by (auto simp: skip cs_iff)
    qed
    show "x \<in> insert n E \<or> (\<exists>p. (p, False) \<in> set (cs @ (n, True) # ys) \<and> D p x)" if "x \<in> R" for x
    proof -
      from i(16)[OF that] consider "x \<in> E" | "D n x" | p where "(p, False) \<in> set ys" "D p x" by auto
      then show ?thesis
      proof cases
        case 2
        from d(13)[OF this] show ?thesis by (auto simp: cs_iff)
      qed (auto simp: cs_iff)
    qed
  qed
  with n i(1) show ?thesis by simp
qed


lemma intervals_of_tree:
  assumes tree: "dom_tree D R (tree_children domtree) entry"
  shows "\<exists>enter leave. dominator_tree_intervals domtree entry = Some (enter, leave)
    \<and> set (dkeys enter) = R \<and> set (dkeys leave) = R
    \<and> (\<forall>a \<in> R. \<forall>b \<in> R. interval_dominates enter leave a b \<longleftrightarrow> D a b)"
proof -
  note d = dom_treeD[OF tree]
  let ?P = "interval_inv D R" and ?b = "\<lambda>st :: 'a interval_state. fst st \<noteq> []"
  let ?c = "interval_step domtree"
  let ?r = "inv_image (less_than <*lex*> less_than)
      (\<lambda>(stack :: ('a \<times> bool) list, enter, leave :: ('a, nat) dict, counter :: nat). (card (R - dom (map_of enter)), length stack))"
  have start: "?P ([(entry, False)], [], [], 0)"
    by (rule interval_inv.intros[where E = "{}" and L = "{}"]) (use d(2,4) in auto)
  have step: "?P (?c st) \<and> (?c st, st) \<in> ?r" if P: "?P st" and b: "?b st" for st
  proof -
    obtain n f ys enter leave counter where st: "st = ((n, f) # ys, enter, leave, counter)"
      using b by (cases st; cases "fst st") auto
    show ?thesis
    proof (cases f)
      case True
      with P have "?P ((n, True) # ys, enter, leave, counter)" by (simp add: st)
      from interval_leave[OF tree this] True show ?thesis by (simp add: st interval_step_def)
    next
      case False
      let ?cs = "rev (map (\<lambda>child. (child, False)) (tree_children domtree n))"
      have "distinct (map fst ?cs)" using d(9) by (simp add: rev_map[symmetric] comp_def)
      moreover have "?P ((n, False) # ys, enter, leave, counter)" using P False by (simp add: st)
      ultimately
      have e: "?P (?cs @ (n, True) # ys, dset n counter enter, leave, counter + 1)" "n \<in> R" "n \<notin> dom (map_of enter)"
        using interval_enter[OF tree, of n ys enter leave counter ?cs] by auto
      have "R - dom (map_of (dset n counter enter)) \<subset> R - dom (map_of enter)" using e(2,3) by (auto simp: dom_def)
      from psubset_card_mono[OF _ this] d(1) e(1) show ?thesis by (simp add: st False interval_step_def)
    qed
  qed
  have "\<exists>st. while_option ?b ?c ([(entry, False)], [], [], 0) = Some st"
  proof (rule wf_rel_while_option_Some[where P = ?P and R = ?r])
    show "wf ?r" by (intro wf_inv_image wf_lex_prod wf_less_than)
  qed (use start step in blast)+
  then obtain st where run: "while_option ?b ?c ([(entry, False)], [], [], 0) = Some st" by blast
  have st: "while_option ?b ?c ([(entry, False)], [], [], 0) = Some st" "?P st" "\<not> ?b st"
    using run while_option_rule[where P = ?P, OF _ run start] step while_option_stop[OF run] by blast+
  then obtain enter leave counter where eq: "st = ([], enter, leave, counter)" by (cases st) auto
  from st(2)[unfolded eq] show ?thesis
  proof cases
    case (interval_inv E L)
    have "R \<subseteq> E" using interval_inv(16) by auto
    with interval_inv(3) have "E = R" by (rule subset_antisym)
    moreover have "E = L" using interval_inv(5) by simp
    ultimately have "E = R" "L = R" by simp_all
    with interval_inv(1,2,11) have "dom (map_of enter) = R" "dom (map_of leave) = R"
      "\<forall>a \<in> R. \<forall>b \<in> R. interval_dominates enter leave a b \<longleftrightarrow> D a b" by simp_all
    with st(1) show ?thesis by (simp add: dominator_tree_intervals_def eq dom_map_of_conv_image_fst)
  qed
qed

text \<open>Dominance on a graph with one entry has such a tree: that of the immediate dominators.\<close>

lemma chain_of_dominators:
  assumes table: "idom_table succs [entry] idom" and fin: "finite (reachable succs [entry])"
    and "dominates succs [entry] a x"
  shows "(dominates succs [entry] b x \<longrightarrow> dominates succs [entry] a b \<or> dominates succs [entry] b a)
    \<and> (a \<noteq> x \<longrightarrow> (\<exists>c. map_of idom c = Some (Some a) \<and> c \<noteq> a \<and> dominates succs [entry] c x))"
  using assms(3)
proof (induction "card {d. dominates succs [entry] d x}" arbitrary: x rule: less_induct)
  case less
  let ?dom = "dominates succs [entry]"
  have x: "x \<in> reachable succs [entry]" using less.prems by (simp add: dominates_def)
  show ?case
  proof (cases "x = entry")
    case True
    have "d = x" if "?dom d x" for d using dominates_preds(1)[OF that] True by auto
    with less.prems show ?thesis by blast
  next
    case False
    obtain p where p: "map_of idom x = Some (Some p)" "?dom p x" "p \<noteq> x" "\<And>v. ?dom v p \<longleftrightarrow> ?dom v x \<and> v \<noteq> x"
      using frontier_chain[OF table x False] by blast
    have "finite {d. ?dom d x}" by (rule finite_subset[OF _ fin]) (auto intro: dominator_reachable)
    moreover have "{d. ?dom d p} \<subset> {d. ?dom d x}" using p(4) dominates_self[OF x] by auto
    ultimately have "card {d. ?dom d p} < card {d. ?dom d x}" by (rule psubset_card_mono)
    note IH = less.hyps[OF this]
    show ?thesis
    proof (cases "a = x")
      case True
      then show ?thesis by blast
    next
      case False
      then have "?dom a p" using less.prems p(4) by blast
      from IH[OF this] have IHp: "?dom b p \<longrightarrow> ?dom a b \<or> ?dom b a"
        "a \<noteq> p \<longrightarrow> (\<exists>c. map_of idom c = Some (Some a) \<and> c \<noteq> a \<and> ?dom c p)" by blast+
      have "?dom a b \<or> ?dom b a" if "?dom b x"
        using IHp(1) p(4)[of b] that less.prems by blast
      moreover have "\<exists>c. map_of idom c = Some (Some a) \<and> c \<noteq> a \<and> ?dom c x"
      proof (cases "a = p")
        case True
        with p(1,3) dominates_self[OF x] show ?thesis by blast
      next
        case False
        with IHp(2) p(4) show ?thesis by blast
      qed
      ultimately show ?thesis by blast
    qed
  qed
qed

lemma dom_tree_of_idoms:
  assumes table: "idom_table succs [entry] idom" and fin: "finite (reachable succs [entry])"
  shows "dom_tree (dominates succs [entry]) (reachable succs [entry]) (tree_children (find_dominator_tree idom)) entry"
proof -
  let ?dom = "dominates succs [entry]" and ?R = "reachable succs [entry]"
  have entry: "entry \<in> ?R" by (simp add: reachable_root)
  have "n \<in> avoiding succs [entry] entry \<Longrightarrow> False" for n by (induction rule: avoiding_induct) auto
  then have top: "?dom entry n" if "n \<in> ?R" for n using that by (auto simp: dominates_def)
  have get: "map_of idom u = Some v" if "(u, v) \<in> set idom" for u v
    using table that by (simp add: idom_table_def)
  have keys: "u \<in> ?R" if "map_of idom u = Some v" for u v
    using table map_of_SomeD[OF that] by (force simp: idom_table_def)
  have parent: "\<exists>d. v = Some d" if "map_of idom u = Some v" for u v
  proof (cases "u = entry")
    case True
    have "is_idom succs [entry] u v" using table map_of_SomeD[OF that] by (auto simp: idom_table_def)
    with True show ?thesis by (simp add: is_idom_def)
  next
    case False
    from frontier_chain[OF table keys[OF that] False] that show ?thesis by (metis option.inject)
  qed
  have ch: "set (tree_children (find_dominator_tree idom) n) = {u. map_of idom u = Some (Some n) \<and> u \<noteq> n}"
    "distinct (tree_children (find_dominator_tree idom) n)" for n
    using tree_children_fold[of idom n] table get parent by (fastforce simp: idom_table_def)+
  have child: "?dom n c \<and> (\<forall>a. ?dom a c \<longrightarrow> a = c \<or> ?dom a n)" if c: "map_of idom c = Some (Some n)" "c \<noteq> n" for c n
  proof -
    have "c \<noteq> entry"
    proof
      assume "c = entry"
      moreover have "is_idom succs [entry] c (Some n)" using table map_of_SomeD[OF c(1)] by (auto simp: idom_table_def)
      ultimately show False using c(2) by (simp add: is_idom_def)
    qed
    from frontier_chain[OF table keys[OF c(1)] this] c(1) show ?thesis by (metis option.inject)
  qed
  show ?thesis
    unfolding dom_tree_def ch
  proof (intro conjI allI impI ballI)
    show "x = n \<or> (\<exists>c \<in> {u. map_of idom u = Some (Some n) \<and> u \<noteq> n}. ?dom c x)" if "?dom n x" for n x
      using chain_of_dominators[OF table fin that] by blast
    show "finite ?R" by (rule fin)
    show "entry \<in> ?R" by (rule entry)
    show "?dom n n" if "n \<in> ?R" for n by (rule dominates_self[OF that])
    show "?dom entry n" if "n \<in> ?R" for n by (rule top[OF that])
    show "a \<in> ?R" if "?dom a b" for a b by (rule dominator_reachable[OF that])
    show "b \<in> ?R" if "?dom a b" for a b using that by (simp add: dominates_def)
    show "?dom a c" if "?dom a b" "?dom b c" for a b c by (rule dominates_trans[OF that])
    show "a = b" if "?dom a b" "?dom b a" for a b by (rule dominates_antisym[OF that])
    show "distinct (tree_children (find_dominator_tree idom) n)" for n by (rule ch(2))
    fix n c assume "c \<in> {u. map_of idom u = Some (Some n) \<and> u \<noteq> n}"
    then have "map_of idom c = Some (Some n)" "c \<noteq> n" by simp_all
    note c = child[OF this] \<open>c \<noteq> n\<close>
    show "c \<noteq> n" by (rule c(2))
    show "?dom n c" using c(1) by (rule conjunct1)
    show "a = c \<or> ?dom a n" if "?dom a c" for a using c(1) that by blast
  qed
qed


section \<open>On a control flow graph\<close>

text \<open>
  C40. The intervals: on every consistent graph the traversal of the dominator tree ends, with
  an interval for exactly the reachable nodes, and \<open>a\<close> dominates \<open>b\<close> if and only if \<open>b\<close> is
  entered within the interval of \<open>a\<close>.
\<close>

theorem dominator_intervals_correct:
  assumes "cfg_wf g" and "entry_point g = Some entry"
  shows "\<exists>idom enter leave. find_immediate_dominators g = Some (Inr idom)
    \<and> dominator_tree_intervals (find_dominator_tree idom) entry = Some (enter, leave)
    \<and> set (dkeys enter) = reachable (g_succs g) [entry] \<and> set (dkeys leave) = reachable (g_succs g) [entry]
    \<and> (\<forall>a \<in> reachable (g_succs g) [entry]. \<forall>b \<in> reachable (g_succs g) [entry].
         interval_dominates enter leave a b \<longleftrightarrow> dominates (g_succs g) [entry] a b)"
proof -
  obtain idom where idom: "find_immediate_dominators g = Some (Inr idom)" "idom_table (g_succs g) [entry] idom"
    using find_immediate_dominators_table[OF assms] by blast
  with intervals_of_tree[OF dom_tree_of_idoms[OF idom(2) cfg_tables(4)[OF assms]]] show ?thesis by blast
qed

theorem dominator_intervals_correct_witness:
  "\<exists>idom enter leave. find_immediate_dominators diamond = Some (Inr idom)
    \<and> dominator_tree_intervals (find_dominator_tree idom) 0 = Some (enter, leave)
    \<and> (interval_dominates enter leave 1 3 \<longleftrightarrow> dominates (g_succs diamond) [0] 1 3)"
proof -
  have e: "entry_point diamond = Some 0" by code_simp
  have "3 \<in> reachable (g_succs diamond) [0]" "1 \<in> reachable (g_succs diamond) [0]"
    unfolding diamond_live[symmetric] by code_simp+
  with dominator_intervals_correct[OF diamond_wf e] show ?thesis by blast
qed

text \<open>The frontier relation of the graph, as \<open>dominance_frontier\<close> computes it.\<close>

definition frontier_rel :: "('n, 'd) cfgraph \<Rightarrow> 'n \<Rightarrow> ('n \<times> 'n) set" where
  "frontier_rel g entry = {(v, u). u \<in> set (g_nodes g) \<and> (\<exists>p \<in> set (g_preds g u). dominates (g_succs g) [entry] v p)
     \<and> \<not> (dominates (g_succs g) [entry] v u \<and> v \<noteq> u)}"

lemma iterated_frontiers:
  assumes "cfg_wf g" and "entry_point g = Some entry" and "set (g_nodes g) = reachable (g_succs g) [entry]"
    and "g_preds g entry = []"
  shows "\<exists>df dfp. dominance_frontier g = Some (Inr df) \<and> iterated_domfronts df = Some (Inr dfp)
    \<and> set (dkeys dfp) = set (g_nodes g) \<and> front dfp = (frontier_rel g entry)\<^sup>+"
proof -
  obtain idom where idom: "find_immediate_dominators g = Some (Inr idom)" "idom_table (g_succs g) [entry] idom"
    using find_immediate_dominators_table[OF assms(1,2)] by blast
  have "p \<in> set (g_preds g u) \<longleftrightarrow> p \<in> reachable (g_succs g) [entry] \<and> u \<in> set (g_succs g p)" for u p
    using cfg_wfD(3,6)[OF assms(1)] cfg_tables(3)[OF assms(1,2), of p u] assms(3) by auto
  from find_dominance_frontier_result[OF idom(2) cfg_tables(4)[OF assms(1,2)] this] obtain df where
    df: "find_dominance_frontier (g_preds g) idom = Some (Inr df)" "set (dkeys df) = set (g_nodes g)"
    "\<forall>v u. in_frontier df v u \<longleftrightarrow> (v, u) \<in> frontier_rel g entry"
    unfolding frontier_rel_def assms(3) frontier_of_no_back[of "g_preds g" entry, OF assms(4)] by auto
  then have rel: "front df = frontier_rel g entry" by (auto simp: front_def)
  have "frontier_rel g entry \<subseteq> set (g_nodes g) \<times> set (g_nodes g)"
    unfolding assms(3) frontier_rel_def using dominator_reachable[of "g_succs g" "[entry]"] assms(3) by auto
  then have "fronts_in (set (g_nodes g)) df" using df(2) rel by (simp add: fronts_in_def)
  from iterated_domfronts_result[OF this] df(1) idom(1) rel show ?thesis
    by (auto simp: dominance_frontier_def fronts_in_def)
qed

text \<open>
  The iterated frontiers: on a graph without dead blocks whose entry is no jump target the
  sweeps end, and the result is the transitive closure of the dominance frontier.
\<close>

theorem iterated_domfronts_correct:
  assumes "cfg_wf g" and "entry_point g = Some entry" and "set (g_nodes g) = reachable (g_succs g) [entry]"
    and "g_preds g entry = []"
  shows "\<exists>df dfp. dominance_frontier g = Some (Inr df) \<and> iterated_domfronts df = Some (Inr dfp)
    \<and> set (dkeys dfp) = set (g_nodes g)
    \<and> (\<forall>v u. (\<exists>s. map_of dfp v = Some s \<and> u \<in> set s) \<longleftrightarrow> (v, u) \<in> (frontier_rel g entry)\<^sup>+)"
proof -
  from iterated_frontiers[OF assms] obtain df dfp where
    r: "dominance_frontier g = Some (Inr df)" "iterated_domfronts df = Some (Inr dfp)" "set (dkeys dfp) = set (g_nodes g)"
    and f: "front dfp = (frontier_rel g entry)\<^sup>+" by blast
  have "(\<exists>s. map_of dfp v = Some s \<and> u \<in> set s) \<longleftrightarrow> (v, u) \<in> (frontier_rel g entry)\<^sup>+" for v u
    unfolding f[symmetric] by (simp add: front_def in_frontier_def)
  with r show ?thesis by blast
qed

theorem iterated_domfronts_correct_witness:
  "\<exists>df dfp. dominance_frontier diamond = Some (Inr df) \<and> iterated_domfronts df = Some (Inr dfp)
    \<and> set (dkeys dfp) = {0, 1, 2, 3}"
proof -
  have "entry_point diamond = Some 0" "g_preds diamond 0 = []" "set (g_nodes diamond) = {0, 1, 2, 3}" by code_simp+
  with iterated_domfronts_correct[OF diamond_wf this(1) diamond_live this(2)] show ?thesis by auto
qed

end
