(* ===== verification/SSA.thy ===== *)
theory SSA
  imports Renaming DomIntervals
begin

text \<open>
  The SSA reconstruction (\<open>core/ssa.py\<close>): the variables that violate SSA form are found, and one
  after the other each gets a fresh name per assignment, its uses are given the definition that
  reaches them, and phi nodes are inserted where definitions meet.

  A definition is identified the way the code compares statements, by identity: an assignment
  of the block by its position, a phi node by its position in the list of the phi nodes that
  have been inserted for its block. The cache of \<open>list_vars\<close> only saves time and is left out.
\<close>

section \<open>Block passes\<close>

text \<open>
  A handler gets the label and the body of the block, the position of the statement, the
  statement and the state of the pass.
\<close>

type_synonym ('c, 's) handler = "int \<Rightarrow> 'c block \<Rightarrow> nat \<Rightarrow> 'c stmt \<Rightarrow> 's \<Rightarrow> ('c stmt \<times> 's) res option"

definition run_ssa_block_pass :: "('c, 's) handler \<Rightarrow> int \<Rightarrow> 'c block \<Rightarrow> 's \<Rightarrow> ('c block \<times> 's) res option" where
  "run_ssa_block_pass h label blk s =
     foldO (\<lambda>(i, st) (newbody, s). bindO (h label blk i st s) (\<lambda>(st', s'). Some (Inr (newbody @ [st'], s'))))
       (enumerate 0 blk) ([], s)"

definition run_block_rewrite :: "('c, 's) handler \<Rightarrow> 'c blocks \<Rightarrow> 's \<Rightarrow> ('c blocks \<times> 's) res option" where
  "run_block_rewrite h blocks s =
     foldO (\<lambda>(label, blk) (newblocks, s).
         bindO (run_ssa_block_pass h label blk s) (\<lambda>(newbody, s'). Some (Inr (dset label newbody newblocks, s'))))
       blocks ([], s)"

section \<open>The violators\<close>

text \<open>Labels of the assignments, and labels of the uses, of every variable.\<close>

definition dlist :: "('k, 'v list) dict \<Rightarrow> 'k \<Rightarrow> 'v list" where
  "dlist d k = (case map_of d k of None \<Rightarrow> [] | Some vs \<Rightarrow> vs)"

type_synonym gathered = "(string, int list) dict \<times> (string, int list) dict"

definition gather_use :: "int \<Rightarrow> string \<Rightarrow> (string, int list) dict \<Rightarrow> (string, int list) dict" where
  "gather_use label k uses = dset k (set_add label (dlist uses k)) uses"

definition gather_defs :: "int \<Rightarrow> 'c stmt \<Rightarrow> gathered \<Rightarrow> gathered" where
  "gather_defs label st = (\<lambda>(defs, uses).
     case st of
       Assign e target \<Rightarrow>
         (dset target (dlist defs target @ [label]) defs,
          fold (gather_use label) (filter (\<lambda>k. k \<noteq> target) (list_vars st)) uses)
     | _ \<Rightarrow> (defs, fold (gather_use label) (list_vars st) uses))"

definition run_block_analysis :: "'c blocks \<Rightarrow> gathered" where
  "run_block_analysis blocks = fold (\<lambda>(label, blk). fold (gather_defs label) blk) blocks ([], [])"

text \<open>Is there a use that no definition dominates? The intervals of unreachable blocks raise.\<close>

definition use_undominated ::
  "(int, nat) dict \<Rightarrow> (int, nat) dict \<Rightarrow> int list \<Rightarrow> int \<Rightarrow> bool \<Rightarrow> bool res" where
  "use_undominated enter leave def_labels label found =
     (if found then Inr True
      else bindE (dget enter label) (\<lambda>use_enter.
           bindE (mapE (\<lambda>d. bindE (dget enter d) (\<lambda>e. bindE (dget leave d) (\<lambda>l.
                     Inr (e \<le> use_enter \<and> use_enter < l)))) def_labels) (\<lambda>ds.
             Inr (\<not> (\<exists>x \<in> set ds. x)))))"

definition add_violator ::
  "(int, nat) dict \<Rightarrow> (int, nat) dict \<Rightarrow> (string, int list) dict \<Rightarrow> string \<times> int list \<Rightarrow> string list \<Rightarrow> string list res" where
  "add_violator enter leave defs = (\<lambda>(k, use_blocks) violators.
     if k \<in> set violators then Inr violators
     else let def_labels = filter (\<lambda>label. label \<in> set (dkeys enter)) (dlist defs k)
          in bindE (foldE (use_undominated enter leave def_labels) use_blocks False) (\<lambda>found.
               Inr (if found then violators @ [k] else violators)))"

definition find_defs_violators :: "'c blocks \<Rightarrow> (int, nat) dict \<Rightarrow> (int, nat) dict \<Rightarrow> string list res" where
  "find_defs_violators blocks enter leave =
     (let (defs, uses) = run_block_analysis blocks;
          violators = map fst (filter (\<lambda>(k, vs). 1 < length vs) defs)
      in foldE (add_violator enter leave defs) uses violators)"

section \<open>Fresh variables\<close>

datatype ssa_def = StmtDef nat string | PhiDef nat string

fun def_target :: "ssa_def \<Rightarrow> string" where
  "def_target (StmtDef i x) = x"
| "def_target (PhiDef i x) = x"

type_synonym defmap = "(int, ssa_def list) dict"

text \<open>\<open>_FreshVarHandler\<close>: the first assignment retains the name.\<close>

definition fresh_handler :: "string \<Rightarrow> ('c, scope \<times> defmap) handler" where
  "fresh_handler varname label blk i st = (\<lambda>(sc, defmap).
     case st of
       Assign e target \<Rightarrow>
         if target = varname
         then bindO (if defmap = [] then Some (Inr (target, sc)) else redefine target sc)
                (\<lambda>(newtarget, sc). Some (Inr (Assign e newtarget,
                   (sc, dset label (dlist defmap label @ [StmtDef i newtarget]) defmap))))
         else Some (Inr (st, (sc, defmap)))
     | _ \<Rightarrow> Some (Inr (st, (sc, defmap))))"

definition fresh_vars :: "'c blocks \<Rightarrow> string \<Rightarrow> scope \<Rightarrow> ('c blocks \<times> scope \<times> defmap) res option" where
  "fresh_vars blocks varname sc = run_block_rewrite (fresh_handler varname) blocks (sc, [])"

section \<open>Reaching definitions\<close>

text \<open>
  The phi node of a block, with the values resolved so far; \<open>None\<close> is \<open>ir.UNDEFINED\<close>.
\<close>

record phi_node =
  phi_target :: string
  incoming_values :: "string option list"
  incoming_blocks :: "int list"

record ssa_state =
  ssa_scope :: scope
  ssa_defmap :: defmap
  ssa_phimap :: "(int, phi_node list) dict"

record ssa_env =
  ssa_varname :: string
  ssa_cfg :: "(int, unit) cfgraph"
  ssa_idoms :: "(int, int option) dict"
  phi_locations :: "int list"

definition compute_phi_locations :: "(int, int list) dict \<Rightarrow> defmap \<Rightarrow> int list res" where
  "compute_phi_locations iterated_df dmap =
     foldE (\<lambda>(deflabel, defstmts) locs.
         if defstmts = [] then Inr locs
         else bindE (dget iterated_df deflabel) (\<lambda>vs. Inr (set_update locs vs))) dmap []"

text \<open>An incoming definition to resolve: the phi node (block and position) and the predecessor.\<close>

type_synonym pending = "(int \<times> nat \<times> int) list"

text \<open>
  A step of \<open>_walk_def_chain\<close>. The last component is the result: a definition's target, or
  \<open>Some None\<close> for \<open>UndefinedVariable\<close>.
\<close>

type_synonym walk_state = "int \<times> bool \<times> ssa_state \<times> pending \<times> string option option"

definition insert_phi :: "ssa_env \<Rightarrow> int \<Rightarrow> ssa_state \<Rightarrow> pending \<Rightarrow> (string \<times> ssa_state \<times> pending) res option" where
  "insert_phi env label s pending =
     bindO (redefine (ssa_varname env) (ssa_scope s)) (\<lambda>(freshvar, sc).
       let idx = length (dlist (ssa_phimap s) label);
           phinode = \<lparr>phi_target = freshvar, incoming_values = [], incoming_blocks = []\<rparr>;
           s' = \<lparr>ssa_scope = sc,
                 ssa_defmap = dset label (PhiDef idx freshvar # dlist (ssa_defmap s) label) (ssa_defmap s),
                 ssa_phimap = dset label (dlist (ssa_phimap s) label @ [phinode]) (ssa_phimap s)\<rparr>
       in Some (bindE (neighbours (predecessors (ssa_cfg env) label)) (\<lambda>preds.
            Inr (freshvar, s', fold (\<lambda>pred p. (label, idx, pred) # p) (rev preds) pending))))"

definition walk_step :: "ssa_env \<Rightarrow> walk_state \<Rightarrow> walk_state res option" where
  "walk_step env = (\<lambda>(label, from_top, s, pending, r).
     let defs = dlist (ssa_defmap s) label
     in if \<not> from_top \<and> defs \<noteq> [] then Some (Inr (label, from_top, s, pending, Some (Some (def_target (last defs)))))
        else if label \<in> set (phi_locations env)
        then bindO (insert_phi env label s pending) (\<lambda>(freshvar, s', pending').
               Some (Inr (label, True, s', pending', Some (Some freshvar))))
        else Some (bindE (dget (ssa_idoms env) label) (\<lambda>idom.
               if idom = Some label then Inr (label, True, s, pending, Some None)
               else case idom of None \<Rightarrow> Inl KeyError | Some d \<Rightarrow> Inr (d, False, s, pending, None))))"

definition walk_def_chain ::
  "ssa_env \<Rightarrow> int \<Rightarrow> bool \<Rightarrow> ssa_state \<Rightarrow> pending \<Rightarrow> (string option \<times> ssa_state \<times> pending) res option" where
  "walk_def_chain env label from_top s pending =
     bindO (loopE (\<lambda>(label, from_top, s, pending, r). r = None) (walk_step env) (label, from_top, s, pending, None))
       (\<lambda>(label, from_top, s, pending, r). Some (Inr (the r, s, pending)))"

definition add_incoming :: "int \<Rightarrow> nat \<Rightarrow> string option \<Rightarrow> int \<Rightarrow> ssa_state \<Rightarrow> ssa_state" where
  "add_incoming label idx x pred s =
     s\<lparr>ssa_phimap := dset label ((dlist (ssa_phimap s) label)[idx := (dlist (ssa_phimap s) label ! idx)
         \<lparr>incoming_values := incoming_values (dlist (ssa_phimap s) label ! idx) @ [x],
          incoming_blocks := incoming_blocks (dlist (ssa_phimap s) label ! idx) @ [pred]\<rparr>]) (ssa_phimap s)\<rparr>"

definition resolve_step :: "ssa_env \<Rightarrow> ssa_state \<times> pending \<Rightarrow> (ssa_state \<times> pending) res option" where
  "resolve_step env = (\<lambda>(s, pending).
     case pending of
       [] \<Rightarrow> Some (Inr (s, []))
     | (label, idx, pred) # rest \<Rightarrow>
         bindO (walk_def_chain env pred False s rest) (\<lambda>(incoming_def, s', pending').
           Some (Inr (add_incoming label idx incoming_def pred s', pending'))))"

definition find_def_from_top :: "ssa_env \<Rightarrow> int \<Rightarrow> ssa_state \<Rightarrow> (string option \<times> ssa_state) res option" where
  "find_def_from_top env label s =
     bindO (walk_def_chain env label True s []) (\<lambda>(result, s, pending).
     bindO (loopE (\<lambda>(s, pending). pending \<noteq> []) (resolve_step env) (s, pending)) (\<lambda>(s, pending).
       Some (Inr (result, s))))"

text \<open>
  \<open>_stmt_index\<close>: the position of the statement if it is below \<open>stop\<close>, else the length. The
  slice \<open>range(n)[:stop]\<close> with the default \<open>-1\<close> leaves the last statement out.
\<close>

definition stmt_index :: "nat \<Rightarrow> nat \<Rightarrow> int \<Rightarrow> nat" where
  "stmt_index n pos stop = (if int pos < (if stop < 0 then int n + stop else min (int n) stop) then pos else n)"

fun def_index :: "nat \<Rightarrow> ssa_def \<Rightarrow> int \<Rightarrow> nat" where
  "def_index n (StmtDef i x) stop = stmt_index n i stop"
| "def_index n (PhiDef i x) stop = n"

fun select_def :: "nat \<Rightarrow> nat \<Rightarrow> phi_node list \<Rightarrow> ssa_def list \<Rightarrow> string option" where
  "select_def n cur_pos local_phis [] = None"
| "select_def n cur_pos local_phis (d # ds) =
     (if def_index n d (int cur_pos) < cur_pos then Some (def_target d)
      else case d of PhiDef i x \<Rightarrow> Some (phi_target (last local_phis))
                   | StmtDef i x \<Rightarrow> select_def n cur_pos local_phis ds)"

definition find_def :: "ssa_env \<Rightarrow> int \<Rightarrow> nat \<Rightarrow> nat \<Rightarrow> ssa_state \<Rightarrow> (string option \<times> ssa_state) res option" where
  "find_def env label n pos s =
     (let cur_pos = stmt_index n pos (- 1)
      in case select_def n cur_pos (dlist (ssa_phimap s) label) (rev (dlist (ssa_defmap s) label)) of
           Some x \<Rightarrow> Some (Inr (Some x, s))
         | None \<Rightarrow> find_def_from_top env label s)"

text \<open>\<open>_fix_var\<close>: \<open>None\<close> when the variable is not used; else the target found.\<close>

definition fix_var ::
  "ssa_env \<Rightarrow> int \<Rightarrow> nat \<Rightarrow> nat \<Rightarrow> string list \<Rightarrow> ssa_state \<Rightarrow> (string option option \<times> ssa_state) res option" where
  "fix_var env label n pos used_vars s =
     (if ssa_varname env \<in> set used_vars
      then bindO (find_def env label n pos s) (\<lambda>(newdef, s). Some (Inr (Some newdef, s)))
      else Some (Inr (None, s)))"

text \<open>The new name, when there is a definition and it has another name.\<close>

definition replacement :: "string \<Rightarrow> string option option \<Rightarrow> string option" where
  "replacement varname newdef =
     (case newdef of Some (Some w) \<Rightarrow> if varname \<noteq> w then Some w else None | _ \<Rightarrow> None)"

definition fix_assign :: "ssa_env \<Rightarrow> ('c, ssa_state) handler" where
  "fix_assign env label blk i st s =
     (case st of
        Assign rhs target \<Rightarrow>
          (case rhs of
             InstR inst \<Rightarrow>
               bindO (fix_var env label (length blk) i (inst_vars inst) s) (\<lambda>(newdef, s).
                 Some (Inr (case replacement (ssa_varname env) newdef of
                     None \<Rightarrow> (st, s) | Some w \<Rightarrow> (Assign (InstR (replace_inst (ssa_varname env) w inst)) target, s))))
           | VarR x \<Rightarrow>
               bindO (fix_var env label (length blk) i [x] s) (\<lambda>(newdef, s).
                 Some (Inr (case replacement (ssa_varname env) newdef of
                     None \<Rightarrow> (st, s) | Some w \<Rightarrow> (Assign (VarR w) target, s))))
           | _ \<Rightarrow> Some (Inr (st, s)))
      | _ \<Rightarrow> Some (Inr (st, s)))"

definition fix_other :: "ssa_env \<Rightarrow> ('c, ssa_state) handler" where
  "fix_other env label blk i st s =
     bindO (fix_var env label (length blk) i (list_vars st) s) (\<lambda>(newdef, s).
       Some (Inr (case replacement (ssa_varname env) newdef of
           None \<Rightarrow> (st, s) | Some w \<Rightarrow> (replace_stmt (ssa_varname env) w st, s))))"

definition fix_handler :: "ssa_env \<Rightarrow> ('c, ssa_state) handler" where
  "fix_handler env label blk i st s =
     (case st of Assign rhs target \<Rightarrow> fix_assign env label blk i st s | _ \<Rightarrow> fix_other env label blk i st s)"

section \<open>The reconstruction\<close>

definition phi_stmt :: "phi_node \<Rightarrow> 'c stmt" where
  "phi_stmt p =
     Assign (InstR (Expr ''phi''
       [(''incoming_values'', SeqA (map (\<lambda>x. case x of None \<Rightarrow> UndefinedA | Some w \<Rightarrow> VarA w) (incoming_values p))),
        (''incoming_blocks'', SeqA (map IntA (incoming_blocks p)))])) (phi_target p)"

definition prepend_phis :: "(int, phi_node list) dict \<Rightarrow> 'c blocks \<Rightarrow> 'c blocks res" where
  "prepend_phis phimap newblocks =
     foldE (\<lambda>(label, philist) nb. bindE (dget nb label) (\<lambda>body. Inr (dset label (map phi_stmt philist @ body) nb)))
       phimap newblocks"

definition fix_ssa_vars ::
  "'c blocks \<Rightarrow> string \<Rightarrow> scope \<Rightarrow> defmap \<Rightarrow> (int, unit) cfgraph \<Rightarrow> (int, int option) dict \<Rightarrow> (int, int list) dict
    \<Rightarrow> ('c blocks \<times> scope) res option" where
  "fix_ssa_vars blocks varname sc dmap cfg idoms df_plus =
     bindO (Some (compute_phi_locations df_plus dmap)) (\<lambda>locs.
     bindO (run_block_rewrite (fix_handler \<lparr>ssa_varname = varname, ssa_cfg = cfg, ssa_idoms = idoms, phi_locations = locs\<rparr>)
              blocks \<lparr>ssa_scope = sc, ssa_defmap = dmap, ssa_phimap = []\<rparr>) (\<lambda>(newblocks, s).
       Some (bindE (prepend_phis (ssa_phimap s) newblocks) (\<lambda>nb. Inr (nb, ssa_scope s)))))"

definition fix_violator ::
  "(int, unit) cfgraph \<Rightarrow> (int, int option) dict \<Rightarrow> (int, int list) dict \<Rightarrow> string \<Rightarrow> 'c blocks \<times> scope
    \<Rightarrow> ('c blocks \<times> scope) res option" where
  "fix_violator cfg idoms df_plus varname = (\<lambda>(blocks, sc).
     bindO (fresh_vars blocks varname sc) (\<lambda>(blocks, sc, defmap).
       fix_ssa_vars blocks varname sc defmap cfg idoms df_plus))"

text \<open>
  \<open>CFGraph.__eq__\<close>, with the sets and tables compared by their members; the tables have
  entries for nodes only.
\<close>

definition dict_equal :: "('k, 'v) dict \<Rightarrow> ('k, 'v) dict \<Rightarrow> bool" where
  "dict_equal d e \<longleftrightarrow> (\<forall>k \<in> set (dkeys d) \<union> set (dkeys e). map_of d k = map_of e k)"

definition cfg_equal :: "('n, 'd) cfgraph \<Rightarrow> ('n, 'd) cfgraph \<Rightarrow> bool" where
  "cfg_equal g h \<longleftrightarrow> set (g_nodes g) = set (g_nodes h) \<and> dict_equal (edge_data g) (edge_data h)
     \<and> entry_point g = entry_point h
     \<and> (\<forall>n \<in> set (g_nodes g). set (g_preds g n) = set (g_preds h n) \<and> set (g_succs g n) = set (g_succs h n))"

definition run_ssa :: "'c blocks \<Rightarrow> scope \<Rightarrow> ('c blocks \<times> scope) res option" where
  "run_ssa blocks sc =
     (if blocks = [] then Some (Inr ([], sc))
      else bindO (compute_cfg_from_blocks blocks) (\<lambda>cfg.
           bindO (find_immediate_dominators cfg) (\<lambda>idoms.
           bindO (find_dominance_frontier (g_preds cfg) idoms) (\<lambda>df.
           bindO (iterated_domfronts df) (\<lambda>df_plus.
           case entry_point cfg of
             None \<Rightarrow> Some (Inl RuntimeError)
           | Some entry \<Rightarrow>
             case dominator_tree_intervals (find_dominator_tree idoms) entry of
               None \<Rightarrow> None
             | Some (enter, leave) \<Rightarrow>
                 bindO (Some (find_defs_violators blocks enter leave)) (\<lambda>violators.
                 bindO (foldO (fix_violator cfg idoms df_plus) violators (blocks, sc)) (\<lambda>(blocks, sc).
                 bindO (compute_cfg_from_blocks blocks) (\<lambda>cfg_post.
                   Some (if cfg_equal cfg_post cfg then Inr (blocks, sc) else Inl CompilerError)))))))))"

end
