(* ===== verification/SSAReach.thy ===== *)
theory SSAReach
  imports SSA
begin

text \<open>
  Which definition reaches a point of a block, as a relation, and the fact the SSA
  construction rests on: at a block without a phi node, the definition that reaches its top is
  the one that reaches the bottom of each of its predecessors.
\<close>

section \<open>Graphs the construction works on\<close>

definition ssa_graph :: "(int, unit) cfgraph \<Rightarrow> int \<Rightarrow> (int, int option) dict \<Rightarrow> bool" where
  "ssa_graph g entry idoms \<longleftrightarrow> cfg_wf g \<and> entry_point g = Some entry
     \<and> set (g_nodes g) = reachable (g_succs g) [entry] \<and> g_preds g entry = []
     \<and> idom_table (g_succs g) [entry] idoms"

abbreviation gdom :: "(int, unit) cfgraph \<Rightarrow> int \<Rightarrow> int \<Rightarrow> int \<Rightarrow> bool" where
  "gdom g entry \<equiv> dominates (g_succs g) [entry]"

lemma ssa_graphD:
  assumes "ssa_graph g entry idoms"
  shows "cfg_wf g" "entry_point g = Some entry" "set (g_nodes g) = reachable (g_succs g) [entry]"
    "g_preds g entry = []" "idom_table (g_succs g) [entry] idoms" "finite (reachable (g_succs g) [entry])"
  using assms cfg_tables(4)[of g entry] by (auto simp: ssa_graph_def)

lemma ssa_idom_entry:
  assumes "ssa_graph g entry idoms"
  shows "map_of idoms entry = Some (Some entry)"
proof -
  have "entry \<in> reachable (g_succs g) [entry]" by (simp add: reachable_root)
  from idom_table_lookup[OF ssa_graphD(5)[OF assms] this] obtain b where
    "map_of idoms entry = Some b" "is_idom (g_succs g) [entry] entry b" .
  then show ?thesis by (simp add: is_idom_def)
qed

lemma ssa_idom_node:
  assumes g: "ssa_graph g entry idoms" and l: "l \<in> set (g_nodes g)" and ne: "l \<noteq> entry"
  obtains d where "map_of idoms l = Some (Some d)" "d \<noteq> l" "gdom g entry d l" "d \<in> set (g_nodes g)"
    "\<forall>v. gdom g entry v d \<longleftrightarrow> gdom g entry v l \<and> v \<noteq> l"
proof -
  have "l \<in> reachable (g_succs g) [entry]" using l ssa_graphD(3)[OF g] by simp
  then show thesis
  proof (rule frontier_chain[OF ssa_graphD(5)[OF g] _ ne])
    fix d
    assume d: "map_of idoms l = Some (Some d)" "gdom g entry d l" "d \<noteq> l"
      and chain: "\<And>v. gdom g entry v d \<longleftrightarrow> gdom g entry v l \<and> v \<noteq> l"
    have mem: "d \<in> set (g_nodes g)" using dominator_reachable[OF d(2)] ssa_graphD(3)[OF g] by simp
    have "\<forall>v. gdom g entry v d \<longleftrightarrow> gdom g entry v l \<and> v \<noteq> l" by (intro allI chain)
    with d(1,3,2) mem show thesis by (rule that)
  qed
qed

lemma ssa_doms_decrease:
  assumes "ssa_graph g entry idoms" and "d \<noteq> l" and "gdom g entry d l" and "\<forall>v. gdom g entry v d \<longleftrightarrow> gdom g entry v l \<and> v \<noteq> l"
  shows "card {v. gdom g entry v d} < card {v. gdom g entry v l}"
proof (rule psubset_card_mono)
  show "finite {v. gdom g entry v l}"
    by (rule finite_subset[OF _ ssa_graphD(6)[OF assms(1)]]) (auto intro: dominator_reachable)
  have "l \<in> reachable (g_succs g) [entry]" using assms(3) by (simp add: dominates_def)
  then have "gdom g entry l l" by (rule dominates_self)
  then show "{v. gdom g entry v d} \<subset> {v. gdom g entry v l}" by (auto simp: assms(4))
qed

section \<open>The definition that reaches a point\<close>

text \<open>
  With the assignments \<open>dm\<close> and the phi nodes \<open>ph\<close> (their targets): the flag tells whether the
  point is the top or the bottom of the block. No value is an undefined variable.
\<close>

inductive reaching ::
  "int set \<Rightarrow> (int, int option) dict \<Rightarrow> defmap \<Rightarrow> (int \<Rightarrow> string option) \<Rightarrow> int \<times> bool \<Rightarrow> string option \<Rightarrow> bool"
  for locs idoms dm ph where
  from_def: "dlist dm l \<noteq> [] \<Longrightarrow> reaching locs idoms dm ph (l, False) (Some (def_target (last (dlist dm l))))"
| from_phi: "ft \<or> dlist dm l = [] \<Longrightarrow> l \<in> locs \<Longrightarrow> ph l = Some n \<Longrightarrow> reaching locs idoms dm ph (l, ft) (Some n)"
| from_start: "ft \<or> dlist dm l = [] \<Longrightarrow> l \<notin> locs \<Longrightarrow> map_of idoms l = Some (Some l) \<Longrightarrow> reaching locs idoms dm ph (l, ft) None"
| from_idom: "ft \<or> dlist dm l = [] \<Longrightarrow> l \<notin> locs \<Longrightarrow> map_of idoms l = Some (Some d) \<Longrightarrow> d \<noteq> l
    \<Longrightarrow> reaching locs idoms dm ph (d, False) r \<Longrightarrow> reaching locs idoms dm ph (l, ft) r"

inductive_cases reaching_topE: "reaching locs idoms dm ph (l, True) r"

lemma reaching_mono:
  assumes "reaching locs idoms dm ph p r" and "\<And>l n. ph l = Some n \<Longrightarrow> ph' l = Some n"
  shows "reaching locs idoms dm ph' p r"
  using assms(1)
proof induction
  case (from_phi ft l n)
  then show ?case using reaching.from_phi[OF from_phi(1,2), of ph' n] assms(2) by simp
next
  case (from_idom ft l d r)
  show ?case by (rule reaching.from_idom[OF from_idom.hyps(1-4) from_idom.IH])
qed (auto intro: reaching.from_def reaching.from_start)

lemma reaching_bottom_top: "dlist dm l = [] \<Longrightarrow> reaching locs idoms dm ph (l, True) r \<Longrightarrow> reaching locs idoms dm ph (l, False) r"
proof (erule reaching_topE)
  fix n assume "dlist dm l = []" "l \<in> locs" "ph l = Some n" "r = Some n"
  then show ?thesis using reaching.from_phi[of False dm l] by simp
next
  assume "dlist dm l = []" "l \<notin> locs" "map_of idoms l = Some (Some l)" "r = None"
  then show ?thesis using reaching.from_start[of False dm l] by simp
next
  fix d assume "dlist dm l = []" "l \<notin> locs" "map_of idoms l = Some (Some d)" "d \<noteq> l" "reaching locs idoms dm ph (d, False) r"
  then show ?thesis using reaching.from_idom[of False dm l] by simp
qed

text \<open>The blocks that need a phi node: the iterated frontiers of the blocks with assignments.\<close>

definition phi_blocks :: "(int, unit) cfgraph \<Rightarrow> int \<Rightarrow> defmap \<Rightarrow> int set" where
  "phi_blocks g entry dm = {m. \<exists>k. dlist dm k \<noteq> [] \<and> (k, m) \<in> (frontier_rel g entry)\<^sup>+}"

lemma reaching_edge:
  assumes g: "ssa_graph g entry idoms" and locs: "locs = phi_blocks g entry dm"
    and edge: "l \<in> set (g_preds g m)" "m \<in> set (g_nodes g)" and m: "m \<notin> locs"
    and r: "reaching locs idoms dm ph (m, True) r"
  shows "reaching locs idoms dm ph (l, False) r"
proof -
  let ?D = "gdom g entry"
  have "m \<noteq> entry" using edge(1) ssa_graphD(4)[OF g] by auto
  then obtain d where d: "map_of idoms m = Some (Some d)" "d \<noteq> m" "?D d m"
    "d \<in> set (g_nodes g)" "\<forall>v. ?D v d \<longleftrightarrow> ?D v m \<and> v \<noteq> m" by (rule ssa_idom_node[OF g edge(2)])
  have bottom: "reaching locs idoms dm ph (d, False) r"
    using r by (rule reaching_topE) (use m d(1,2) in simp_all)
  have l: "l \<in> set (g_nodes g)" "m \<in> set (g_succs g l)"
    using edge cfg_wfD(3,5,6)[OF ssa_graphD(1)[OF g]] by auto
  then have lr: "l \<in> reachable (g_succs g) [entry]" using ssa_graphD(3)[OF g] by simp
  have "?D d l" using dominates_preds(2)[OF d(3,2) lr l(2)] .
  have "reaching locs idoms dm ph (n, False) r" if "?D d n" "?D n l" for n
    using that
  proof (induction "card {v. ?D v n}" arbitrary: n rule: less_induct)
    case less
    show ?case
    proof (cases "n = d")
      case False
      have n: "n \<in> set (g_nodes g)" using dominator_reachable[OF less.prems(2)] ssa_graphD(3)[OF g] by simp
      have "\<not> ?D n d" using dominates_antisym[OF less.prems(1)] False by metis
      then have "\<not> (?D n m \<and> n \<noteq> m)" using spec[OF d(5), of n] by simp
      then have front: "(n, m) \<in> frontier_rel g entry" using edge less.prems(2) by (auto simp: frontier_rel_def)
      then have none: "dlist dm n = []" "n \<notin> locs"
        using m trancl_into_trancl[OF _ front] unfolding locs phi_blocks_def by blast+
      have "n \<noteq> entry" using less.prems(1) False dominates_preds(1)[of "g_succs g" "[entry]" d n] by auto
      then obtain e where e: "map_of idoms n = Some (Some e)" "e \<noteq> n" "?D e n"
        "e \<in> set (g_nodes g)" "\<forall>v. ?D v e \<longleftrightarrow> ?D v n \<and> v \<noteq> n" by (rule ssa_idom_node[OF g n])
      have "reaching locs idoms dm ph (e, False) r"
      proof (rule less.hyps[OF ssa_doms_decrease[OF g e(2,3,5)]])
        show "?D d e" using spec[OF e(5), of d] less.prems(1) False by simp
        show "?D e l" by (rule dominates_trans[OF e(3) less.prems(2)])
      qed
      then show ?thesis by (rule reaching.from_idom[OF disjI2[OF none(1)] none(2) e(1,2)])
    qed (use bottom in simp)
  qed
  from this[OF \<open>?D d l\<close> dominates_self[OF lr]] show ?thesis .
qed

end
