(* ===== verification/SSAWalk.thy ===== *)
theory SSAWalk
  imports SSAReach
begin

text \<open>
  The search for a definition (\<open>_walk_def_chain\<close>, \<open>_find_def_from_top\<close>): it ends, inserts at
  most one phi node per block, and gives every phi node the definitions that reach the bottoms
  of the predecessors.
\<close>

section \<open>The state of the search\<close>

definition phi_at :: "ssa_state \<Rightarrow> int \<Rightarrow> string option" where
  "phi_at s l = (case dlist (ssa_phimap s) l of [] \<Rightarrow> None | p # _ \<Rightarrow> Some (phi_target p))"

definition env_ok :: "ssa_env \<Rightarrow> int \<Rightarrow> bool" where
  "env_ok env entry \<longleftrightarrow> ssa_graph (ssa_cfg env) entry (ssa_idoms env)"

definition state_inv :: "ssa_env \<Rightarrow> defmap \<Rightarrow> string set \<Rightarrow> ssa_state \<Rightarrow> bool" where
  "state_inv env dm names s \<longleftrightarrow>
     ssa_varname env \<in> names \<and> names \<subseteq> set (localvars (ssa_scope s))
   \<and> (\<forall>l. length (dlist (ssa_phimap s) l) \<le> 1)
   \<and> (\<forall>l. dlist (ssa_defmap s) l = (case phi_at s l of None \<Rightarrow> [] | Some n \<Rightarrow> [PhiDef 0 n]) @ dlist dm l)
   \<and> (\<forall>l n. phi_at s l = Some n \<longrightarrow> l \<in> set (phi_locations env) \<and> l \<in> set (g_nodes (ssa_cfg env))
        \<and> n \<notin> names \<and> n \<in> set (localvars (ssa_scope s)))
   \<and> (\<forall>l l' n. phi_at s l = Some n \<longrightarrow> phi_at s l' = Some n \<longrightarrow> l = l')
   \<and> distinct (dkeys (ssa_phimap s)) \<and> (\<forall>l \<in> set (dkeys (ssa_phimap s)). phi_at s l \<noteq> None)"

lemma state_invD:
  assumes "state_inv env dm names s"
  shows "ssa_varname env \<in> names" "names \<subseteq> set (localvars (ssa_scope s))"
    "length (dlist (ssa_phimap s) l) \<le> 1"
    "dlist (ssa_defmap s) l = (case phi_at s l of None \<Rightarrow> [] | Some n \<Rightarrow> [PhiDef 0 n]) @ dlist dm l"
    "phi_at s l = Some n \<Longrightarrow> l \<in> set (phi_locations env)"
    "phi_at s l = Some n \<Longrightarrow> l \<in> set (g_nodes (ssa_cfg env))"
    "phi_at s l = Some n \<Longrightarrow> n \<notin> names" "phi_at s l = Some n \<Longrightarrow> n \<in> set (localvars (ssa_scope s))"
    "phi_at s l = Some n \<Longrightarrow> phi_at s l' = Some n \<Longrightarrow> l = l'"
    "distinct (dkeys (ssa_phimap s))" "l \<in> set (dkeys (ssa_phimap s)) \<Longrightarrow> phi_at s l \<noteq> None"
  using assms unfolding state_inv_def by blast+

abbreviation extends_phis :: "ssa_state \<Rightarrow> ssa_state \<Rightarrow> bool" where
  "extends_phis s s' \<equiv> \<forall>l n. phi_at s l = Some n \<longrightarrow> phi_at s' l = Some n"

abbreviation env_reaching :: "ssa_env \<Rightarrow> defmap \<Rightarrow> ssa_state \<Rightarrow> int \<times> bool \<Rightarrow> string option \<Rightarrow> bool" where
  "env_reaching env dm s \<equiv> reaching (set (phi_locations env)) (ssa_idoms env) dm (phi_at s)"

definition missing_phis :: "ssa_env \<Rightarrow> ssa_state \<Rightarrow> int set" where
  "missing_phis env s = {l \<in> set (g_nodes (ssa_cfg env)). phi_at s l = None}"

text \<open>The predecessors of the phi node at \<open>l\<close> that are still to be resolved.\<close>

definition waiting :: "pending \<Rightarrow> int \<Rightarrow> int list" where
  "waiting pending l = map (\<lambda>(l', i, q). q) (filter (\<lambda>(l', i, q). l' = l) pending)"

definition incoming_ok :: "ssa_env \<Rightarrow> defmap \<Rightarrow> ssa_state \<Rightarrow> pending \<Rightarrow> bool" where
  "incoming_ok env dm s pending \<longleftrightarrow>
     (\<forall>l p. dlist (ssa_phimap s) l = [p] \<longrightarrow>
        incoming_blocks p @ waiting pending l = g_preds (ssa_cfg env) l
      \<and> list_all2 (\<lambda>q x. env_reaching env dm s (q, False) x) (incoming_blocks p) (incoming_values p))
   \<and> (\<forall>(l, i, q) \<in> set pending. i = 0 \<and> phi_at s l \<noteq> None)"

lemma incoming_okD:
  assumes "incoming_ok env dm s pending"
  shows "dlist (ssa_phimap s) l = [p] \<Longrightarrow> incoming_blocks p @ waiting pending l = g_preds (ssa_cfg env) l"
    "dlist (ssa_phimap s) l = [p] \<Longrightarrow>
      list_all2 (\<lambda>q x. env_reaching env dm s (q, False) x) (incoming_blocks p) (incoming_values p)"
    "(l, i, q) \<in> set pending \<Longrightarrow> i = 0 \<and> phi_at s l \<noteq> None"
  using assms unfolding incoming_ok_def by blast+

lemma phi_at_list:
  assumes "state_inv env dm names s"
  shows "phi_at s l = None \<longleftrightarrow> dlist (ssa_phimap s) l = []"
    and "phi_at s l = Some n \<Longrightarrow> \<exists>p. dlist (ssa_phimap s) l = [p] \<and> phi_target p = n"
proof -
  show "phi_at s l = None \<longleftrightarrow> dlist (ssa_phimap s) l = []" by (simp add: phi_at_def split: list.splits)
  assume "phi_at s l = Some n"
  with state_invD(3)[OF assms, of l] show "\<exists>p. dlist (ssa_phimap s) l = [p] \<and> phi_target p = n"
    by (auto simp: phi_at_def split: list.splits)
qed

lemma dlist_dset [simp]: "dlist (dset k v d) j = (if j = k then v else dlist d j)"
  by (simp add: dlist_def)

section \<open>Inserting a phi node\<close>

lemma push_pending: "fold (\<lambda>q p. (l, i, q) # p) (rev qs) pending = map (\<lambda>q. (l, i, q)) qs @ pending"
  by (induction qs arbitrary: pending) auto

lemma waiting_simps [simp]:
  "waiting [] l = []" "waiting ((l', i, q) # pending) l = (if l' = l then q # waiting pending l else waiting pending l)"
  "waiting (xs @ ys) l = waiting xs l @ waiting ys l"
  "waiting (map (\<lambda>q. (l', i, q)) qs) l = (if l' = l then qs else [])"
  by (simp_all add: waiting_def) (induction qs; simp)

lemma insert_phi_ok:
  assumes g: "env_ok env entry" and inv: "state_inv env dm names s" and inc: "incoming_ok env dm s (hand @ pending)"
    and l: "l \<in> set (phi_locations env)" "l \<in> set (g_nodes (ssa_cfg env))" and none: "phi_at s l = None"
  shows "\<exists>n s' pending'. insert_phi env l s pending = Some (Inr (n, s', pending')) \<and> state_inv env dm names s'
    \<and> incoming_ok env dm s' (hand @ pending') \<and> extends_phis s s' \<and> phi_at s' l = Some n
    \<and> missing_phis env s' \<subset> missing_phis env s"
proof -
  have "ssa_varname env \<in> set (localvars (ssa_scope s))" using state_invD(1,2)[OF inv] by auto
  from redefine_fresh[OF this] obtain n sc where
    r: "redefine (ssa_varname env) (ssa_scope s) = Some (Inr (n, sc))" "n \<notin> set (localvars (ssa_scope s))"
    "set (localvars sc) = insert n (set (localvars (ssa_scope s)))" by blast
  have list: "dlist (ssa_phimap s) l = []" using phi_at_list(1)[OF inv] none by simp
  define p where "p = \<lparr>phi_target = n, incoming_values = [], incoming_blocks = []\<rparr>"
  define s' where "s' = \<lparr>ssa_scope = sc, ssa_defmap = dset l (PhiDef 0 n # dlist (ssa_defmap s) l) (ssa_defmap s),
    ssa_phimap = dset l [p] (ssa_phimap s)\<rparr>"
  define pending' where "pending' = map (\<lambda>q. (l, 0 :: nat, q)) (g_preds (ssa_cfg env) l) @ pending"
  have wf: "cfg_wf (ssa_cfg env)" using g ssa_graphD(1) by (simp add: env_ok_def)
  have run: "insert_phi env l s pending = Some (Inr (n, s', pending'))"
    using r(1) by (simp add: insert_phi_def list Let_def s'_def p_def pending'_def successors_ok(2)[OF wf] push_pending)
  have at: "phi_at s' m = (if m = l then Some n else phi_at s m)" for m
    by (simp add: phi_at_def s'_def p_def)
  have ext: "extends_phis s s'" using none by (simp add: at)
  have "n \<notin> names" using r(2) state_invD(2)[OF inv] by auto
  have keys: "dkeys (dset l [p] (ssa_phimap s)) = (if l \<in> set (dkeys (ssa_phimap s)) then dkeys (ssa_phimap s) else dkeys (ssa_phimap s) @ [l])"
    by (rule update_keys)
  have "state_inv env dm names s'"
    unfolding state_inv_def
  proof (intro conjI allI impI ballI)
    show "ssa_varname env \<in> names" by (rule state_invD(1)[OF inv])
    show "names \<subseteq> set (localvars (ssa_scope s'))" using state_invD(2)[OF inv] r(3) by (auto simp: s'_def)
    show "length (dlist (ssa_phimap s') m) \<le> 1" for m using state_invD(3)[OF inv, of m] by (simp add: s'_def)
    show "dlist (ssa_defmap s') m = (case phi_at s' m of None \<Rightarrow> [] | Some n \<Rightarrow> [PhiDef 0 n]) @ dlist dm m" for m
      using state_invD(4)[OF inv, of m] none by (cases "m = l") (simp_all add: at s'_def[THEN arg_cong[where f = ssa_defmap]])
    show "distinct (dkeys (ssa_phimap s'))" using state_invD(10)[OF inv] by (simp add: s'_def keys)
    show "phi_at s' m \<noteq> None" if "m \<in> set (dkeys (ssa_phimap s'))" for m
      using that state_invD(11)[OF inv, of m] unfolding s'_def ssa_state.simps keys by (auto simp: at[unfolded s'_def] split: if_splits)
  next
    fix m k assume k: "phi_at s' m = Some k"
    show "m \<in> set (phi_locations env)" using k l state_invD(5)[OF inv, of m] by (auto simp: at split: if_splits)
    show "m \<in> set (g_nodes (ssa_cfg env))" using k l state_invD(6)[OF inv, of m] by (auto simp: at split: if_splits)
    show "k \<notin> names" using k \<open>n \<notin> names\<close> state_invD(7)[OF inv, of m] by (auto simp: at split: if_splits)
    show "k \<in> set (localvars (ssa_scope s'))"
      using k r(3) state_invD(8)[OF inv, of m] by (auto simp: at split: if_splits) (simp_all add: s'_def r(3))
  next
    fix m m' k assume "phi_at s' m = Some k" "phi_at s' m' = Some k"
    with r(2) show "m = m'" using state_invD(8,9)[OF inv] by (auto simp: at split: if_splits)
  qed
  moreover have "incoming_ok env dm s' (hand @ pending')"
    unfolding incoming_ok_def
  proof (intro conjI allI impI)
    have "waiting (hand @ pending) l = []"
      using incoming_okD(3)[OF inc, of l] none unfolding waiting_def by (auto simp: filter_empty_conv)
    fix m q assume q: "dlist (ssa_phimap s') m = [q]"
    have "incoming_blocks q @ waiting (hand @ pending') m = g_preds (ssa_cfg env) m
        \<and> list_all2 (\<lambda>a x. env_reaching env dm s (a, False) x) (incoming_blocks q) (incoming_values q)"
    proof (cases "m = l")
      case True
      with q have "q = p" by (simp add: s'_def)
      with True \<open>waiting (hand @ pending) l = []\<close> show ?thesis by (simp add: p_def pending'_def)
    next
      case False
      then have "dlist (ssa_phimap s) m = [q]" using q by (simp add: s'_def)
      with inc False show ?thesis by (simp add: incoming_ok_def pending'_def)
    qed
    then show "incoming_blocks q @ waiting (hand @ pending') m = g_preds (ssa_cfg env) m"
      and "list_all2 (\<lambda>a x. env_reaching env dm s' (a, False) x) (incoming_blocks q) (incoming_values q)"
      using ext by (auto elim!: list_all2_mono reaching_mono)
  next
    show "\<forall>(m, i, q) \<in> set (hand @ pending'). i = 0 \<and> phi_at s' m \<noteq> None"
    proof
      fix t assume t: "t \<in> set (hand @ pending')"
      obtain m i q where miq: "t = (m, i, q)" by (cases t)
      with t have "(m, i, q) \<in> set (hand @ pending) \<or> m = l \<and> i = 0" by (auto simp: pending'_def)
      with incoming_okD(3)[OF inc, of m i q] show "case t of (m, i, q) \<Rightarrow> i = 0 \<and> phi_at s' m \<noteq> None"
        by (auto simp: at miq)
    qed
  qed
  moreover have "missing_phis env s' \<subset> missing_phis env s"
    using l none by (auto simp: missing_phis_def at split: if_splits)
  ultimately show ?thesis using run ext at[of l] by (intro exI[of _ n] exI[of _ s'] exI[of _ pending']) simp
qed


section \<open>Walking up the dominators\<close>

text \<open>\<open>hand\<close> holds the item that has been taken from the list and is being resolved.\<close>

definition walk_done :: "ssa_env \<Rightarrow> defmap \<Rightarrow> string set \<Rightarrow> pending \<Rightarrow> int \<times> bool \<Rightarrow> ssa_state \<Rightarrow> pending
    \<Rightarrow> string option \<Rightarrow> ssa_state \<Rightarrow> pending \<Rightarrow> bool" where
  "walk_done env dm names hand point s pending r s' pending' \<longleftrightarrow>
     state_inv env dm names s' \<and> incoming_ok env dm s' (hand @ pending') \<and> extends_phis s s'
   \<and> env_reaching env dm s' point r
   \<and> (s' = s \<and> pending' = pending \<or> missing_phis env s' \<subset> missing_phis env s)"

lemma walk_def_chain_ok:
  assumes g: "env_ok env entry" and inv: "state_inv env dm names s" and inc: "incoming_ok env dm s (hand @ pending)"
    and label: "label \<in> set (g_nodes (ssa_cfg env))" and from_top: "ft \<Longrightarrow> phi_at s label = None"
  shows "\<exists>r s' pending'. walk_def_chain env label ft s pending = Some (Inr (r, s', pending'))
    \<and> walk_done env dm names hand (label, ft) s pending r s' pending'"
proof -
  note graph = g[unfolded env_ok_def]
  let ?D = "gdom (ssa_cfg env) entry"
  let ?P = "\<lambda>(l, f, s1, p1, r). case r of
      None \<Rightarrow> s1 = s \<and> p1 = pending \<and> l \<in> set (g_nodes (ssa_cfg env)) \<and> (f \<longrightarrow> phi_at s l = None)
        \<and> (\<forall>s2 x. env_reaching env dm s2 (l, f) x \<longrightarrow> env_reaching env dm s2 (label, ft) x)
    | Some x \<Rightarrow> walk_done env dm names hand (label, ft) s pending x s1 p1"
  let ?m = "\<lambda>(l, f :: bool, s1 :: ssa_state, p1 :: pending, r :: string option option).
      case r of None \<Rightarrow> Suc (card {v. ?D v l}) | Some _ \<Rightarrow> 0"
  have "\<exists>st. loopE (\<lambda>(label, from_top, s, pending, r). r = None) (walk_step env) (label, ft, s, pending, None) = Some (Inr st)
    \<and> ?P st \<and> \<not> (\<lambda>(label, from_top, s, pending, r). r = None) st"
  proof (rule loopE_rule[where P = ?P and r = "measure ?m"])
    show "?P (label, ft, s, pending, None)" using label from_top by simp
  next
    fix st assume P: "?P st" and "(\<lambda>(label, from_top, s, pending, r). r = None) st"
    then obtain l f where st: "st = (l, f, s, pending, None)" by (cases st) auto
    with P have l: "l \<in> set (g_nodes (ssa_cfg env))" "f \<Longrightarrow> phi_at s l = None"
      and lift: "\<And>s2 x. env_reaching env dm s2 (l, f) x \<Longrightarrow> env_reaching env dm s2 (label, ft) x" by auto
    let ?defs = "dlist (ssa_defmap s) l"
    have defs: "?defs = (case phi_at s l of None \<Rightarrow> [] | Some n \<Rightarrow> [PhiDef 0 n]) @ dlist dm l"
      by (rule state_invD(4)[OF inv])
    show "\<exists>s'. walk_step env st = Some (Inr s') \<and> ?P s' \<and> (s', st) \<in> measure ?m"
    proof (cases "\<not> f \<and> ?defs \<noteq> []")
      case True
      have "env_reaching env dm s (l, False) (Some (def_target (last ?defs)))"
      proof (cases "dlist dm l = []")
        case None: True
        with True defs obtain n where n: "phi_at s l = Some n" by (cases "phi_at s l") auto
        then have "l \<in> set (phi_locations env)" by (rule state_invD(5)[OF inv])
        with None n defs show ?thesis using reaching.from_phi[of False dm l] by simp
      next
        case False
        then show ?thesis using reaching.from_def[OF False] by (simp add: defs)
      qed
      with True lift inv inc have "walk_done env dm names hand (label, ft) s pending (Some (def_target (last ?defs))) s pending"
        by (simp add: walk_done_def)
      with True show ?thesis by (auto simp: st walk_step_def Let_def)
    next
      case False
      then have none: "phi_at s l = None" "f \<or> dlist dm l = []"
        using l(2) defs by (auto split: option.splits)
      show ?thesis
      proof (cases "l \<in> set (phi_locations env)")
        case loc: True
        from insert_phi_ok[OF g inv inc loc l(1) none(1)] obtain n s' pending' where
          ins: "insert_phi env l s pending = Some (Inr (n, s', pending'))" "state_inv env dm names s'"
          "incoming_ok env dm s' (hand @ pending')" "extends_phis s s'" "phi_at s' l = Some n"
          "missing_phis env s' \<subset> missing_phis env s" by blast
        have "env_reaching env dm s' (l, f) (Some n)" 
          using reaching.from_phi[OF none(2) loc, of "phi_at s'" n] ins(5) by simp
        with lift ins have "walk_done env dm names hand (label, ft) s pending (Some n) s' pending'"
          by (simp add: walk_done_def)
        with False loc ins(1) show ?thesis by (auto simp: st walk_step_def Let_def)
      next
        case no_phi: False
        show ?thesis
        proof (cases "l = entry")
          case True
          have idom: "map_of (ssa_idoms env) l = Some (Some l)" using ssa_idom_entry[OF graph] True by simp
          have "env_reaching env dm s (l, f) None" by (rule reaching.from_start[OF none(2) no_phi idom])
          with lift inv inc have "walk_done env dm names hand (label, ft) s pending None s pending"
            by (simp add: walk_done_def)
          with False no_phi idom show ?thesis by (auto simp: st walk_step_def Let_def dget_def)
        next
          case node: False
          then obtain d where d: "map_of (ssa_idoms env) l = Some (Some d)" "d \<noteq> l" "?D d l"
            "d \<in> set (g_nodes (ssa_cfg env))" "\<forall>v. ?D v d \<longleftrightarrow> ?D v l \<and> v \<noteq> l"
            by (rule ssa_idom_node[OF graph l(1)])
          have "env_reaching env dm s2 (label, ft) x" if "env_reaching env dm s2 (d, False) x" for s2 x
            by (rule lift[OF reaching.from_idom[OF none(2) no_phi d(1,2) that]])
          moreover have "walk_step env st = Some (Inr (d, False, s, pending, None))"
            using False no_phi d(1,2) by (auto simp: st walk_step_def Let_def dget_def)
          ultimately show ?thesis using d(4) ssa_doms_decrease[OF graph d(2,3,5)]
            by (intro exI[of _ "(d, False, s, pending, None)"]) (simp add: st)
        qed
      qed
    qed
  qed simp
  then obtain l f s' pending' r where
    "loopE (\<lambda>(label, from_top, s, pending, r). r = None) (walk_step env) (label, ft, s, pending, None) = Some (Inr (l, f, s', pending', Some r))"
    "walk_done env dm names hand (label, ft) s pending r s' pending'" by auto
  then show ?thesis by (simp add: walk_def_chain_def)
qed


section \<open>Resolving the phi nodes\<close>

lemma add_incoming_ok:
  assumes inv: "state_inv env dm names s" and inc: "incoming_ok env dm s ((l, i, q) # rest)"
    and x: "env_reaching env dm s (q, False) x"
  shows "state_inv env dm names (add_incoming l i x q s)" and "incoming_ok env dm (add_incoming l i x q s) rest"
    and "phi_at (add_incoming l i x q s) = phi_at s"
proof -
  let ?s = "add_incoming l i x q s"
  have i: "i = 0" "phi_at s l \<noteq> None" using inc by (auto simp: incoming_ok_def)
  then obtain p where p: "dlist (ssa_phimap s) l = [p]" using phi_at_list(2)[OF inv] by blast
  let ?p = "p\<lparr>incoming_values := incoming_values p @ [x], incoming_blocks := incoming_blocks p @ [q]\<rparr>"
  have s': "?s = s\<lparr>ssa_phimap := dset l [?p] (ssa_phimap s)\<rparr>" by (simp add: add_incoming_def p i(1))
  have at: "phi_at ?s m = phi_at s m" for m using p by (simp add: phi_at_def s')
  then show "phi_at ?s = phi_at s" ..
  have "l \<in> fst ` set (ssa_phimap s)"
    using p by (cases "map_of (ssa_phimap s) l") (auto simp: dlist_def dest: map_of_SomeD intro: rev_image_eqI)
  then have keys: "dkeys (ssa_phimap ?s) = dkeys (ssa_phimap s)" by (simp add: s' dset_keys_present)
  have len: "length (dlist (ssa_phimap ?s) m) \<le> 1" for m
    using state_invD(3)[OF inv, of m] by (simp add: s')
  show "state_inv env dm names ?s"
    using inv len unfolding state_inv_def at keys by (simp add: s')
  show "incoming_ok env dm ?s rest"
    unfolding incoming_ok_def
  proof (intro conjI allI impI)
    fix m r assume r: "dlist (ssa_phimap ?s) m = [r]"
    show "incoming_blocks r @ waiting rest m = g_preds (ssa_cfg env) m"
      and "list_all2 (\<lambda>a x. env_reaching env dm ?s (a, False) x) (incoming_blocks r) (incoming_values r)"
    proof -
      have "incoming_blocks r @ waiting rest m = g_preds (ssa_cfg env) m
          \<and> list_all2 (\<lambda>a x. env_reaching env dm s (a, False) x) (incoming_blocks r) (incoming_values r)"
      proof (cases "m = l")
        case True
        with r have "r = ?p" by (simp add: s')
        then show ?thesis using incoming_okD(1,2)[OF inc p] True x by (simp add: list_all2_appendI)
      next
        case False
        with r have "dlist (ssa_phimap s) m = [r]" by (simp add: s')
        from incoming_okD(1,2)[OF inc this] False show ?thesis by simp
      qed
      then show "incoming_blocks r @ waiting rest m = g_preds (ssa_cfg env) m"
        and "list_all2 (\<lambda>a x. env_reaching env dm ?s (a, False) x) (incoming_blocks r) (incoming_values r)"
        unfolding \<open>phi_at ?s = phi_at s\<close> by blast+
    qed
  next
    show "\<forall>(m, j, a) \<in> set rest. j = 0 \<and> phi_at ?s m \<noteq> None"
      using inc unfolding at by (simp add: incoming_ok_def)
  qed
qed

lemma finite_missing [simp]: "finite (missing_phis env s)"
  by (simp add: missing_phis_def)

lemma resolve_step_ok:
  assumes g: "env_ok env entry" and inv: "state_inv env dm names s" and inc: "incoming_ok env dm s pending"
    and ne: "pending \<noteq> []"
  shows "\<exists>s' pending'. resolve_step env (s, pending) = Some (Inr (s', pending'))
    \<and> state_inv env dm names s' \<and> incoming_ok env dm s' pending' \<and> extends_phis s s'
    \<and> (card (missing_phis env s') < card (missing_phis env s)
       \<or> card (missing_phis env s') = card (missing_phis env s) \<and> length pending' < length pending)"
proof -
  obtain l i q rest where p: "pending = (l, i, q) # rest" using ne by (cases pending) auto
  have "phi_at s l \<noteq> None" using inc by (auto simp: incoming_ok_def p)
  then obtain ph where "dlist (ssa_phimap s) l = [ph]" using phi_at_list(2)[OF inv] by blast
  from incoming_okD(1)[OF inc this] have "q \<in> set (g_preds (ssa_cfg env) l)" unfolding p by (auto dest: sym)
  then have q: "q \<in> set (g_nodes (ssa_cfg env))"
    using cfg_wfD(3,6)[of "ssa_cfg env"] g ssa_graphD(1) by (auto simp: env_ok_def)
  have inc1: "incoming_ok env dm s ([(l, i, q)] @ rest)" using inc by (simp add: p)
  from walk_def_chain_ok[OF g inv inc1 q, of False] obtain x s1 rest1 where
    w: "walk_def_chain env q False s rest = Some (Inr (x, s1, rest1))"
      "walk_done env dm names [(l, i, q)] (q, False) s rest x s1 rest1" by auto
  then have d: "state_inv env dm names s1" "incoming_ok env dm s1 ((l, i, q) # rest1)" "extends_phis s s1"
    "env_reaching env dm s1 (q, False) x"
    "s1 = s \<and> rest1 = rest \<or> missing_phis env s1 \<subset> missing_phis env s" by (simp_all add: walk_done_def)
  note a = add_incoming_ok[OF d(1,2,4)]
  have "missing_phis env (add_incoming l i x q s1) = missing_phis env s1" by (simp add: missing_phis_def a(3))
  moreover have "resolve_step env (s, pending) = Some (Inr (add_incoming l i x q s1, rest1))"
    using w(1) by (simp add: resolve_step_def p)
  ultimately show ?thesis using a d(3,5) psubset_card_mono[OF finite_missing, of "missing_phis env s1" env s]
    by (auto simp: p)
qed

lemma find_def_from_top_ok:
  assumes g: "env_ok env entry" and inv: "state_inv env dm names s" and inc: "incoming_ok env dm s []"
    and label: "label \<in> set (g_nodes (ssa_cfg env))" and none: "phi_at s label = None"
  shows "\<exists>r s'. find_def_from_top env label s = Some (Inr (r, s')) \<and> state_inv env dm names s'
    \<and> incoming_ok env dm s' [] \<and> extends_phis s s' \<and> env_reaching env dm s' (label, True) r"
proof -
  from walk_def_chain_ok[OF g inv, of "[]" "[]" label True] inc label none obtain r s1 p1 where
    w: "walk_def_chain env label True s [] = Some (Inr (r, s1, p1))"
      "walk_done env dm names [] (label, True) s [] r s1 p1" by auto
  then have d: "state_inv env dm names s1" "incoming_ok env dm s1 p1" "extends_phis s s1"
    "env_reaching env dm s1 (label, True) r" by (simp_all add: walk_done_def)
  let ?P = "\<lambda>(s', p'). state_inv env dm names s' \<and> incoming_ok env dm s' p' \<and> extends_phis s1 s'"
  let ?r = "inv_image (less_than <*lex*> less_than) (\<lambda>(s', p' :: pending). (card (missing_phis env s'), length p'))"
  have "\<exists>st. loopE (\<lambda>(s, pending). pending \<noteq> []) (resolve_step env) (s1, p1) = Some (Inr st) \<and> ?P st
      \<and> \<not> (\<lambda>(s :: ssa_state, pending :: pending). pending \<noteq> []) st"
  proof (rule loopE_rule[where P = ?P and r = ?r])
    show "wf ?r" by (intro wf_inv_image wf_lex_prod wf_less_than)
  next
    fix st assume P: "?P st" and b: "(\<lambda>(s :: ssa_state, pending :: pending). pending \<noteq> []) st"
    obtain s2 p2 where st: "st = (s2, p2)" by (cases st)
    with P b have "state_inv env dm names s2" "incoming_ok env dm s2 p2" "p2 \<noteq> []" "extends_phis s1 s2" by auto
    with resolve_step_ok[OF g this(1-3)] obtain s3 p3 where
      "resolve_step env (s2, p2) = Some (Inr (s3, p3))" "state_inv env dm names s3" "incoming_ok env dm s3 p3"
      "extends_phis s1 s3"
      "card (missing_phis env s3) < card (missing_phis env s2)
       \<or> card (missing_phis env s3) = card (missing_phis env s2) \<and> length p3 < length p2" by blast
    then show "\<exists>s'. resolve_step env st = Some (Inr s') \<and> ?P s' \<and> (s', st) \<in> ?r"
      by (intro exI[of _ "(s3, p3)"]) (simp add: st)
  qed (use d in simp)
  then obtain s2 where loop: "loopE (\<lambda>(s, pending). pending \<noteq> []) (resolve_step env) (s1, p1) = Some (Inr (s2, []))"
    and s2: "state_inv env dm names s2" "incoming_ok env dm s2 []" "extends_phis s1 s2" by auto
  have "env_reaching env dm s2 (label, True) r" using d(4) by (rule reaching_mono) (use s2(3) in blast)
  moreover have "find_def_from_top env label s = Some (Inr (r, s2))" using w(1) loop by (simp add: find_def_from_top_def)
  ultimately show ?thesis using s2 d(3) by blast
qed

end
