(* ===== verification/SSAPass.thy ===== *)
theory SSAPass
  imports SSAWalk
begin

text \<open>
  What the two passes for one violating variable produce: \<open>_fresh_vars\<close> names every assignment
  anew, \<open>_fix_ssa_vars\<close> gives each use the definition that reaches it and prepends the phi
  nodes.
\<close>

section \<open>Rules for block passes\<close>

lemma block_pass_rule:
  assumes "P 0 [] s"
    and "\<And>i nb s. i < length blk \<Longrightarrow> length nb = i \<Longrightarrow> P i nb s \<Longrightarrow>
      \<exists>st' s'. h label blk i (blk ! i) s = Some (Inr (st', s')) \<and> P (Suc i) (nb @ [st']) s'"
  shows "\<exists>nb s'. run_ssa_block_pass h label blk s = Some (Inr (nb, s')) \<and> length nb = length blk \<and> P (length blk) nb s'"
proof -
  let ?f = "\<lambda>(i, st) (newbody, s). bindO (h label blk i st s) (\<lambda>(st', s'). Some (Inr (newbody @ [st'], s')))"
  let ?Q = "\<lambda>xs (nb, s). length nb \<le> length blk \<and> xs = enumerate (length nb) (drop (length nb) blk) \<and> P (length nb) nb s"
  have "\<exists>st. foldO ?f (enumerate 0 blk) ([], s) = Some (Inr st) \<and> ?Q [] st"
  proof (rule foldO_rule[where P = ?Q])
    fix x xs st assume Q: "?Q (x # xs) st"
    obtain nb s where st: "st = (nb, s)" by (cases st)
    let ?i = "length nb"
    have lt: "?i < length blk" using Q by (cases "?i = length blk") (auto simp: st)
    then have "drop ?i blk = blk ! ?i # drop (Suc ?i) blk" by (simp add: Cons_nth_drop_Suc)
    with Q have x: "x = (?i, blk ! ?i)" "xs = enumerate (Suc ?i) (drop (Suc ?i) blk)" by (simp_all add: st)
    from Q have "P ?i nb s" by (simp add: st)
    from assms(2)[OF lt refl this] obtain st' s' where
      "h label blk ?i (blk ! ?i) s = Some (Inr (st', s'))" "P (Suc ?i) (nb @ [st']) s'" by blast
    with lt x(2) show "\<exists>s'. ?f x st = Some (Inr s') \<and> ?Q xs s'" by (simp add: st x(1))
  qed (use assms(1) in simp)
  then obtain nb s' where st: "foldO ?f (enumerate 0 blk) ([], s) = Some (Inr (nb, s'))" "?Q [] (nb, s')" by auto
  then have "length nb = length blk" by (cases "drop (length nb) blk") auto
  with st show ?thesis by (simp add: run_ssa_block_pass_def)
qed

lemma block_rewrite_rule:
  assumes distinct: "distinct (dkeys blocks)" and "Q [] [] s"
    and "\<And>pre l blk post npre s. blocks = pre @ (l, blk) # post \<Longrightarrow> dkeys npre = dkeys pre \<Longrightarrow> Q pre npre s \<Longrightarrow>
      \<exists>nb s'. run_ssa_block_pass h l blk s = Some (Inr (nb, s')) \<and> Q (pre @ [(l, blk)]) (npre @ [(l, nb)]) s'"
  shows "\<exists>nbs s'. run_block_rewrite h blocks s = Some (Inr (nbs, s')) \<and> dkeys nbs = dkeys blocks \<and> Q blocks nbs s'"
proof -
  let ?f = "\<lambda>(label, blk) (newblocks, s).
      bindO (run_ssa_block_pass h label blk s) (\<lambda>(newbody, s'). Some (Inr (dset label newbody newblocks, s')))"
  let ?R = "\<lambda>xs (npre, s). \<exists>pre. blocks = pre @ xs \<and> dkeys npre = dkeys pre \<and> Q pre npre s"
  have "\<exists>st. foldO ?f blocks ([], s) = Some (Inr st) \<and> ?R [] st"
  proof (rule foldO_rule[where P = ?R])
    show "?R blocks ([], s)" using assms(2) by simp
  next
    fix x xs st assume R: "?R (x # xs) st"
    obtain npre s1 where st: "st = (npre, s1)" by (cases st)
    obtain l blk where x: "x = (l, blk)" by (cases x)
    from R obtain pre where pre: "blocks = pre @ (l, blk) # xs" "dkeys npre = dkeys pre" "Q pre npre s1"
      by (auto simp: st x)
    from assms(3)[OF this] obtain nb s' where
      run: "run_ssa_block_pass h l blk s1 = Some (Inr (nb, s'))" "Q (pre @ [(l, blk)]) (npre @ [(l, nb)]) s'" by blast
    have "l \<notin> set (dkeys npre)" using distinct pre(1,2) by simp
    then have "dset l nb npre = npre @ [(l, nb)]" by (induction npre) auto
    with run pre show "\<exists>s'. ?f x st = Some (Inr s') \<and> ?R xs s'"
      by (auto simp: st x intro!: exI[of _ "pre @ [(l, blk)]"])
  qed
  then show ?thesis by (auto simp: run_block_rewrite_def)
qed

section \<open>Fresh variables\<close>

definition assigns_to :: "string \<Rightarrow> 'c stmt \<Rightarrow> bool" where
  "assigns_to v st = (case st of Assign e t \<Rightarrow> t = v | _ \<Rightarrow> False)"

definition def_pos :: "ssa_def \<Rightarrow> nat" where
  "def_pos d = (case d of StmtDef i x \<Rightarrow> i | PhiDef i x \<Rightarrow> i)"

text \<open>A body after \<open>_FreshVarHandler\<close>, with the definitions that were recorded for it.\<close>

definition fresh_body :: "string \<Rightarrow> 'c block \<Rightarrow> 'c block \<Rightarrow> ssa_def list \<Rightarrow> bool" where
  "fresh_body v body nb ds \<longleftrightarrow> length nb = length body \<and> sorted_wrt (<) (map def_pos ds)
     \<and> (\<forall>d \<in> set ds. \<exists>i w e. d = StmtDef i w \<and> i < length body \<and> body ! i = Assign e v \<and> nb ! i = Assign e w)
     \<and> (\<forall>i < length body. if assigns_to v (body ! i) then \<exists>w. StmtDef i w \<in> set ds else nb ! i = body ! i)"

definition fresh_names :: "string \<Rightarrow> string set \<Rightarrow> string list \<Rightarrow> scope \<Rightarrow> bool" where
  "fresh_names v names T sc \<longleftrightarrow> v \<in> names \<and> distinct T \<and> set T \<subseteq> insert v (- names)
     \<and> set T \<subseteq> set (localvars sc) \<and> names \<subseteq> set (localvars sc)"

lemma fresh_handler_ok:
  assumes names: "fresh_names v names T sc" and T: "dmap = [] \<longleftrightarrow> T = []"
  shows "assigns_to v st \<Longrightarrow> \<exists>e w sc' dmap'. st = Assign e v \<and>
      fresh_handler v label blk i st (sc, dmap) = Some (Inr (Assign e w, (sc', dmap')))
      \<and> fresh_names v names (T @ [w]) sc' \<and> dmap' \<noteq> []
      \<and> (\<forall>m. dlist dmap' m = (if m = label then dlist dmap m @ [StmtDef i w] else dlist dmap m))"
    and "\<not> assigns_to v st \<Longrightarrow> fresh_handler v label blk i st (sc, dmap) = Some (Inr (st, (sc, dmap)))"
proof -
  assume "assigns_to v st"
  then obtain e where st: "st = Assign e v" by (auto simp: assigns_to_def split: stmt.splits)
  have ne: "dset label x dmap \<noteq> []" for x by (cases dmap) auto
  obtain w sc' where w: "(if dmap = [] then Some (Inr (v, sc)) else redefine v sc) = Some (Inr (w, sc'))"
    "fresh_names v names (T @ [w]) sc'"
  proof (cases "dmap = []")
    case True
    with names T that[of v sc] show thesis by (auto simp: fresh_names_def)
  next
    case False
    have "v \<in> set (localvars sc)" using names by (auto simp: fresh_names_def)
    from redefine_fresh[OF this] obtain w sc' where
      "redefine v sc = Some (Inr (w, sc'))" "w \<notin> set (localvars sc)" "set (localvars sc') = insert w (set (localvars sc))"
      by blast
    with False names that[of w sc'] show thesis by (auto simp: fresh_names_def)
  qed
  then show "\<exists>e w sc' dmap'. st = Assign e v \<and>
      fresh_handler v label blk i st (sc, dmap) = Some (Inr (Assign e w, (sc', dmap')))
      \<and> fresh_names v names (T @ [w]) sc' \<and> dmap' \<noteq> []
      \<and> (\<forall>m. dlist dmap' m = (if m = label then dlist dmap m @ [StmtDef i w] else dlist dmap m))"
    using ne by (intro exI[of _ e] exI[of _ w] exI[of _ sc'] exI[of _ "dset label (dlist dmap label @ [StmtDef i w]) dmap"])
      (simp add: st fresh_handler_def)
next
  assume "\<not> assigns_to v st"
  then show "fresh_handler v label blk i st (sc, dmap) = Some (Inr (st, (sc, dmap)))"
    by (auto simp: fresh_handler_def assigns_to_def split: stmt.splits)
qed

lemma fresh_body_snoc:
  assumes "fresh_body v body nb ds"
  shows "fresh_body v (body @ [Assign e v]) (nb @ [Assign e w]) (ds @ [StmtDef (length body) w])"
    and "\<not> assigns_to v st \<Longrightarrow> fresh_body v (body @ [st]) (nb @ [st]) ds"
proof -
  have len: "length nb = length body" using assms by (simp add: fresh_body_def)
  have old: "\<exists>i w e. d = StmtDef i w \<and> i < Suc (length body) \<and> (body @ [s]) ! i = Assign e v \<and> (nb @ [t]) ! i = Assign e w"
    if "d \<in> set ds" for d s t
  proof -
    from assms that obtain i w e where "d = StmtDef i w" "i < length body" "body ! i = Assign e v" "nb ! i = Assign e w"
      unfolding fresh_body_def by blast
    with len show ?thesis by (intro exI[of _ i] exI[of _ w] exI[of _ e]) (simp add: nth_append)
  qed
  have below: "def_pos d < length body" if "d \<in> set ds" for d
    using assms that unfolding fresh_body_def by (auto simp: def_pos_def)
  have sorted: "sorted_wrt (<) (map def_pos ds)" using assms by (simp add: fresh_body_def)
  show "fresh_body v (body @ [Assign e v]) (nb @ [Assign e w]) (ds @ [StmtDef (length body) w])"
    unfolding fresh_body_def
  proof (intro conjI ballI allI impI)
    show "sorted_wrt (<) (map def_pos (ds @ [StmtDef (length body) w]))"
      using sorted below by (auto simp: sorted_wrt_append def_pos_def[of "StmtDef _ _"])
    show "length (nb @ [Assign e w]) = length (body @ [Assign e v])" using len by simp
    fix d assume "d \<in> set (ds @ [StmtDef (length body) w])"
    then show "\<exists>i x a. d = StmtDef i x \<and> i < length (body @ [Assign e v]) \<and> (body @ [Assign e v]) ! i = Assign a v
        \<and> (nb @ [Assign e w]) ! i = Assign a x"
      using old[of d] len by (cases "d \<in> set ds") (simp, simp add: nth_append)
  next
    fix i assume "i < length (body @ [Assign e v])"
    then show "if assigns_to v ((body @ [Assign e v]) ! i) then \<exists>x. StmtDef i x \<in> set (ds @ [StmtDef (length body) w])
        else (nb @ [Assign e w]) ! i = (body @ [Assign e v]) ! i"
      using assms len by (cases "i = length body") (auto simp: nth_append fresh_body_def assigns_to_def)
  qed
  show "fresh_body v (body @ [st]) (nb @ [st]) ds" if "\<not> assigns_to v st"
    unfolding fresh_body_def
  proof (intro conjI ballI allI impI)
    show "length (nb @ [st]) = length (body @ [st])" using len by simp
    show "sorted_wrt (<) (map def_pos ds)" by (rule sorted)
    show "\<exists>i x a. d = StmtDef i x \<and> i < length (body @ [st]) \<and> (body @ [st]) ! i = Assign a v \<and> (nb @ [st]) ! i = Assign a x"
      if "d \<in> set ds" for d using old[OF that, of st st] by simp
  next
    fix i assume "i < length (body @ [st])"
    then show "if assigns_to v ((body @ [st]) ! i) then \<exists>x. StmtDef i x \<in> set ds else (nb @ [st]) ! i = (body @ [st]) ! i"
      using assms len that by (cases "i = length body") (auto simp: nth_append fresh_body_def)
  qed
qed

definition def_names :: "defmap \<Rightarrow> int list \<Rightarrow> string list" where
  "def_names dm ls = concat (map (\<lambda>l. map def_target (dlist dm l)) ls)"

lemma fresh_vars_ok:
  assumes distinct: "distinct (dkeys blocks)" and v: "v \<in> set (localvars sc)"
  shows "\<exists>nb sc' dm. fresh_vars blocks v sc = Some (Inr (nb, sc', dm)) \<and> dkeys nb = dkeys blocks
    \<and> (\<forall>l body. map_of blocks l = Some body \<longrightarrow> (\<exists>body'. map_of nb l = Some body' \<and> fresh_body v body body' (dlist dm l)))
    \<and> (\<forall>l. l \<notin> set (dkeys blocks) \<longrightarrow> dlist dm l = [])
    \<and> fresh_names v (set (localvars sc)) (def_names dm (dkeys blocks)) sc'"
proof -
  let ?names = "set (localvars sc)"
  let ?Q = "\<lambda>pre npre (sc', dm). (\<forall>l. l \<notin> set (dkeys pre) \<longrightarrow> dlist dm l = [])
    \<and> (\<forall>(l, body) \<in> set pre. \<exists>body'. map_of npre l = Some body' \<and> fresh_body v body body' (dlist dm l))
    \<and> (dm = [] \<longleftrightarrow> def_names dm (dkeys pre) = []) \<and> fresh_names v ?names (def_names dm (dkeys pre)) sc'"
  have "\<exists>nbs s'. run_block_rewrite (fresh_handler v) blocks (sc, []) = Some (Inr (nbs, s')) \<and> dkeys nbs = dkeys blocks \<and> ?Q blocks nbs s'"
  proof (rule block_rewrite_rule[OF distinct])
    show "?Q [] [] (sc, [])" using v by (simp add: dlist_def def_names_def fresh_names_def)
  next
    fix pre l blk post npre s
    assume split: "blocks = pre @ (l, blk) # post" and keys: "dkeys npre = dkeys pre" and Q: "?Q pre npre s"
    obtain sc0 dm0 where s: "s = (sc0, dm0)" by (cases s)
    have l: "l \<notin> set (dkeys pre)" using distinct split by simp
    let ?T = "def_names dm0 (dkeys pre)"
    have Q0: "\<forall>m. m \<notin> set (dkeys pre) \<longrightarrow> dlist dm0 m = []" "dm0 = [] \<longleftrightarrow> ?T = []" "fresh_names v ?names ?T sc0"
      "\<forall>(m, body) \<in> set pre. \<exists>body'. map_of npre m = Some body' \<and> fresh_body v body body' (dlist dm0 m)"
      using Q by (simp_all add: s)
    let ?P = "\<lambda>i nb (sc', dm). fresh_body v (take i blk) nb (dlist dm l) \<and> (\<forall>m. m \<noteq> l \<longrightarrow> dlist dm m = dlist dm0 m)
      \<and> (dm = [] \<longleftrightarrow> ?T @ map def_target (dlist dm l) = []) \<and> fresh_names v ?names (?T @ map def_target (dlist dm l)) sc'"
    have "\<exists>nb s'. run_ssa_block_pass (fresh_handler v) l blk s = Some (Inr (nb, s')) \<and> length nb = length blk \<and> ?P (length blk) nb s'"
    proof (rule block_pass_rule[where P = ?P])
      show "?P 0 [] s" using Q0 l by (simp add: s fresh_body_def)
    next
      fix i nb s1 assume i: "i < length blk" and "length nb = i" and P: "?P i nb s1"
      obtain sc1 dm1 where s1: "s1 = (sc1, dm1)" by (cases s1)
      let ?T1 = "?T @ map def_target (dlist dm1 l)"
      have P1: "fresh_body v (take i blk) nb (dlist dm1 l)" "\<forall>m. m \<noteq> l \<longrightarrow> dlist dm1 m = dlist dm0 m"
        "dm1 = [] \<longleftrightarrow> ?T1 = []" "fresh_names v ?names ?T1 sc1" using P by (simp_all add: s1)
      have take: "take (Suc i) blk = take i blk @ [blk ! i]" using i by (rule take_Suc_conv_app_nth)
      show "\<exists>st' s'. fresh_handler v l blk i (blk ! i) s1 = Some (Inr (st', s')) \<and> ?P (Suc i) (nb @ [st']) s'"
      proof (cases "assigns_to v (blk ! i)")
        case True
        from fresh_handler_ok(1)[OF P1(4,3) True, of l blk i] obtain e w sc2 dm2 where
          h: "blk ! i = Assign e v" "fresh_handler v l blk i (blk ! i) (sc1, dm1) = Some (Inr (Assign e w, (sc2, dm2)))"
            "fresh_names v ?names (?T1 @ [w]) sc2" "dm2 \<noteq> []"
            "\<forall>m. dlist dm2 m = (if m = l then dlist dm1 m @ [StmtDef i w] else dlist dm1 m)" by blast
        have "fresh_body v (take (Suc i) blk) (nb @ [Assign e w]) (dlist dm2 l)"
          using fresh_body_snoc(1)[OF P1(1), of e w] i h(5) unfolding take h(1) by (simp add: min_absorb2)
        with h P1(2) show ?thesis
          by (intro exI[of _ "Assign e w"] exI[of _ "(sc2, dm2)"]) (simp add: s1)
      next
        case False
        from fresh_body_snoc(2)[OF P1(1) False] fresh_handler_ok(2)[OF P1(4,3) False] P1
        show ?thesis unfolding take by (intro exI[of _ "blk ! i"] exI[of _ s1]) (simp add: s1)
      qed
    qed
    then obtain nb sc1 dm1 where run: "run_ssa_block_pass (fresh_handler v) l blk s = Some (Inr (nb, (sc1, dm1)))"
      and P: "?P (length blk) nb (sc1, dm1)" by auto
    have same: "dlist dm1 m = dlist dm0 m" if "m \<in> set (dkeys pre)" for m using P l that by auto
    then have names1: "def_names dm1 (dkeys pre) = ?T"
      unfolding def_names_def by (intro arg_cong[where f = concat] map_cong) simp_all
    have T1: "def_names dm1 (dkeys (pre @ [(l, blk)])) = ?T @ map def_target (dlist dm1 l)"
      using names1 by (simp add: def_names_def)
    have outside: "\<forall>m. m \<notin> set (dkeys (pre @ [(l, blk)])) \<longrightarrow> dlist dm1 m = []" using P Q0(1) by auto
    have "\<forall>(m, body) \<in> set (pre @ [(l, blk)]). \<exists>body'. map_of (npre @ [(l, nb)]) m = Some body'
        \<and> fresh_body v body body' (dlist dm1 m)"
    proof
      fix x assume x: "x \<in> set (pre @ [(l, blk)])"
      obtain m body where m: "x = (m, body)" by (cases x)
      show "case x of (m, body) \<Rightarrow> \<exists>body'. map_of (npre @ [(l, nb)]) m = Some body' \<and> fresh_body v body body' (dlist dm1 m)"
      proof (cases "(m, body) \<in> set pre")
        case True
        with Q0(4) obtain body' where "map_of npre m = Some body'" "fresh_body v body body' (dlist dm0 m)" by blast
        moreover have "m \<in> set (dkeys pre)" using True by force
        ultimately show ?thesis using same by (simp add: m map_add_Some_iff)
      next
        case False
        with x m have "m = l" "body = blk" by auto
        moreover have "map_of npre l = None" using keys l by (simp add: map_of_eq_None_iff flip: set_map)
        ultimately show ?thesis using P by (simp add: m map_add_def)
      qed
    qed
    then have "?Q (pre @ [(l, blk)]) (npre @ [(l, nb)]) (sc1, dm1)"
      using P outside unfolding prod.case T1 by blast
    with run show "\<exists>nb s'. run_ssa_block_pass (fresh_handler v) l blk s = Some (Inr (nb, s')) \<and> ?Q (pre @ [(l, blk)]) (npre @ [(l, nb)]) s'"
      by blast
  qed
  then obtain nb sc' dm where run: "run_block_rewrite (fresh_handler v) blocks (sc, []) = Some (Inr (nb, (sc', dm)))"
    and keys: "dkeys nb = dkeys blocks" and Q: "?Q blocks nb (sc', dm)" by auto
  have "\<exists>body'. map_of nb l = Some body' \<and> fresh_body v body body' (dlist dm l)" if "map_of blocks l = Some body" for l body
    using Q map_of_SomeD[OF that] by blast
  with run keys Q show ?thesis by (simp add: fresh_vars_def)
qed

end
