(* ===== verification/SSAFix.thy ===== *)
theory SSAFix
  imports SSAPass
begin

text \<open>
  What \<open>_fix_ssa_vars\<close> produces: each use gets the definition that reaches it, and the phi nodes
  are prepended to their blocks.
\<close>

section \<open>The definition used by a statement\<close>

definition at_point ::
  "int set \<Rightarrow> (int, int option) dict \<Rightarrow> defmap \<Rightarrow> (int \<Rightarrow> string option) \<Rightarrow> int \<Rightarrow> nat \<Rightarrow> string option \<Rightarrow> bool" where
  "at_point locs idoms dm ph l i r \<longleftrightarrow>
     (let ds = filter (\<lambda>d. def_pos d < i) (dlist dm l)
      in if ds \<noteq> [] then r = Some (def_target (last ds)) else reaching locs idoms dm ph (l, True) r)"

definition fixed_stmt :: "string \<Rightarrow> string option \<Rightarrow> 'c stmt \<Rightarrow> 'c stmt" where
  "fixed_stmt v r st =
     (case r of
        None \<Rightarrow> st
      | Some w \<Rightarrow>
          if w = v then st
          else case st of Assign e t \<Rightarrow> Assign (replace_rhs v w e) t | _ \<Rightarrow> replace_stmt v w st)"

text \<open>All definitions of the block are assignments before its last statement.\<close>

definition defs_inside :: "nat \<Rightarrow> ssa_def list \<Rightarrow> bool" where
  "defs_inside n ds \<longleftrightarrow> (\<forall>d \<in> set ds. \<exists>i x. d = StmtDef i x \<and> Suc i < n)"

lemma at_point_mono:
  assumes "at_point locs idoms dm ph l i r" and "\<And>l n. ph l = Some n \<Longrightarrow> ph' l = Some n"
  shows "at_point locs idoms dm ph' l i r"
  using assms reaching_mono[of locs idoms dm ph "(l, True)" r ph']
  by (simp add: at_point_def Let_def split: if_splits)

lemma select_def_local:
  assumes "\<forall>d \<in> set ds. \<exists>i x. d = StmtDef i x \<and> i < n" and "c \<le> n"
  shows "select_def n c phis (rev ds @ rest)
    = (let ds' = filter (\<lambda>d. def_pos d < c) ds
       in if ds' \<noteq> [] then Some (def_target (last ds')) else select_def n c phis rest)"
  using assms(1)
proof (induction ds rule: rev_induct)
  case (snoc d ds)
  then obtain i x where d: "d = StmtDef i x" "i < n" by auto
  have "def_index n d (int c) < c \<longleftrightarrow> i < c" using d assms(2) by (auto simp: stmt_index_def)
  with snoc d show ?case by (simp add: def_pos_def Let_def)
qed simp

lemma find_def_ok:
  assumes g: "env_ok env entry" and inv: "state_inv env dm names s" and inc: "incoming_ok env dm s []"
    and l: "l \<in> set (g_nodes (ssa_cfg env))" and defs: "defs_inside n (dlist dm l)" and i: "i < n"
  shows "\<exists>r s'. find_def env l n i s = Some (Inr (r, s')) \<and> state_inv env dm names s' \<and> incoming_ok env dm s' []
    \<and> extends_phis s s' \<and> at_point (set (phi_locations env)) (ssa_idoms env) dm (phi_at s') l i r"
proof -
  let ?c = "stmt_index n i (- 1)" and ?ds = "filter (\<lambda>d. def_pos d < i) (dlist dm l)"
  have c: "?c = (if Suc i < n then i else n)" using i by (auto simp: stmt_index_def)
  have ds: "filter (\<lambda>d. def_pos d < ?c) (dlist dm l) = ?ds"
  proof (cases "Suc i < n")
    case False
    with i have "i = n - 1" "?c = n" using c by auto
    with defs show ?thesis by (intro filter_cong) (auto simp: defs_inside_def def_pos_def)
  qed (simp add: c)
  have "\<forall>d \<in> set (dlist dm l). \<exists>i x. d = StmtDef i x \<and> i < n" using defs by (auto simp: defs_inside_def)
  note local_defs = select_def_local[OF this, of ?c]
  let ?rest = "case phi_at s l of None \<Rightarrow> [] | Some x \<Rightarrow> [PhiDef 0 x]"
  have "rev (dlist (ssa_defmap s) l) = rev (dlist dm l) @ ?rest"
    by (simp add: state_invD(4)[OF inv] split: option.splits)
  moreover have "?c \<le> n" unfolding c using i by simp
  ultimately have sel: "select_def n ?c (dlist (ssa_phimap s) l) (rev (dlist (ssa_defmap s) l))
      = (if ?ds \<noteq> [] then Some (def_target (last ?ds)) else select_def n ?c (dlist (ssa_phimap s) l) ?rest)"
    using local_defs[of "dlist (ssa_phimap s) l" ?rest] unfolding ds Let_def by (simp only:)
  consider (local) "?ds \<noteq> []" | (phi) x where "?ds = []" "phi_at s l = Some x" | (above) "?ds = []" "phi_at s l = None"
    by (cases "phi_at s l") auto
  then show ?thesis
  proof cases
    case local
    then have "find_def env l n i s = Some (Inr (Some (def_target (last ?ds)), s))"
      using sel by (simp add: find_def_def Let_def)
    with local inv inc show ?thesis by (auto simp: at_point_def)
  next
    case phi
    then obtain p where p: "dlist (ssa_phimap s) l = [p]" "phi_target p = x" using phi_at_list(2)[OF inv] by blast
    with phi have "find_def env l n i s = Some (Inr (Some x, s))"
      using sel c i by (simp add: find_def_def Let_def)
    moreover have "env_reaching env dm s (l, True) (Some x)"
      using reaching.from_phi[of True dm l "set (phi_locations env)" "phi_at s" x] state_invD(5)[OF inv phi(2)] phi(2) by simp
    ultimately show ?thesis using phi(1) inv inc by (auto simp: at_point_def)
  next
    case above
    then have "find_def env l n i s = find_def_from_top env l s" using sel by (simp add: find_def_def Let_def)
    with find_def_from_top_ok[OF g inv inc l above(2)] above(1) show ?thesis by (simp add: at_point_def)
  qed
qed

lemma fix_var_ok:
  assumes "env_ok env entry" "state_inv env dm names s" "incoming_ok env dm s []"
    "l \<in> set (g_nodes (ssa_cfg env))" "defs_inside n (dlist dm l)" "i < n"
  shows "\<exists>nd s'. fix_var env l n i xs s = Some (Inr (nd, s')) \<and> state_inv env dm names s' \<and> incoming_ok env dm s' []
    \<and> extends_phis s s' \<and> (if ssa_varname env \<in> set xs
        then \<exists>r. nd = Some r \<and> at_point (set (phi_locations env)) (ssa_idoms env) dm (phi_at s') l i r else nd = None)"
  using find_def_ok[OF assms] assms(2,3) by (auto simp: fix_var_def)

text \<open>The relation between a statement and its replacement.\<close>

definition fixes_stmt :: "ssa_env \<Rightarrow> defmap \<Rightarrow> (int \<Rightarrow> string option) \<Rightarrow> int \<Rightarrow> nat \<Rightarrow> 'c stmt \<Rightarrow> 'c stmt \<Rightarrow> bool" where
  "fixes_stmt env dm ph l i st st' \<longleftrightarrow>
     (\<exists>r. st' = fixed_stmt (ssa_varname env) r st
       \<and> (if ssa_varname env \<in> set (reads st) then at_point (set (phi_locations env)) (ssa_idoms env) dm ph l i r
          else r = None))"

lemma fixes_stmt_mono:
  assumes "fixes_stmt env dm ph l i st st'" and "\<And>l n. ph l = Some n \<Longrightarrow> ph' l = Some n"
  shows "fixes_stmt env dm ph' l i st st'"
  using assms(1) at_point_mono[OF _ assms(2)] by (auto simp: fixes_stmt_def split: if_splits)

lemma fix_handler_ok:
  assumes "env_ok env entry" "state_inv env dm names s" "incoming_ok env dm s []"
    "l \<in> set (g_nodes (ssa_cfg env))" "defs_inside (length blk) (dlist dm l)" "i < length blk"
  shows "\<exists>st' s'. fix_handler env l blk i st s = Some (Inr (st', s')) \<and> state_inv env dm names s'
    \<and> incoming_ok env dm s' [] \<and> extends_phis s s' \<and> fixes_stmt env dm (phi_at s') l i st st'"
proof -
  let ?v = "ssa_varname env"
  from fix_var_ok[OF assms, of "reads st"] obtain nd s' where
    fv: "fix_var env l (length blk) i (reads st) s = Some (Inr (nd, s'))"
    and s': "state_inv env dm names s'" "incoming_ok env dm s' []" "extends_phis s s'"
    and nd: "if ?v \<in> set (reads st)
      then \<exists>r. nd = Some r \<and> at_point (set (phi_locations env)) (ssa_idoms env) dm (phi_at s') l i r else nd = None" by blast
  let ?r = "case nd of None \<Rightarrow> None | Some r \<Rightarrow> r"
  have sound: "fixes_stmt env dm (phi_at s') l i st (fixed_stmt ?v ?r st)"
    using nd by (auto simp: fixes_stmt_def split: if_splits)
  have repl: "replacement ?v nd = (case ?r of None \<Rightarrow> None | Some w \<Rightarrow> if w = ?v then None else Some w)"
    by (auto simp: replacement_def split: option.splits)
  have other: "fix_other env l blk i st s = Some (Inr (fixed_stmt ?v ?r st, s'))" if "\<And>e t. st \<noteq> Assign e t"
  proof -
    have "reads st = list_vars st" using that by (cases st) (auto simp: reads_def)
    with fv that show ?thesis
      by (cases st) (auto simp: fix_other_def repl fixed_stmt_def split: option.splits)
  qed
  have "fix_handler env l blk i st s = Some (Inr (fixed_stmt ?v ?r st, s'))
      \<or> (\<exists>e t. st = Assign e t \<and> reads st = [] \<and> fix_handler env l blk i st s = Some (Inr (st, s)))"
  proof (cases st)
    case (Assign e t)
    show ?thesis
    proof (cases e)
      case (InstR inst)
      with Assign fv show ?thesis
        by (auto simp: fix_handler_def fix_assign_def reads_def rhs_vars_def repl fixed_stmt_def replace_rhs_def split: option.splits)
    next
      case (VarR x)
      with Assign fv nd show ?thesis
        by (auto simp: fix_handler_def fix_assign_def reads_def rhs_vars_def repl fixed_stmt_def replace_rhs_def
            replace_name_def split: option.splits if_splits)
    qed (use Assign in \<open>simp_all add: fix_handler_def fix_assign_def reads_def rhs_vars_def\<close>)
  qed (use other in \<open>simp_all add: fix_handler_def\<close>)
  then show ?thesis
  proof
    assume "fix_handler env l blk i st s = Some (Inr (fixed_stmt ?v ?r st, s'))"
    with sound s' show ?thesis by blast
  next
    assume "\<exists>e t. st = Assign e t \<and> reads st = [] \<and> fix_handler env l blk i st s = Some (Inr (st, s))"
    then show ?thesis using assms(2,3) by (auto simp: fixes_stmt_def fixed_stmt_def)
  qed
qed

end
