(* ===== verification/SSABlocks.thy ===== *)
theory SSABlocks
  imports SSAFix
begin

text \<open>
  The blocks \<open>_fix_ssa_vars\<close> returns: every statement with the definition that reaches it, and in
  front of the body the phi node of the block, with one incoming definition per predecessor.
\<close>

section \<open>All blocks\<close>

definition fixed_body :: "ssa_env \<Rightarrow> defmap \<Rightarrow> (int \<Rightarrow> string option) \<Rightarrow> int \<Rightarrow> 'c block \<Rightarrow> 'c block \<Rightarrow> bool" where
  "fixed_body env dm ph l body nb \<longleftrightarrow>
     length nb = length body \<and> (\<forall>i < length body. fixes_stmt env dm ph l i (body ! i) (nb ! i))"

lemma fixed_body_mono:
  assumes "fixed_body env dm ph l body nb" and "\<And>l n. ph l = Some n \<Longrightarrow> ph' l = Some n"
  shows "fixed_body env dm ph' l body nb"
  using assms(1) fixes_stmt_mono[of env dm ph l _ _ _ ph', OF _ assms(2)] by (auto simp: fixed_body_def)

definition fix_inv :: "ssa_env \<Rightarrow> defmap \<Rightarrow> string set \<Rightarrow> ssa_state \<Rightarrow> bool" where
  "fix_inv env dm names s \<longleftrightarrow> state_inv env dm names s \<and> incoming_ok env dm s []"

lemma fix_block_ok:
  assumes g: "env_ok env entry" and inv: "fix_inv env dm names s" and l: "l \<in> set (g_nodes (ssa_cfg env))"
    and defs: "defs_inside (length blk) (dlist dm l)"
  shows "\<exists>nb s'. run_ssa_block_pass (fix_handler env) l blk s = Some (Inr (nb, s')) \<and> fix_inv env dm names s'
    \<and> extends_phis s s' \<and> fixed_body env dm (phi_at s') l blk nb"
proof -
  let ?P = "\<lambda>i nb s'. length nb = i \<and> fix_inv env dm names s' \<and> extends_phis s s'
    \<and> (\<forall>j < i. fixes_stmt env dm (phi_at s') l j (blk ! j) (nb ! j))"
  have "\<exists>nb s'. run_ssa_block_pass (fix_handler env) l blk s = Some (Inr (nb, s')) \<and> length nb = length blk \<and> ?P (length blk) nb s'"
  proof (rule block_pass_rule[where P = ?P])
    fix i nb s1 assume i: "i < length blk" and len: "length nb = i" and P: "?P i nb s1"
    from fix_handler_ok[OF g _ _ l defs i, of names s1 "blk ! i"] P obtain st' s2 where
      h: "fix_handler env l blk i (blk ! i) s1 = Some (Inr (st', s2))" "fix_inv env dm names s2" "extends_phis s1 s2"
        "fixes_stmt env dm (phi_at s2) l i (blk ! i) st'" unfolding fix_inv_def by blast
    have "fixes_stmt env dm (phi_at s2) l j (blk ! j) ((nb @ [st']) ! j)" if "j < Suc i" for j
    proof (cases "j = i")
      case False
      with that P have "fixes_stmt env dm (phi_at s1) l j (blk ! j) (nb ! j)" by simp
      then have "fixes_stmt env dm (phi_at s2) l j (blk ! j) (nb ! j)" by (rule fixes_stmt_mono) (use h(3) in blast)
      with False that len show ?thesis by (simp add: nth_append)
    qed (use h(4) len in \<open>simp add: nth_append\<close>)
    with h P show "\<exists>st' s'. fix_handler env l blk i (blk ! i) s1 = Some (Inr (st', s')) \<and> ?P (Suc i) (nb @ [st']) s'"
      by (intro exI[of _ st'] exI[of _ s2]) simp
  qed (use inv in simp)
  then show ?thesis unfolding fixed_body_def by blast
qed

lemma fix_pass_ok:
  assumes g: "env_ok env entry" and inv: "fix_inv env dm names s" and distinct: "distinct (dkeys blocks)"
    and keys: "set (dkeys blocks) \<subseteq> set (g_nodes (ssa_cfg env))"
    and defs: "\<And>l body. map_of blocks l = Some body \<Longrightarrow> defs_inside (length body) (dlist dm l)"
  shows "\<exists>nbs s'. run_block_rewrite (fix_handler env) blocks s = Some (Inr (nbs, s')) \<and> dkeys nbs = dkeys blocks
    \<and> fix_inv env dm names s'
    \<and> (\<forall>l body. map_of blocks l = Some body \<longrightarrow> (\<exists>nb. map_of nbs l = Some nb \<and> fixed_body env dm (phi_at s') l body nb))"
proof -
  let ?Q = "\<lambda>pre npre s'. fix_inv env dm names s'
    \<and> (\<forall>l body. map_of pre l = Some body \<longrightarrow> (\<exists>nb. map_of npre l = Some nb \<and> fixed_body env dm (phi_at s') l body nb))"
  have "\<exists>nbs s'. run_block_rewrite (fix_handler env) blocks s = Some (Inr (nbs, s')) \<and> dkeys nbs = dkeys blocks \<and> ?Q blocks nbs s'"
  proof (rule block_rewrite_rule[OF distinct])
    fix pre l blk post npre s1
    assume split: "blocks = pre @ (l, blk) # post" and npre: "dkeys npre = dkeys pre" and Q: "?Q pre npre s1"
    have l: "l \<notin> set (dkeys pre)" "map_of pre l = None" "map_of npre l = None"
      using distinct split npre by (simp_all add: map_of_eq_None_iff flip: set_map)
    have "map_of blocks l = Some blk" using l(2) by (simp add: split map_add_def)
    moreover have "l \<in> set (g_nodes (ssa_cfg env))" using keys split by simp
    ultimately obtain nb s2 where p: "run_ssa_block_pass (fix_handler env) l blk s1 = Some (Inr (nb, s2))"
      "fix_inv env dm names s2" "extends_phis s1 s2" "fixed_body env dm (phi_at s2) l blk nb"
      using fix_block_ok[OF g _ _ defs, of names s1 l] Q by blast
    have "\<exists>b. map_of (npre @ [(l, nb)]) m = Some b \<and> fixed_body env dm (phi_at s2) m body b"
      if m: "map_of (pre @ [(l, blk)]) m = Some body" for m body
    proof (cases "m = l")
      case True
      then show ?thesis using m l p(4) by (simp add: map_add_def)
    next
      case False
      with m have "map_of pre m = Some body" by (auto simp: map_add_def split: option.splits)
      with Q obtain b where b: "map_of npre m = Some b" "fixed_body env dm (phi_at s1) m body b" by blast
      from b(2) have "fixed_body env dm (phi_at s2) m body b" by (rule fixed_body_mono) (use p(3) in blast)
      with b(1) False show ?thesis by (simp add: map_add_def)
    qed
    with p show "\<exists>nb s'. run_ssa_block_pass (fix_handler env) l blk s1 = Some (Inr (nb, s'))
        \<and> ?Q (pre @ [(l, blk)]) (npre @ [(l, nb)]) s'" by blast
  qed (use inv in simp)
  then show ?thesis by blast
qed

lemma prepend_phis_ok:
  assumes "distinct (dkeys pm)" and "set (dkeys pm) \<subseteq> set (dkeys nb)"
  shows "\<exists>nb'. prepend_phis pm nb = Inr nb' \<and> dkeys nb' = dkeys nb
    \<and> (\<forall>l body. map_of nb l = Some body \<longrightarrow> map_of nb' l = Some (map phi_stmt (dlist pm l) @ body))"
  using assms
proof (induction pm arbitrary: nb)
  case Nil
  then show ?case by (simp add: prepend_phis_def dlist_def)
next
  case (Cons kp pm)
  obtain k ps where kp: "kp = (k, ps)" by (cases kp)
  with Cons.prems have k: "k \<notin> set (dkeys pm)" "distinct (dkeys pm)" "k \<in> set (dkeys nb)" "set (dkeys pm) \<subseteq> set (dkeys nb)" by auto
  then obtain body where body: "map_of nb k = Some body" by (cases "map_of nb k") (auto simp: map_of_eq_None_iff)
  let ?nb = "dset k (map phi_stmt ps @ body) nb"
  have keys: "dkeys ?nb = dkeys nb" using k(3) by (simp add: dset_keys_present)
  with Cons.IH[of ?nb] k obtain nb' where nb': "prepend_phis pm ?nb = Inr nb'" "dkeys nb' = dkeys nb"
    "\<forall>l b. map_of ?nb l = Some b \<longrightarrow> map_of nb' l = Some (map phi_stmt (dlist pm l) @ b)" by auto
  have none: "dlist pm k = []" using k(1) by (simp add: dlist_def map_of_outside)
  have "map_of nb' l = Some (map phi_stmt (dlist ((k, ps) # pm) l) @ b)" if "map_of nb l = Some b" for l b
    using spec[OF nb'(3), of l] none that body by (auto simp: dlist_def split: if_splits)
  with nb' body show ?case by (auto simp: prepend_phis_def kp dget_def)
qed

section \<open>The result of \<open>_fix_ssa_vars\<close>\<close>

text \<open>
  Blocks before and after, the phi node of each block, and what has to hold of it.
\<close>

definition phi_ok :: "ssa_env \<Rightarrow> defmap \<Rightarrow> (int \<Rightarrow> string option) \<Rightarrow> int \<Rightarrow> phi_node list \<Rightarrow> bool" where
  "phi_ok env dm ph l ps \<longleftrightarrow>
     (case ph l of
        None \<Rightarrow> ps = []
      | Some n \<Rightarrow> \<exists>p. ps = [p] \<and> phi_target p = n \<and> incoming_blocks p = g_preds (ssa_cfg env) l
          \<and> list_all2 (\<lambda>q x. reaching (set (phi_locations env)) (ssa_idoms env) dm ph (q, False) x)
              (incoming_blocks p) (incoming_values p))"

definition phi_names_ok :: "ssa_env \<Rightarrow> string set \<Rightarrow> (int \<Rightarrow> string option) \<Rightarrow> string set \<Rightarrow> bool" where
  "phi_names_ok env names ph names' \<longleftrightarrow> names \<subseteq> names'
     \<and> (\<forall>l n. ph l = Some n \<longrightarrow> l \<in> set (phi_locations env) \<and> n \<in> names' - names)
     \<and> (\<forall>l l' n. ph l = Some n \<longrightarrow> ph l' = Some n \<longrightarrow> l = l')"

lemma fix_ssa_vars_ok:
  fixes blocks :: "'c blocks"
  assumes graph: "ssa_graph cfg entry idoms" and locs: "compute_phi_locations df_plus dm = Inr locs"
    and distinct: "distinct (dkeys blocks)" and keys: "set (dkeys blocks) = set (g_nodes cfg)"
    and defs: "\<And>l body. map_of blocks l = Some body \<Longrightarrow> defs_inside (length body) (dlist dm l)"
    and names: "v \<in> set (localvars sc)"
  defines "env \<equiv> \<lparr>ssa_varname = v, ssa_cfg = cfg, ssa_idoms = idoms, phi_locations = locs\<rparr>"
  shows "\<exists>nbs sc' ph. fix_ssa_vars blocks v sc dm cfg idoms df_plus = Some (Inr (nbs, sc')) \<and> dkeys nbs = dkeys blocks
    \<and> phi_names_ok env (set (localvars sc)) ph (set (localvars sc'))
    \<and> (\<forall>l body. map_of blocks l = Some body \<longrightarrow> (\<exists>ps nb. map_of nbs l = Some (map phi_stmt ps @ nb)
         \<and> phi_ok env dm ph l ps \<and> fixed_body env dm ph l body nb))"
proof -
  let ?s0 = "\<lparr>ssa_scope = sc, ssa_defmap = dm, ssa_phimap = []\<rparr>"
  have g: "env_ok env entry" using graph by (simp add: env_ok_def env_def)
  have "fix_inv env dm (set (localvars sc)) ?s0"
    using names by (simp add: fix_inv_def state_inv_def incoming_ok_def env_def phi_at_def dlist_def)
  from fix_pass_ok[OF g this distinct] keys defs obtain nbs s where
    pass: "run_block_rewrite (fix_handler env) blocks ?s0 = Some (Inr (nbs, s))" "dkeys nbs = dkeys blocks"
      "fix_inv env dm (set (localvars sc)) s"
      "\<forall>l body. map_of blocks l = Some body \<longrightarrow> (\<exists>nb. map_of nbs l = Some nb \<and> fixed_body env dm (phi_at s) l body nb)"
    unfolding env_def by fastforce
  from pass(3) have inv: "state_inv env dm (set (localvars sc)) s" and inc: "incoming_ok env dm s []"
    by (simp_all add: fix_inv_def)
  have cfg: "ssa_cfg env = cfg" by (simp add: env_def)
  have sub: "set (dkeys (ssa_phimap s)) \<subseteq> set (dkeys nbs)"
  proof
    fix l assume "l \<in> set (dkeys (ssa_phimap s))"
    then obtain n where "phi_at s l = Some n" using state_invD(11)[OF inv] by blast
    from state_invD(6)[OF inv this] show "l \<in> set (dkeys nbs)" unfolding pass(2) keys cfg .
  qed
  from prepend_phis_ok[OF state_invD(10)[OF inv] sub] obtain nb' where
    pre: "prepend_phis (ssa_phimap s) nbs = Inr nb'" "dkeys nb' = dkeys nbs"
      "\<forall>l body. map_of nbs l = Some body \<longrightarrow> map_of nb' l = Some (map phi_stmt (dlist (ssa_phimap s) l) @ body)" by blast
  have run: "fix_ssa_vars blocks v sc dm cfg idoms df_plus = Some (Inr (nb', ssa_scope s))"
    using pass(1) pre(1) locs by (simp add: fix_ssa_vars_def env_def)
  have phi: "phi_ok env dm (phi_at s) l (dlist (ssa_phimap s) l)" for l
  proof (cases "phi_at s l")
    case None
    then have "dlist (ssa_phimap s) l = []" using phi_at_list(1)[OF inv, of l] by simp
    with None show ?thesis by (simp add: phi_ok_def)
  next
    case (Some n)
    from phi_at_list(2)[OF inv this] obtain p where p: "dlist (ssa_phimap s) l = [p]" "phi_target p = n" by blast
    with Some incoming_okD(1,2)[OF inc p(1)] show ?thesis by (simp add: phi_ok_def)
  qed
  have "phi_names_ok env (set (localvars sc)) (phi_at s) (set (localvars (ssa_scope s)))"
    unfolding phi_names_ok_def using state_invD(2,5,7,8,9)[OF inv] by blast
  moreover have "\<exists>ps nb. map_of nb' l = Some (map phi_stmt ps @ nb) \<and> phi_ok env dm (phi_at s) l ps \<and> fixed_body env dm (phi_at s) l body nb"
    if "map_of blocks l = Some body" for l body
    using pass(4) pre(3) that phi by blast
  moreover have "dkeys nb' = dkeys blocks" using pre(2) pass(2) by simp
  ultimately show ?thesis using run
    by (intro exI[of _ nb'] exI[of _ "ssa_scope s"] exI[of _ "phi_at s"] conjI) blast+
qed

end
