(* ===== verification/SSAViolator.thy ===== *)
theory SSAViolator
  imports SSABlocks
begin

text \<open>
  One violating variable: the blocks \<open>_fresh_vars\<close> and \<open>_fix_ssa_vars\<close> make of the blocks that
  come in, on a graph without dead blocks whose entry is no jump target.
\<close>

section \<open>The blocks with phi nodes\<close>

lemma fresh_vars_keys:
  assumes "fresh_vars blocks v sc = Some (Inr (nb, sc', dm))"
  shows "distinct (dkeys dm)"
proof -
  have handler: "distinct (dkeys (snd s'))"
    if "fresh_handler v label blk i st s = Some (Inr (st', s'))" "distinct (dkeys (snd s))" for label blk i st s st' s'
    using that by (cases s) (auto simp: fresh_handler_def res_simps distinct_update split: stmt.splits if_splits)
  have pass: "distinct (dkeys (snd s'))"
    if "run_ssa_block_pass (fresh_handler v) label blk s = Some (Inr (nb, s'))" "distinct (dkeys (snd s))" for label blk s nb s'
  proof -
    have "distinct (dkeys (snd (snd (nb, s'))))"
      using that(1) unfolding run_ssa_block_pass_def
      by (rule foldO_invariant[where P = "\<lambda>st. distinct (dkeys (snd (snd st)))"])
        (use that(2) handler in \<open>auto simp: res_simps split: prod.splits\<close>)
    then show ?thesis by simp
  qed
  have "distinct (dkeys (snd (snd (nb, (sc', dm)))))"
    using assms unfolding fresh_vars_def run_block_rewrite_def
    by (rule foldO_invariant[where P = "\<lambda>st. distinct (dkeys (snd (snd st)))"])
      (use pass in \<open>auto simp: res_simps split: prod.splits\<close>)
  then show ?thesis by simp
qed

definition ssa_tables :: "(int, unit) cfgraph \<Rightarrow> int \<Rightarrow> (int, int option) dict \<Rightarrow> (int, int list) dict \<Rightarrow> bool" where
  "ssa_tables cfg entry idoms dfp \<longleftrightarrow> ssa_graph cfg entry idoms \<and> set (dkeys dfp) = set (g_nodes cfg)
     \<and> front dfp = (frontier_rel cfg entry)\<^sup>+"

lemma phi_locations_ok:
  assumes tables: "ssa_tables cfg entry idoms dfp" and "distinct (dkeys dm)"
    and inside: "\<And>l. dlist dm l \<noteq> [] \<Longrightarrow> l \<in> set (g_nodes cfg)"
  shows "\<exists>locs. compute_phi_locations dfp dm = Inr locs \<and> set locs = phi_blocks cfg entry dm"
proof -
  let ?f = "\<lambda>(deflabel, defstmts) locs.
      if defstmts = [] then Inr locs else bindE (dget dfp deflabel) (\<lambda>vs. Inr (set_update locs vs))"
  have fold: "\<exists>locs'. foldE ?f d locs = Inr locs'
      \<and> set locs' = set locs \<union> {m. \<exists>k ds. (k, ds) \<in> set d \<and> ds \<noteq> [] \<and> (k, m) \<in> front dfp}"
    if "\<forall>(k, ds) \<in> set d. ds \<noteq> [] \<longrightarrow> k \<in> set (g_nodes cfg)" for d :: defmap and locs
    using that
  proof (induction d arbitrary: locs)
    case (Cons x d)
    obtain k ds where x: "x = (k, ds)" by (cases x)
    show ?case
    proof (cases "ds = []")
      case True
      have "{m. \<exists>k ds. (k, ds) \<in> set (x # d) \<and> ds \<noteq> [] \<and> (k, m) \<in> front dfp}
          = {m. \<exists>k ds. (k, ds) \<in> set d \<and> ds \<noteq> [] \<and> (k, m) \<in> front dfp}" using True x by auto
      with Cons True x show ?thesis by simp
    next
      case False
      with Cons.prems x tables have "k \<in> set (dkeys dfp)" by (simp add: ssa_tables_def)
      then obtain vs where vs: "map_of dfp k = Some vs"
        by (cases "map_of dfp k") (auto simp: map_of_eq_None_iff)
      then have "set vs = {m. (k, m) \<in> front dfp}" by (simp add: front_def in_frontier_def)
      moreover have "{m. \<exists>k ds. (k, ds) \<in> set (x # d) \<and> ds \<noteq> [] \<and> (k, m) \<in> front dfp}
          = {m. (k, m) \<in> front dfp} \<union> {m. \<exists>k ds. (k, ds) \<in> set d \<and> ds \<noteq> [] \<and> (k, m) \<in> front dfp}"
        using False x by auto
      ultimately show ?thesis using Cons.IH[of "set_update locs vs"] Cons.prems vs False x
        by (auto simp: dget_def Un_assoc)
    qed
  qed simp
  have entries: "(k, ds) \<in> set dm \<and> ds \<noteq> [] \<longleftrightarrow> dlist dm k = ds \<and> ds \<noteq> []" for k ds
    unfolding map_of_eq_Some_iff[OF assms(2), symmetric] by (auto simp: dlist_def split: option.splits)
  have "k \<in> set (g_nodes cfg)" if "(k, ds) \<in> set dm" "ds \<noteq> []" for k ds
    using entries[of k ds] inside[of k] that by simp
  then have "\<forall>(k, ds) \<in> set dm. ds \<noteq> [] \<longrightarrow> k \<in> set (g_nodes cfg)" by blast
  from fold[OF this, of "[]"] obtain locs where locs: "foldE ?f dm [] = Inr locs"
    "set locs = {m. \<exists>k ds. (k, ds) \<in> set dm \<and> ds \<noteq> [] \<and> (k, m) \<in> front dfp}" by auto
  have some: "(\<exists>ds. (k, ds) \<in> set dm \<and> ds \<noteq> []) \<longleftrightarrow> dlist dm k \<noteq> []" for k
    by (simp only: entries) simp
  have "front dfp = (frontier_rel cfg entry)\<^sup>+" using tables by (simp add: ssa_tables_def)
  then have "set locs = phi_blocks cfg entry dm"
    unfolding locs(2) phi_blocks_def some[symmetric] by (intro Collect_cong) (simp add: ex_simps(1)[symmetric] del: ex_simps)
  with locs(1) show ?thesis by (auto simp: compute_phi_locations_def)
qed

section \<open>The pass as a relation\<close>

definition violator_body ::
  "ssa_env \<Rightarrow> defmap \<Rightarrow> (int \<Rightarrow> string option) \<Rightarrow> int \<Rightarrow> 'c block \<Rightarrow> 'c block \<Rightarrow> bool" where
  "violator_body env dm ph l body nb \<longleftrightarrow>
     (\<exists>ps mid b. nb = map phi_stmt ps @ b \<and> phi_ok env dm ph l ps
        \<and> fresh_body (ssa_varname env) body mid (dlist dm l) \<and> fixed_body env dm ph l mid b)"

text \<open>New names: at most the first assignment keeps the old one.\<close>

definition violator_names ::
  "string \<Rightarrow> string set \<Rightarrow> defmap \<Rightarrow> int list \<Rightarrow> (int \<Rightarrow> string option) \<Rightarrow> string set \<Rightarrow> bool" where
  "violator_names v names dm ls ph names' \<longleftrightarrow> v \<in> names \<and> names \<subseteq> names'
     \<and> distinct (def_names dm ls) \<and> set (def_names dm ls) \<subseteq> insert v (names' - names)
     \<and> (\<forall>l n. ph l = Some n \<longrightarrow> n \<in> names' - names \<and> n \<notin> set (def_names dm ls))
     \<and> (\<forall>l l' n. ph l = Some n \<longrightarrow> ph l' = Some n \<longrightarrow> l = l')"

definition violator_result ::
  "(int, unit) cfgraph \<Rightarrow> int \<Rightarrow> ssa_env \<Rightarrow> defmap \<Rightarrow> (int \<Rightarrow> string option) \<Rightarrow> string set \<Rightarrow> string set
    \<Rightarrow> 'c blocks \<Rightarrow> 'c blocks \<Rightarrow> bool" where
  "violator_result cfg entry env dm ph names names' blocks nbs \<longleftrightarrow>
     ssa_cfg env = cfg \<and> ssa_graph cfg entry (ssa_idoms env) \<and> set (phi_locations env) = phi_blocks cfg entry dm
   \<and> dkeys nbs = dkeys blocks \<and> (\<forall>l. l \<notin> set (dkeys blocks) \<longrightarrow> dlist dm l = [])
   \<and> violator_names (ssa_varname env) names dm (dkeys blocks) ph names'
   \<and> (\<forall>l n. ph l = Some n \<longrightarrow> l \<in> set (phi_locations env))
   \<and> (\<forall>l body. map_of blocks l = Some body \<longrightarrow> (\<exists>nb. map_of nbs l = Some nb \<and> violator_body env dm ph l body nb))"

lemma fix_violator_ok:
  assumes tables: "ssa_tables cfg entry idoms dfp" and distinct: "distinct (dkeys blocks)"
    and keys: "set (dkeys blocks) = set (g_nodes cfg)"
    and ends: "\<And>l body. map_of blocks l = Some body \<Longrightarrow> body \<noteq> [] \<and> is_terminator (last body)"
    and v: "v \<in> set (localvars sc)"
  shows "\<exists>nbs sc' env dm ph. fix_violator cfg idoms dfp v (blocks, sc) = Some (Inr (nbs, sc')) \<and> ssa_varname env = v
    \<and> violator_result cfg entry env dm ph (set (localvars sc)) (set (localvars sc')) blocks nbs"
proof -
  from fresh_vars_ok[OF distinct v] obtain mids sc1 dm where
    fresh: "fresh_vars blocks v sc = Some (Inr (mids, sc1, dm))" "dkeys mids = dkeys blocks"
      "\<forall>l body. map_of blocks l = Some body \<longrightarrow> (\<exists>body'. map_of mids l = Some body' \<and> fresh_body v body body' (dlist dm l))"
      "\<forall>l. l \<notin> set (dkeys blocks) \<longrightarrow> dlist dm l = []"
      "fresh_names v (set (localvars sc)) (def_names dm (dkeys blocks)) sc1" by blast
  have graph: "ssa_graph cfg entry idoms" using tables by (simp add: ssa_tables_def)
  from phi_locations_ok[OF tables fresh_vars_keys[OF fresh(1)]] fresh(4) keys obtain locs where
    locs: "compute_phi_locations dfp dm = Inr locs" "set locs = phi_blocks cfg entry dm" by blast
  let ?env = "\<lparr>ssa_varname = v, ssa_cfg = cfg, ssa_idoms = idoms, phi_locations = locs\<rparr>"
  have defs: "defs_inside (length mid) (dlist dm l)" if mid: "map_of mids l = Some mid" for l mid
  proof -
    have "l \<in> set (dkeys blocks)" using mid fresh(2) by (metis domI dom_map_of_conv_image_fst list.set_map)
    then obtain body where body: "map_of blocks l = Some body"
      by (cases "map_of blocks l") (auto simp: map_of_eq_None_iff)
    with fresh(3) mid have b: "fresh_body v body mid (dlist dm l)" by fastforce
    have "Suc i < length body" if "i < length body" "body ! i = Assign e v" for i e
    proof -
      have "i \<noteq> length body - 1" using ends[OF body] that by (auto simp: last_conv_nth is_terminator_def is_exit_def)
      with that show ?thesis by simp
    qed
    with b show ?thesis unfolding defs_inside_def fresh_body_def by fastforce
  qed
  have distinct1: "distinct (dkeys mids)" "set (dkeys mids) = set (g_nodes cfg)" using distinct keys fresh(2) by simp_all
  have v1: "v \<in> set (localvars sc1)" using fresh(5) by (auto simp: fresh_names_def)
  from fix_ssa_vars_ok[OF graph locs(1) distinct1 defs v1] obtain nbs sc' ph where
    fixed: "fix_ssa_vars mids v sc1 dm cfg idoms dfp = Some (Inr (nbs, sc'))" "dkeys nbs = dkeys mids"
      "phi_names_ok ?env (set (localvars sc1)) ph (set (localvars sc'))"
      "\<forall>l body. map_of mids l = Some body \<longrightarrow> (\<exists>ps nb. map_of nbs l = Some (map phi_stmt ps @ nb)
         \<and> phi_ok ?env dm ph l ps \<and> fixed_body ?env dm ph l body nb)" by blast
  have run: "fix_violator cfg idoms dfp v (blocks, sc) = Some (Inr (nbs, sc'))"
    using fresh(1) fixed(1) by (simp add: fix_violator_def)
  have "\<exists>nb. map_of nbs l = Some nb \<and> violator_body ?env dm ph l body nb" if "map_of blocks l = Some body" for l body
    using fresh(3) fixed(4) that unfolding violator_body_def by fastforce
  moreover have "violator_names v (set (localvars sc)) dm (dkeys blocks) ph (set (localvars sc'))"
    using fresh(5) fixed(3) unfolding violator_names_def fresh_names_def phi_names_ok_def by blast
  moreover have "\<forall>l n. ph l = Some n \<longrightarrow> l \<in> set locs" using fixed(3) by (simp add: phi_names_ok_def)
  ultimately have "violator_result cfg entry ?env dm ph (set (localvars sc)) (set (localvars sc')) blocks nbs"
    unfolding violator_result_def using graph locs(2) fixed(2) fresh(2,4) by simp
  with run show ?thesis by (intro exI[of _ nbs] exI[of _ sc'] exI[of _ ?env] exI[of _ dm] exI[of _ ph]) simp
qed

end
