(* ===== verification/SSASem.thy ===== *)
theory SSASem
  imports SSAViolator
begin

text \<open>
  What a walk through the blocks computes, with the operations left open: every statement that
  is executed and is no phi node is recorded, without its variable names but with the values it
  reads. The value an assignment gives is named by the number of the step that computed it, so
  two programs with the same record do the same operations on the same values in every
  interpretation of the operations.
\<close>

section \<open>Symbolic execution\<close>

fun blank_attr :: "'c attr \<Rightarrow> 'c attr" and blank_inst :: "'c inst \<Rightarrow> 'c inst" where
  "blank_attr (VarA x) = VarA []"
| "blank_attr (InstA i) = InstA (blank_inst i)"
| "blank_attr (SeqA as) = SeqA (map blank_attr as)"
| "blank_attr (DictA kvs) = DictA (map (\<lambda>(k, a). (k, blank_attr a)) kvs)"
| "blank_attr (IntA n) = IntA n"
| "blank_attr UndefinedA = UndefinedA"
| "blank_attr (OtherA c) = OtherA c"
| "blank_inst (Expr op kws) = Expr op (map (\<lambda>(k, a). (k, blank_attr a)) kws)"
| "blank_inst (Yield x index) = Yield [] index"

definition blank_rhs :: "'c rhs \<Rightarrow> 'c rhs" where
  "blank_rhs e = (case e of InstR i \<Rightarrow> InstR (blank_inst i) | VarR x \<Rightarrow> VarR [] | _ \<Rightarrow> e)"

definition blank_stmt :: "'c stmt \<Rightarrow> 'c stmt" where
  "blank_stmt st =
     (case st of
        Assign e target \<Rightarrow> Assign (blank_rhs e) []
      | SetItem target index x \<Rightarrow> SetItem [] [] []
      | StaticSetItem target index index_var x \<Rightarrow> StaticSetItem [] (blank_attr index) [] []
      | DelItem target index \<Rightarrow> DelItem [] []
      | SetAttr target a x \<Rightarrow> SetAttr [] a []
      | DelAttr target a \<Rightarrow> DelAttr [] a
      | StoreMap dct key x \<Rightarrow> StoreMap [] [] []
      | Del x \<Rightarrow> Del []
      | Raise exc \<Rightarrow> Raise (map_option (\<lambda>x. []) exc)
      | StaticRaise cls args \<Rightarrow> StaticRaise cls (map_option (map blank_attr) args)
      | DynamicRaise cls args \<Rightarrow> DynamicRaise cls (map_option (map blank_attr) args)
      | TryRaise exc \<Rightarrow> TryRaise (map_option (\<lambda>x. []) exc)
      | StaticTryRaise cls args \<Rightarrow> StaticTryRaise cls (map_option (map blank_attr) args)
      | DynamicTryRaise cls args \<Rightarrow> DynamicTryRaise cls (map_option (map blank_attr) args)
      | Return x \<Rightarrow> Return []
      | Jump target \<Rightarrow> Jump target
      | Branch cond truebr falsebr \<Rightarrow> Branch [] truebr falsebr
      | Print args vararg cs \<Rightarrow>
          Print (map (\<lambda>x. []) args) (map_option (\<lambda>x. []) vararg) (map (\<lambda>(k, a). (k, blank_attr a)) cs)
      | EnterWith contextmanager b e \<Rightarrow> EnterWith [] b e
      | PopBlock \<Rightarrow> PopBlock)"

definition is_phi :: "'c stmt \<Rightarrow> bool" where
  "is_phi st = (case st of Assign (InstR (Expr op kws)) t \<Rightarrow> op = ''phi'' | _ \<Rightarrow> False)"

text \<open>The variable a phi node takes the value of when its block is entered from \<open>q\<close>.\<close>

definition phi_arg :: "int \<Rightarrow> 'c stmt \<Rightarrow> string option" where
  "phi_arg q st =
     (case st of
        Assign (InstR (Expr op kws)) t \<Rightarrow>
          (case (map_of kws ''incoming_blocks'', map_of kws ''incoming_values'') of
             (Some (SeqA bs), Some (SeqA as)) \<Rightarrow> (case map_of (zip bs as) (IntA q) of Some (VarA x) \<Rightarrow> Some x | _ \<Rightarrow> None)
           | _ \<Rightarrow> None)
      | _ \<Rightarrow> None)"

type_synonym 'c steps = "('c stmt \<times> nat option list) list"

definition exec_stmt :: "int option \<Rightarrow> 'c stmt \<Rightarrow> (string \<Rightarrow> nat option) \<times> 'c steps \<Rightarrow> (string \<Rightarrow> nat option) \<times> 'c steps" where
  "exec_stmt pred st = (\<lambda>(E, tr).
     if is_phi st
     then (case st of
             Assign e t \<Rightarrow> E(t := Option.bind (Option.bind pred (\<lambda>q. phi_arg q st)) E)
           | _ \<Rightarrow> E, tr)
     else (case st of
             Assign e t \<Rightarrow> E(t := Some (length tr))
           | Del x \<Rightarrow> E(x := None)
           | _ \<Rightarrow> E, tr @ [(blank_stmt st, map E (reads st))]))"

fun exec_walk :: "'c blocks \<Rightarrow> int option \<Rightarrow> int list \<Rightarrow> (string \<Rightarrow> nat option) \<times> 'c steps \<Rightarrow> (string \<Rightarrow> nat option) \<times> 'c steps" where
  "exec_walk blocks pred [] s = s"
| "exec_walk blocks pred (k # ks) s = exec_walk blocks (Some k) ks (fold (exec_stmt pred) (block_at blocks k) s)"

definition walk_steps :: "'c blocks \<Rightarrow> int list \<Rightarrow> 'c steps" where
  "walk_steps blocks ks = snd (exec_walk blocks None ks (\<lambda>x. None, []))"

section \<open>Renaming and what is recorded\<close>

lemma blank_replace_attr:
  fixes a :: "'c attr" and i :: "'c inst"
  shows "blank_attr (replace_attr v w a) = blank_attr a"
    and "blank_inst (replace_inst v w i) = blank_inst i"
  by (induction a and i) (auto simp: snds.simps)

lemma blank_replace_stmt: "blank_stmt (replace_stmt v w st) = blank_stmt st"
  by (cases st) (auto simp: blank_stmt_def replace_stmt_def Let_def blank_rhs_def replace_rhs_def blank_replace_attr
      option.map_comp comp_def split: rhs.splits)

lemma blank_fixed:
  "blank_stmt (fixed_stmt v r st) = blank_stmt st" "writes (fixed_stmt v r st) = writes st"
  "is_del (fixed_stmt v r st) = is_del st" "is_terminator (fixed_stmt v r st) = is_terminator st"
  "get_targets (fixed_stmt v r st) = get_targets st" "assigns_to x (fixed_stmt v r st) = assigns_to x st"
  by (cases st; auto simp: fixed_stmt_def blank_stmt_def replace_stmt_def Let_def blank_rhs_def replace_rhs_def
      blank_replace_attr writes_def is_del_def is_terminator_def is_exit_def get_targets_def assigns_to_def
      option.map_comp comp_def split: rhs.splits option.splits)+

lemma fixed_phi: "is_phi (fixed_stmt v r st) = is_phi st"
proof -
  have "(case replace_inst v w i of Expr op kws \<Rightarrow> op = ''phi'' | _ \<Rightarrow> False) = (case i of Expr op kws \<Rightarrow> op = ''phi'' | _ \<Rightarrow> False)"
    for w and i :: "'a inst" by (cases i) simp_all
  then show ?thesis
    by (cases st) (auto simp: fixed_stmt_def replace_stmt_def Let_def is_phi_def replace_rhs_def split: rhs.splits option.splits)
qed

lemma fixed_reads:
  assumes "reads_reached st"
  shows "reads (fixed_stmt v r st) = (case r of None \<Rightarrow> reads st | Some w \<Rightarrow> map (replace_name v w) (reads st))"
proof (cases r)
  case (Some w)
  have same: "map (replace_name v v) (reads st) = reads st" by (rule map_idI) (simp add: replace_name_def)
  show ?thesis
  proof (cases "w = v")
    case False
    show ?thesis
    proof (cases "\<exists>e t. st = Assign e t")
      case True
      then obtain e t where "st = Assign e t" by blast
      with Some False reads_replace_rhs[of e t v w] assms show ?thesis by (simp add: fixed_stmt_def reads_def)
    next
      case no: False
      then have "fixed_stmt v (Some w) st = replace_stmt v w st" using False by (cases st) (simp_all add: fixed_stmt_def)
      with Some reads_replace_stmt[OF assms, of v w] no show ?thesis by simp
    qed
  qed (use Some same in \<open>simp add: fixed_stmt_def\<close>)
qed (simp add: fixed_stmt_def)

lemma phi_arg_read: "phi_arg q (st :: 'c stmt) = Some x \<Longrightarrow> x \<in> set (reads st)"
proof -
  assume a: "phi_arg q st = Some x"
  then have "\<exists>op kws t (bs :: 'c attr list) as. st = Assign (InstR (Expr op kws)) t \<and> map_of kws ''incoming_values'' = Some (SeqA as)
      \<and> map_of (zip bs as) (IntA q) = Some (VarA x)"
    by (auto simp: phi_arg_def split: stmt.splits rhs.splits inst.splits option.splits attr.splits)
  then obtain op kws t and bs :: "'c attr list" and as where st: "st = Assign (InstR (Expr op kws)) t"
    and kws: "map_of kws ''incoming_values'' = Some (SeqA as)" and x: "map_of (zip bs as) (IntA q) = Some (VarA x)" by blast
  have "x \<in> set (rec_list_vars (SeqA as))"
    using set_zip_rightD[OF map_of_SomeD[OF x]] by (auto intro!: bexI[of _ "VarA x"])
  then have "x \<in> set (inst_vars (Expr op kws))" using map_of_SomeD[OF kws]
    by (auto simp del: rec_list_vars.simps(3) intro!: bexI[of _ "(''incoming_values'', SeqA as)"])
  then show "x \<in> set (reads st)" by (simp add: st reads_def rhs_vars_def)
qed

lemma phi_stmt_arg:
  assumes "list_all2 R (incoming_blocks p) (incoming_values p)" and "q \<in> set (incoming_blocks p)"
  shows "\<exists>x. phi_arg q (phi_stmt p :: 'c stmt) = x \<and> R q x"
proof -
  let ?arg = "case_option (UndefinedA :: 'c attr) VarA"
  have "\<exists>x. map_of (zip (map IntA bs) (map ?arg as)) (IntA q :: 'c attr) = Some (?arg x) \<and> R q x"
    if "list_all2 R bs as" "q \<in> set bs" for bs as
    using that by induction auto
  from this[OF assms] obtain x where
    "map_of (zip (map IntA (incoming_blocks p)) (map ?arg (incoming_values p))) (IntA q :: 'c attr) = Some (?arg x)" "R q x" by blast
  then show ?thesis by (cases x) (simp_all add: phi_arg_def phi_stmt_def)
qed

lemma phi_stmt_is_phi [simp]: "is_phi (phi_stmt p)" "writes (phi_stmt p) = {phi_target p}"
  by (simp_all add: is_phi_def phi_stmt_def writes_def)

end
