(* ===== verification/SSASim.thy ===== *)
theory SSASim
  imports SSASem
begin

text \<open>
  Renaming one variable keeps what every walk records: at each point the variable's value is
  that of the definition that reaches the point, and no other variable changes.
\<close>

section \<open>One statement\<close>

definition agrees ::
  "string \<Rightarrow> string set \<Rightarrow> (string option \<Rightarrow> bool) \<Rightarrow> (string \<Rightarrow> nat option) \<Rightarrow> (string \<Rightarrow> nat option) \<Rightarrow> bool" where
  "agrees v names R E E' \<longleftrightarrow> (\<forall>x \<in> names. x \<noteq> v \<longrightarrow> E' x = E x) \<and> (\<forall>r. R r \<longrightarrow> Option.bind r E' = E v)
     \<and> (E v = None \<longrightarrow> E' v = None)"

lemma agrees_mono: "agrees v names R E E' \<Longrightarrow> (\<And>r. S r \<Longrightarrow> R r) \<Longrightarrow> agrees v names S E E'"
  by (auto simp: agrees_def)

definition renamable :: "string \<Rightarrow> string set \<Rightarrow> 'c stmt \<Rightarrow> bool" where
  "renamable v names st \<longleftrightarrow> set (reads st) \<subseteq> names \<and> writes st \<subseteq> names \<and> reads_reached st \<and> \<not> is_del st
     \<and> (is_phi st \<longrightarrow> v \<notin> set (reads st) \<and> v \<notin> writes st)"

lemma writes_assigns: "assigns_to v st \<longleftrightarrow> v \<in> writes st"
  by (auto simp: assigns_to_def writes_def split: stmt.splits)

text \<open>What is read does not depend on the name the variable has.\<close>

lemma fixed_values:
  assumes st: "reads_reached st" "set (reads st) \<subseteq> names" and ag: "agrees v names R E E'"
    and r: "if v \<in> set (reads st) then R r else r = None"
  shows "map E' (reads (fixed_stmt v r st)) = map E (reads st)"
proof -
  have other: "E' x = E x" if "x \<in> set (reads st)" "x \<noteq> v" for x using ag st(2) that by (auto simp: agrees_def)
  have val: "Option.bind r E' = E v" if "v \<in> set (reads st)" using ag r that by (simp add: agrees_def)
  have undef: "E v = None \<Longrightarrow> E' v = None" using ag by (simp add: agrees_def)
  show ?thesis
  proof (cases r)
    case None
    have "E' x = E x" if "x \<in> set (reads st)" for x
      using other[OF that] val that undef None by (cases "x = v") auto
    with None show ?thesis by (simp add: fixed_reads[OF st(1)])
  next
    case (Some w)
    have "E' (replace_name v w x) = E x" if "x \<in> set (reads st)" for x
      using other[OF that] val that Some by (auto simp: replace_name_def)
    with Some show ?thesis by (simp add: fixed_reads[OF st(1)])
  qed
qed

lemma filter_next:
  assumes "sorted_wrt (<) (map f ds)" and "d \<in> set ds" and "f d = (i :: nat)"
  shows "filter (\<lambda>d. f d < Suc i) ds = filter (\<lambda>d. f d < i) ds @ [d]"
  using assms
proof (induction ds)
  case (Cons x xs)
  show ?case
  proof (cases "x = d")
    case True
    with Cons.prems have "\<forall>y \<in> set xs. i < f y" by auto
    then have "filter (\<lambda>d. f d < Suc i) xs = []" "filter (\<lambda>d. f d < i) xs = []" by (auto simp: filter_empty_conv)
    with True Cons.prems(3) show ?thesis by simp
  next
    case False
    with Cons.prems have "d \<in> set xs" by simp
    with Cons.prems have "f x < i" by auto
    with Cons False show ?thesis by auto
  qed
qed simp

lemma at_point_step:
  assumes fresh: "fresh_body v body mid (dlist dm l)" and i: "i < length body"
  shows "\<not> assigns_to v (body ! i) \<Longrightarrow> at_point locs idoms dm ph l (Suc i) r \<longleftrightarrow> at_point locs idoms dm ph l i r"
    and "assigns_to v (body ! i) \<Longrightarrow> \<exists>e w. body ! i = Assign e v \<and> mid ! i = Assign e w
      \<and> StmtDef i w \<in> set (dlist dm l) \<and> (\<forall>r. at_point locs idoms dm ph l (Suc i) r \<longleftrightarrow> r = Some w)"
proof -
  have def: "\<exists>j w e. d = StmtDef j w \<and> j < length body \<and> body ! j = Assign e v \<and> mid ! j = Assign e w"
    if "d \<in> set (dlist dm l)" for d using fresh that unfolding fresh_body_def by blast
  show "at_point locs idoms dm ph l (Suc i) r \<longleftrightarrow> at_point locs idoms dm ph l i r" if no: "\<not> assigns_to v (body ! i)"
  proof -
    have "def_pos d \<noteq> i" if "d \<in> set (dlist dm l)" for d
      using def[OF that] no by (auto simp: assigns_to_def def_pos_def)
    then have "filter (\<lambda>d. def_pos d < Suc i) (dlist dm l) = filter (\<lambda>d. def_pos d < i) (dlist dm l)"
      by (intro filter_cong) (auto simp: less_Suc_eq)
    then show ?thesis by (simp add: at_point_def)
  qed
  show "\<exists>e w. body ! i = Assign e v \<and> mid ! i = Assign e w
      \<and> StmtDef i w \<in> set (dlist dm l) \<and> (\<forall>r. at_point locs idoms dm ph l (Suc i) r \<longleftrightarrow> r = Some w)"
    if "assigns_to v (body ! i)"
  proof -
    have "if assigns_to v (body ! i) then \<exists>w. StmtDef i w \<in> set (dlist dm l) else mid ! i = body ! i"
      using fresh i unfolding fresh_body_def by blast
    with that obtain w where w: "StmtDef i w \<in> set (dlist dm l)" by auto
    from def[OF this] obtain e where e: "body ! i = Assign e v" "mid ! i = Assign e w" by auto
    have "sorted_wrt (<) (map def_pos (dlist dm l))" using fresh by (simp add: fresh_body_def)
    from filter_next[OF this w, of i] have
      "filter (\<lambda>d. def_pos d < Suc i) (dlist dm l) = filter (\<lambda>d. def_pos d < i) (dlist dm l) @ [StmtDef i w]"
      by (simp add: def_pos_def)
    then have "at_point locs idoms dm ph l (Suc i) r \<longleftrightarrow> r = Some w" for r by (simp add: at_point_def)
    with w e show ?thesis by blast
  qed
qed

lemma at_point_bottom:
  assumes fresh: "fresh_body v body mid (dlist dm l)" and r: "reaching locs idoms dm ph (l, False) r"
  shows "at_point locs idoms dm ph l (length body) r"
proof -
  have "def_pos d < length body" if "d \<in> set (dlist dm l)" for d
    using fresh that unfolding fresh_body_def by (auto simp: def_pos_def)
  then have all: "filter (\<lambda>d. def_pos d < length body) (dlist dm l) = dlist dm l" by (auto intro: filter_True)
  show ?thesis
  proof (cases "dlist dm l = []")
    case True
    have "reaching locs idoms dm ph (l, True) r" using r
    proof cases
      case (from_phi n)
      then show ?thesis using reaching.from_phi[of True dm l locs ph n] by simp
    next
      case from_start
      then show ?thesis using reaching.from_start[of True dm l locs idoms] by simp
    next
      case (from_idom d)
      then show ?thesis using reaching.from_idom[of True dm l locs idoms d] by simp
    qed (use True in simp)
    with all True show ?thesis by (simp add: at_point_def)
  next
    case False
    from r have "r = Some (def_target (last (dlist dm l)))" by cases (use False in auto)
    with all False show ?thesis by (simp add: at_point_def)
  qed
qed

text \<open>The definitions that can reach a point have the old name or a new one.\<close>

lemma reaching_names:
  assumes "reaching locs idoms dm ph p r" and "r = Some w"
    and "\<And>l. dlist dm l \<noteq> [] \<Longrightarrow> \<forall>d \<in> set (dlist dm l). N (def_target d)" and "\<And>l n. ph l = Some n \<Longrightarrow> N n"
  shows "N w"
  using assms(1,2)
proof induction
  case (from_def l)
  with assms(3)[of l] last_in_set[of "dlist dm l"] show ?case by auto
qed (use assms(4) in auto)

lemma at_point_names:
  assumes "at_point locs idoms dm ph l i (Some w)"
    and "\<And>l. dlist dm l \<noteq> [] \<Longrightarrow> \<forall>d \<in> set (dlist dm l). N (def_target d)" and "\<And>l n. ph l = Some n \<Longrightarrow> N n"
  shows "N w"
proof (cases "filter (\<lambda>d. def_pos d < i) (dlist dm l) = []")
  case True
  with assms(1) have "reaching locs idoms dm ph (l, True) (Some w)" by (simp add: at_point_def)
  from reaching_names[OF this refl, of N] assms(2,3) show ?thesis by blast
next
  case False
  with assms(1) have "w = def_target (last (filter (\<lambda>d. def_pos d < i) (dlist dm l)))" by (simp add: at_point_def Let_def)
  moreover have "last (filter (\<lambda>d. def_pos d < i) (dlist dm l)) \<in> set (dlist dm l)"
    using last_in_set[OF False] by simp
  moreover from this have "dlist dm l \<noteq> []" by auto
  ultimately show ?thesis using assms(2)[of l] by blast
qed

lemma agrees_update:
  assumes "agrees v names R E E'" and "t \<noteq> v" and "\<And>w. R (Some w) \<Longrightarrow> w \<noteq> t"
  shows "agrees v names R (E(t := c)) (E'(t := c))"
  unfolding agrees_def
proof (intro conjI ballI allI impI)
  fix r assume "R r"
  with assms show "Option.bind r (E'(t := c)) = (E(t := c)) v" by (cases r) (auto simp: agrees_def)
qed (use assms in \<open>auto simp: agrees_def\<close>)

lemma agrees_define:
  assumes "agrees v names R E E'" and "w = v \<or> w \<notin> names"
  shows "agrees v names (\<lambda>r. r = Some w) (E(v := Some n)) (E'(w := Some n))"
  using assms by (auto simp: agrees_def)

lemma fixed_assign: "\<exists>e'. fixed_stmt v r (Assign e t) = Assign e' t"
  by (cases r) (simp_all add: fixed_stmt_def)

text \<open>A statement and its replacement do the same.\<close>

lemma exec_renamed:
  assumes st: "renamable v names st" and ag: "agrees v names R E E'"
    and r: "if v \<in> set (reads st) then R r else r = None"
    and R: "\<And>w. R (Some w) \<Longrightarrow> w = v \<or> w \<notin> names"
  shows "\<not> assigns_to v st \<Longrightarrow> \<exists>F F' tr'. exec_stmt p st (E, tr) = (F, tr')
      \<and> exec_stmt p (fixed_stmt v r st) (E', tr) = (F', tr') \<and> agrees v names R F F'"
    and "st = Assign e v \<Longrightarrow> w = v \<or> w \<notin> names \<Longrightarrow> \<exists>F F' tr'. exec_stmt p st (E, tr) = (F, tr')
      \<and> exec_stmt p (fixed_stmt v r (Assign e w)) (E', tr) = (F', tr') \<and> agrees v names (\<lambda>r. r = Some w) F F'"
proof -
  have reached: "reads_reached st" "set (reads st) \<subseteq> names" using st by (simp_all add: renamable_def)
  note vals = fixed_values[OF reached ag r]
  show "\<exists>F F' tr'. exec_stmt p st (E, tr) = (F, tr')
      \<and> exec_stmt p (fixed_stmt v r st) (E', tr) = (F', tr') \<and> agrees v names R F F'" if no: "\<not> assigns_to v st"
  proof (cases "is_phi st")
    case True
    with st have v: "v \<notin> set (reads st)" by (simp add: renamable_def)
    then have b: "fixed_stmt v r st = st" using r by (simp add: fixed_stmt_def)
    obtain e t where e: "st = Assign e t" using True by (auto simp: is_phi_def split: stmt.splits)
    have t: "t \<in> names" "t \<noteq> v" using st no by (auto simp: renamable_def e writes_def assigns_to_def)
    have "E' x = E x" if "phi_arg q st = Some x" for q x
      using phi_arg_read[OF that] v reached(2) ag by (auto simp: agrees_def)
    then have "Option.bind (Option.bind p (\<lambda>q. phi_arg q st)) E' = Option.bind (Option.bind p (\<lambda>q. phi_arg q st)) E"
      by (cases p; simp) (case_tac "phi_arg a st"; simp)
    moreover have "exec_stmt p st (F, tr) = (F(t := Option.bind (Option.bind p (\<lambda>q. phi_arg q st)) F), tr)" for F
      using True by (simp add: exec_stmt_def e)
    ultimately show ?thesis unfolding b using agrees_update[OF ag t(2)] R t by metis
  next
    case False
    then have nb: "\<not> is_phi (fixed_stmt v r st)" by (simp add: fixed_phi)
    show ?thesis
    proof (cases "\<exists>e t. st = Assign e t")
      case True
      then obtain e t where e: "st = Assign e t" by blast
      then obtain e' where e': "fixed_stmt v r st = Assign e' t" using fixed_assign by blast
      have t: "t \<in> names" "t \<noteq> v" using st no by (auto simp: renamable_def e writes_def assigns_to_def)
      have "exec_stmt p st (E, tr) = (E(t := Some (length tr)), tr @ [(blank_stmt st, map E (reads st))])"
        using False by (simp add: exec_stmt_def e)
      moreover have "exec_stmt p (fixed_stmt v r st) (E', tr) = (E'(t := Some (length tr)), tr @ [(blank_stmt st, map E (reads st))])"
        using nb by (simp add: exec_stmt_def vals blank_fixed(1)) (simp add: e')
      ultimately show ?thesis using agrees_update[OF ag t(2)] R t by blast
    next
      case other: False
      have "exec_stmt p s (F, tr) = (F, tr @ [(blank_stmt s, map F (reads s))])"
        if "\<forall>e t. s \<noteq> Assign e t" "\<not> is_del s" "\<not> is_phi s" for s :: "'a stmt" and F
        using that by (cases s) (simp_all add: exec_stmt_def is_del_def)
      note plain = this
      have del: "\<not> is_del st" using st by (simp add: renamable_def)
      have "\<forall>e t. fixed_stmt v r st \<noteq> Assign e t"
        using other by (cases st) (auto simp: fixed_stmt_def replace_stmt_def Let_def split: option.splits)
      from plain[OF this] del nb have "exec_stmt p (fixed_stmt v r st) (E', tr) = (E', tr @ [(blank_stmt st, map E (reads st))])"
        by (simp add: vals blank_fixed)
      moreover have "exec_stmt p st (E, tr) = (E, tr @ [(blank_stmt st, map E (reads st))])"
        using plain[of st] other del False by blast
      ultimately show ?thesis using ag by blast
    qed
  qed
  show "\<exists>F F' tr'. exec_stmt p st (E, tr) = (F, tr')
      \<and> exec_stmt p (fixed_stmt v r (Assign e w)) (E', tr) = (F', tr') \<and> agrees v names (\<lambda>r. r = Some w) F F'"
    if e: "st = Assign e v" and w: "w = v \<or> w \<notin> names"
  proof -
    have phi: "\<not> is_phi st" using st by (auto simp: renamable_def e writes_def)
    have same: "reads (Assign e w) = reads st" "reads_reached (Assign e w) = reads_reached st"
      "blank_stmt (Assign e w) = blank_stmt st" "is_phi (Assign e w) = is_phi st"
      by (simp_all add: e reads_def reads_reached_def blank_stmt_def is_phi_def split: rhs.splits)
    have vals': "map E' (reads (fixed_stmt v r (Assign e w))) = map E (reads st)"
      using fixed_values[of "Assign e w" names v R E E' r] reached ag r by (simp add: same)
    obtain e' where e': "fixed_stmt v r (Assign e w) = Assign e' w" using fixed_assign by blast
    have "\<not> is_phi (fixed_stmt v r (Assign e w))" using phi by (simp add: fixed_phi same)
    then have "exec_stmt p (fixed_stmt v r (Assign e w)) (E', tr)
        = (E'(w := Some (length tr)), tr @ [(blank_stmt st, map E (reads st))])"
      by (simp add: exec_stmt_def vals' blank_fixed(1) same(3)) (simp add: e')
    moreover have "exec_stmt p st (E, tr) = (E(v := Some (length tr)), tr @ [(blank_stmt st, map E (reads st))])"
      using phi by (simp add: exec_stmt_def e)
    ultimately show ?thesis using agrees_define[OF ag w] by blast
  qed
qed

end
