(* ===== verification/SSAWalks.thy ===== *)
theory SSAWalks
  imports SSASim
begin

text \<open>
  Renaming one variable, along whole walks: the record of a walk is the same before and after.
\<close>

section \<open>Bodies\<close>

lemma body_sim:
  assumes fresh: "fresh_body (ssa_varname env) body mid (dlist dm l)" and fixed: "fixed_body env dm ph l mid b"
    and st: "\<forall>st \<in> set body. renamable (ssa_varname env) names st"
    and N: "\<And>i w. at_point (set (phi_locations env)) (ssa_idoms env) dm ph l i (Some w) \<Longrightarrow> w = ssa_varname env \<or> w \<notin> names"
    and ag: "agrees (ssa_varname env) names (at_point (set (phi_locations env)) (ssa_idoms env) dm ph l 0) E E'"
    and "i \<le> length body"
  shows "\<exists>F F' tr'. fold (exec_stmt p) (take i body) (E, tr) = (F, tr') \<and> fold (exec_stmt p) (take i b) (E', tr) = (F', tr')
    \<and> agrees (ssa_varname env) names (at_point (set (phi_locations env)) (ssa_idoms env) dm ph l i) F F'"
  using assms(6)
proof (induction i)
  case 0
  with ag show ?case by simp
next
  case (Suc i)
  let ?v = "ssa_varname env" and ?AP = "at_point (set (phi_locations env)) (ssa_idoms env) dm ph l"
  from Suc obtain F F' tr' where IH: "fold (exec_stmt p) (take i body) (E, tr) = (F, tr')"
    "fold (exec_stmt p) (take i b) (E', tr) = (F', tr')" "agrees ?v names (?AP i) F F'" by auto
  have i: "i < length body" using Suc.prems by simp
  have len: "length mid = length body" "length b = length mid"
    using fresh fixed by (simp_all add: fresh_body_def fixed_body_def)
  then have take: "take (Suc i) body = take i body @ [body ! i]" "take (Suc i) b = take i b @ [b ! i]"
    using i by (simp_all add: take_Suc_conv_app_nth)
  from fixed i len obtain r where r: "b ! i = fixed_stmt ?v r (mid ! i)"
    "if ?v \<in> set (reads (mid ! i)) then ?AP i r else r = None" by (auto simp: fixed_body_def fixes_stmt_def)
  have ok: "renamable ?v names (body ! i)" using st i by simp
  have Ni: "w = ?v \<or> w \<notin> names" if "?AP i (Some w)" for w by (rule N[OF that])
  note step = at_point_step[OF fresh i, of "set (phi_locations env)" "ssa_idoms env" ph]
  have "\<exists>G G' tr''. exec_stmt p (body ! i) (F, tr') = (G, tr'') \<and> exec_stmt p (b ! i) (F', tr') = (G', tr'')
      \<and> agrees ?v names (?AP (Suc i)) G G'"
  proof (cases "assigns_to ?v (body ! i)")
    case True
    from step(2)[OF this] obtain e w where w: "body ! i = Assign e ?v" "mid ! i = Assign e w"
      "\<And>r. ?AP (Suc i) r \<longleftrightarrow> r = Some w" by blast
    have "reads (mid ! i) = reads (body ! i)" by (simp add: w reads_def)
    with r(2) have "if ?v \<in> set (reads (body ! i)) then ?AP i r else r = None" by simp
    moreover have "w = ?v \<or> w \<notin> names" using N[of "Suc i" w] w(3) by simp
    ultimately show ?thesis
      using exec_renamed(2)[OF ok IH(3) _ Ni, of r e w p tr'] unfolding r(1) w by (simp add: w(3) agrees_def)
  next
    case False
    have "if assigns_to ?v (body ! i) then \<exists>w. StmtDef i w \<in> set (dlist dm l) else mid ! i = body ! i"
      using fresh i unfolding fresh_body_def by blast
    with False have mid: "mid ! i = body ! i" by simp
    have AP: "agrees ?v names (?AP (Suc i)) G G'" if "agrees ?v names (?AP i) G G'" for G G'
      using that step(1)[OF False] by (auto simp: agrees_def)
    from exec_renamed(1)[OF ok IH(3) r(2)[unfolded mid] Ni False, of p tr'] AP show ?thesis unfolding r(1) mid by blast
  qed
  with IH show ?case unfolding take by auto
qed

section \<open>Entering a block\<close>

lemma enter_block:
  fixes tr :: "'c steps"
  assumes graph: "ssa_graph cfg entry (ssa_idoms env)" "ssa_cfg env = cfg"
    and locs: "set (phi_locations env) = phi_blocks cfg entry dm" "ph m \<noteq> None \<Longrightarrow> m \<in> set (phi_locations env)"
    and phi: "phi_ok env dm ph m ps" and edge: "l \<in> set (g_preds cfg m)" "m \<in> set (g_nodes cfg)"
    and names: "\<And>n. ph m = Some n \<Longrightarrow> n \<notin> names" "v \<in> names"
    and ag: "agrees v names (reaching (set (phi_locations env)) (ssa_idoms env) dm ph (l, False)) E E'"
  shows "\<exists>F'. fold (exec_stmt (Some l)) (map phi_stmt ps) (E', tr) = (F', tr)
    \<and> agrees v names (reaching (set (phi_locations env)) (ssa_idoms env) dm ph (m, True)) E F'"
proof (cases "ph m")
  case None
  let ?R = "reaching (set (phi_locations env)) (ssa_idoms env) dm ph"
  have "?R (l, False) r" if r: "?R (m, True) r" for r
  proof (cases "m \<in> set (phi_locations env)")
    case True
    from r show ?thesis by (rule reaching_topE) (use True None in auto)
  next
    case False
    show ?thesis by (rule reaching_edge[OF graph(1) locs(1) edge False r])
  qed
  with agrees_mono[OF ag] None phi show ?thesis by (simp add: phi_ok_def)
next
  case (Some n)
  let ?R = "reaching (set (phi_locations env)) (ssa_idoms env) dm ph"
  from phi Some obtain p where p: "ps = [p]" "phi_target p = n" "incoming_blocks p = g_preds cfg m"
    "list_all2 (\<lambda>q x. ?R (q, False) x) (incoming_blocks p) (incoming_values p)" by (auto simp: phi_ok_def graph(2))
  from phi_stmt_arg[OF p(4)] edge(1) p(3) obtain x where x: "phi_arg l (phi_stmt p :: 'c stmt) = x" "?R (l, False) x" by auto
  have n: "n \<notin> names" "n \<noteq> v" using names Some by auto
  let ?F = "E'(n := E v)"
  have "Option.bind x E' = E v" using ag x(2) by (simp add: agrees_def)
  moreover obtain e where e: "(phi_stmt p :: 'c stmt) = Assign e n" by (simp add: phi_stmt_def p(2))
  moreover have "is_phi (Assign e n)" unfolding e[symmetric] by simp
  ultimately have "exec_stmt (Some l) (phi_stmt p :: 'c stmt) (E', tr) = (?F, tr)"
    using x(1) by (simp add: exec_stmt_def)
  moreover have "agrees v names (\<lambda>r. r = Some n) E ?F"
    using ag n by (auto simp: agrees_def)
  then have "agrees v names (?R (m, True)) E ?F"
  proof (rule agrees_mono)
    show "r = Some n" if "?R (m, True) r" for r
      using that by (rule reaching_topE) (use Some locs(2) in auto)
  qed
  ultimately show ?thesis by (simp add: p(1))
qed

section \<open>Walks\<close>

lemma violator_resultD:
  assumes "violator_result cfg entry env dm ph names names' blocks nbs"
  shows "ssa_cfg env = cfg" "ssa_graph cfg entry (ssa_idoms env)" "set (phi_locations env) = phi_blocks cfg entry dm"
    "dkeys nbs = dkeys blocks" "l \<notin> set (dkeys blocks) \<Longrightarrow> dlist dm l = []"
    "violator_names (ssa_varname env) names dm (dkeys blocks) ph names'"
    "ph l = Some n \<Longrightarrow> l \<in> set (phi_locations env)"
    "map_of blocks l = Some body \<Longrightarrow> \<exists>nb. map_of nbs l = Some nb \<and> violator_body env dm ph l body nb"
  using assms unfolding violator_result_def by blast+

lemma result_names:
  assumes res: "violator_result cfg entry env dm ph names names' blocks nbs"
  shows "at_point (set (phi_locations env)) (ssa_idoms env) dm ph l i (Some w) \<Longrightarrow>
      (w = ssa_varname env \<or> w \<notin> names) \<and> w \<in> names'"
    and "reaching (set (phi_locations env)) (ssa_idoms env) dm ph p (Some w) \<Longrightarrow>
      (w = ssa_varname env \<or> w \<notin> names) \<and> w \<in> names'"
proof -
  let ?N = "\<lambda>w. (w = ssa_varname env \<or> w \<notin> names) \<and> w \<in> names'"
  note names = violator_resultD(6)[OF res] and none = violator_resultD(5)[OF res]
  have defs: "\<forall>d \<in> set (dlist dm l). ?N (def_target d)" if "dlist dm l \<noteq> []" for l
  proof
    fix d assume "d \<in> set (dlist dm l)"
    moreover have "l \<in> set (dkeys blocks)" using none that by blast
    ultimately have "def_target d \<in> set (def_names dm (dkeys blocks))" by (auto simp: def_names_def)
    then have "def_target d = ssa_varname env \<or> def_target d \<in> names' - names"
      using names unfolding violator_names_def by blast
    then show "?N (def_target d)" using names unfolding violator_names_def by auto
  qed
  have phis: "?N n" if "ph l = Some n" for l n using names that unfolding violator_names_def by blast
  show "?N w" if "at_point (set (phi_locations env)) (ssa_idoms env) dm ph l i (Some w)"
    by (rule at_point_names[OF that, where N = ?N]) (fact defs, fact phis)
  show "?N w" if "reaching (set (phi_locations env)) (ssa_idoms env) dm ph p (Some w)"
    by (rule reaching_names[OF that refl, where N = ?N]) (fact defs, fact phis)
qed

definition all_renamable :: "string \<Rightarrow> string set \<Rightarrow> 'c blocks \<Rightarrow> bool" where
  "all_renamable v names blocks \<longleftrightarrow> (\<forall>l body. map_of blocks l = Some body \<longrightarrow> (\<forall>st \<in> set body. renamable v names st))"

text \<open>From the point after the phi nodes to the bottom of the block.\<close>

lemma block_sim:
  assumes res: "violator_result cfg entry env dm ph names names' blocks nbs" and body: "map_of blocks m = Some body"
    and st: "all_renamable (ssa_varname env) names blocks"
  obtains ps b where "map_of nbs m = Some (map phi_stmt ps @ b)" "phi_ok env dm ph m ps"
    "\<And>E E' tr p. agrees (ssa_varname env) names (reaching (set (phi_locations env)) (ssa_idoms env) dm ph (m, True)) E E'
      \<Longrightarrow> \<exists>F F' tr'. fold (exec_stmt p) body (E, tr) = (F, tr') \<and> fold (exec_stmt p) b (E', tr) = (F', tr')
        \<and> agrees (ssa_varname env) names (reaching (set (phi_locations env)) (ssa_idoms env) dm ph (m, False)) F F'"
proof -
  let ?v = "ssa_varname env" and ?R = "reaching (set (phi_locations env)) (ssa_idoms env) dm ph"
    and ?AP = "at_point (set (phi_locations env)) (ssa_idoms env) dm ph m"
  from violator_resultD(8)[OF res body] obtain nb where nb: "map_of nbs m = Some nb" "violator_body env dm ph m body nb"
    by blast
  then obtain ps mid b where b: "nb = map phi_stmt ps @ b" "phi_ok env dm ph m ps"
    "fresh_body ?v body mid (dlist dm m)" "fixed_body env dm ph m mid b" by (auto simp: violator_body_def)
  have len: "length b = length body" using b(3,4) by (simp add: fresh_body_def fixed_body_def)
  have "\<exists>F F' tr'. fold (exec_stmt p) body (E, tr) = (F, tr') \<and> fold (exec_stmt p) b (E', tr) = (F', tr')
      \<and> agrees ?v names (?R (m, False)) F F'" if ag: "agrees ?v names (?R (m, True)) E E'" for E E' tr p
  proof -
    have "agrees ?v names (?AP 0) E E'" by (rule agrees_mono[OF ag]) (simp add: at_point_def)
    from body_sim[OF b(3,4) _ _ this order_refl, of p tr] st body result_names(1)[OF res] obtain F F' tr' where
      "fold (exec_stmt p) body (E, tr) = (F, tr')" "fold (exec_stmt p) b (E', tr) = (F', tr')"
      "agrees ?v names (?AP (length body)) F F'" unfolding all_renamable_def by (fastforce simp: len)
    moreover from this(3) have "agrees ?v names (?R (m, False)) F F'"
      by (rule agrees_mono) (rule at_point_bottom[OF b(3)])
    ultimately show ?thesis by blast
  qed
  with nb(1) b(1,2) show thesis by (intro that) auto
qed

lemma walk_sim:
  assumes res: "violator_result cfg entry env dm ph names names' blocks nbs"
    and st: "all_renamable (ssa_varname env) names blocks" and keys: "set (dkeys blocks) = set (g_nodes cfg)"
    and walk: "walk (g_edges cfg) (l # ks)"
    and ag: "agrees (ssa_varname env) names (reaching (set (phi_locations env)) (ssa_idoms env) dm ph (l, False)) E E'"
  shows "snd (exec_walk nbs (Some l) ks (E', tr)) = snd (exec_walk blocks (Some l) ks (E, tr))"
  using walk ag
proof (induction ks arbitrary: l E E' tr)
  case (Cons m ks)
  let ?v = "ssa_varname env" and ?R = "reaching (set (phi_locations env)) (ssa_idoms env) dm ph"
  note graph = violator_resultD(2,1)[OF res] and locs = violator_resultD(3,7)[OF res] and names = violator_resultD(6)[OF res]
  from Cons.prems(1) have edge: "(l, m) \<in> g_edges cfg" and rest: "walk (g_edges cfg) (m # ks)" by (simp_all add: walk_def)
  have pred: "l \<in> set (g_preds cfg m)" "m \<in> set (g_nodes cfg)"
    using edge cfg_wfD(3,6)[OF ssa_graphD(1)[OF graph(1)]] by auto
  with keys have "m \<in> set (dkeys blocks)" by simp
  then obtain body where body: "map_of blocks m = Some body" by (cases "map_of blocks m") (auto simp: map_of_eq_None_iff)
  obtain ps b where b: "map_of nbs m = Some (map phi_stmt ps @ b)" "phi_ok env dm ph m ps"
    "\<And>E E' tr p. agrees ?v names (?R (m, True)) E E' \<Longrightarrow> \<exists>F F' tr'. fold (exec_stmt p) body (E, tr) = (F, tr')
        \<and> fold (exec_stmt p) b (E', tr) = (F', tr') \<and> agrees ?v names (?R (m, False)) F F'"
    using block_sim[OF res body st] by blast
  have n: "n \<notin> names" if "ph m = Some n" for n using names that unfolding violator_names_def by blast
  have v: "?v \<in> names" using names by (simp add: violator_names_def)
  have pm: "m \<in> set (phi_locations env)" if "ph m \<noteq> None" using that locs(2) by auto
  from enter_block[OF graph locs(1) pm b(2) pred n v Cons.prems(2), of tr] obtain E1' where
    E1: "fold (exec_stmt (Some l)) (map phi_stmt ps) (E', tr) = (E1', tr)" "agrees ?v names (?R (m, True)) E E1'" by blast
  from b(3)[OF E1(2), of "Some l" tr] obtain F F' tr' where
    F: "fold (exec_stmt (Some l)) body (E, tr) = (F, tr')" "fold (exec_stmt (Some l)) b (E1', tr) = (F', tr')"
      "agrees ?v names (?R (m, False)) F F'" by blast
  from Cons.IH[OF rest F(3)] show ?case using E1(1) F(1,2) by (simp add: block_at_def body b(1) comp_def)
qed simp

text \<open>The record of every walk from the entry is kept.\<close>

lemma walk_kept:
  assumes res: "violator_result cfg entry env dm ph names names' blocks nbs"
    and st: "all_renamable (ssa_varname env) names blocks" and keys: "set (dkeys blocks) = set (g_nodes cfg)"
    and walk: "walk (g_edges cfg) (entry # ks)"
  shows "walk_steps nbs (entry # ks) = walk_steps blocks (entry # ks)"
proof -
  let ?v = "ssa_varname env" and ?R = "reaching (set (phi_locations env)) (ssa_idoms env) dm ph" and ?E = "\<lambda>x :: string. None :: nat option"
  note graph = violator_resultD(2)[OF res] and locs = violator_resultD(3,7)[OF res]
  have "(k, entry) \<notin> frontier_rel cfg entry" for k using ssa_graphD(4)[OF graph] by (simp add: frontier_rel_def)
  then have "(k, entry) \<notin> (frontier_rel cfg entry)\<^sup>+" for k by (meson tranclE)
  then have no_loc: "entry \<notin> set (phi_locations env)" by (simp add: locs(1) phi_blocks_def)
  have idom: "map_of (ssa_idoms env) entry = Some (Some entry)" by (rule ssa_idom_entry[OF graph])
  have top: "r = None" if "?R (entry, True) r" for r
    using that by (rule reaching_topE) (use no_loc idom in auto)
  have "entry \<in> set (g_nodes cfg)" using cfg_wfD(4)[OF ssa_graphD(1,2)[OF graph]] .
  with keys have "entry \<in> set (dkeys blocks)" by simp
  then obtain body where body: "map_of blocks entry = Some body"
    by (cases "map_of blocks entry") (auto simp: map_of_eq_None_iff)
  obtain ps b where b: "map_of nbs entry = Some (map phi_stmt ps @ b)" "phi_ok env dm ph entry ps"
    "\<And>E E' tr p. agrees ?v names (?R (entry, True)) E E' \<Longrightarrow> \<exists>F F' tr'. fold (exec_stmt p) body (E, tr) = (F, tr')
        \<and> fold (exec_stmt p) b (E', tr) = (F', tr') \<and> agrees ?v names (?R (entry, False)) F F'"
    using block_sim[OF res body st] by blast
  have "ph entry = None" using locs(2) no_loc by (cases "ph entry") auto
  with b(2) have ps: "ps = []" by (simp add: phi_ok_def)
  have "agrees ?v names (?R (entry, True)) ?E ?E" using top by (auto simp: agrees_def)
  from b(3)[OF this, of None "[]"] obtain F F' tr' where
    F: "fold (exec_stmt None) body (?E, []) = (F, tr')" "fold (exec_stmt None) b (?E, []) = (F', tr')"
      "agrees ?v names (?R (entry, False)) F F'" by blast
  from walk_sim[OF res st keys walk F(3), of tr'] show ?thesis
    by (simp add: walk_steps_def block_at_def body b(1) ps F)
qed

end
