(* ===== verification/SSAKeep.thy ===== *)
theory SSAKeep
  imports SSAWalks
begin

text \<open>
  The blocks after renaming one variable are again what the next pass expects, have the same
  graph, and assign no variable twice that was not assigned twice before.
\<close>

section \<open>What a pass expects\<close>

definition stmt_ok :: "string set \<Rightarrow> string set \<Rightarrow> 'c stmt \<Rightarrow> bool" where
  "stmt_ok names vs st \<longleftrightarrow> set (reads st) \<subseteq> names \<and> writes st \<subseteq> names \<and> reads_reached st \<and> \<not> is_del st
     \<and> (is_phi st \<longrightarrow> vs \<inter> (set (reads st) \<union> writes st) = {})"

definition pass_input :: "(int, unit) cfgraph \<Rightarrow> string set \<Rightarrow> string set \<Rightarrow> 'c blocks \<Rightarrow> bool" where
  "pass_input cfg vs names blocks \<longleftrightarrow> distinct (dkeys blocks) \<and> set (dkeys blocks) = set (g_nodes cfg)
     \<and> (\<forall>l body. map_of blocks l = Some body \<longrightarrow>
          body \<noteq> [] \<and> is_terminator (last body) \<and> (\<forall>st \<in> set (butlast body). \<not> is_terminator st)
          \<and> (\<forall>st \<in> set body. stmt_ok names vs st))"

lemma pass_inputD:
  assumes "pass_input cfg vs names blocks"
  shows "distinct (dkeys blocks)" "set (dkeys blocks) = set (g_nodes cfg)"
    "map_of blocks l = Some body \<Longrightarrow> body \<noteq> [] \<and> is_terminator (last body)"
    "map_of blocks l = Some body \<Longrightarrow> st \<in> set body \<Longrightarrow> stmt_ok names vs st"
    "map_of blocks l = Some body \<Longrightarrow> st \<in> set (butlast body) \<Longrightarrow> \<not> is_terminator st"
  using assms unfolding pass_input_def by blast+

lemma pass_input_renamable: "pass_input cfg vs names blocks \<Longrightarrow> v \<in> vs \<Longrightarrow> all_renamable v names blocks"
  unfolding all_renamable_def renamable_def by (fast dest: pass_inputD(4)[unfolded stmt_ok_def])

lemma reached_replace_attr:
  fixes a :: "'c attr" and i :: "'c inst"
  shows "attr_reached a \<Longrightarrow> attr_reached (replace_attr v w a)"
    and "inst_reached i \<Longrightarrow> inst_reached (replace_inst v w i)"
  by (induction a and i) (auto simp: snds.simps)

lemma reached_fixed: "reads_reached st \<Longrightarrow> reads_reached (fixed_stmt v r st)"
  by (cases st; cases r) (auto simp: fixed_stmt_def replace_stmt_def Let_def reads_reached_def replace_rhs_def
      reached_replace_attr(2) split: rhs.splits)

lemma phi_stmt_facts:
  "set (reads (phi_stmt p)) = {w. Some w \<in> set (incoming_values p)}"
  "reads_reached (phi_stmt p)" "\<not> is_del (phi_stmt p)" "\<not> is_terminator (phi_stmt p)"
proof -
  have "rec_list_vars (case x of None \<Rightarrow> UndefinedA | Some w \<Rightarrow> VarA w) = (case x of None \<Rightarrow> [] | Some w \<Rightarrow> [w])" for x
    by (cases x) simp_all
  then show "set (reads (phi_stmt p)) = {w. Some w \<in> set (incoming_values p)}"
    by (auto simp: phi_stmt_def reads_def rhs_vars_def comp_def split: option.splits)
qed (auto simp: phi_stmt_def reads_reached_def is_del_def is_terminator_def is_exit_def split: option.splits)

section \<open>The statements of the new blocks\<close>

lemma assigned_anew:
  assumes "if assigns_to v st then \<exists>e w. st = Assign e v \<and> m = Assign e w \<and> P w else m = st"
  shows "reads m = reads st" "reads_reached m = reads_reached st" "is_del m = is_del st" "is_phi m = is_phi st"
    "is_terminator m = is_terminator st"
proof -
  have "m = st \<or> (\<exists>e w. st = Assign e v \<and> m = Assign e w)" using assms by (auto split: if_splits)
  then have "reads m = reads st \<and> reads_reached m = reads_reached st \<and> is_del m = is_del st \<and> is_phi m = is_phi st
      \<and> is_terminator m = is_terminator st"
    by (elim disjE exE conjE)
      (simp_all add: reads_def reads_reached_def is_del_def is_phi_def is_terminator_def is_exit_def)
  then show "reads m = reads st" "reads_reached m = reads_reached st" "is_del m = is_del st" "is_phi m = is_phi st"
    "is_terminator m = is_terminator st" by simp_all
qed

text \<open>A statement of the new block, with the one it comes from.\<close>

lemma new_body:
  assumes res: "violator_result cfg entry env dm ph names names' blocks nbs" and body: "map_of blocks l = Some body"
  obtains ps mid b where "map_of nbs l = Some (map phi_stmt ps @ b)" "phi_ok env dm ph l ps" "length b = length body"
    "fresh_body (ssa_varname env) body mid (dlist dm l)"
    "\<And>i. i < length body \<Longrightarrow> \<exists>r. b ! i = fixed_stmt (ssa_varname env) r (mid ! i)
       \<and> (if ssa_varname env \<in> set (reads (body ! i)) then \<forall>w. r = Some w \<longrightarrow> w \<in> names' \<and> (w = ssa_varname env \<or> w \<notin> names)
          else r = None)"
    "\<And>i. i < length body \<Longrightarrow> (if assigns_to (ssa_varname env) (body ! i)
       then \<exists>e w. body ! i = Assign e (ssa_varname env) \<and> mid ! i = Assign e w \<and> StmtDef i w \<in> set (dlist dm l)
       else mid ! i = body ! i)"
proof -
  let ?v = "ssa_varname env"
  from violator_resultD(8)[OF res body] obtain ps mid b where b: "map_of nbs l = Some (map phi_stmt ps @ b)"
    "phi_ok env dm ph l ps" "fresh_body ?v body mid (dlist dm l)" "fixed_body env dm ph l mid b"
    unfolding violator_body_def by blast
  have len: "length mid = length body" "length b = length body" using b(3,4) by (simp_all add: fresh_body_def fixed_body_def)
  have mid: "if assigns_to ?v (body ! i)
       then \<exists>e w. body ! i = Assign e ?v \<and> mid ! i = Assign e w \<and> StmtDef i w \<in> set (dlist dm l)
       else mid ! i = body ! i" if i: "i < length body" for i
  proof (cases "assigns_to ?v (body ! i)")
    case True
    from at_point_step(2)[OF b(3) i True] obtain e w where
      "body ! i = Assign e ?v" "mid ! i = Assign e w" "StmtDef i w \<in> set (dlist dm l)" by blast
    with True show ?thesis by auto
  next
    case False
    with b(3) i show ?thesis unfolding fresh_body_def by auto
  qed
  have "\<exists>r. b ! i = fixed_stmt ?v r (mid ! i)
       \<and> (if ?v \<in> set (reads (body ! i)) then \<forall>w. r = Some w \<longrightarrow> w \<in> names' \<and> (w = ?v \<or> w \<notin> names) else r = None)"
    if i: "i < length body" for i
  proof -
    have "reads (mid ! i) = reads (body ! i)" by (rule assigned_anew(1)[OF mid[OF i]])
    moreover have "fixes_stmt env dm ph l i (mid ! i) (b ! i)" using b(4) i len by (simp add: fixed_body_def)
    ultimately obtain r where "b ! i = fixed_stmt ?v r (mid ! i)"
      "if ?v \<in> set (reads (body ! i)) then at_point (set (phi_locations env)) (ssa_idoms env) dm ph l i r else r = None"
      unfolding fixes_stmt_def by auto
    with result_names(1)[OF res, of l i] show ?thesis by (intro exI[of _ r]) (auto split: if_splits)
  qed
  from that[OF b(1,2) len(2) b(3) this mid] show thesis .
qed

lemma pass_input_kept:
  assumes res: "violator_result cfg entry env dm ph names names' blocks nbs"
    and input: "pass_input cfg (insert (ssa_varname env) vs) names blocks" and vs: "vs \<subseteq> names" "ssa_varname env \<notin> vs"
  shows "pass_input cfg vs names' nbs"
    and "map_of blocks l = Some body \<Longrightarrow> \<exists>nb. map_of nbs l = Some nb \<and> nb \<noteq> [] \<and> get_targets (last nb) = get_targets (last body)"
proof -
  let ?v = "ssa_varname env"
  note names = violator_resultD(6)[OF res, unfolded violator_names_def]
  have new: "\<exists>nb. map_of nbs l = Some nb \<and> nb \<noteq> [] \<and> is_terminator (last nb) \<and> get_targets (last nb) = get_targets (last body)
      \<and> (\<forall>st \<in> set (butlast nb). \<not> is_terminator st) \<and> (\<forall>st \<in> set nb. stmt_ok names' vs st)" if body: "map_of blocks l = Some body" for l body
  proof -
    obtain ps mid b where b: "map_of nbs l = Some (map phi_stmt ps @ b)" "phi_ok env dm ph l ps" "length b = length body"
      "fresh_body ?v body mid (dlist dm l)"
      "\<And>i. i < length body \<Longrightarrow> \<exists>r. b ! i = fixed_stmt ?v r (mid ! i)
         \<and> (if ?v \<in> set (reads (body ! i)) then \<forall>w. r = Some w \<longrightarrow> w \<in> names' \<and> (w = ?v \<or> w \<notin> names) else r = None)"
      "\<And>i. i < length body \<Longrightarrow> (if assigns_to ?v (body ! i)
         then \<exists>e w. body ! i = Assign e ?v \<and> mid ! i = Assign e w \<and> StmtDef i w \<in> set (dlist dm l)
         else mid ! i = body ! i)"
      by (rule new_body[OF res body]) (rule that; assumption)
    from pass_inputD(3)[OF input body] have ends: "body \<noteq> []" "is_terminator (last body)" by simp_all
    let ?n = "length body - 1"
    have n: "?n < length body" "body ! ?n = last body" "b \<noteq> []" "b ! ?n = last b"
      using ends(1) b(3) last_conv_nth[of body] last_conv_nth[of b] by (auto simp flip: length_greater_0_conv)
    have "\<not> assigns_to ?v (last body)" using ends(2) by (auto simp: assigns_to_def is_terminator_def is_exit_def split: stmt.splits)
    then have "mid ! ?n = last body" using b(6)[OF n(1)] n(2) by simp
    with b(5)[OF n(1)] n(4) obtain r where "last b = fixed_stmt ?v r (last body)" by auto
    then have last: "is_terminator (last b)" "get_targets (last b) = get_targets (last body)"
      using ends(2) by (simp_all add: blank_fixed)
    have phis: "stmt_ok names' vs (phi_stmt p)" if p: "p \<in> set ps" for p
    proof -
      from p b(2) obtain k where k: "ph l = Some k" "phi_target p = k"
        "list_all2 (\<lambda>q x. reaching (set (phi_locations env)) (ssa_idoms env) dm ph (q, False) x) (incoming_blocks p) (incoming_values p)"
        by (auto simp: phi_ok_def split: option.splits)
      have "w \<in> names' \<and> (w = ?v \<or> w \<notin> names)" if "Some w \<in> set (incoming_values p)" for w
      proof -
        from k(3) that obtain q where "reaching (set (phi_locations env)) (ssa_idoms env) dm ph (q, False) (Some w)"
          by (auto simp: list_all2_conv_all_nth in_set_conv_nth)
        from result_names(2)[OF res this] show ?thesis by blast
      qed
      moreover have "k \<in> names' - names" using k(1) names by blast
      ultimately show ?thesis using vs k(2) by (auto simp: stmt_ok_def phi_stmt_facts)
    qed
    have stmts: "stmt_ok names' vs (b ! i)" if i: "i < length body" for i
    proof -
      have st: "stmt_ok names (insert ?v vs) (body ! i)" using pass_inputD(4)[OF input body] i by simp
      from b(5)[OF i] obtain r where r: "b ! i = fixed_stmt ?v r (mid ! i)"
        "if ?v \<in> set (reads (body ! i)) then \<forall>w. r = Some w \<longrightarrow> w \<in> names' \<and> (w = ?v \<or> w \<notin> names) else r = None" by blast
      note mid = assigned_anew[OF b(6)[OF i]]
      have reached: "reads_reached (mid ! i)" using st mid by (simp add: stmt_ok_def)
      have sub: "names \<subseteq> names'" using names by blast
      have "set (reads (b ! i)) \<subseteq> names'"
        using st r(2) sub unfolding r(1) fixed_reads[OF reached] mid
        by (auto simp: stmt_ok_def replace_name_def split: option.splits if_splits)
      moreover have "writes (b ! i) \<subseteq> names'"
      proof (cases "assigns_to ?v (body ! i)")
        case True
        with b(6)[OF i] obtain e w where w: "mid ! i = Assign e w" "StmtDef i w \<in> set (dlist dm l)" by auto
        have "l \<in> set (dkeys blocks)" using body by (metis domI dom_map_of_conv_image_fst list.set_map)
        with w(2) have "w \<in> set (def_names dm (dkeys blocks))" by (force simp: def_names_def)
        then have "w \<in> names'" using names by blast
        then show ?thesis unfolding r(1) blank_fixed w(1) by (simp add: writes_def)
      next
        case False
        with b(6)[OF i] have "mid ! i = body ! i" by simp
        then show ?thesis unfolding r(1) blank_fixed using st sub by (auto simp: stmt_ok_def)
      qed
      moreover have "reads_reached (b ! i)" "\<not> is_del (b ! i)"
        using reached_fixed[OF reached] st unfolding r(1) blank_fixed mid by (simp_all add: stmt_ok_def)
      moreover have "vs \<inter> (set (reads (b ! i)) \<union> writes (b ! i)) = {}" if "is_phi (b ! i)"
      proof -
        have phi: "is_phi (body ! i)" using that unfolding r(1) fixed_phi mid .
        with st have none: "?v \<notin> set (reads (body ! i))" "?v \<notin> writes (body ! i)" "vs \<inter> (set (reads (body ! i)) \<union> writes (body ! i)) = {}"
          by (auto simp: stmt_ok_def)
        with b(6)[OF i] r have "b ! i = body ! i" by (simp add: writes_assigns fixed_stmt_def)
        with none(3) show ?thesis by simp
      qed
      ultimately show ?thesis by (simp add: stmt_ok_def)
    qed
    have "\<forall>st \<in> set b. stmt_ok names' vs st" using stmts b(3) by (metis in_set_conv_nth)
    with phis have "\<forall>st \<in> set (map phi_stmt ps @ b). stmt_ok names' vs st" by auto
    moreover have "\<not> is_terminator st" if "st \<in> set (butlast (map phi_stmt ps @ b))" for st
    proof (cases "st \<in> set (butlast b)")
      case True
      then obtain i where i: "i < length b - 1" "st = b ! i" by (auto simp: in_set_conv_nth nth_butlast)
      then have ib: "i < length body" "i < length body - 1" using b(3) by simp_all
      from b(5)[OF ib(1)] obtain r where "b ! i = fixed_stmt ?v r (mid ! i)" by blast
      then have "is_terminator st = is_terminator (body ! i)"
        using i(2) assigned_anew(5)[OF b(6)[OF ib(1)]] by (simp add: blank_fixed(4))
      moreover have "body ! i \<in> set (butlast body)" using ib by (auto simp: in_set_conv_nth nth_butlast intro!: exI[of _ i])
      ultimately show ?thesis using pass_inputD(5)[OF input body] by simp
    next
      case False
      with that n(3) have "st \<in> set (map phi_stmt ps)" by (simp add: butlast_append)
      then show ?thesis by (auto simp: phi_stmt_facts)
    qed
    ultimately show ?thesis using b(1) n(3) last by (intro exI[of _ "map phi_stmt ps @ b"]) simp
  qed
  show "map_of blocks l = Some body \<Longrightarrow> \<exists>nb. map_of nbs l = Some nb \<and> nb \<noteq> [] \<and> get_targets (last nb) = get_targets (last body)"
    using new by blast
  have "body \<noteq> [] \<and> is_terminator (last body) \<and> (\<forall>st \<in> set (butlast body). \<not> is_terminator st)
      \<and> (\<forall>st \<in> set body. stmt_ok names' vs st)" if nb: "map_of nbs l = Some body" for l body
  proof -
    have "l \<in> set (dkeys nbs)" using nb by (metis domI dom_map_of_conv_image_fst list.set_map)
    then have "l \<in> set (dkeys blocks)" by (simp only: violator_resultD(4)[OF res])
    then obtain old where "map_of blocks l = Some old" by (cases "map_of blocks l") (auto simp: map_of_eq_None_iff)
    from new[OF this] nb show ?thesis by auto
  qed
  with pass_inputD(1,2)[OF input] show "pass_input cfg vs names' nbs"
    unfolding pass_input_def violator_resultD(4)[OF res] by blast
qed

end
