(* ===== verification/SSAOnce.thy ===== *)
theory SSAOnce
  imports SSAKeep
begin

text \<open>
  Single assignment: which variables the analysis finds to violate it, and what is left of them
  after a pass.
\<close>

section \<open>Assignments by position\<close>

definition assigned_at :: "'c blocks \<Rightarrow> int \<Rightarrow> nat \<Rightarrow> string \<Rightarrow> bool" where
  "assigned_at blocks l i x \<longleftrightarrow> (\<exists>body. map_of blocks l = Some body \<and> i < length body \<and> assigns_to x (body ! i))"

definition assigned_once :: "'c blocks \<Rightarrow> string \<Rightarrow> bool" where
  "assigned_once blocks x \<longleftrightarrow>
     (\<forall>l i m j. assigned_at blocks l i x \<longrightarrow> assigned_at blocks m j x \<longrightarrow> l = m \<and> i = j)"

lemma def_names_unique:
  assumes "distinct (def_names dm ls)" and "distinct ls" and "l \<in> set ls" "m \<in> set ls"
    and "StmtDef i x \<in> set (dlist dm l)" "StmtDef j x \<in> set (dlist dm m)"
  shows "l = m \<and> i = j"
proof -
  have x: "x \<in> set (map def_target (dlist dm l))" "x \<in> set (map def_target (dlist dm m))" using assms(5,6) by force+
  have "l = m"
  proof (rule ccontr)
    assume "l \<noteq> m"
    then have "set (map def_target (dlist dm l)) \<inter> set (map def_target (dlist dm m)) = {}"
      using assms(1-4)
    proof (induction ls)
      case (Cons k ls)
      then have no: "set (map def_target (dlist dm k)) \<inter> set (def_names dm ls) = {}" by (auto simp: def_names_def)
      have sub: "set (map def_target (dlist dm n)) \<subseteq> set (def_names dm ls)" if "n \<in> set ls" for n
        using that by (auto simp: def_names_def)
      show ?case
      proof (cases "l \<in> set ls \<and> m \<in> set ls")
        case True
        moreover have "distinct (def_names dm ls)" "distinct ls" using Cons.prems by (auto simp: def_names_def)
        ultimately show ?thesis using Cons.IH Cons.prems(1) by blast
      next
        case False
        with Cons.prems have "l = k \<and> m \<in> set ls \<or> m = k \<and> l \<in> set ls" by auto
        then show ?thesis using no sub by blast
      qed
    qed simp
    with x show False by blast
  qed
  moreover have "distinct (map def_target (dlist dm l))"
    using assms(1,3) by (auto simp: def_names_def distinct_concat_iff)
  then have "inj_on def_target (set (dlist dm l))" by (simp add: distinct_map)
  from inj_onD[OF this, of "StmtDef i x" "StmtDef j x"] have "i = j" using assms(5,6) calculation by simp
  ultimately show ?thesis by blast
qed

text \<open>Where the assignments of the new blocks come from.\<close>

lemma new_assignment:
  assumes res: "violator_result cfg entry env dm ph names names' blocks nbs" and x: "assigned_at nbs l i x"
  shows "l \<in> set (dkeys blocks) \<and> (ph l = Some x \<and> i = 0
    \<or> (\<exists>j. i = j + (case ph l of None \<Rightarrow> 0 | Some _ \<Rightarrow> 1) \<and>
        (StmtDef j x \<in> set (dlist dm l) \<or> x \<noteq> ssa_varname env \<and> assigned_at blocks l j x)))"
proof -
  let ?v = "ssa_varname env"
  from x obtain nb where nb: "map_of nbs l = Some nb" "i < length nb" "assigns_to x (nb ! i)" by (auto simp: assigned_at_def)
  then have "l \<in> set (dkeys nbs)" by (metis domI dom_map_of_conv_image_fst list.set_map)
  then have l: "l \<in> set (dkeys blocks)" by (simp only: violator_resultD(4)[OF res])
  then obtain body where body: "map_of blocks l = Some body" by (cases "map_of blocks l") (auto simp: map_of_eq_None_iff)
  obtain ps mid b where b: "map_of nbs l = Some (map phi_stmt ps @ b)" "phi_ok env dm ph l ps" "length b = length body"
    "fresh_body ?v body mid (dlist dm l)"
    "\<And>i. i < length body \<Longrightarrow> \<exists>r. b ! i = fixed_stmt ?v r (mid ! i)
       \<and> (if ?v \<in> set (reads (body ! i)) then \<forall>w. r = Some w \<longrightarrow> w \<in> names' \<and> (w = ?v \<or> w \<notin> names) else r = None)"
    "\<And>i. i < length body \<Longrightarrow> (if assigns_to ?v (body ! i)
       then \<exists>e w. body ! i = Assign e ?v \<and> mid ! i = Assign e w \<and> StmtDef i w \<in> set (dlist dm l)
       else mid ! i = body ! i)"
    by (rule new_body[OF res body]) (rule that; assumption)
  have len: "length ps = (case ph l of None \<Rightarrow> 0 | Some _ \<Rightarrow> 1)" using b(2) by (auto simp: phi_ok_def split: option.splits)
  show ?thesis
  proof (cases "i < length ps")
    case True
    with b(2) obtain k p where k: "ph l = Some k" "ps = [p]" "phi_target p = k" by (auto simp: phi_ok_def split: option.splits)
    with True nb b(1) have "x = k" by (auto simp: phi_stmt_def assigns_to_def)
    with k True l show ?thesis by auto
  next
    case False
    let ?j = "i - length ps"
    have j: "?j < length body" and at: "nb ! i = b ! ?j" using nb(1,2) b(1,3) False by (auto simp: nth_append)
    from b(5)[OF j] obtain r where "b ! ?j = fixed_stmt ?v r (mid ! ?j)" by blast
    with nb(3) at have mid: "assigns_to x (mid ! ?j)" by (simp add: blank_fixed(6))
    have "StmtDef ?j x \<in> set (dlist dm l) \<or> x \<noteq> ?v \<and> assigned_at blocks l ?j x"
    proof (cases "assigns_to ?v (body ! ?j)")
      case True
      with b(6)[OF j] mid show ?thesis by (auto simp: assigns_to_def)
    next
      case no: False
      with b(6)[OF j] mid body j show ?thesis by (auto simp: assigned_at_def)
    qed
    moreover have "i = ?j + (case ph l of None \<Rightarrow> 0 | Some _ \<Rightarrow> 1)" using False len by simp
    ultimately show ?thesis using l by blast
  qed
qed

lemma assigned_once_pass:
  assumes res: "violator_result cfg entry env dm ph names names' blocks nbs" and distinct: "distinct (dkeys blocks)"
    and names: "\<And>l i x. assigned_at blocks l i x \<Longrightarrow> x \<in> names"
    and once: "x = ssa_varname env \<or> assigned_once blocks x"
  shows "assigned_once nbs x"
  unfolding assigned_once_def
proof (intro allI impI)
  fix l i m j assume a: "assigned_at nbs l i x" "assigned_at nbs m j x"
  let ?v = "ssa_varname env"
  note vn = violator_resultD(6)[OF res, unfolded violator_names_def]
  note n1 = new_assignment[OF res a(1)] and n2 = new_assignment[OF res a(2)]
  have defs: "x \<in> set (def_names dm (dkeys blocks))" if "StmtDef k x \<in> set (dlist dm n)" "n \<in> set (dkeys blocks)" for k n
    using that by (force simp: def_names_def)
  have kinds: "(ph n = Some x \<longrightarrow> x \<in> names' - names \<and> x \<notin> set (def_names dm (dkeys blocks)))" for n using vn by blast
  have defs_names: "x = ?v \<or> x \<notin> names" if "StmtDef k x \<in> set (dlist dm n)" "n \<in> set (dkeys blocks)" for k n
    using defs[OF that] vn by blast
  consider (phi) n where "ph n = Some x" | (def) n k where "StmtDef k x \<in> set (dlist dm n)" "n \<in> set (dkeys blocks)"
    | (old) n k where "assigned_at blocks n k x" "x \<noteq> ?v" using n1 by blast
  then show "l = m \<and> i = j"
  proof cases
    case phi
    then have no: "x \<notin> set (def_names dm (dkeys blocks))" "x \<notin> names" using kinds by blast+
    with n1 n2 defs names have "ph l = Some x \<and> i = 0" "ph m = Some x \<and> j = 0" by blast+
    moreover from this have "l = m" using vn by blast
    ultimately show ?thesis by simp
  next
    case def
    then have "ph k \<noteq> Some x" for k using kinds defs by blast
    moreover have "x = ?v \<or> x \<notin> names" using defs_names[OF def] .
    ultimately obtain i' j' where
      i: "i = i' + (case ph l of None \<Rightarrow> 0 | Some _ \<Rightarrow> 1)" "StmtDef i' x \<in> set (dlist dm l)" "l \<in> set (dkeys blocks)"
      and j: "j = j' + (case ph m of None \<Rightarrow> 0 | Some _ \<Rightarrow> 1)" "StmtDef j' x \<in> set (dlist dm m)" "m \<in> set (dkeys blocks)"
      using n1 n2 names by blast
    have "l = m \<and> i' = j'" using def_names_unique[OF _ distinct i(3) j(3) i(2) j(2)] vn by blast
    with i(1) j(1) show ?thesis by simp
  next
    case old
    then have "x \<in> names" using names by blast
    then have "ph k \<noteq> Some x" "n \<in> set (dkeys blocks) \<Longrightarrow> StmtDef k' x \<notin> set (dlist dm n)" for k k' n
      using kinds defs_names old(2) by blast+
    with n1 n2 obtain i' j' where
      i: "i = i' + (case ph l of None \<Rightarrow> 0 | Some _ \<Rightarrow> 1)" "assigned_at blocks l i' x"
      and j: "j = j' + (case ph m of None \<Rightarrow> 0 | Some _ \<Rightarrow> 1)" "assigned_at blocks m j' x" by blast
    have "l = m \<and> i' = j'" using once old(2) i(2) j(2) unfolding assigned_once_def by blast
    with i(1) j(1) show ?thesis by simp
  qed
qed

section \<open>The analysis\<close>

definition statements :: "'c blocks \<Rightarrow> (int \<times> 'c stmt) list" where
  "statements blocks = concat (map (\<lambda>(l, body). map (Pair l) body) blocks)"

lemma run_block_analysis_flat:
  "run_block_analysis blocks = fold (\<lambda>(l, st). gather_defs l st) (statements blocks) ([], [])"
proof -
  have "fold (gather_defs l) body g = fold (\<lambda>(l, st). gather_defs l st) (map (Pair l) body) g"
    for l and body :: "'a block" and g by (induction body arbitrary: g) auto
  then have "fold (\<lambda>(label, blk). fold (gather_defs label) blk) bs g
      = fold (\<lambda>(l, st). gather_defs l st) (statements bs) g" for bs :: "'a blocks" and g
    by (induction bs arbitrary: g) (auto simp: statements_def)
  then show ?thesis by (simp add: run_block_analysis_def)
qed

lemma gather_use_keys:
  "set (dkeys (fold (gather_use l) xs uses)) = set (dkeys uses) \<union> set xs"
  "\<forall>ls \<in> set (dvalues uses). set ls \<subseteq> L \<Longrightarrow> l \<in> L \<Longrightarrow> \<forall>ls \<in> set (dvalues (fold (gather_use l) xs uses)). set ls \<subseteq> L"
proof -
  show "set (dkeys (fold (gather_use l) xs uses)) = set (dkeys uses) \<union> set xs"
    by (induction xs arbitrary: uses) (auto simp: gather_use_def)
  have step: "\<forall>ls \<in> set (dvalues (gather_use l x uses)). set ls \<subseteq> L"
    if "\<forall>ls \<in> set (dvalues uses). set ls \<subseteq> L" "l \<in> L" for x and uses :: "(string, int list) dict"
  proof
    fix ls assume "ls \<in> set (dvalues (gather_use l x uses))"
    then obtain k where "(k, ls) \<in> set (dset x (set_add l (dlist uses x)) uses)" by (auto simp: gather_use_def)
    then have "ls = set_add l (dlist uses x) \<or> ls \<in> set (dvalues uses)" by (force dest: dset_entry)
    moreover have "set (dlist uses x) \<subseteq> L"
    proof (cases "map_of uses x")
      case (Some ks)
      then have "ks \<in> set (dvalues uses)" using map_of_SomeD[OF Some] by force
      with that(1) have "set ks \<subseteq> L" by blast
      with Some show ?thesis by (simp add: dlist_def)
    qed (simp add: dlist_def)
    ultimately show "set ls \<subseteq> L" using that by auto
  qed
  show "\<forall>ls \<in> set (dvalues uses). set ls \<subseteq> L \<Longrightarrow> l \<in> L \<Longrightarrow> \<forall>ls \<in> set (dvalues (fold (gather_use l) xs uses)). set ls \<subseteq> L"
  proof (induction xs arbitrary: uses)
    case (Cons x xs)
    from Cons.IH[OF step[OF Cons.prems, of x] Cons.prems(2)] show ?case unfolding fold_Cons comp_apply .
  qed (unfold fold_Nil id_apply)
qed

lemma analysis_facts:
  fixes xs :: "(int \<times> 'c stmt) list"
  defines "r \<equiv> fold (\<lambda>(l, st). gather_defs l st) xs ([], [])"
  shows "dlist (fst r) x = map fst (filter (\<lambda>(l, st). assigns_to x st) xs)" "distinct (dkeys (fst r))"
    "set (dkeys (fst r)) = (\<Union>(l, st) \<in> set xs. writes st)" "set (dkeys (snd r)) \<subseteq> (\<Union>(l, st) \<in> set xs. set (reads st))"
    "\<forall>ls \<in> set (dvalues (snd r)). set ls \<subseteq> fst ` set xs"
proof -
  have "dlist (fst r) x = map fst (filter (\<lambda>(l, st). assigns_to x st) xs) \<and> distinct (dkeys (fst r))
    \<and> set (dkeys (fst r)) = (\<Union>(l, st) \<in> set xs. writes st) \<and> set (dkeys (snd r)) \<subseteq> (\<Union>(l, st) \<in> set xs. set (reads st))
    \<and> (\<forall>ls \<in> set (dvalues (snd r)). set ls \<subseteq> fst ` set xs)"
    unfolding r_def
  proof (induction xs rule: rev_induct)
    case Nil
    then show ?case by (simp add: dlist_def)
  next
    case (snoc y xs)
    obtain l st where y: "y = (l, st)" by (cases y)
    let ?r = "fold (\<lambda>(l, st). gather_defs l st) xs ([], [])"
    obtain defs uses where du: "?r = (defs, uses)" by (cases ?r)
    have IH: "dlist defs x = map fst (filter (\<lambda>(l, st). assigns_to x st) xs)" "distinct (dkeys defs)"
      "set (dkeys defs) = (\<Union>(l, st) \<in> set xs. writes st)" "set (dkeys uses) \<subseteq> (\<Union>(l, st) \<in> set xs. set (reads st))"
      "\<forall>ls \<in> set (dvalues uses). set ls \<subseteq> fst ` set xs" using snoc by (simp_all add: du)
    let ?L = "fst ` set (xs @ [y])"
    have labels: "\<forall>ls \<in> set (dvalues (fold (gather_use l) ks uses)). set ls \<subseteq> ?L" for ks
      by (rule gather_use_keys(2)) (use IH(5) in \<open>auto simp: y\<close>)
    show ?case
    proof (cases "\<exists>e t. st = Assign e t")
      case True
      then obtain e t where st: "st = Assign e t" by blast
      have new: "fold (\<lambda>(l, st). gather_defs l st) (xs @ [y]) ([], [])
          = (dset t (dlist defs t @ [l]) defs, fold (gather_use l) (filter (\<lambda>k. k \<noteq> t) (list_vars st)) uses)"
        unfolding fold_append y by (simp add: du) (simp add: gather_defs_def st)
      have "set (filter (\<lambda>k. k \<noteq> t) (list_vars st)) \<subseteq> set (reads st)" by (auto simp: st list_vars_def reads_def)
      with IH labels[of "filter (\<lambda>k. k \<noteq> t) (list_vars st)"] gather_use_keys(1)[of l "filter (\<lambda>k. k \<noteq> t) (list_vars st)" uses]
      show ?thesis unfolding new fst_conv snd_conv
        by (intro conjI) (auto simp: y st assigns_to_def writes_def distinct_update)
    next
      case False
      have new: "fold (\<lambda>(l, st). gather_defs l st) (xs @ [y]) ([], []) = (defs, fold (gather_use l) (list_vars st) uses)"
        unfolding fold_append y by (simp add: du) (use False in \<open>cases st; simp add: gather_defs_def\<close>)
      have none: "\<not> assigns_to x st" "writes st = {}" "list_vars st = reads st"
        using False by (cases st; simp add: assigns_to_def writes_def reads_def)+
      from IH labels[of "list_vars st"] gather_use_keys(1)[of l "list_vars st" uses] show ?thesis
        unfolding new fst_conv snd_conv by (intro conjI) (auto simp: y none)
    qed
  qed
  then show "dlist (fst r) x = map fst (filter (\<lambda>(l, st). assigns_to x st) xs)" "distinct (dkeys (fst r))"
    "set (dkeys (fst r)) = (\<Union>(l, st) \<in> set xs. writes st)" "set (dkeys (snd r)) \<subseteq> (\<Union>(l, st) \<in> set xs. set (reads st))"
    "\<forall>ls \<in> set (dvalues (snd r)). set ls \<subseteq> fst ` set xs" by blast+
qed

text \<open>A variable with at most one recorded assignment is assigned once.\<close>

lemma two_in_filter: "i < j \<Longrightarrow> j < length xs \<Longrightarrow> P (xs ! i) \<Longrightarrow> P (xs ! j) \<Longrightarrow> 2 \<le> length (filter P xs)"
proof (induction xs arbitrary: i j)
  case (Cons x xs)
  show ?case
  proof (cases i)
    case 0
    with Cons.prems have "xs ! (j - 1) \<in> set (filter P xs)" by (cases j) auto
    then have "0 < length (filter P xs)" by (simp only: length_pos_if_in_set)
    then obtain y ys where "filter P xs = y # ys" by (cases "filter P xs") auto
    with 0 Cons.prems show ?thesis by simp
  next
    case (Suc n)
    with Cons.prems Cons.IH[of n "j - 1"] show ?thesis by (cases j) auto
  qed
qed simp

lemma assigned_once_of_count:
  assumes "length (filter (\<lambda>(l, st). assigns_to x st) (statements blocks)) \<le> 1"
  shows "assigned_once blocks x"
proof -
  let ?F = "\<lambda>bs. filter (\<lambda>(l, st). assigns_to x st) (statements bs)"
  have split: "?F (bs @ cs) = ?F bs @ ?F cs" for bs cs :: "'a blocks" by (simp add: statements_def)
  have one: "length (?F [(l, body)]) = length (filter (assigns_to x) body)" for l and body :: "'a block"
    by (simp add: statements_def filter_map comp_def)
  have part: "length (filter (assigns_to x) body) \<le> length (?F bs) \<and> (filter (assigns_to x) body \<noteq> [] \<longrightarrow> l \<in> set (map fst (?F bs)))"
    if "(l, body) \<in> set bs" for l body and bs :: "'a blocks"
  proof -
    from that obtain pre post where bs: "bs = pre @ [(l, body)] @ post" by (metis append_Cons append_Nil split_list)
    have "st \<in> set (filter (assigns_to x) body) \<Longrightarrow> (l, st) \<in> set (?F [(l, body)])" for st by (auto simp: statements_def)
    then have "filter (assigns_to x) body \<noteq> [] \<Longrightarrow> l \<in> set (map fst (?F [(l, body)]))"
      by (metis (no_types, lifting) fst_conv image_eqI list.set_map list.set_sel(1))
    then show ?thesis unfolding bs split by (auto simp: one)
  qed
  have "l = m \<and> i = j" if a: "assigned_at blocks l i x" "assigned_at blocks m j x" for l i m j
  proof -
    from a obtain b c where b: "map_of blocks l = Some b" "i < length b" "assigns_to x (b ! i)"
      and c: "map_of blocks m = Some c" "j < length c" "assigns_to x (c ! j)" by (auto simp: assigned_at_def)
    have "b ! i \<in> set (filter (assigns_to x) b)" "c ! j \<in> set (filter (assigns_to x) c)" using b c by auto
    then have ne: "filter (assigns_to x) b \<noteq> []" "filter (assigns_to x) c \<noteq> []" by (metis empty_iff empty_set)+
    note pb = part[OF map_of_SomeD[OF b(1)]] and pc = part[OF map_of_SomeD[OF c(1)]]
    have "length (map fst (?F blocks)) \<le> 1" using assms by simp
    moreover have "l \<in> set (map fst (?F blocks))" "m \<in> set (map fst (?F blocks))" using pb pc ne by blast+
    ultimately have eq: "l = m" by (cases "map fst (?F blocks)" rule: list.exhaust) (auto simp: le_Suc_eq)
    with b(1) c(1) have "b = c" by simp
    moreover have "length (filter (assigns_to x) b) \<le> 1" using pb assms by linarith
    ultimately show ?thesis using eq two_in_filter[of i j b "assigns_to x"] two_in_filter[of j i b "assigns_to x"] b c
      by (cases i j rule: linorder_cases) auto
  qed
  then show ?thesis by (simp add: assigned_once_def)
qed

section \<open>The violators\<close>

lemma find_defs_violators_ok:
  fixes blocks :: "'c blocks"
  assumes enter: "set (dkeys enter) = N" "set (dkeys leave) = N" and keys: "set (dkeys blocks) \<subseteq> N"
  shows "\<exists>vs. find_defs_violators blocks enter leave = Inr vs \<and> distinct vs
    \<and> set vs \<subseteq> (\<Union>(l, body) \<in> set blocks. \<Union>st \<in> set body. set (reads st) \<union> writes st)
    \<and> (\<forall>x. x \<notin> set vs \<longrightarrow> assigned_once blocks x)"
proof -
  let ?xs = "statements blocks"
  obtain defs uses where r: "fold (\<lambda>(l, st). gather_defs l st) ?xs ([], []) = (defs, uses)"
    by (cases "fold (\<lambda>(l, st). gather_defs l st) ?xs ([], [])")
  note a = analysis_facts[of ?xs, unfolded r fst_conv snd_conv]
  let ?V = "map fst (filter (\<lambda>(k, vs). 1 < length vs) defs)"
  define U where "U = (\<Union>(l, body) \<in> set blocks. \<Union>st \<in> set body. set (reads st) \<union> writes st)"
  have Ux: "(\<Union>(l, st) \<in> set ?xs. set (reads st) \<union> writes st) = U"
    by (simp add: U_def statements_def case_prod_unfold)
  have sub: "set (dkeys defs) \<subseteq> U" "set (dkeys uses) \<subseteq> U" using a(3,4) unfolding Ux[symmetric] by blast+
  have xs: "fst ` set ?xs \<subseteq> set (dkeys blocks)" by (force simp: statements_def)
  have labels: "l \<in> N" if "(k, ls) \<in> set uses" "l \<in> set ls" for k ls l
  proof -
    have "ls \<in> set (dvalues uses)" using that(1) by force
    with a(5) that(2) have "l \<in> fst ` set ?xs" by blast
    with xs keys show ?thesis by blast
  qed
  have some: "\<exists>y. dget enter l = Inr y" "\<exists>y. dget leave l = Inr y" if "l \<in> N" for l
    using dget_some[of l enter] dget_some[of l leave] that enter by simp_all
  let ?P = "\<lambda>vs. distinct vs \<and> set ?V \<subseteq> set vs \<and> set vs \<subseteq> U"
  have "\<exists>vs. foldE (add_violator enter leave defs) uses ?V = Inr vs \<and> ?P vs"
  proof (rule foldE_total)
    show "?P ?V" using a(2) sub(1) by (auto simp: distinct_map_filter)
  next
    fix u vs assume u: "u \<in> set uses" and P: "?P vs"
    obtain k ls where k: "u = (k, ls)" by (cases u)
    let ?ds = "filter (\<lambda>label. label \<in> set (dkeys enter)) (dlist defs k)"
    have "\<exists>b. foldE (use_undominated enter leave ?ds) ls False = Inr b \<and> True"
    proof (rule foldE_total)
      fix l found assume l: "l \<in> set ls"
      then obtain e where "dget enter l = Inr e" using some(1)[OF labels] u k by blast
      moreover have "\<exists>ys. mapE (\<lambda>d. bindE (dget enter d) (\<lambda>e'. bindE (dget leave d) (\<lambda>l.
          Inr (e' \<le> e \<and> e < l)))) ?ds = Inr ys"
      proof (rule mapE_some)
        fix d assume "d \<in> set ?ds"
        then have "d \<in> N" using enter by simp
        from some[OF this] show "\<exists>y. bindE (dget enter d) (\<lambda>e'. bindE (dget leave d) (\<lambda>l. Inr (e' \<le> e \<and> e < l))) = Inr y" by auto
      qed
      ultimately show "\<exists>b. use_undominated enter leave ?ds l found = Inr b \<and> True" by (auto simp: use_undominated_def)
    qed simp
    then obtain b where b: "foldE (use_undominated enter leave ?ds) ls False = Inr b" by blast
    have "k \<in> U" using u k sub(2) by force
    then have "?P (vs @ [k])" if "k \<notin> set vs" using P that by auto
    moreover have "add_violator enter leave defs u vs = Inr (if k \<in> set vs then vs else if b then vs @ [k] else vs)"
      using b by (simp add: add_violator_def k Let_def)
    ultimately show "\<exists>vs'. add_violator enter leave defs u vs = Inr vs' \<and> ?P vs'" using P by simp
  qed
  then obtain vs where vs: "foldE (add_violator enter leave defs) uses ?V = Inr vs" "?P vs" by blast
  have "assigned_once blocks x" if "x \<notin> set vs" for x
  proof (rule assigned_once_of_count)
    have "\<not> 1 < length (dlist defs x)"
    proof
      assume "1 < length (dlist defs x)"
      then have "x \<in> set ?V" by (force simp: dlist_def split: option.splits dest: map_of_SomeD)
      with vs(2) that show False by blast
    qed
    then show "length (filter (\<lambda>(l, st). assigns_to x st) ?xs) \<le> 1" by (simp add: a(1))
  qed
  moreover have "find_defs_violators blocks enter leave = Inr vs"
    using vs(1) by (simp add: find_defs_violators_def run_block_analysis_flat r)
  ultimately show ?thesis using vs(2) unfolding U_def by blast
qed

end
