(* ===== verification/SSARun.thy ===== *)
theory SSARun
  imports SSAOnce
begin

text \<open>
  The whole reconstruction: it always succeeds on the blocks of a function as the interpreter
  leaves them, every variable of the result is assigned at most once, and every walk through
  the result does what it does in the program that came in.
\<close>

section \<open>All violators\<close>

lemma fix_violators_ok:
  assumes tables: "ssa_tables cfg entry idoms dfp"
    and input: "pass_input cfg (set vs) (set (localvars sc)) blocks" and vs: "distinct vs" "set vs \<subseteq> set (localvars sc)"
    and once: "\<forall>x. x \<notin> set vs \<longrightarrow> assigned_once blocks x"
  shows "\<exists>nbs sc'. foldO (fix_violator cfg idoms dfp) vs (blocks, sc) = Some (Inr (nbs, sc')) \<and> dkeys nbs = dkeys blocks
    \<and> (\<forall>l body. map_of blocks l = Some body \<longrightarrow>
         (\<exists>nb. map_of nbs l = Some nb \<and> nb \<noteq> [] \<and> get_targets (last nb) = get_targets (last body)))
    \<and> (\<forall>x. assigned_once nbs x) \<and> pass_input cfg {} (set (localvars sc')) nbs
    \<and> (\<forall>ks. walk (g_edges cfg) (entry # ks) \<longrightarrow> walk_steps nbs (entry # ks) = walk_steps blocks (entry # ks))"
  using input vs once
proof (induction vs arbitrary: blocks sc)
  case Nil
  have "\<exists>nb. map_of blocks l = Some nb \<and> nb \<noteq> [] \<and> get_targets (last nb) = get_targets (last body)"
    if "map_of blocks l = Some body" for l body
    using pass_inputD(3)[OF Nil.prems(1) that] that by blast
  with Nil.prems(1,4) show ?case by simp
next
  case (Cons v vs)
  let ?names = "set (localvars sc)"
  note input = Cons.prems(1)
  have v: "v \<in> ?names" "set vs \<subseteq> ?names" "v \<notin> set vs" "distinct vs" using Cons.prems(2,3) by simp_all
  have "body \<noteq> [] \<and> is_terminator (last body)" if "map_of blocks l = Some body" for l body
    by (rule pass_inputD(3)[OF input that])
  with fix_violator_ok[OF tables pass_inputD(1,2)[OF input] _ v(1)] obtain nbs sc1 env dm ph where
    run: "fix_violator cfg idoms dfp v (blocks, sc) = Some (Inr (nbs, sc1))" and env: "ssa_varname env = v"
    and res: "violator_result cfg entry env dm ph ?names (set (localvars sc1)) blocks nbs" by blast
  have input1: "pass_input cfg (set vs) (set (localvars sc1)) nbs"
    and targets1: "\<And>l body. map_of blocks l = Some body \<Longrightarrow>
      \<exists>nb. map_of nbs l = Some nb \<and> nb \<noteq> [] \<and> get_targets (last nb) = get_targets (last body)"
    using pass_input_kept[OF res, of "set vs"] input v(2,3) by (simp_all add: env)
  have sub: "set vs \<subseteq> set (localvars sc1)"
    using v(2) violator_resultD(6)[OF res] unfolding violator_names_def by blast
  have inside: "x \<in> ?names" if "assigned_at blocks l i x" for l i x
  proof -
    from that obtain body where body: "map_of blocks l = Some body" "i < length body" "x \<in> writes (body ! i)"
      by (auto simp: assigned_at_def writes_assigns)
    have "stmt_ok ?names (set (v # vs)) (body ! i)" using pass_inputD(4)[OF input body(1)] body(2) by simp
    with body(3) show ?thesis by (auto simp: stmt_ok_def)
  qed
  have "assigned_once nbs x" if "x \<notin> set vs" for x
  proof (rule assigned_once_pass[OF res pass_inputD(1)[OF input]])
    show "x = ssa_varname env \<or> assigned_once blocks x" using Cons.prems(4) that by (auto simp: env)
  qed (rule inside)
  then have "\<forall>x. x \<notin> set vs \<longrightarrow> assigned_once nbs x" by blast
  from Cons.IH[OF input1 v(4) sub this] obtain nbs2 sc2 where
    rest: "foldO (fix_violator cfg idoms dfp) vs (nbs, sc1) = Some (Inr (nbs2, sc2))" "dkeys nbs2 = dkeys nbs"
      "\<forall>l body. map_of nbs l = Some body \<longrightarrow>
         (\<exists>nb. map_of nbs2 l = Some nb \<and> nb \<noteq> [] \<and> get_targets (last nb) = get_targets (last body))"
      "\<forall>x. assigned_once nbs2 x" "pass_input cfg {} (set (localvars sc2)) nbs2"
      "\<forall>ks. walk (g_edges cfg) (entry # ks) \<longrightarrow> walk_steps nbs2 (entry # ks) = walk_steps nbs (entry # ks)" by blast
  have "all_renamable (ssa_varname env) ?names blocks"
    by (rule pass_input_renamable[OF input]) (simp add: env)
  note kept = walk_kept[OF res this pass_inputD(2)[OF input]]
  have "\<exists>nb. map_of nbs2 l = Some nb \<and> nb \<noteq> [] \<and> get_targets (last nb) = get_targets (last body)"
    if "map_of blocks l = Some body" for l body
  proof -
    from targets1[OF that] obtain nb where nb: "map_of nbs l = Some nb" "get_targets (last nb) = get_targets (last body)" by blast
    from rest(3) nb(1) obtain nb2 where
      "map_of nbs2 l = Some nb2" "nb2 \<noteq> []" "get_targets (last nb2) = get_targets (last nb)" by blast
    with nb(2) show ?thesis by simp
  qed
  moreover have "walk_steps nbs2 (entry # ks) = walk_steps blocks (entry # ks)" if "walk (g_edges cfg) (entry # ks)" for ks
    using rest(6) kept[OF that] that by simp
  moreover have "foldO (fix_violator cfg idoms dfp) (v # vs) (blocks, sc) = Some (Inr (nbs2, sc2))"
    using run rest(1) by simp
  moreover have "dkeys nbs2 = dkeys blocks" using rest(2) violator_resultD(4)[OF res] by simp
  ultimately show ?case using rest(4,5) by blast
qed

section \<open>The graph is kept\<close>

lemma same_block_graph:
  assumes keys: "dkeys nbs = dkeys blocks" and distinct: "distinct (dkeys blocks)"
    and same: "\<And>l body. map_of blocks l = Some body \<Longrightarrow>
      body \<noteq> [] \<and> (\<exists>nb. map_of nbs l = Some nb \<and> nb \<noteq> [] \<and> get_targets (last nb) = get_targets (last body))"
  shows "compute_cfg_from_blocks nbs = compute_cfg_from_blocks blocks"
proof -
  have len: "length nbs = length blocks" using keys by (metis length_map)
  have "list_all2 (\<lambda>x y. \<forall>g. add_targets x g = add_targets y g) nbs blocks"
  proof (rule list_all2_all_nthI[OF len])
    fix i assume i: "i < length nbs"
    obtain k nb where x: "nbs ! i = (k, nb)" by (cases "nbs ! i")
    obtain l body where y: "blocks ! i = (l, body)" by (cases "blocks ! i")
    have "dkeys nbs ! i = dkeys blocks ! i" using keys by simp
    then have kl: "k = l" using i len x y by simp
    have "(l, body) \<in> set blocks" "(k, nb) \<in> set nbs" using i len x y by (metis nth_mem)+
    then have look: "map_of blocks l = Some body" "map_of nbs k = Some nb"
      using distinct keys by simp_all
    from same[OF look(1)] look(2) kl show "\<forall>g. add_targets (nbs ! i) g = add_targets (blocks ! i) g"
      unfolding x y add_targets_def by (simp add: terminator_last)
  qed
  then have "foldE add_targets nbs g = foldE add_targets blocks g" for g
  proof (induction arbitrary: g rule: list_all2_induct)
    case (Cons x xs y ys)
    then have "foldE add_targets xs = foldE add_targets ys" by blast
    with Cons.hyps(1) show ?case by simp
  qed simp
  then show ?thesis using len keys by (cases nbs; cases blocks) (simp_all add: compute_cfg_from_blocks_def build_block_graph_def)
qed

section \<open>The whole reconstruction\<close>

text \<open>
  What the reconstruction expects: well-formed blocks, all of them reachable from the first,
  which is no jump target; statements over the variables of the scope, no deletions, no phi
  nodes, and none of the statements the renaming does not reach.
\<close>

definition ssa_input :: "'c blocks \<Rightarrow> scope \<Rightarrow> bool" where
  "ssa_input blocks sc \<longleftrightarrow> blocks_ok blocks
     \<and> set (dkeys blocks) \<subseteq> (block_edges blocks)\<^sup>* `` {start_block blocks}
     \<and> (\<forall>k. (k, start_block blocks) \<notin> block_edges blocks)
     \<and> (\<forall>(l, body) \<in> set blocks. \<forall>st \<in> set body. set (reads st) \<subseteq> set (localvars sc)
          \<and> writes st \<subseteq> set (localvars sc) \<and> reads_reached st \<and> \<not> is_del st \<and> \<not> is_phi st)"

lemma run_ssa_ok:
  fixes blocks :: "'c blocks"
  assumes input: "ssa_input blocks sc"
  shows "\<exists>nbs sc'. run_ssa blocks sc = Some (Inr (nbs, sc')) \<and> dkeys nbs = dkeys blocks
    \<and> compute_cfg_from_blocks nbs = compute_cfg_from_blocks blocks \<and> (\<forall>x. assigned_once nbs x)
    \<and> blocks_ok nbs \<and> no_dels nbs \<and> block_edges nbs = block_edges blocks
    \<and> (\<forall>ks. walk (block_edges blocks) (start_block blocks # ks) \<longrightarrow>
         walk_steps nbs (start_block blocks # ks) = walk_steps blocks (start_block blocks # ks))"
proof -
  let ?entry = "start_block blocks"
  have ok: "blocks_ok blocks" and live: "set (dkeys blocks) \<subseteq> (block_edges blocks)\<^sup>* `` {?entry}"
    and top: "\<And>k. (k, ?entry) \<notin> block_edges blocks"
    and stmts: "\<And>l body st. (l, body) \<in> set blocks \<Longrightarrow> st \<in> set body \<Longrightarrow> set (reads st) \<subseteq> set (localvars sc)
          \<and> writes st \<subseteq> set (localvars sc) \<and> reads_reached st \<and> \<not> is_del st \<and> \<not> is_phi st"
    using input unfolding ssa_input_def by blast+
  from block_graph_ok[OF ok] obtain cfg :: "(int, unit) cfgraph" where
    cfg: "compute_cfg_from_blocks blocks = Some (Inr cfg)" "cfg_wf cfg" "entry_point cfg = Some ?entry"
    and nodes: "set (g_nodes cfg) = (block_edges blocks)\<^sup>* `` {?entry}" "set (g_nodes cfg) \<subseteq> set (dkeys blocks)"
    and edges: "g_edges cfg = {(a, b) \<in> block_edges blocks. a \<in> set (g_nodes cfg)}"
    unfolding start_block_def by blast
  have keys: "set (dkeys blocks) = set (g_nodes cfg)" using live nodes by blast
  have edges_all: "g_edges cfg = block_edges blocks"
    unfolding edges using keys by (force simp: block_edges_def)
  have reach: "set (g_nodes cfg) = reachable (g_succs cfg) [?entry]"
    unfolding nodes(1) by (simp add: reachable_def g_edges_def[symmetric] edges_all)
  have preds: "g_preds cfg ?entry = []"
    using top cfg_wfD(6)[OF cfg(2), of _ ?entry] edges_all by (cases "g_preds cfg ?entry") auto
  obtain idoms where idoms: "find_immediate_dominators cfg = Some (Inr idoms)" "idom_table (g_succs cfg) [?entry] idoms"
    using find_immediate_dominators_table[OF cfg(2,3)] by blast
  have graph: "ssa_graph cfg ?entry idoms" using cfg(2,3) reach preds idoms(2) by (simp add: ssa_graph_def)
  from iterated_frontiers[OF cfg(2,3) reach preds] obtain df dfp where
    df: "dominance_frontier cfg = Some (Inr df)" "iterated_domfronts df = Some (Inr dfp)"
      "set (dkeys dfp) = set (g_nodes cfg)" "front dfp = (frontier_rel cfg ?entry)\<^sup>+" by blast
  have df0: "find_dominance_frontier (g_preds cfg) idoms = Some (Inr df)"
    using df(1) idoms(1) by (simp add: dominance_frontier_def)
  have tables: "ssa_tables cfg ?entry idoms dfp" using graph df(3,4) by (simp add: ssa_tables_def)
  from intervals_of_tree[OF dom_tree_of_idoms[OF idoms(2) cfg_tables(4)[OF cfg(2,3)]]] obtain enter leave where
    iv: "dominator_tree_intervals (find_dominator_tree idoms) ?entry = Some (enter, leave)"
      "set (dkeys enter) = set (g_nodes cfg)" "set (dkeys leave) = set (g_nodes cfg)" unfolding reach by blast
  from find_defs_violators_ok[OF iv(2,3), of blocks] keys obtain vs where
    vs: "find_defs_violators blocks enter leave = Inr vs" "distinct vs"
      "set vs \<subseteq> (\<Union>(l, body) \<in> set blocks. \<Union>st \<in> set body. set (reads st) \<union> writes st)"
      "\<forall>x. x \<notin> set vs \<longrightarrow> assigned_once blocks x" by blast
  have vs_names: "set vs \<subseteq> set (localvars sc)" using vs(3) stmts by blast
  have distinct: "distinct (dkeys blocks)" using ok by (simp add: blocks_ok_def)
  have ends: "body \<noteq> [] \<and> is_terminator (last body)" if "map_of blocks l = Some body" for l body
    using ok map_of_SomeD[OF that] by (auto simp: blocks_ok_def verify_block_ok)
  have inner: "\<not> is_terminator st" if "map_of blocks l = Some body" "st \<in> set (butlast body)" for l body st
    using ok map_of_SomeD[OF that(1)] that(2) by (auto simp: blocks_ok_def verify_block_ok)
  have "stmt_ok (set (localvars sc)) (set vs) st" if "map_of blocks l = Some body" "st \<in> set body" for l body st
    using stmts[OF map_of_SomeD[OF that(1)] that(2)] by (simp add: stmt_ok_def)
  with ends inner have pass: "pass_input cfg (set vs) (set (localvars sc)) blocks"
    unfolding pass_input_def using distinct keys by blast
  from fix_violators_ok[OF tables pass vs(2) vs_names vs(4)] obtain nbs sc' where
    r: "foldO (fix_violator cfg idoms dfp) vs (blocks, sc) = Some (Inr (nbs, sc'))" "dkeys nbs = dkeys blocks"
      "\<forall>l body. map_of blocks l = Some body \<longrightarrow>
         (\<exists>nb. map_of nbs l = Some nb \<and> nb \<noteq> [] \<and> get_targets (last nb) = get_targets (last body))"
      "\<forall>x. assigned_once nbs x" "pass_input cfg {} (set (localvars sc')) nbs"
      "\<forall>ks. walk (g_edges cfg) (?entry # ks) \<longrightarrow> walk_steps nbs (?entry # ks) = walk_steps blocks (?entry # ks)" by blast
  have same: "compute_cfg_from_blocks nbs = compute_cfg_from_blocks blocks"
    by (rule same_block_graph[OF r(2) distinct]) (use ends r(3) in blast)
  have "blocks \<noteq> []" using ok by (simp add: blocks_ok_def)
  have "run_ssa blocks sc = Some (Inr (nbs, sc'))"
    using \<open>blocks \<noteq> []\<close> cfg(1,3) idoms(1) df0 df(2) iv(1) vs(1) r(1) same
    by (simp add: run_ssa_def cfg_equal_def dict_equal_def)
  moreover have nd: "distinct (dkeys nbs)" using distinct r(2) by simp
  have targets: "\<exists>body. map_of blocks l = Some body \<and> block_targets nb = block_targets body" if "map_of nbs l = Some nb" for l nb
  proof -
    have "l \<in> set (dkeys nbs)" using that by (metis domI dom_map_of_conv_image_fst list.set_map)
    then have "l \<in> set (dkeys blocks)" by (simp only: r(2))
    then obtain body where body: "map_of blocks l = Some body" by (cases "map_of blocks l") (auto simp: map_of_eq_None_iff)
    with r(3) that have "block_targets nb = block_targets body" by (fastforce simp: block_targets_def)
    with body show ?thesis by blast
  qed
  have same_edges: "block_edges nbs = block_edges blocks"
  proof -
    have "\<exists>nb. map_of nbs l = Some nb \<and> block_targets nb = block_targets body" if "map_of blocks l = Some body" for l body
      using r(3) that by (fastforce simp: block_targets_def)
    then show ?thesis unfolding block_edges_def map_of_eq_Some_iff[OF nd, symmetric] map_of_eq_Some_iff[OF distinct, symmetric]
      using targets by fastforce
  qed
  moreover have "blocks_ok nbs \<and> no_dels nbs"
  proof -
    have "verify_block nb = Inr () \<and> set (block_targets nb) \<subseteq> set (dkeys nbs) \<and> (\<forall>st \<in> set nb. \<not> is_del st)"
      if nb: "(l, nb) \<in> set nbs" for l nb
    proof -
      have look: "map_of nbs l = Some nb" using nb nd by simp
      have "verify_block nb = Inr ()" "\<forall>st \<in> set nb. \<not> is_del st"
        using pass_inputD(3,4,5)[OF r(5) look] by (auto simp: verify_block_ok stmt_ok_def)
      moreover obtain body where body: "map_of blocks l = Some body" "block_targets nb = block_targets body"
        using targets[OF look] by blast
      then have "set (block_targets nb) \<subseteq> set (dkeys nbs)"
        using ok map_of_SomeD[OF body(1)] r(2) by (auto simp: blocks_ok_def)
      ultimately show ?thesis by blast
    qed
    moreover have "nbs \<noteq> []" using r(2) \<open>blocks \<noteq> []\<close> by auto
    ultimately show ?thesis using nd unfolding blocks_ok_def no_dels_def by blast
  qed
  ultimately show ?thesis using r same unfolding edges_all by blast
qed

section \<open>Properties\<close>

text \<open>
  C1. SSA reconstruction keeps the program: on well-formed blocks it always succeeds, and along
  every walk from the first block the result performs the same operations on the same values.
\<close>

theorem ssa_keeps_walks:
  assumes "ssa_input blocks sc"
  shows "\<exists>nbs sc'. run_ssa blocks sc = Some (Inr (nbs, sc')) \<and> compute_cfg_from_blocks nbs = compute_cfg_from_blocks blocks
    \<and> (\<forall>ks. walk (block_edges blocks) (start_block blocks # ks) \<longrightarrow>
         walk_steps nbs (start_block blocks # ks) = walk_steps blocks (start_block blocks # ks))"
  using run_ssa_ok[OF assms] by blast

definition counting_loop :: "nat blocks" where
  "counting_loop =
     [(0, [Assign (ArgR ''c'' 0) ''c'', Assign (ConstR 1) ''x'', Jump 10]),
      (10, [Branch ''c'' 20 30]),
      (20, [Assign (InstR (Expr ''binop'' [(''lhs'', VarA ''x''), (''rhs'', VarA ''c'')])) ''x'', Jump 10]),
      (30, [Assign (VarR ''x'') ''y'', Return ''y''])]"

definition counting_scope :: scope where
  "counting_scope = \<lparr>localvars = [''c'', ''x'', ''y''], redefined = [], var_redefinitions = []\<rparr>"

lemma counting_edges: "block_edges counting_loop = {(0, 10), (10, 20), (10, 30), (20, 10)}"
proof -
  have "block_edges blocks = (\<Union>(k, body) \<in> set blocks. Pair k ` set (block_targets body))" for blocks :: "nat blocks"
    by (auto simp: block_edges_def)
  then show ?thesis by (auto simp: counting_loop_def block_targets_def get_targets_def is_exit_def)
qed

lemma counting_loop_ok: "ssa_input counting_loop counting_scope"
proof -
  note edges = counting_edges
  have start: "start_block counting_loop = 0" by code_simp
  have "(0, 10) \<in> (block_edges counting_loop)\<^sup>*" by (rule r_into_rtrancl) (simp add: edges)
  moreover from this have "(0, 20) \<in> (block_edges counting_loop)\<^sup>*" "(0, 30) \<in> (block_edges counting_loop)\<^sup>*"
    by (rule rtrancl_into_rtrancl; simp add: edges)+
  moreover have "set (dkeys counting_loop) = {0, 10, 20, 30}" by code_simp
  ultimately have "set (dkeys counting_loop) \<subseteq> (block_edges counting_loop)\<^sup>* `` {start_block counting_loop}"
    by (simp add: start)
  moreover have "blocks_ok counting_loop" by code_simp
  moreover have "(k, start_block counting_loop) \<notin> block_edges counting_loop" for k by (simp add: edges start)
  moreover have "\<forall>(l, body) \<in> set counting_loop. \<forall>st \<in> set body. set (reads st) \<subseteq> set (localvars counting_scope)
      \<and> writes st \<subseteq> set (localvars counting_scope) \<and> reads_reached st \<and> \<not> is_del st \<and> \<not> is_phi st"
    by (simp add: counting_loop_def counting_scope_def reads_def rhs_vars_def writes_def reads_reached_def is_del_def is_phi_def
        list_vars_def)
  ultimately show ?thesis by (simp only: ssa_input_def) simp
qed

theorem ssa_keeps_walks_witness:
  "\<exists>nbs sc'. run_ssa counting_loop counting_scope = Some (Inr (nbs, sc'))
    \<and> walk_steps nbs [0, 10, 20, 10, 30] = walk_steps counting_loop [0, 10, 20, 10, 30]"
proof -
  have "start_block counting_loop = 0" by code_simp
  moreover have "walk (block_edges counting_loop) [0, 10, 20, 10, 30]"
    by (simp add: walk_def counting_edges)
  ultimately show ?thesis using ssa_keeps_walks[OF counting_loop_ok] by auto
qed

text \<open>
  C2. Single assignment: in the result every variable has at most one assignment, phi nodes
  included, and the blocks are the same.
\<close>

theorem ssa_single_assignment:
  assumes "ssa_input blocks sc"
  shows "\<exists>nbs sc'. run_ssa blocks sc = Some (Inr (nbs, sc')) \<and> dkeys nbs = dkeys blocks \<and> (\<forall>x. assigned_once nbs x)"
  using run_ssa_ok[OF assms] by blast

theorem ssa_single_assignment_witness:
  "\<exists>nbs sc'. run_ssa counting_loop counting_scope = Some (Inr (nbs, sc')) \<and> assigned_once nbs ''x''"
  using ssa_single_assignment[OF counting_loop_ok] by blast

end
