(* ===== verification/Lifetimes.thy ===== *)
theory Lifetimes
  imports PostProc
begin

text \<open>
  The properties of the lifetime analyses and of the deletions that post-processing inserts.
\<close>

text \<open>
  C32. For a consistent graph of the blocks, \<open>compute_live_map\<close> returns for each block exactly the
  variables that are live at its entry: some path from it leads, through blocks the variable
  has reached and that do not define it, to a block that uses it. The sets the code keeps as
  integers are thus never cut off, confused or out of range, and both loops end.
\<close>

theorem live_map_correct:
  assumes "maps_ok cfg blocks um dm"
  shows "\<exists>L. compute_live_map cfg blocks um dm = Some (Inr L) \<and> dkeys L = dkeys blocks
    \<and> (\<forall>b \<in> set (dkeys blocks). vset L b = {v. live_in (g_edges cfg) um dm b v})"
  by (rule live_map_result[OF assms])

lemma sample_blocks_ok: "blocks_ok sample_blocks" "no_dels sample_blocks" "start_block sample_blocks = 0"
  by code_simp+

lemma sample_edges: "block_edges sample_blocks = {(0, 1), (1, 2), (1, 3), (2, 1)}"
proof -
  have "block_edges bs = set (concat (map (\<lambda>(k, body). map (Pair k) (block_targets body)) bs))" for bs :: "nat blocks"
    by (auto simp: block_edges_def)
  moreover have "concat (map (\<lambda>(k, body). map (Pair k) (block_targets body)) sample_blocks) = [(0, 1), (1, 2), (1, 3), (2, 1)]"
    by code_simp
  ultimately show ?thesis by (simp only: list.set)
qed

theorem live_map_correct_witness:
  "\<exists>cfg L. compute_cfg_from_blocks sample_blocks = Some (Inr cfg)
    \<and> compute_live_map cfg sample_blocks (usemap (compute_use_defs sample_blocks)) (defmap (compute_use_defs sample_blocks)) = Some (Inr L)
    \<and> ''n'' \<in> vset L 1 \<and> ''c'' \<notin> vset L 1"
proof -
  let ?um = "usemap (compute_use_defs sample_blocks)" and ?dm = "defmap (compute_use_defs sample_blocks)"
  from block_graph_ok[OF sample_blocks_ok(1)] obtain cfg where
    cfg: "compute_cfg_from_blocks sample_blocks = Some (Inr cfg)" "cfg_wf cfg" "set (g_nodes cfg) \<subseteq> set (dkeys sample_blocks)"
    by blast
  have keys: "dkeys ?um = dkeys sample_blocks" "dkeys ?dm = dkeys sample_blocks"
    by (simp_all add: compute_use_defs_def comp_def case_prod_unfold)
  with cfg have "maps_ok cfg sample_blocks ?um ?dm" by (simp add: maps_ok_def)
  from live_map_correct[OF this] obtain L where
    L: "compute_live_map cfg sample_blocks ?um ?dm = Some (Inr L)"
      "\<forall>b \<in> set (dkeys sample_blocks). vset L b = {v. live_in (g_edges cfg) ?um ?dm b v}" by blast
  have n: "''n'' \<in> vset ?um 1" and c: "''c'' \<notin> vset ?um k" for k
    by (auto simp: compute_use_defs_def sample_blocks_def vset_def dget_set_def use_def_block_def use_def_stmt_def
        rhs_vars_def list_vars_def Let_def set_add_def split: if_splits)
  have "live_in (g_edges cfg) ?um ?dm b v \<Longrightarrow> v \<noteq> ''c''" for b v
    by (induction rule: live_in.induct) (use c in auto)
  then have never: "\<not> live_in (g_edges cfg) ?um ?dm b ''c''" for b by blast
  have one: "1 \<in> set (dkeys sample_blocks)" by (simp add: sample_blocks_def)
  have "''n'' \<in> vset L 1" "''c'' \<notin> vset L 1"
    using L(2)[rule_format, OF one] live_use[OF n] never by simp_all
  with cfg(1) L(1) show ?thesis by blast
qed

text \<open>
  C33. On blocks that end with their only terminator and jump to blocks, inserting deletions always
  returns: the patched blocks, or the error of the consistency check, and never the error when
  every reachable block can reach an exit.
\<close>

theorem insert_dels_returns:
  assumes "blocks_ok blocks"
  shows "\<exists>r. insert_var_dels e blocks = Some r \<and> (r = Inl RuntimeError \<or> (\<exists>bs. r = Inr bs))
    \<and> ((\<forall>b. (start_block blocks, b) \<in> (block_edges blocks)\<^sup>* \<longrightarrow>
          (\<exists>x. (b, x) \<in> (block_edges blocks)\<^sup>* \<and> x \<notin> Domain (block_edges blocks))) \<longrightarrow> (\<exists>bs. r = Inr bs))"
  using insert_var_dels_result[OF assms, of e] by fastforce

lemma sample_exits:
  "(start_block sample_blocks, b) \<in> (block_edges sample_blocks)\<^sup>* \<Longrightarrow>
    \<exists>x. (b, x) \<in> (block_edges sample_blocks)\<^sup>* \<and> x \<notin> Domain (block_edges sample_blocks)"
proof -
  assume "(start_block sample_blocks, b) \<in> (block_edges sample_blocks)\<^sup>*"
  then have b: "b \<in> {0, 1, 2, 3}"
    by (induction rule: rtrancl_induct) (auto simp: sample_edges sample_blocks_ok(3))
  have 1: "(1, 3) \<in> (block_edges sample_blocks)\<^sup>*" by (auto simp: sample_edges)
  then have "(0, 3) \<in> (block_edges sample_blocks)\<^sup>*" "(2, 3) \<in> (block_edges sample_blocks)\<^sup>*"
    by (auto simp: sample_edges intro: converse_rtrancl_into_rtrancl)
  with 1 b have "(b, 3) \<in> (block_edges sample_blocks)\<^sup>*" by auto
  moreover have "3 \<notin> Domain (block_edges sample_blocks)" by (simp add: sample_edges)
  ultimately show ?thesis by blast
qed

theorem insert_dels_returns_witness: "\<exists>bs. insert_var_dels False sample_blocks = Some (Inr bs)"
  using insert_dels_returns[OF sample_blocks_ok(1), of False] sample_exits by blast

lemma sample_inserted: "\<exists>bs. insert_var_dels e sample_blocks = Some (Inr bs)"
  using insert_var_dels_result(2)[OF sample_blocks_ok(1)] sample_exits by blast

text \<open>
  C34. The inserted deletions are safe: along every walk through the patched blocks from the first
  block, no statement reads a variable after its \<open>Del\<close> unless it was assigned again in between.
\<close>

theorem inserted_dels_safe:
  assumes "blocks_ok blocks" and "no_dels blocks" and "insert_var_dels e blocks = Some (Inr bs)"
    and "walk (block_edges blocks) ks" and "ks \<noteq> []" and "hd ks = start_block blocks"
  shows "no_use_after_del {} (along bs ks)"
  using walk_invariant[OF assms] by blast

theorem inserted_dels_safe_witness:
  "\<exists>bs. insert_var_dels False sample_blocks = Some (Inr bs) \<and> no_use_after_del {} (along bs [0, 1, 2, 1, 3])"
proof -
  obtain bs where bs: "insert_var_dels False sample_blocks = Some (Inr bs)" using sample_inserted by blast
  have "walk (block_edges sample_blocks) [0, 1, 2, 1, 3]" by (simp add: walk_def sample_edges)
  from inserted_dels_safe[OF sample_blocks_ok(1,2) bs this] bs show ?thesis by (simp add: sample_blocks_ok(3))
qed

text \<open>
  C35. The inserted deletions are complete: at the end of every walk from the first block to a
  block that leaves the function, every variable assigned on the way has been deleted since,
  except those its terminator uses.
\<close>

theorem inserted_dels_complete:
  assumes "blocks_ok blocks" and "no_dels blocks" and "insert_var_dels e blocks = Some (Inr bs)"
    and "walk (block_edges blocks) ks" and "ks \<noteq> []" and "hd ks = start_block blocks"
    and "last ks \<notin> Domain (block_edges blocks)"
  shows "alive {} (along bs ks) \<subseteq> set (list_vars (last (block_at blocks (last ks))))"
  using walk_invariant[OF assms(1-6)] assms(7) by blast

theorem inserted_dels_complete_witness:
  "\<exists>bs. insert_var_dels True sample_blocks = Some (Inr bs) \<and> alive {} (along bs [0, 1, 2, 1, 3]) \<subseteq> {''r''}"
proof -
  obtain bs where bs: "insert_var_dels True sample_blocks = Some (Inr bs)" using sample_inserted by blast
  have "walk (block_edges sample_blocks) [0, 1, 2, 1, 3]" by (simp add: walk_def sample_edges)
  moreover have "last [0, 1, 2, 1, 3] \<notin> Domain (block_edges sample_blocks)" by (simp add: sample_edges)
  ultimately have "alive {} (along bs [0, 1, 2, 1, 3]) \<subseteq> set (list_vars (last (block_at sample_blocks 3)))"
    using inserted_dels_complete[OF sample_blocks_ok(1,2) bs, of "[0, 1, 2, 1, 3]"] by (simp add: sample_blocks_ok(3))
  moreover have "list_vars (last (block_at sample_blocks 3)) = [''r'']" by code_simp
  ultimately show ?thesis using bs by auto
qed

text \<open>C36. Stripping the deletions from the patched blocks gives the blocks back.\<close>

theorem remove_inserted_dels:
  assumes "no_dels blocks" and "insert_var_dels e blocks = Some (Inr bs)"
  shows "remove_dels bs = blocks"
proof -
  from assms(2) obtain r where "patch_var_dels e r blocks = Inr bs"
    unfolding insert_var_dels_def by (auto simp: bindO_Some_iff)
  from remove_dels_inserted[OF this assms(1)] show ?thesis .
qed

theorem remove_inserted_dels_witness:
  "\<exists>bs. insert_var_dels False sample_blocks = Some (Inr bs) \<and> remove_dels bs = sample_blocks"
proof -
  obtain bs where bs: "insert_var_dels False sample_blocks = Some (Inr bs)" using sample_inserted by blast
  with remove_inserted_dels[OF sample_blocks_ok(2) bs] show ?thesis by blast
qed

end
