(* ===== verification/Canonicalize.thy ===== *)
theory Canonicalize
  imports Lifetimes Loops
begin

text \<open>
  \<open>canonicalize_cfg\<close> of \<open>core/transforms.py\<close>: every loop with several back edges gets a new tail
  block that gathers them. It keeps the program: contracting the tail blocks gives the blocks
  back, and afterwards each loop has at most one back edge.
\<close>

section \<open>The transformation\<close>

definition cfg_loops :: "('n, 'd) cfgraph \<Rightarrow> ('n, 'n loop) dict res option" where
  "cfg_loops g =
     (case entry_point g of
        None \<Rightarrow> Some (Inl AssertionError)
      | Some e \<Rightarrow>
          (case find_back_edges (g_succs g) e of
             None \<Rightarrow> None
           | Some bes \<Rightarrow> map_option Inr (find_loops (g_preds g) (g_succs g) bes)))"

definition block_edges_of :: "'c blocks \<Rightarrow> int \<Rightarrow> int list res" where
  "block_edges_of blocks k = bindE (dget blocks k) (\<lambda>blk. bindE (terminator blk) get_targets)"

fun has_multiple_backedges :: "'c blocks \<Rightarrow> int \<Rightarrow> int list \<Rightarrow> nat \<Rightarrow> bool res" where
  "has_multiple_backedges blocks header [] count = Inr False"
| "has_multiple_backedges blocks header (k # ks) count =
     bindE (block_edges_of blocks k) (\<lambda>edges.
       if header \<in> set edges
       then if 1 < count + 1 then Inr True else has_multiple_backedges blocks header ks (count + 1)
       else has_multiple_backedges blocks header ks count)"

definition replace_target :: "'c stmt \<Rightarrow> int \<Rightarrow> int \<Rightarrow> 'c stmt res" where
  "replace_target term src dst =
     (let replace = (\<lambda>target. if target = src then dst else target)
      in case term of
           Branch cond truebr falsebr \<Rightarrow> Inr (Branch cond (replace truebr) (replace falsebr))
         | Jump target \<Rightarrow> Inr (Jump (replace target))
         | _ \<Rightarrow> bindE (get_targets term) (\<lambda>ts. if ts \<noteq> [] then Inl AssertionError else Inr term))"

definition rewrite_backedge :: "int \<Rightarrow> int \<Rightarrow> int \<Rightarrow> 'c blocks \<Rightarrow> 'c blocks res" where
  "rewrite_backedge header tailkey k newblocks =
     bindE (dget newblocks k) (\<lambda>blk.
     bindE (terminator blk) (\<lambda>term.
     bindE (get_targets term) (\<lambda>edges.
       if header \<in> set edges
       then bindE (replace_target term header tailkey) (\<lambda>t. Inr (dset k (butlast blk @ [t]) newblocks))
       else Inr newblocks)))"

definition new_block_id :: "'c blocks \<Rightarrow> int" where
  "new_block_id newblocks = Max (set (dkeys newblocks)) + 1"

definition rewrite_single_backedge :: "int loop \<Rightarrow> 'c blocks \<Rightarrow> 'c blocks res" where
  "rewrite_single_backedge l newblocks =
     (let header = l_header l; tailkey = new_block_id newblocks
      in bindE (foldE (rewrite_backedge header tailkey) (l_body l) newblocks) (\<lambda>newblocks.
         bindE (dget newblocks header) (\<lambda>entryblk.
           Inr (dset tailkey [Jump header] newblocks))))"

definition rewrite_loop :: "'c blocks \<Rightarrow> int loop \<Rightarrow> 'c blocks \<Rightarrow> 'c blocks res" where
  "rewrite_loop blocks l newblocks =
     bindE (has_multiple_backedges blocks (l_header l) (l_body l) 0) (\<lambda>multiple.
       if multiple then rewrite_single_backedge l newblocks else Inr newblocks)"

definition canonicalize_cfg :: "'c blocks \<Rightarrow> 'c blocks res option" where
  "canonicalize_cfg blocks =
     bindO (compute_cfg_from_blocks blocks) (\<lambda>cfg.
     bindO (cfg_loops cfg) (\<lambda>loops.
       Some (foldE (rewrite_loop blocks) (dvalues loops) blocks)))"

section \<open>What the rewriting keeps\<close>

definition retarget :: "(int \<Rightarrow> int) \<Rightarrow> 'c stmt \<Rightarrow> 'c stmt" where
  "retarget f st = (case st of Jump t \<Rightarrow> Jump (f t) | Branch c t e \<Rightarrow> Branch c (f t) (f e) | _ \<Rightarrow> st)"

text \<open>A tail block stands for the block it jumps to.\<close>

definition contract :: "'c blocks \<Rightarrow> 'c blocks \<Rightarrow> int \<Rightarrow> int" where
  "contract blocks nb t =
     (if t \<in> set (dkeys blocks) then t
      else case map_of nb t of Some [Jump h] \<Rightarrow> h | _ \<Rightarrow> t)"

definition gathers :: "'c blocks \<Rightarrow> 'c blocks \<Rightarrow> bool" where
  "gathers blocks nb \<longleftrightarrow> distinct (dkeys nb) \<and> set (dkeys blocks) \<subseteq> set (dkeys nb)
     \<and> (\<forall>t \<in> set (dkeys nb). t \<notin> set (dkeys blocks) \<longrightarrow> (\<forall>k \<in> set (dkeys blocks). k < t))
     \<and> (\<forall>t \<in> set (dkeys nb). t \<notin> set (dkeys blocks) \<longrightarrow> (\<exists>h \<in> set (dkeys blocks). map_of nb t = Some [Jump h]))
     \<and> (\<forall>k body. map_of blocks k = Some body \<longrightarrow> (\<exists>b. map_of nb k = Some b \<and> b \<noteq> [] \<and> butlast b = butlast body
          \<and> set (block_targets b) \<subseteq> set (dkeys nb)
          \<and> retarget (contract blocks nb) (last b) = last body))"

lemma gathersI:
  assumes "distinct (dkeys nb)" and "set (dkeys blocks) \<subseteq> set (dkeys nb)"
    and "\<And>t k. t \<in> set (dkeys nb) \<Longrightarrow> t \<notin> set (dkeys blocks) \<Longrightarrow> k \<in> set (dkeys blocks) \<Longrightarrow> k < t"
    and "\<And>t. t \<in> set (dkeys nb) \<Longrightarrow> t \<notin> set (dkeys blocks) \<Longrightarrow> \<exists>h \<in> set (dkeys blocks). map_of nb t = Some [Jump h]"
    and "\<And>k body. map_of blocks k = Some body \<Longrightarrow> \<exists>b. map_of nb k = Some b \<and> b \<noteq> [] \<and> butlast b = butlast body
          \<and> set (block_targets b) \<subseteq> set (dkeys nb) \<and> retarget (contract blocks nb) (last b) = last body"
  shows "gathers blocks nb"
  unfolding gathers_def by (intro conjI ballI allI impI) (fact assms | rule assms; assumption)+

lemma gathers_parts:
  assumes "gathers blocks nb"
  shows "distinct (dkeys nb)" and "set (dkeys blocks) \<subseteq> set (dkeys nb)"
    and "t \<in> set (dkeys nb) \<Longrightarrow> t \<notin> set (dkeys blocks) \<Longrightarrow> k \<in> set (dkeys blocks) \<Longrightarrow> k < t"
    and "t \<in> set (dkeys nb) \<Longrightarrow> t \<notin> set (dkeys blocks) \<Longrightarrow> \<exists>h \<in> set (dkeys blocks). map_of nb t = Some [Jump h]"
    and "map_of blocks k = Some body \<Longrightarrow> \<exists>b. map_of nb k = Some b \<and> b \<noteq> [] \<and> butlast b = butlast body
          \<and> set (block_targets b) \<subseteq> set (dkeys nb) \<and> retarget (contract blocks nb) (last b) = last body"
proof -
  note g = assms[unfolded gathers_def]
  show "distinct (dkeys nb)" by (rule conjunct1[OF g])
  show "set (dkeys blocks) \<subseteq> set (dkeys nb)" by (rule conjunct1[OF conjunct2[OF g]])
  note g3 = conjunct2[OF conjunct2[OF g]]
  show "t \<in> set (dkeys nb) \<Longrightarrow> t \<notin> set (dkeys blocks) \<Longrightarrow> k \<in> set (dkeys blocks) \<Longrightarrow> k < t"
    by (rule conjunct1[OF g3, rule_format])
  show "t \<in> set (dkeys nb) \<Longrightarrow> t \<notin> set (dkeys blocks) \<Longrightarrow> \<exists>h \<in> set (dkeys blocks). map_of nb t = Some [Jump h]"
    by (rule conjunct1[OF conjunct2[OF g3], rule_format])
  show "map_of blocks k = Some body \<Longrightarrow> \<exists>b. map_of nb k = Some b \<and> b \<noteq> [] \<and> butlast b = butlast body
          \<and> set (block_targets b) \<subseteq> set (dkeys nb) \<and> retarget (contract blocks nb) (last b) = last body"
    by (rule conjunct2[OF conjunct2[OF g3], rule_format])
qed

lemma has_multiple_returns:
  assumes "\<forall>k \<in> set ks. block_edges_of blocks k = Inr (targets k)"
  shows "has_multiple_backedges blocks header ks n = Inr (1 < n + length (filter (\<lambda>k. header \<in> set (targets k)) ks) \<and> (\<exists>k \<in> set ks. header \<in> set (targets k)))"
  using assms
proof (induction ks arbitrary: n)
  case (Cons k ks)
  show ?case
  proof (cases "header \<in> set (targets k)")
    case True
    show ?thesis
    proof (cases "1 < n + 1")
      case False
      with True Cons show ?thesis by (auto simp: filter_empty_conv)
    qed (use True Cons in simp)
  qed (use Cons in auto)
qed simp

lemma get_targets_retarget:
  "get_targets (retarget f st) = (case get_targets st of Inl e \<Rightarrow> Inl e | Inr ts \<Rightarrow> Inr (map f ts))"
  by (cases st) (simp_all add: get_targets_def retarget_def is_exit_def)

lemma retarget_retarget [simp]: "retarget f (retarget g st) = retarget (f \<circ> g) st"
  by (cases st) (simp_all add: retarget_def)

lemma is_terminator_retarget [simp]: "is_terminator (retarget f st) = is_terminator st"
  by (cases st) (simp_all add: is_terminator_def retarget_def is_exit_def)

lemma retarget_cong: "(\<And>t. t \<in> set (case get_targets st of Inl e \<Rightarrow> [] | Inr ts \<Rightarrow> ts) \<Longrightarrow> f t = g t) \<Longrightarrow> retarget f st = retarget g st"
  by (cases st) (simp_all add: get_targets_def retarget_def is_exit_def)

lemma replace_target_ok:
  assumes "get_targets st = Inr ts" and "src \<in> set ts"
  shows "replace_target st src dst = Inr (retarget (\<lambda>t. if t = src then dst else t) st)"
  using assms by (cases st) (auto simp: replace_target_def get_targets_def retarget_def is_exit_def)

lemma gathersD:
  assumes "gathers blocks nb" and "blocks_ok blocks" and "map_of blocks k = Some body"
  obtains b ts where "map_of nb k = Some b" "b \<noteq> []" "butlast b = butlast body" "get_targets (last b) = Inr ts"
    "block_targets b = ts" "set ts \<subseteq> set (dkeys nb)" "retarget (contract blocks nb) (last b) = last body"
    "map (contract blocks nb) ts = block_targets body"
proof -
  from gathers_parts(5)[OF assms(1,3)] obtain b where b: "map_of nb k = Some b" "b \<noteq> []" "butlast b = butlast body"
    "set (block_targets b) \<subseteq> set (dkeys nb)" "retarget (contract blocks nb) (last b) = last body"
    by blast
  have "(k, body) \<in> set blocks" using assms(3) by (rule map_of_SomeD)
  then have "is_terminator (last body)" using assms(2) by (auto simp: blocks_ok_def verify_block_ok)
  then have "is_terminator (last b)" using b(5) by (metis is_terminator_retarget)
  then obtain ts where ts: "get_targets (last b) = Inr ts" using terminator_targets by blast
  then have "block_targets b = ts" by (simp add: block_targets_def)
  moreover have "map (contract blocks nb) ts = block_targets body"
    using get_targets_retarget[of "contract blocks nb" "last b"] b(5) ts by (simp add: block_targets_def)
  ultimately show thesis using that[OF b(1-3) ts] b(4,5) by simp
qed

lemma contract_dset: "k \<in> set (dkeys blocks) \<Longrightarrow> contract blocks (dset k b nb) = contract blocks nb"
  by (rule ext) (auto simp: contract_def split: option.splits list.splits stmt.splits)

text \<open>The tail block is kept in mind (\<open>dset tk [Jump h]\<close>) before the code stores it.\<close>

lemma gathers_add_tail:
  assumes ok: "blocks_ok blocks" and g: "gathers blocks nb" and h: "h \<in> set (dkeys blocks)" and tk: "\<forall>k \<in> set (dkeys nb). k < tk"
  shows "gathers blocks (dset tk [Jump h] nb)"
proof -
  note n = gathers_parts[OF g]
  have fresh: "tk \<notin> set (dkeys nb)" using tk by blast
  have keys: "set (dkeys (dset tk [Jump h] nb)) = insert tk (set (dkeys nb))" by (simp only: set_map dset_keys)
  show ?thesis
  proof (rule gathersI, unfold keys)
    show "distinct (dkeys (dset tk [Jump h] nb))" using n(1) by (simp only: distinct_update)
    show "set (dkeys blocks) \<subseteq> insert tk (set (dkeys nb))" using n(2) by blast
  next
    fix t k assume "t \<in> insert tk (set (dkeys nb))" "t \<notin> set (dkeys blocks)" "k \<in> set (dkeys blocks)"
    then show "k < t" using n(2,3) tk by blast
  next
    fix t assume t: "t \<in> insert tk (set (dkeys nb))" "t \<notin> set (dkeys blocks)"
    show "\<exists>h' \<in> set (dkeys blocks). map_of (dset tk [Jump h] nb) t = Some [Jump h']"
    proof (cases "t = tk")
      case True
      then show ?thesis using h by (intro bexI[of _ h]) simp_all
    next
      case False
      with t have "t \<in> set (dkeys nb)" by blast
      from n(4)[OF this t(2)] show ?thesis unfolding dset_lookup if_not_P[OF False] .
    qed
  next
    fix k body assume k: "map_of blocks k = Some body"
    obtain b ts where b: "map_of nb k = Some b" "b \<noteq> []" "butlast b = butlast body" "get_targets (last b) = Inr ts"
      "block_targets b = ts" "set ts \<subseteq> set (dkeys nb)" "retarget (contract blocks nb) (last b) = last body"
      by (rule gathersD[OF g ok k])
    have "contract blocks (dset tk [Jump h] nb) t = contract blocks nb t" if "t \<in> set ts" for t
      using that b(6) fresh by (auto simp: contract_def)
    then have "retarget (contract blocks (dset tk [Jump h] nb)) (last b) = retarget (contract blocks nb) (last b)"
      by (intro retarget_cong) (simp add: b(4))
    moreover have "k \<noteq> tk" using map_of_SomeD[OF b(1)] fresh by force
    ultimately show "\<exists>b. map_of (dset tk [Jump h] nb) k = Some b \<and> b \<noteq> [] \<and> butlast b = butlast body
        \<and> set (block_targets b) \<subseteq> insert tk (set (dkeys nb)) \<and> retarget (contract blocks (dset tk [Jump h] nb)) (last b) = last body"
      using b by auto
  qed
qed

definition tg :: "'c blocks \<Rightarrow> int \<Rightarrow> int set" where
  "tg nb k = (case map_of nb k of None \<Rightarrow> {} | Some b \<Rightarrow> set (block_targets b))"

lemma rewrite_backedge_ok:
  assumes ok: "blocks_ok blocks" and g: "gathers blocks (dset tk [Jump h] nb)" and fresh: "tk \<notin> set (dkeys nb)"
    and dist: "distinct (dkeys nb)" and sub: "set (dkeys blocks) \<subseteq> set (dkeys nb)" and k: "k \<in> set (dkeys blocks)" and h: "h \<in> set (dkeys blocks)"
  shows "\<exists>nb'. rewrite_backedge h tk k nb = Inr nb' \<and> gathers blocks (dset tk [Jump h] nb') \<and> dkeys nb' = dkeys nb
    \<and> h \<notin> tg nb' k \<and> (\<forall>j. j \<noteq> k \<longrightarrow> map_of nb' j = map_of nb j) \<and> (\<forall>j. tg nb' j \<subseteq> insert tk (tg nb j))"
proof -
  let ?nb = "dset tk [Jump h] nb"
  define c where "c = contract blocks ?nb"
  have ne: "k \<noteq> tk" "h \<noteq> tk" "tk \<notin> set (dkeys blocks)" using k h sub fresh by blast+
  from k obtain body where body: "map_of blocks k = Some body" by (cases "map_of blocks k") (auto simp: map_of_eq_None_iff)
  obtain b ts where b: "map_of ?nb k = Some b" "b \<noteq> []" "butlast b = butlast body" "get_targets (last b) = Inr ts"
    "block_targets b = ts" "set ts \<subseteq> set (dkeys ?nb)" "retarget c (last b) = last body"
    unfolding c_def by (rule gathersD[OF g ok body])
  have look: "map_of nb k = Some b" using b(1) ne(1) by simp
  show ?thesis
  proof (cases "h \<in> set ts")
    case False
    then have "rewrite_backedge h tk k nb = Inr nb"
      using look b(2,4) by (simp add: rewrite_backedge_def dget_def terminator_last)
    moreover have "h \<notin> tg nb k" using False by (simp add: tg_def look b(5))
    ultimately show ?thesis using g by auto
  next
    case True
    define f where "f = (\<lambda>t. if t = h then tk else t)"
    define b' where "b' = butlast b @ [retarget f (last b)]"
    let ?nb' = "dset k b' nb"
    have run: "rewrite_backedge h tk k nb = Inr ?nb'"
      using look b(2,4) True replace_target_ok[OF b(4) True, of tk]
      by (simp add: rewrite_backedge_def dget_def terminator_last b'_def f_def)
    have keys: "dkeys ?nb' = dkeys nb" using k sub by (intro dset_keys_present) (auto simp: subset_iff)
    have targets: "block_targets b' = map f ts"
      by (simp add: block_targets_def b'_def get_targets_retarget b(4))
    have lookups: "map_of (dset tk [Jump h] ?nb') j = (if j = k then Some b' else map_of ?nb j)" for j
      using ne(1) by simp
    have keys2: "set (dkeys (dset tk [Jump h] ?nb')) = set (dkeys ?nb)"
      using arg_cong[OF keys, of set] by (simp only: set_map dset_keys)
    have c': "contract blocks (dset tk [Jump h] ?nb') = c"
    proof
      fix t show "contract blocks (dset tk [Jump h] ?nb') t = c t"
      proof (cases "t \<in> set (dkeys blocks)")
        case True then show ?thesis by (simp only: contract_def c_def if_True)
      next
        case False
        with k have "t \<noteq> k" by blast
        with False show ?thesis by (simp only: contract_def c_def lookups if_False)
      qed
    qed
    have "c tk = h" unfolding c_def contract_def using ne(3) by simp
    moreover have "c h = h" using h by (simp only: c_def contract_def if_True)
    ultimately have "c \<circ> f = c" by (auto simp: f_def fun_eq_iff)
    then have last: "retarget c (last b') = last body" using b(7) by (simp add: b'_def)
    have sub': "set (block_targets b') \<subseteq> set (dkeys ?nb)"
      using b(6) by (auto simp: targets f_def)
    have tk_in: "tk \<in> set (dkeys ?nb)" by simp
    have "gathers blocks (dset tk [Jump h] ?nb')"
    proof (rule gathersI, unfold keys2 c')
      show "distinct (dkeys (dset tk [Jump h] ?nb'))" using dist by (simp only: keys distinct_update)
      show "set (dkeys blocks) \<subseteq> set (dkeys ?nb)" by (rule gathers_parts(2)[OF g])
    next
      fix t j assume "t \<in> set (dkeys ?nb)" "t \<notin> set (dkeys blocks)" "j \<in> set (dkeys blocks)"
      then show "j < t" by (rule gathers_parts(3)[OF g])
    next
      fix t assume t: "t \<in> set (dkeys ?nb)" "t \<notin> set (dkeys blocks)"
      with k have "t \<noteq> k" by blast
      with gathers_parts(4)[OF g t] show "\<exists>h' \<in> set (dkeys blocks). map_of (dset tk [Jump h] ?nb') t = Some [Jump h']"
        by (simp only: lookups if_False)
    next
      fix j body' assume j: "map_of blocks j = Some body'"
      show "\<exists>b. map_of (dset tk [Jump h] ?nb') j = Some b \<and> b \<noteq> [] \<and> butlast b = butlast body'
          \<and> set (block_targets b) \<subseteq> set (dkeys ?nb) \<and> retarget c (last b) = last body'"
      proof (cases "j = k")
        case True
        with j body have "body' = body" by simp
        with True show ?thesis unfolding lookups using sub' last b(3) by (simp add: b'_def)
      next
        case False
        with gathers_parts(5)[OF g j] show ?thesis unfolding lookups c_def by (simp only: if_False)
      qed
    qed
    moreover have "h \<notin> tg ?nb' k" using ne(2) by (auto simp: tg_def targets f_def)
    moreover have "tg ?nb' j \<subseteq> insert tk (tg nb j)" for j
      by (cases "j = k") (auto simp: tg_def look targets f_def b(5))
    ultimately show ?thesis using run keys by auto
  qed
qed

lemma rewrite_body_ok:
  assumes ok: "blocks_ok blocks" and h: "h \<in> set (dkeys blocks)"
    and "gathers blocks (dset tk [Jump h] nb)" and "tk \<notin> set (dkeys nb)"
    and "distinct (dkeys nb)" and "set (dkeys blocks) \<subseteq> set (dkeys nb)" and "set ks \<subseteq> set (dkeys blocks)"
  shows "\<exists>nb'. foldE (rewrite_backedge h tk) ks nb = Inr nb' \<and> gathers blocks (dset tk [Jump h] nb') \<and> dkeys nb' = dkeys nb
    \<and> (\<forall>k \<in> set ks. h \<notin> tg nb' k) \<and> (\<forall>j. j \<notin> set ks \<longrightarrow> map_of nb' j = map_of nb j) \<and> (\<forall>j. tg nb' j \<subseteq> insert tk (tg nb j))"
  using assms(3-)
proof (induction ks arbitrary: nb)
  case Nil
  then show ?case by auto
next
  case (Cons k ks)
  have k: "k \<in> set (dkeys blocks)" and ks: "set ks \<subseteq> set (dkeys blocks)" using Cons.prems(5) by auto
  from rewrite_backedge_ok[OF ok Cons.prems(1-4) k h] obtain n1 where
    n1: "rewrite_backedge h tk k nb = Inr n1" "gathers blocks (dset tk [Jump h] n1)" "dkeys n1 = dkeys nb"
      "h \<notin> tg n1 k" "\<forall>j. j \<noteq> k \<longrightarrow> map_of n1 j = map_of nb j" "\<forall>j. tg n1 j \<subseteq> insert tk (tg nb j)" by blast
  from Cons.IH[OF n1(2)] n1(3) Cons.prems(2-4) ks obtain n2 where
    n2: "foldE (rewrite_backedge h tk) ks n1 = Inr n2" "gathers blocks (dset tk [Jump h] n2)" "dkeys n2 = dkeys n1"
      "\<forall>k \<in> set ks. h \<notin> tg n2 k" "\<forall>j. j \<notin> set ks \<longrightarrow> map_of n2 j = map_of n1 j" "\<forall>j. tg n2 j \<subseteq> insert tk (tg n1 j)"
    by metis
  have "h \<noteq> tk" using h Cons.prems(2,4) by blast
  with n1(4) n2(6) have "h \<notin> tg n2 k" by blast
  moreover have "\<forall>j. tg n2 j \<subseteq> insert tk (tg nb j)" using n1(6) n2(6) by blast
  ultimately show ?case using n1 n2 by auto
qed

lemma gathers_without_tail:
  assumes "gathers blocks nb"
  shows "distinct (dkeys nb)" "set (dkeys blocks) \<subseteq> set (dkeys nb)"
  by (rule gathers_parts(1,2)[OF assms])+

lemma rewrite_single_ok:
  assumes ok: "blocks_ok blocks" and g: "gathers blocks nb"
    and h: "l_header l \<in> set (dkeys blocks)" and body: "set (l_body l) \<subseteq> set (dkeys blocks)"
  shows "\<exists>nb' tk. rewrite_single_backedge l nb = Inr nb' \<and> gathers blocks nb' \<and> tk \<notin> set (dkeys nb)
    \<and> set (dkeys nb') = insert tk (set (dkeys nb)) \<and> map_of nb' tk = Some [Jump (l_header l)]
    \<and> (\<forall>k \<in> set (l_body l). l_header l \<notin> tg nb' k)
    \<and> (\<forall>j \<in> set (dkeys nb). tg nb' j \<subseteq> insert tk (tg nb j))
    \<and> (\<forall>t \<in> set (dkeys nb). t \<notin> set (dkeys blocks) \<longrightarrow> map_of nb' t = map_of nb t)"
proof -
  define tk where "tk = new_block_id nb"
  have "k < tk" if "k \<in> set (dkeys nb)" for k
    unfolding tk_def new_block_id_def using Max_ge[OF finite_set that] by linarith
  then have tk: "\<forall>k \<in> set (dkeys nb). k < tk" by blast
  then have fresh: "tk \<notin> set (dkeys nb)" by blast
  note n = gathers_parts[OF g]
  from rewrite_body_ok[OF ok h gathers_add_tail[OF ok g h tk] fresh n(1,2) body] obtain n1 where
    n1: "foldE (rewrite_backedge (l_header l) tk) (l_body l) nb = Inr n1" "gathers blocks (dset tk [Jump (l_header l)] n1)"
      "dkeys n1 = dkeys nb" "\<forall>k \<in> set (l_body l). l_header l \<notin> tg n1 k"
      "\<forall>j. j \<notin> set (l_body l) \<longrightarrow> map_of n1 j = map_of nb j" "\<forall>j. tg n1 j \<subseteq> insert tk (tg nb j)" by blast
  let ?nb = "dset tk [Jump (l_header l)] n1"
  have "l_header l \<in> set (dkeys n1)" using n1(3) n(2) h by auto
  then obtain eb where "dget n1 (l_header l) = Inr eb"
    by (cases "map_of n1 (l_header l)") (auto simp: dget_def map_of_eq_None_iff)
  then have run: "rewrite_single_backedge l nb = Inr ?nb"
    using n1(1) by (simp add: rewrite_single_backedge_def tk_def Let_def)
  have keys: "set (dkeys ?nb) = insert tk (set (dkeys nb))" using n1(3) by (simp only: set_map dset_keys flip: n1(3))
  have other: "tg ?nb j = tg n1 j" if "j \<noteq> tk" for j using that by (simp add: tg_def)
  have "l_header l \<notin> tg ?nb k" if "k \<in> set (l_body l)" for k
  proof -
    have "k \<noteq> tk" using that body n(2) fresh by blast
    then show ?thesis using other n1(4) that by simp
  qed
  moreover have "tg ?nb j \<subseteq> insert tk (tg nb j)" if "j \<in> set (dkeys nb)" for j
    using that fresh other[of j] n1(6) by auto
  moreover have "map_of ?nb t = map_of nb t" if "t \<in> set (dkeys nb)" "t \<notin> set (dkeys blocks)" for t
  proof -
    have "t \<noteq> tk" "t \<notin> set (l_body l)" using that fresh body by blast+
    then show ?thesis using n1(5) by simp
  qed
  ultimately show ?thesis using run n1(2) fresh keys by (intro exI[of _ ?nb] exI[of _ tk]) simp
qed

section \<open>All loops\<close>

definition multiple :: "'c blocks \<Rightarrow> int loop \<Rightarrow> bool" where
  "multiple blocks l \<longleftrightarrow> 1 < length (filter (\<lambda>k. l_header l \<in> tg blocks k) (l_body l))"

definition loop_in :: "'c blocks \<Rightarrow> int loop \<Rightarrow> bool" where
  "loop_in blocks l \<longleftrightarrow> l_header l \<in> set (dkeys blocks) \<and> set (l_body l) \<subseteq> set (dkeys blocks) \<and> distinct (l_body l)"

text \<open>After the loops \<open>R\<close> have been rewritten: their tails, and no other back edge to their headers.\<close>

definition rewritten :: "'c blocks \<Rightarrow> int loop set \<Rightarrow> 'c blocks \<Rightarrow> bool" where
  "rewritten blocks R nb \<longleftrightarrow> gathers blocks nb
     \<and> (\<forall>t \<in> set (dkeys nb). t \<notin> set (dkeys blocks) \<longrightarrow> (\<exists>l \<in> R. map_of nb t = Some [Jump (l_header l)]))
     \<and> (\<forall>t \<in> set (dkeys nb). \<forall>t' \<in> set (dkeys nb). t \<notin> set (dkeys blocks) \<longrightarrow> t' \<notin> set (dkeys blocks) \<longrightarrow>
          map_of nb t = map_of nb t' \<longrightarrow> t = t')
     \<and> (\<forall>l \<in> R. \<forall>k \<in> set (l_body l). l_header l \<notin> tg nb k)"

lemma block_edges_get:
  assumes "blocks_ok blocks" and "k \<in> set (dkeys blocks)"
  shows "\<exists>ts. block_edges_of blocks k = Inr ts \<and> tg blocks k = set ts"
proof -
  from assms(2) obtain body where body: "map_of blocks k = Some body"
    by (cases "map_of blocks k") (auto simp: map_of_eq_None_iff)
  then have "verify_block body = Inr ()" using assms(1) by (auto simp: blocks_ok_def dest!: map_of_SomeD)
  then have "body \<noteq> []" "is_terminator (last body)" by (simp_all add: verify_block_ok)
  moreover from this(2) obtain ts where "get_targets (last body) = Inr ts" using terminator_targets by blast
  ultimately show ?thesis
    using body by (simp add: block_edges_of_def dget_def terminator_last tg_def block_targets_def)
qed

lemma rewrite_loop_ok:
  assumes ok: "blocks_ok blocks" and r: "rewritten blocks R nb" and l: "loop_in blocks l"
    and R: "\<forall>l' \<in> R. loop_in blocks l'" and new: "l_header l \<notin> l_header ` R"
  shows "\<exists>nb'. rewrite_loop blocks l nb = Inr nb' \<and> rewritten blocks (if multiple blocks l then insert l R else R) nb'"
proof -
  from l have h: "l_header l \<in> set (dkeys blocks)" and body: "set (l_body l) \<subseteq> set (dkeys blocks)"
    by (simp_all only: loop_in_def)
  have "\<forall>k \<in> set (l_body l). \<exists>ts. block_edges_of blocks k = Inr ts \<and> tg blocks k = set ts"
    using block_edges_get[OF ok] body by blast
  then obtain T where T: "\<forall>k \<in> set (l_body l). block_edges_of blocks k = Inr (T k) \<and> tg blocks k = set (T k)" by metis
  have "filter (\<lambda>k. l_header l \<in> set (T k)) (l_body l) = filter (\<lambda>k. l_header l \<in> tg blocks k) (l_body l)"
    using T by (intro filter_cong) auto
  moreover have "\<exists>k \<in> set (l_body l). l_header l \<in> set (T k)" if "1 < length (filter (\<lambda>k. l_header l \<in> set (T k)) (l_body l))"
  proof (rule ccontr)
    assume "\<not> (\<exists>k \<in> set (l_body l). l_header l \<in> set (T k))"
    then have "filter (\<lambda>k. l_header l \<in> set (T k)) (l_body l) = []" by (simp add: filter_empty_conv)
    with that show False by simp
  qed
  ultimately have mult: "has_multiple_backedges blocks (l_header l) (l_body l) 0 = Inr (multiple blocks l)"
    using has_multiple_returns[of "l_body l" blocks T "l_header l" 0] T by (auto simp: multiple_def)
  show ?thesis
  proof (cases "multiple blocks l")
    case False
    with mult r show ?thesis by (simp add: rewrite_loop_def)
  next
    case True
    from r have g: "gathers blocks nb"
      and tails: "\<And>t. t \<in> set (dkeys nb) \<Longrightarrow> t \<notin> set (dkeys blocks) \<Longrightarrow> \<exists>l \<in> R. map_of nb t = Some [Jump (l_header l)]"
      and inj: "\<And>t t'. t \<in> set (dkeys nb) \<Longrightarrow> t' \<in> set (dkeys nb) \<Longrightarrow> t \<notin> set (dkeys blocks) \<Longrightarrow> t' \<notin> set (dkeys blocks) \<Longrightarrow>
          map_of nb t = map_of nb t' \<Longrightarrow> t = t'"
      and none: "\<And>l k. l \<in> R \<Longrightarrow> k \<in> set (l_body l) \<Longrightarrow> l_header l \<notin> tg nb k"
      unfolding rewritten_def by blast+
    from rewrite_single_ok[OF ok g h body] obtain nb' tk where
      n: "rewrite_single_backedge l nb = Inr nb'" "gathers blocks nb'" "tk \<notin> set (dkeys nb)"
        "set (dkeys nb') = insert tk (set (dkeys nb))" "map_of nb' tk = Some [Jump (l_header l)]"
        "\<forall>k \<in> set (l_body l). l_header l \<notin> tg nb' k"
        "\<forall>j \<in> set (dkeys nb). tg nb' j \<subseteq> insert tk (tg nb j)"
        "\<forall>t \<in> set (dkeys nb). t \<notin> set (dkeys blocks) \<longrightarrow> map_of nb' t = map_of nb t" by blast
    have run: "rewrite_loop blocks l nb = Inr nb'" using mult True n(1) by (simp add: rewrite_loop_def)
    have old: "t \<in> set (dkeys nb)" if "t \<in> set (dkeys nb')" "t \<noteq> tk" for t using that n(4) by blast
    have keep: "map_of nb' t = map_of nb t" if "t \<in> set (dkeys nb')" "t \<notin> set (dkeys blocks)" "t \<noteq> tk" for t
      using n(8) old[OF that(1,3)] that(2) by blast
    have tail_of: "\<exists>l' \<in> R. map_of nb' t = Some [Jump (l_header l')]"
      if "t \<in> set (dkeys nb')" "t \<notin> set (dkeys blocks)" "t \<noteq> tk" for t
      using tails[OF old[OF that(1,3)] that(2)] keep[OF that] by simp
    have different: "map_of nb' t \<noteq> map_of nb' tk" if "t \<in> set (dkeys nb')" "t \<notin> set (dkeys blocks)" "t \<noteq> tk" for t
      using tail_of[OF that] n(5) new by auto
    have sub: "set (dkeys blocks) \<subseteq> set (dkeys nb)" by (rule gathers_parts(2)[OF g])
    have "rewritten blocks (insert l R) nb'"
      unfolding rewritten_def
    proof (intro conjI ballI impI)
      show "gathers blocks nb'" by (rule n(2))
    next
      fix t assume "t \<in> set (dkeys nb')" "t \<notin> set (dkeys blocks)"
      then show "\<exists>l' \<in> insert l R. map_of nb' t = Some [Jump (l_header l')]"
        using tail_of[of t] n(5) by (cases "t = tk") auto
    next
      fix t t' assume t: "t \<in> set (dkeys nb')" "t' \<in> set (dkeys nb')" "t \<notin> set (dkeys blocks)" "t' \<notin> set (dkeys blocks)"
        and eq: "map_of nb' t = map_of nb' t'"
      show "t = t'"
      proof (cases "t = tk \<or> t' = tk")
        case True
        with different[of t] different[of t'] t eq show ?thesis by metis
      next
        case False
        then have ne: "t \<noteq> tk" "t' \<noteq> tk" by blast+
        have "map_of nb t = map_of nb t'"
          using eq keep[OF t(1,3) ne(1)] keep[OF t(2,4) ne(2)] by metis
        then show ?thesis by (rule inj[OF old[OF t(1) ne(1)] old[OF t(2) ne(2)] t(3,4)])
      qed
    next
      fix l' k assume l': "l' \<in> insert l R" and k: "k \<in> set (l_body l')"
      show "l_header l' \<notin> tg nb' k"
      proof (cases "l' = l")
        case True
        with k n(6) show ?thesis by simp
      next
        case False
        with l' have "l' \<in> R" by simp
        with R have in': "l_header l' \<in> set (dkeys blocks)" "k \<in> set (dkeys blocks)"
          using k unfolding loop_in_def by blast+
        then have "k \<in> set (dkeys nb)" "l_header l' \<noteq> tk" using sub n(3) by blast+
        with n(7) none[OF \<open>l' \<in> R\<close> k] show ?thesis by blast
      qed
    qed
    with run True show ?thesis by simp
  qed
qed

lemma rewrite_loops_ok:
  assumes ok: "blocks_ok blocks" and "rewritten blocks R nb"
    and "\<forall>l \<in> set ls \<union> R. loop_in blocks l" and "distinct (map l_header ls)" and "l_header ` set ls \<inter> l_header ` R = {}"
  shows "\<exists>nb'. foldE (rewrite_loop blocks) ls nb = Inr nb' \<and> rewritten blocks (R \<union> {l \<in> set ls. multiple blocks l}) nb'"
  using assms(2-)
proof (induction ls arbitrary: R nb)
  case Nil
  then show ?case by simp
next
  case (Cons l ls)
  let ?R = "if multiple blocks l then insert l R else R"
  from Cons.prems obtain n1 where n1: "rewrite_loop blocks l nb = Inr n1" "rewritten blocks ?R n1"
    using rewrite_loop_ok[OF ok, of R nb l] by auto
  from Cons.prems have "\<exists>nb'. foldE (rewrite_loop blocks) ls n1 = Inr nb' \<and> rewritten blocks (?R \<union> {l \<in> set ls. multiple blocks l}) nb'"
    by (intro Cons.IH[OF n1(2)]) (auto split: if_splits)
  moreover have "?R \<union> {l \<in> set ls. multiple blocks l} = R \<union> {l' \<in> set (l # ls). multiple blocks l'}" by auto
  ultimately show ?case using n1(1) by simp
qed

lemma gathers_self: "blocks_ok blocks \<Longrightarrow> gathers blocks blocks"
proof (rule gathersI)
  assume ok: "blocks_ok blocks"
  then show "distinct (dkeys blocks)" by (simp add: blocks_ok_def)
  fix k body assume k: "map_of blocks k = Some body"
  then have b: "verify_block body = Inr ()" "set (block_targets body) \<subseteq> set (dkeys blocks)"
    using ok map_of_SomeD[OF k] by (auto simp: blocks_ok_def)
  have "retarget (contract blocks blocks) (last body) = retarget (\<lambda>t. t) (last body)"
    using b(2) by (intro retarget_cong) (auto simp: contract_def block_targets_def subset_iff)
  moreover have "retarget (\<lambda>t. t) st = st" for st :: "'a stmt" by (cases st) (simp_all add: retarget_def)
  ultimately show "\<exists>b. map_of blocks k = Some b \<and> b \<noteq> [] \<and> butlast b = butlast body
      \<and> set (block_targets b) \<subseteq> set (dkeys blocks) \<and> retarget (contract blocks blocks) (last b) = last body"
    using k b by (simp add: verify_block_ok)
qed auto

lemma gathers_blocks_ok:
  assumes ok: "blocks_ok blocks" and g: "gathers blocks nb"
  shows "blocks_ok nb" and "start_block nb = start_block blocks"
proof -
  note n = gathers_parts[OF g]
  have ne: "blocks \<noteq> []" using ok by (simp add: blocks_ok_def)
  have "verify_block b = Inr () \<and> set (block_targets b) \<subseteq> set (dkeys nb)" if kb: "(k, b) \<in> set nb" for k b
  proof (cases "k \<in> set (dkeys blocks)")
    case True
    then obtain body where body: "map_of blocks k = Some body" by (cases "map_of blocks k") (auto simp: map_of_eq_None_iff)
    then have v: "verify_block body = Inr ()" using ok map_of_SomeD[OF body] by (auto simp: blocks_ok_def)
    have "map_of nb k = Some b" using kb n(1) by simp
    with n(5)[OF body] have b: "b \<noteq> []" "butlast b = butlast body" "set (block_targets b) \<subseteq> set (dkeys nb)"
      "retarget (contract blocks nb) (last b) = last body" by auto
    then have "is_terminator (last b)" using v by (metis is_terminator_retarget verify_block_ok)
    with b v show ?thesis by (simp add: verify_block_ok)
  next
    case False
    have "k \<in> set (dkeys nb)" using kb by force
    with n(4)[OF _ False] obtain h where h: "h \<in> set (dkeys blocks)" "map_of nb k = Some [Jump h]" by auto
    then have "b = [Jump h]" using kb n(1) by simp
    then show ?thesis using h(1) n(2)
      by (auto simp: verify_block_ok is_terminator_def is_exit_def block_targets_def get_targets_def)
  qed
  moreover have "nb \<noteq> []" using n(2) ne by (cases nb) auto
  ultimately show "blocks_ok nb" using n(1) by (auto simp: blocks_ok_def)
  show "start_block nb = start_block blocks"
    unfolding start_block_def
  proof (rule Min_eqI)
    have m: "Min (set (dkeys blocks)) \<in> set (dkeys blocks)" using ne by (intro Min_in) auto
    then show "Min (set (dkeys blocks)) \<in> set (dkeys nb)" using n(2) by blast
    fix t assume t: "t \<in> set (dkeys nb)"
    show "Min (set (dkeys blocks)) \<le> t"
    proof (cases "t \<in> set (dkeys blocks)")
      case True then show ?thesis by (intro Min_le) auto
    next
      case False
      with n(3)[OF t False m] show ?thesis by simp
    qed
  qed simp
qed

lemma cfg_loops_ok:
  assumes ok: "blocks_ok blocks" and cfg: "compute_cfg_from_blocks blocks = Some (Inr g)"
  shows "\<exists>loops. cfg_loops g = Some (Inr loops) \<and> (\<forall>l \<in> set (dvalues loops). loop_in blocks l)
    \<and> distinct (map l_header (dvalues loops))"
proof -
  from block_graph_ok[OF ok] cfg have wf: "cfg_wf g" "entry_point g = Some (start_block blocks)"
    "set (g_nodes g) \<subseteq> set (dkeys blocks)" by (auto simp: start_block_def)
  let ?e = "start_block blocks"
  have stays: "stays_in (g_succs g) (g_nodes g)" "stays_in (g_preds g) (g_nodes g)"
    using cfg_wf_stays[OF wf(1)] cfg_wfD(3,6)[OF wf(1)] by (auto simp: stays_in_def)
  have e: "?e \<in> set (g_nodes g)" using cfg_wfD(4)[OF wf(1) wf(2)] .
  from find_back_edges_returns[OF stays(1) e] obtain bes where bes: "find_back_edges (g_succs g) ?e = Some bes" by blast
  note result = find_back_edges_result(3)[OF bes]
  have mem: "s \<in> set (g_nodes g) \<and> d \<in> set (g_nodes g)" if "(s, d) \<in> set bes" for s d
  proof -
    have "s \<in> set (g_nodes g)" using result[OF that] reachable_in[OF stays(1), of "[?e]"] e by auto
    with result[OF that] stays(1) show ?thesis by (auto simp: stays_in_def)
  qed
  have sym: "a \<in> set (g_preds g b) \<longleftrightarrow> b \<in> set (g_succs g a)" for a b
    using cfg_wfD(1)[OF wf(1)] unfolding tables_def by blast
  have sub: "fst ` set bes \<subseteq> set (g_nodes g)" using mem by auto
  obtain loops where loops: "find_loops (g_preds g) (g_succs g) bes = Some loops" "fst ` set loops = snd ` set bes"
      "\<And>h l. map_of loops h = Some l \<Longrightarrow> l_header l = h" "\<And>h l. map_of loops h = Some l \<Longrightarrow> distinct (l_body l)"
      "\<And>h l n. map_of loops h = Some l \<Longrightarrow> n \<in> set (l_body l) \<Longrightarrow> (n, h) \<in> (arcs (g_succs g))\<^sup>*"
    by (rule find_loops_bodies[OF stays(2) sub sym]) (use result in blast)+
  have dist: "distinct (dkeys loops)" by (rule find_loops_keys[OF loops(1)])
  have one: "l_header l = h \<and> loop_in blocks l" if hl: "(h, l) \<in> set loops" for h l
  proof -
    have "map_of loops h = Some l" using hl dist by simp
    then have l: "l_header l = h" "distinct (l_body l)" "\<forall>n \<in> set (l_body l). (n, h) \<in> (arcs (g_succs g))\<^sup>*"
      using loops(3-5) by blast+
    have "h \<in> snd ` set bes" using hl loops(2) by force
    then have h: "h \<in> set (g_nodes g)" using mem by auto
    have "n \<in> set (g_nodes g)" if "n \<in> set (l_body l)" for n
    proof -
      have "(n, h) \<in> (arcs (g_succs g))\<^sup>*" using l(3) that by blast
      then show ?thesis
      proof (cases rule: converse_rtranclE)
        case base with h show ?thesis by simp
      next
        case (step m)
        then have "(n, m) \<in> g_edges g" by (simp add: g_edges_def)
        then show ?thesis using cfg_wfD(3)[OF wf(1)] by blast
      qed
    qed
    with l h wf(3) show ?thesis unfolding loop_in_def by blast
  qed
  have "map l_header (dvalues loops) = dkeys loops" using one by auto
  with dist have d: "distinct (map l_header (dvalues loops))" by (simp only:)
  have "\<forall>l \<in> set (dvalues loops). loop_in blocks l" using one by auto
  moreover have "cfg_loops g = Some (Inr loops)" using loops(1) bes wf(2) by (simp add: cfg_loops_def)
  ultimately show ?thesis using d by blast
qed

lemma canonicalize_result:
  assumes ok: "blocks_ok blocks"
  shows "\<exists>g loops nb. compute_cfg_from_blocks blocks = Some (Inr g) \<and> cfg_loops g = Some (Inr loops)
    \<and> canonicalize_cfg blocks = Some (Inr nb) \<and> (\<forall>l \<in> set (dvalues loops). loop_in blocks l)
    \<and> distinct (map l_header (dvalues loops))
    \<and> rewritten blocks {l \<in> set (dvalues loops). multiple blocks l} nb"
proof -
  from block_graph_ok[OF ok] obtain g where g: "compute_cfg_from_blocks blocks = Some (Inr g)" by blast
  from cfg_loops_ok[OF ok g] obtain loops where
    loops: "cfg_loops g = Some (Inr loops)" "\<forall>l \<in> set (dvalues loops). loop_in blocks l" "distinct (map l_header (dvalues loops))" by blast
  have "rewritten blocks {} blocks" using gathers_self[OF ok] by (simp add: rewritten_def)
  from rewrite_loops_ok[OF ok this, of "dvalues loops"] loops(2,3) obtain nb where
    "foldE (rewrite_loop blocks) (dvalues loops) blocks = Inr nb"
    "rewritten blocks {l \<in> set (dvalues loops). multiple blocks l} nb" by auto
  with g loops show ?thesis by (auto simp: canonicalize_cfg_def)
qed

end
