(* ===== verification/PostRun.thy ===== *)
theory PostRun
  imports Canonicalize
begin

text \<open>
  \<open>PostProcessor.run\<close> of \<open>core/postproc.py\<close>: canonicalizing the graph, the state variables of
  generators, and inserting deletions; and the properties of the whole.
\<close>

section \<open>Generators\<close>

text \<open>
  A yield point is the offset of its block and the position of the assignment in the body. Its
  live variables are those that hold a value there; a variable deleted right after the yield
  is only weakly live.
\<close>

record yield_point =
  yp_block :: int
  yp_pos :: nat
  yp_live :: "string list"
  yp_weak :: "string list"

record generator_info =
  gi_yield_points :: "(nat, yield_point) dict"
  gi_state_vars :: "string list"

definition is_yield :: "'c stmt \<Rightarrow> bool" where
  "is_yield st = (case st of Assign (InstR (Yield v index)) target \<Rightarrow> True | _ \<Rightarrow> False)"

definition populate_generator_info :: "'c blocks \<Rightarrow> (nat, yield_point) dict" where
  "populate_generator_info blocks =
     (let pts = concat (map (\<lambda>(k, body). map (Pair k) (filter (\<lambda>i. is_yield (body ! i)) [0..<length body])) blocks)
      in map (\<lambda>(n, (k, i)). (n + 1, \<lparr>yp_block = k, yp_pos = i, yp_live = [], yp_weak = []\<rparr>)) (enumerate 0 pts))"

definition live_stmt :: "'c stmt \<Rightarrow> string list \<Rightarrow> string list res" where
  "live_stmt st live_vars =
     (case st of
        Assign e target \<Rightarrow> Inr (set_add target live_vars)
      | Del v \<Rightarrow> set_remove v live_vars
      | _ \<Rightarrow> Inr live_vars)"

fun drop_weak :: "'c stmt list \<Rightarrow> string list \<times> string list \<Rightarrow> string list \<times> string list" where
  "drop_weak (Del v # sts) (live_vars, weak) =
     drop_weak sts (if v \<in> set live_vars then (removeAll v live_vars, set_add v weak) else (live_vars, weak))"
| "drop_weak sts s = s"

definition yield_point_vars :: "'c blocks \<Rightarrow> varmap \<Rightarrow> yield_point \<Rightarrow> yield_point res" where
  "yield_point_vars blocks block_entry_vars yp =
     bindE (dget block_entry_vars (yp_block yp)) (\<lambda>entry.
     bindE (dget blocks (yp_block yp)) (\<lambda>body.
     bindE (foldE live_stmt (take (yp_pos yp) body) entry) (\<lambda>live_vars.
       let (live, weak) = drop_weak (drop (yp_pos yp + 1) body) (live_vars, [])
       in Inr (yp\<lparr>yp_live := live, yp_weak := weak\<rparr>))))"

definition compute_generator_info :: "'c blocks \<Rightarrow> varmap \<Rightarrow> generator_info res" where
  "compute_generator_info blocks block_entry_vars =
     bindE (mapE (\<lambda>(n, yp). bindE (yield_point_vars blocks block_entry_vars yp) (\<lambda>yp. Inr (n, yp)))
              (populate_generator_info blocks)) (\<lambda>yps.
       Inr \<lparr>gi_yield_points = yps,
            gi_state_vars = sort (remdups (concat (map (\<lambda>(n, yp). yp_live yp @ yp_weak yp) yps)))\<rparr>)"

section \<open>The passes of a run\<close>

record 'c post_result =
  post_blocks :: "'c blocks"
  post_generator :: "generator_info option"

text \<open>
  \<open>block_entry_vars\<close> is a \<open>defaultdict\<close>: each block's set is read, so it is there. Deletions for
  the generator analysis are inserted into the blocks and stripped again.
\<close>

definition generator_pass :: "'c blocks \<Rightarrow> ('c blocks \<times> generator_info) res option" where
  "generator_pass blocks =
     bindO (compute_cfg_from_blocks blocks) (\<lambda>cfg.
     bindO (vlt_deadmaps blocks) (\<lambda>r.
     bindO (compute_live_variables cfg blocks (defmap (compute_use_defs blocks)) (dead_combined r)) (\<lambda>bev.
       Some (bindE (patch_var_dels False r blocks) (\<lambda>patched.
             bindE (compute_generator_info patched (map (\<lambda>k. (k, dget_set bev k)) (dkeys blocks))) (\<lambda>gi.
               Inr (remove_dels patched, gi)))))))"

definition postproc_run :: "bool \<Rightarrow> bool \<Rightarrow> bool \<Rightarrow> 'c blocks \<Rightarrow> 'c post_result res option" where
  "postproc_run is_generator emit_dels extend_lifetimes blocks =
     bindO (canonicalize_cfg blocks) (\<lambda>blocks.
     bindO (if is_generator then bindO (generator_pass blocks) (\<lambda>(bs, gi). Some (Inr (bs, Some gi)))
            else Some (Inr (blocks, None))) (\<lambda>(blocks, gi).
     bindO (if emit_dels then insert_var_dels extend_lifetimes blocks else Some (Inr blocks)) (\<lambda>bs.
       Some (Inr \<lparr>post_blocks = bs, post_generator = gi\<rparr>))))"

section \<open>Properties\<close>

text \<open>
  C37. Canonicalizing well-formed blocks always succeeds and keeps the program: every block keeps
  its statements and, when the new tail blocks (single jumps to old blocks) are contracted, its
  terminator; the first block stays first and the new blocks are well-formed.
\<close>

theorem canonicalize_keeps_program:
  assumes "blocks_ok blocks"
  shows "\<exists>nb. canonicalize_cfg blocks = Some (Inr nb) \<and> gathers blocks nb
    \<and> blocks_ok nb \<and> start_block nb = start_block blocks"
proof -
  from canonicalize_result[OF assms] obtain nb where "canonicalize_cfg blocks = Some (Inr nb)" "gathers blocks nb"
    unfolding rewritten_def by blast
  with gathers_blocks_ok[OF assms this(2)] show ?thesis by blast
qed

definition two_back_edges :: "nat blocks" where
  "two_back_edges =
     [(0, [Assign (ArgR ''n'' 0) ''n'', Jump 1]), (1, [Branch ''n'' 2 4]), (2, [Branch ''n'' 1 3]), (3, [Jump 1]), (4, [Return ''n''])]"

lemma two_back_edges_ok: "blocks_ok two_back_edges" "no_dels two_back_edges"
  by code_simp+

theorem canonicalize_keeps_program_witness:
  "\<exists>nb. canonicalize_cfg two_back_edges = Some (Inr nb) \<and> gathers two_back_edges nb"
  using canonicalize_keeps_program[OF two_back_edges_ok(1)] by blast

lemma gathers_targets:
  assumes "blocks_ok blocks" "gathers blocks nb" "t \<in> set (dkeys blocks)" "k \<in> set (dkeys blocks)" "t \<in> tg nb k"
  shows "t \<in> tg blocks k"
proof -
  from assms(4) obtain body where body: "map_of blocks k = Some body"
    by (cases "map_of blocks k") (auto simp: map_of_eq_None_iff)
  obtain b ts where b: "map_of nb k = Some b" "block_targets b = ts" "map (contract blocks nb) ts = block_targets body"
    by (rule gathersD[OF assms(2,1) body])
  have "t \<in> set ts" using assms(5) b by (simp add: tg_def)
  then have "contract blocks nb t \<in> set (block_targets body)" unfolding b(3)[symmetric] by simp
  moreover have "contract blocks nb t = t" using assms(3) by (simp only: contract_def if_True)
  ultimately show ?thesis using body by (simp add: tg_def)
qed

lemma backedges_of_rewritten:
  assumes ok: "blocks_ok blocks" and inside: "\<forall>l \<in> ls. loop_in blocks l" and dist: "inj_on l_header ls"
    and rew: "rewritten blocks {l \<in> ls. multiple blocks l} nb" and l: "l \<in> ls"
  shows "card {k \<in> set (dkeys nb). (k \<in> set (l_body l) \<or> k \<notin> set (dkeys blocks)) \<and> l_header l \<in> tg nb k} \<le> 1"
    (is "card ?S \<le> 1")
proof -
  let ?R = "{l \<in> ls. multiple blocks l}"
  from rew have g: "gathers blocks nb"
    and tails: "\<And>t. t \<in> set (dkeys nb) \<Longrightarrow> t \<notin> set (dkeys blocks) \<Longrightarrow> \<exists>l \<in> ?R. map_of nb t = Some [Jump (l_header l)]"
    and inj: "\<And>t t'. t \<in> set (dkeys nb) \<Longrightarrow> t' \<in> set (dkeys nb) \<Longrightarrow> t \<notin> set (dkeys blocks) \<Longrightarrow> t' \<notin> set (dkeys blocks) \<Longrightarrow>
        map_of nb t = map_of nb t' \<Longrightarrow> t = t'"
    and none: "\<And>l k. l \<in> ?R \<Longrightarrow> k \<in> set (l_body l) \<Longrightarrow> l_header l \<notin> tg nb k"
    unfolding rewritten_def by blast+
  have fin: "finite ?S" by simp
  have tail: "multiple blocks l \<and> map_of nb k = Some [Jump (l_header l)]"
    if k: "k \<in> set (dkeys nb)" "k \<notin> set (dkeys blocks)" "l_header l \<in> tg nb k" for k
  proof -
    from tails[OF k(1,2)] obtain l' where l': "l' \<in> ?R" "map_of nb k = Some [Jump (l_header l')]" by blast
    then have "l_header l = l_header l'"
      using k(3) by (simp add: tg_def block_targets_def get_targets_def is_exit_def)
    moreover from this have "l = l'" using dist l l'(1) by (auto simp: inj_on_def)
    ultimately show ?thesis using l' by simp
  qed
  show ?thesis
  proof (cases "multiple blocks l")
    case True
    then have new: "k \<notin> set (dkeys blocks)" if "k \<in> ?S" for k using none[of l k] l that by auto
    have "k = k'" if k: "k \<in> ?S" "k' \<in> ?S" for k k'
    proof (rule inj)
      have "map_of nb j = Some [Jump (l_header l)]" if "j \<in> ?S" for j
        using tail[of j] new[OF that] that by blast
      then show "map_of nb k = map_of nb k'" using k by (simp only:)
    qed (use k new[OF k(1)] new[OF k(2)] in blast)+
    then show ?thesis using fin by (simp add: card_le_Suc0_iff_eq del: set_map)
  next
    case False
    have "?S \<subseteq> set (filter (\<lambda>k. l_header l \<in> tg blocks k) (l_body l))"
    proof
      fix k assume k: "k \<in> ?S"
      then have "k \<in> set (l_body l)" using tail[of k] False by blast
      moreover have "l_header l \<in> set (dkeys blocks)" "set (l_body l) \<subseteq> set (dkeys blocks)"
        using inside l unfolding loop_in_def by blast+
      ultimately show "k \<in> set (filter (\<lambda>k. l_header l \<in> tg blocks k) (l_body l))"
        using gathers_targets[OF ok g, of "l_header l" k] k by auto
    qed
    then have "card ?S \<le> card (set (filter (\<lambda>k. l_header l \<in> tg blocks k) (l_body l)))" by (intro card_mono) auto
    also have "\<dots> \<le> length (filter (\<lambda>k. l_header l \<in> tg blocks k) (l_body l))" by (rule card_length)
    also have "\<dots> \<le> 1" using False by (simp add: multiple_def)
    finally show ?thesis .
  qed
qed

text \<open>
  C38. After canonicalizing, every loop of the original graph has at most one back edge: among
  the blocks of its body and the new tail blocks, at most one jumps to its header.
\<close>

theorem canonicalize_single_backedge:
  assumes "blocks_ok blocks"
  shows "\<exists>g loops nb. compute_cfg_from_blocks blocks = Some (Inr g) \<and> cfg_loops g = Some (Inr loops)
    \<and> canonicalize_cfg blocks = Some (Inr nb)
    \<and> (\<forall>l \<in> set (dvalues loops).
         card {k \<in> set (dkeys nb). (k \<in> set (l_body l) \<or> k \<notin> set (dkeys blocks)) \<and> l_header l \<in> tg nb k} \<le> 1)"
proof -
  from canonicalize_result[OF assms] obtain g loops nb where
    r: "compute_cfg_from_blocks blocks = Some (Inr g)" "cfg_loops g = Some (Inr loops)" "canonicalize_cfg blocks = Some (Inr nb)"
      "\<forall>l \<in> set (dvalues loops). loop_in blocks l" "distinct (map l_header (dvalues loops))"
      "rewritten blocks {l \<in> set (dvalues loops). multiple blocks l} nb" by blast
  have "inj_on l_header (set (dvalues loops))" by (rule conjunct2[OF r(5)[unfolded distinct_map]])
  with backedges_of_rewritten[OF assms r(4) _ r(6)] r(1-3) show ?thesis by blast
qed

theorem canonicalize_single_backedge_witness:
  "\<exists>g loops nb. compute_cfg_from_blocks two_back_edges = Some (Inr g) \<and> cfg_loops g = Some (Inr loops)
    \<and> canonicalize_cfg two_back_edges = Some (Inr nb)
    \<and> (\<forall>l \<in> set (dvalues loops).
         card {k \<in> set (dkeys nb). (k \<in> set (l_body l) \<or> k \<notin> set (dkeys two_back_edges)) \<and> l_header l \<in> tg nb k} \<le> 1)"
  by (rule canonicalize_single_backedge[OF two_back_edges_ok(1)])

lemma gathers_no_dels:
  assumes "blocks_ok blocks" "no_dels blocks" "gathers blocks nb"
  shows "no_dels nb"
  unfolding no_dels_def
proof (intro ballI, clarify)
  fix k b st assume kb: "(k, b) \<in> set nb" and st: "st \<in> set b" and del: "is_del st"
  note n = gathers_parts[OF assms(3)]
  have look: "map_of nb k = Some b" using kb n(1) by simp
  show False
  proof (cases "k \<in> set (dkeys blocks)")
    case True
    then obtain body where body: "map_of blocks k = Some body" by (cases "map_of blocks k") (auto simp: map_of_eq_None_iff)
    with n(5)[OF body] look have b: "b \<noteq> []" "butlast b = butlast body" "retarget (contract blocks nb) (last b) = last body" by auto
    have mem: "(k, body) \<in> set blocks" using body by (rule map_of_SomeD)
    have ne: "body \<noteq> []" using assms(1) mem by (auto simp: blocks_ok_def verify_block_ok)
    have "st \<in> set (butlast body) \<or> st = last b" using st b(1,2) by (metis Un_iff append_butlast_last_id empty_iff insert_iff list.set set_append)
    moreover have "is_del (last b) = is_del (last body)" unfolding b(3)[symmetric] by (cases "last b") (simp_all add: retarget_def is_del_def)
    moreover have "\<not> is_del (last body)" using assms(2) mem ne by (auto simp: no_dels_def)
    ultimately have "\<exists>st \<in> set body. is_del st"
      using del ne in_set_butlastD[of st body] by (metis last_in_set)
    then show False using assms(2) mem by (auto simp: no_dels_def)
  next
    case False
    have "k \<in> set (dkeys nb)" using kb by force
    with n(4)[OF _ False] look obtain h where "b = [Jump h]" by auto
    with st del show False by (simp add: is_del_def)
  qed
qed

text \<open>
  C39. A post-processing run with deletions on the blocks of a function that is no generator: it
  always returns, with an error only from the consistency check; its blocks without the
  deletions are the canonicalized program; and along every walk from the first block no deleted
  variable is read, and at the exits only the variables of the terminator are left.
\<close>

theorem postproc_run_correct:
  assumes "blocks_ok blocks" and "no_dels blocks"
  shows "\<exists>r. postproc_run False True e blocks = Some r \<and> (r = Inl RuntimeError \<or> (\<exists>p nb. r = Inr p
    \<and> gathers blocks nb \<and> remove_dels (post_blocks p) = nb
    \<and> (\<forall>ks. walk (block_edges nb) ks \<longrightarrow> ks \<noteq> [] \<longrightarrow> hd ks = start_block blocks \<longrightarrow>
          no_use_after_del {} (along (post_blocks p) ks)
          \<and> (last ks \<notin> Domain (block_edges nb) \<longrightarrow>
               alive {} (along (post_blocks p) ks) \<subseteq> set (list_vars (last (block_at nb (last ks))))))))"
proof -
  from canonicalize_result[OF assms(1)] obtain nb where nb: "canonicalize_cfg blocks = Some (Inr nb)" "gathers blocks nb"
    unfolding rewritten_def by blast
  note ok = gathers_blocks_ok[OF assms(1) nb(2)] gathers_no_dels[OF assms nb(2)]
  from insert_var_dels_result(1)[OF ok(1), of e] obtain r where
    r: "insert_var_dels e nb = Some r" "r = Inl RuntimeError \<or> (\<exists>bs. r = Inr bs)" by blast
  from r(2) show ?thesis
  proof (elim disjE exE)
    assume "r = Inl RuntimeError"
    then show ?thesis using r(1) nb(1) by (simp add: postproc_run_def)
  next
    fix bs assume bs: "r = Inr bs"
    then have run: "postproc_run False True e blocks = Some (Inr \<lparr>post_blocks = bs, post_generator = None\<rparr>)"
      using r(1) nb(1) by (simp add: postproc_run_def)
    have ins: "insert_var_dels e nb = Some (Inr bs)" using r(1) bs by simp
    then obtain d where "patch_var_dels e d nb = Inr bs" unfolding insert_var_dels_def by (auto simp: bindO_Some_iff)
    then have "remove_dels bs = nb" using ok(3) by (rule remove_dels_inserted)
    with run nb(2) walk_invariant[OF ok(1,3) ins] ok(2) show ?thesis by fastforce
  qed
qed

theorem postproc_run_correct_witness:
  "\<exists>r. postproc_run False True False two_back_edges = Some r"
  using postproc_run_correct[OF two_back_edges_ok, of False] by blast

end
