(* ===== verification/Reconstruct.thy ===== *)
theory Reconstruct
  imports SSARun PostRun
begin

text \<open>
  The compiler pass \<open>ReconstructSSA\<close> (\<open>core/untyped_passes.py\<close>): the SSA reconstruction, the types
  of the locals, the table of definitions (\<open>build_definitions\<close> of \<open>core/ir_utils.py\<close>) and another
  run of the post-processor; and the search in the table (\<open>FunctionIR.get_definition\<close> of
  \<open>core/ir.py\<close>).
\<close>

section \<open>The pass\<close>

definition build_definitions :: "'c blocks \<Rightarrow> (string, 'c rhs list) dict \<Rightarrow> (string, 'c rhs list) dict" where
  "build_definitions blocks definitions =
     fold (\<lambda>(label, blk). fold (\<lambda>st definitions.
         case st of Assign e name \<Rightarrow> dset name (dlist definitions name @ [e]) definitions | _ \<Rightarrow> definitions) blk)
       blocks definitions"

text \<open>Every version of a variable has the type the user gave to the variable.\<close>

definition patch_locals :: "scope \<Rightarrow> (string, 't) dict \<Rightarrow> (string, 't) dict" where
  "patch_locals sc locals_dict =
     fold (\<lambda>(parent, redefs) locals.
         case map_of locals parent of
           None \<Rightarrow> locals
         | Some typ \<Rightarrow> fold (\<lambda>derived locals. dset derived typ locals) redefs locals)
       (var_redefinitions sc) locals_dict"

record ('c, 't) ssa_pass_result =
  sp_blocks :: "'c blocks"
  sp_scope :: scope
  sp_locals :: "(string, 't) dict option"
  sp_definitions :: "(string, 'c rhs list) dict"
  sp_generator :: "generator_info option"

text \<open>Unpacking the first block is an error when there are no blocks.\<close>

definition reconstruct_ssa_pass ::
  "bool \<Rightarrow> 'c blocks \<Rightarrow> scope \<Rightarrow> (string, 't) dict option \<Rightarrow> ('c, 't) ssa_pass_result res option" where
  "reconstruct_ssa_pass is_generator blocks sc locals =
     bindO (run_ssa blocks sc) (\<lambda>(blocks, sc).
     bindO (Some (case locals of
         None \<Rightarrow> Inr None
       | Some d \<Rightarrow> if blocks = [] then Inl ValueError else Inr (Some (patch_locals sc d)))) (\<lambda>locals.
     let definitions = build_definitions blocks []
     in bindO (postproc_run is_generator False False blocks) (\<lambda>p.
       Some (Inr \<lparr>sp_blocks = post_blocks p, sp_scope = sc, sp_locals = locals, sp_definitions = definitions,
                  sp_generator = post_generator p\<rparr>))))"

text \<open>
  \<open>get_definition\<close> follows copies of variables. The table is a \<open>defaultdict\<close>; the state is the
  name and, once it has been found, a value that is no variable.
\<close>

definition definition_step :: "(string, 'c rhs list) dict \<Rightarrow> string \<times> 'c rhs option \<Rightarrow> (string \<times> 'c rhs option) res" where
  "definition_step definitions = (\<lambda>(name, r).
     case dlist definitions name of
       [] \<Rightarrow> Inl KeyError
     | e # es \<Rightarrow> if es \<noteq> [] then Inl KeyError else case e of VarR x \<Rightarrow> Inr (x, None) | _ \<Rightarrow> Inr (name, Some e))"

definition get_definition :: "(string, 'c rhs list) dict \<Rightarrow> string \<Rightarrow> (string \<times> 'c rhs) res option" where
  "get_definition definitions name =
     bindO (loopE (\<lambda>(name, r). r = None) (\<lambda>st. Some (definition_step definitions st)) (name, None))
       (\<lambda>(name, r). Some (Inr (name, the r)))"

section \<open>The table of definitions\<close>

definition values_of :: "string \<Rightarrow> 'c stmt \<Rightarrow> 'c rhs list" where
  "values_of x st = (case st of Assign e t \<Rightarrow> if t = x then [e] else [] | _ \<Rightarrow> [])"

lemma build_definitions_flat:
  "dlist (build_definitions blocks []) x = concat (map (\<lambda>(l, st). values_of x st) (statements blocks))"
proof -
  let ?add = "\<lambda>st definitions.
      case st of Assign e name \<Rightarrow> dset name (dlist definitions name @ [e]) definitions | _ \<Rightarrow> definitions"
  have body: "dlist (fold ?add blk d) x = dlist d x @ concat (map (values_of x) blk)" for blk and d :: "(string, 'a rhs list) dict"
    by (induction blk arbitrary: d) (auto simp: values_of_def split: stmt.splits)
  have "dlist (build_definitions bs d) x = dlist d x @ concat (map (\<lambda>(l, st). values_of x st) (statements bs))"
    for bs and d :: "(string, 'a rhs list) dict"
  proof (induction bs arbitrary: d)
    case (Cons b bs)
    obtain l blk where b: "b = (l, blk)" by (cases b)
    have "build_definitions (b # bs) d = build_definitions bs (fold ?add blk d)" by (simp add: build_definitions_def b)
    moreover have "map (\<lambda>(l, st). values_of x st) (map (Pair l) blk) = map (values_of x) blk" by simp
    ultimately show ?case using Cons.IH[of "fold ?add blk d"] by (simp add: body statements_def b comp_def)
  qed (simp add: build_definitions_def statements_def)
  from this[of blocks "[]"] show ?thesis by (simp add: dlist_def)
qed

lemma build_definitions_length:
  "length (dlist (build_definitions blocks []) x) = length (filter (\<lambda>(l, st). assigns_to x st) (statements blocks))"
proof -
  have "length (concat (map (\<lambda>(l, st). values_of x st) xs))
      = length (filter (\<lambda>(l, st). assigns_to x st) xs)" for xs :: "(int \<times> 'a stmt) list"
    by (induction xs) (auto simp: assigns_to_def values_of_def split: stmt.splits)
  then show ?thesis by (simp add: build_definitions_flat)
qed

text \<open>A variable that is assigned once has at most one entry.\<close>

lemma once_at_most_one:
  assumes "distinct (dkeys blocks)" and "assigned_once blocks x"
  shows "length (dlist (build_definitions blocks []) x) \<le> 1"
proof -
  have body: "length (filter (assigns_to x) body) \<le> 1" if "map_of blocks l = Some body" for l body
  proof (rule ccontr)
    assume "\<not> length (filter (assigns_to x) body) \<le> 1"
    then have two: "2 \<le> card {i. i < length body \<and> assigns_to x (body ! i)}" by (simp add: length_filter_conv_card)
    have "i = j" if "i \<in> {i. i < length body \<and> assigns_to x (body ! i)}" "j \<in> {i. i < length body \<and> assigns_to x (body ! i)}" for i j
      using assms(2) that \<open>map_of blocks l = Some body\<close> unfolding assigned_once_def assigned_at_def by blast
    then have "card {i. i < length body \<and> assigns_to x (body ! i)} \<le> 1" by (intro card_le_Suc0_iff_eq[THEN iffD2, simplified One_nat_def[symmetric]]) auto
    with two show False by simp
  qed
  have "length (filter (\<lambda>(l, st). assigns_to x st) (statements bs)) \<le> 1" if "set bs \<subseteq> set blocks" "distinct (dkeys bs)" for bs
    using that
  proof (induction bs)
    case (Cons b bs)
    obtain l blk where b: "b = (l, blk)" by (cases b)
    have look: "map_of blocks l = Some blk" using Cons.prems(1) assms(1) b by simp
    have split: "filter (\<lambda>(l, st). assigns_to x st) (statements (b # bs))
        = map (Pair l) (filter (assigns_to x) blk) @ filter (\<lambda>(l, st). assigns_to x st) (statements bs)"
      by (simp add: statements_def b filter_map comp_def)
    show ?case
    proof (cases "filter (assigns_to x) blk = []")
      case True
      with Cons show ?thesis by (simp only: split) simp
    next
      case False
      then obtain st where "st \<in> set blk" "assigns_to x st" by (auto simp: filter_empty_conv)
      then obtain i where i: "assigned_at blocks l i x" using look by (auto simp: assigned_at_def in_set_conv_nth)
      have "\<not> assigns_to x s" if s: "(m, s) \<in> set (statements bs)" for m s
      proof
        assume "assigns_to x s"
        from s obtain body where mb: "(m, body) \<in> set bs" "s \<in> set body" by (auto simp: statements_def)
        then have "map_of blocks m = Some body" using Cons.prems(1) assms(1) by auto
        with mb(2) \<open>assigns_to x s\<close> obtain j where "assigned_at blocks m j x" by (auto simp: assigned_at_def in_set_conv_nth)
        with i assms(2) have "l = m" unfolding assigned_once_def by blast
        with mb(1) Cons.prems(2) b show False by force
      qed
      then have "filter (\<lambda>(l, st). assigns_to x st) (statements bs) = []" by (auto simp: filter_empty_conv)
      with body[OF look] show ?thesis by (simp only: split) simp
    qed
  qed (simp add: statements_def)
  from this[of blocks] assms(1) show ?thesis by (simp add: build_definitions_length)
qed

text \<open>With at most one entry each, what the search finds is the assignment of the name it ends with.\<close>

lemma get_definition_found:
  assumes "get_definition definitions name = Some (Inr (lhs, e))"
  shows "dlist definitions lhs = [e]" and "\<nexists>x. e = VarR x"
proof -
  let ?P = "\<lambda>(lhs, r). case r of None \<Rightarrow> True | Some e \<Rightarrow> dlist definitions lhs = [e] \<and> (\<nexists>x. e = VarR x)"
  obtain st where st: "loopE (\<lambda>(name, r). r = None) (\<lambda>st. Some (definition_step definitions st)) (name, None) = Some (Inr st)"
    "(\<lambda>(name, r). (name, the r)) st = (lhs, e)" using assms by (auto simp: get_definition_def res_simps)
  have "?P st \<and> \<not> (\<lambda>(name, r). r = None) st"
  proof (rule loopE_invariant[OF st(1)])
    show "?P s'" if "(\<lambda>(name, r). r = None) s" "Some (definition_step definitions s) = Some (Inr s')" for s s'
      using that by (cases s) (auto simp: definition_step_def split: list.splits rhs.splits if_splits)
  qed simp
  with st(2) show "dlist definitions lhs = [e]" "\<nexists>x. e = VarR x" by (cases st; cases "snd st"; simp)+
qed

section \<open>Canonical input\<close>

text \<open>
  The first post-processing run canonicalizes the graph before the pass, so its run within the
  pass finds loops with one back edge each and leaves the blocks, and with them the incoming
  blocks of the phi nodes, as they are.
\<close>

definition single_backedges :: "'c blocks \<Rightarrow> bool" where
  "single_backedges blocks \<longleftrightarrow>
     (\<forall>g loops l. compute_cfg_from_blocks blocks = Some (Inr g) \<longrightarrow> cfg_loops g = Some (Inr loops) \<longrightarrow>
        l \<in> set (dvalues loops) \<longrightarrow> \<not> multiple blocks l)"

lemma canonical_kept:
  assumes ok: "blocks_ok blocks" and single: "single_backedges blocks"
  shows "\<exists>nb. canonicalize_cfg blocks = Some (Inr nb) \<and> set (dkeys nb) = set (dkeys blocks)
    \<and> (\<forall>k. map_of nb k = map_of blocks k)"
proof -
  from canonicalize_result[OF ok] obtain g loops nb where
    r: "compute_cfg_from_blocks blocks = Some (Inr g)" "cfg_loops g = Some (Inr loops)" "canonicalize_cfg blocks = Some (Inr nb)"
      "rewritten blocks {l \<in> set (dvalues loops). multiple blocks l} nb" by blast
  have "{l \<in> set (dvalues loops). multiple blocks l} = {}" using single r(1,2) unfolding single_backedges_def by blast
  with r(4) have rew: "rewritten blocks {} nb" by (simp only:)
  then have g: "gathers blocks nb" and new: "\<And>t. t \<in> set (dkeys nb) \<Longrightarrow> t \<in> set (dkeys blocks)"
    unfolding rewritten_def by blast+
  have keys: "set (dkeys nb) = set (dkeys blocks)" using gathers_parts(2)[OF g] new by blast
  have "map_of nb k = map_of blocks k" for k
  proof (cases "map_of blocks k")
    case None
    then have "k \<notin> set (dkeys blocks)" by (simp add: map_of_eq_None_iff)
    then have "k \<notin> set (dkeys nb)" unfolding keys .
    with None show ?thesis by (simp add: map_of_outside)
  next
    case (Some body)
    obtain b ts where b: "map_of nb k = Some b" "b \<noteq> []" "butlast b = butlast body" "get_targets (last b) = Inr ts"
      "set ts \<subseteq> set (dkeys nb)" "retarget (contract blocks nb) (last b) = last body"
      by (rule gathersD[OF g ok Some])
    have "contract blocks nb t = t" if "t \<in> set ts" for t
    proof -
      have "t \<in> set (dkeys blocks)" using b(5) that keys by blast
      then show ?thesis by (simp only: contract_def if_True)
    qed
    then have "retarget (contract blocks nb) (last b) = last b"
      using b(4) by (cases "last b") (auto simp: retarget_def get_targets_def is_exit_def)
    with b(6) have "last b = last body" by simp
    moreover have "body \<noteq> []" using ok map_of_SomeD[OF Some] by (auto simp: blocks_ok_def verify_block_ok)
    ultimately have "b = body" using b(2,3) by (metis append_butlast_last_id)
    with b(1) Some show ?thesis by simp
  qed
  with r(3) keys show ?thesis by blast
qed

lemma exec_walk_cong:
  "(\<And>k. block_at nbs k = block_at blocks k) \<Longrightarrow> exec_walk nbs p ks s = exec_walk blocks p ks s"
  by (induction ks arbitrary: p s) simp_all

text \<open>The jumps of the blocks decide whether a loop has several back edges.\<close>

lemma single_backedges_cong:
  assumes "compute_cfg_from_blocks nbs = compute_cfg_from_blocks blocks" and "\<And>k. tg nbs k = tg blocks k"
  shows "single_backedges nbs = single_backedges blocks"
  using assms by (simp add: single_backedges_def multiple_def)

section \<open>Properties\<close>

text \<open>
  C3. The pass on a function that is no generator, whose graph is canonical: it always succeeds;
  its blocks assign every variable at most once and the table of definitions has at most one
  entry per variable; and along every walk they do what the program that came in does.
\<close>

theorem reconstruct_ssa_pass_correct:
  assumes "ssa_input blocks sc" and "single_backedges blocks"
  shows "\<exists>r. reconstruct_ssa_pass False blocks sc locals = Some (Inr r) \<and> set (dkeys (sp_blocks r)) = set (dkeys blocks)
    \<and> (\<forall>x. assigned_once (sp_blocks r) x \<and> length (dlist (sp_definitions r) x) \<le> 1)
    \<and> (\<forall>ks. walk (block_edges blocks) (start_block blocks # ks) \<longrightarrow>
         walk_steps (sp_blocks r) (start_block blocks # ks) = walk_steps blocks (start_block blocks # ks))"
proof -
  from run_ssa_ok[OF assms(1)] obtain nbs sc' where
    ssa: "run_ssa blocks sc = Some (Inr (nbs, sc'))" "dkeys nbs = dkeys blocks"
      "compute_cfg_from_blocks nbs = compute_cfg_from_blocks blocks" "\<forall>x. assigned_once nbs x"
      "blocks_ok nbs" "no_dels nbs" "block_edges nbs = block_edges blocks"
      "\<forall>ks. walk (block_edges blocks) (start_block blocks # ks) \<longrightarrow>
         walk_steps nbs (start_block blocks # ks) = walk_steps blocks (start_block blocks # ks)" by blast
  have ok: "blocks_ok blocks" using assms(1) by (simp add: ssa_input_def)
  have "tg bs k = {t. (k, t) \<in> block_edges bs}" if "distinct (dkeys bs)" for bs :: "'a blocks" and k
    unfolding tg_def block_edges_def map_of_eq_Some_iff[OF that, symmetric] by (auto split: option.splits)
  then have "tg nbs k = tg blocks k" for k using ok ssa(5,7) by (simp add: blocks_ok_def)
  then have "single_backedges nbs" using single_backedges_cong[OF ssa(3)] assms(2) by blast
  from canonical_kept[OF ssa(5) this] obtain nb where
    nb: "canonicalize_cfg nbs = Some (Inr nb)" "set (dkeys nb) = set (dkeys nbs)" "\<forall>k. map_of nb k = map_of nbs k" by blast
  have ne: "nbs \<noteq> []" using ssa(5) by (simp add: blocks_ok_def)
  let ?r = "\<lparr>sp_blocks = nb, sp_scope = sc', sp_locals = map_option (patch_locals sc') locals,
      sp_definitions = build_definitions nbs [], sp_generator = None\<rparr>"
  have "reconstruct_ssa_pass False blocks sc locals = Some (Inr ?r)"
    using ssa(1) nb(1) ne by (cases locals) (simp_all add: reconstruct_ssa_pass_def postproc_run_def Let_def)
  moreover have "set (dkeys (sp_blocks ?r)) = set (dkeys blocks)" using nb(2) ssa(2) by simp
  moreover have "assigned_once (sp_blocks ?r) x \<and> length (dlist (sp_definitions ?r) x) \<le> 1" for x
  proof -
    have "assigned_once nb x = assigned_once nbs x" using nb(3) by (simp add: assigned_once_def assigned_at_def)
    moreover have "distinct (dkeys nbs)" using ssa(5) by (simp add: blocks_ok_def)
    ultimately show ?thesis using ssa(4) once_at_most_one[of nbs x] by simp
  qed
  moreover have "walk_steps (sp_blocks ?r) ks = walk_steps nbs ks" for ks
    using exec_walk_cong[of nb nbs] nb(3) by (simp add: walk_steps_def block_at_def)
  ultimately show ?thesis using ssa(8) by (intro exI[of _ ?r]) simp
qed

lemma counting_single: "single_backedges counting_loop"
proof -
  have "case compute_cfg_from_blocks counting_loop of
      Some (Inr g) \<Rightarrow> (case cfg_loops g of Some (Inr loops) \<Rightarrow> list_all (\<lambda>l. \<not> multiple counting_loop l) (dvalues loops) | _ \<Rightarrow> True)
    | _ \<Rightarrow> True"
    by code_simp
  then show ?thesis by (force simp: single_backedges_def list_all_iff)
qed

theorem reconstruct_ssa_pass_correct_witness:
  "\<exists>r. reconstruct_ssa_pass False counting_loop counting_scope (Some [(''x'', ''int64'')]) = Some (Inr r)
    \<and> assigned_once (sp_blocks r) ''x'' \<and> length (dlist (sp_definitions r) ''x'') \<le> 1"
  using reconstruct_ssa_pass_correct[OF counting_loop_ok counting_single, of "Some [(''x'', ''int64'')]"] by blast

end
