(* ===== verification/Spec2Isabelle.thy ===== *)
theory Spec2Isabelle
  imports TypeConv Overload CFGraph BackEdges Loops DomSets Decode Comprehensions PrunePhis ArrayLayout Reconstruct
begin

text \<open>
  A model of the parts of numba-cuda-mlir whose correctness does not depend on a GPU: the
  decisions the compiler takes about types, bytecode, control flow, variables and the layout of
  arrays. All paths below are under
  \<open>src/numba_cuda_mlir/numba_cuda/\<close> unless they start with \<open>cext/\<close>.

  \<^bold>\<open>Parts and theories.\<close>

  \<^item> \<open>Prelude\<close>: errors, results, insertion-ordered dictionaries and sets, loops that may run
    forever or raise (\<open>loopE\<close>, \<open>foldO\<close>) and their rules.
  \<^item> \<open>CastGraph\<close> (\<open>typeconv/castgraph.py\<close>): \<open>CastSet\<close>, \<open>TypeGraph\<close> with \<open>insert_rule\<close>
    and its propagation. The callback of the graph is the list of calls it makes.
  \<^item> \<open>TypeConv\<close> (\<open>typeconv/typeconv.py\<close>, \<open>typeconv/rules.py\<close> and the hash table of
    \<open>cext/typeconv/typeconv.cpp\<close>): the type manager and the built-in casting rules. The
    table is used through the locale \<open>compat_table\<close>.
  \<^item> \<open>Overload\<close> (\<open>typing/context.py\<close>, \<open>dispatcher.py\<close>, \<open>cext/typeconv\<close>): convertibility,
    the rating of calls, both overload selectors, unification.
  \<^item> \<open>Worklist\<close>, \<open>CFGraph\<close>, \<open>BackEdges\<close>, \<open>Loops\<close> (\<open>core/controlflow.py\<close>): depth first
    search and post-order on arcs, the graph and its processing, back edges, topological
    order, descendents, natural loops.
  \<^item> \<open>Dominators\<close>, \<open>DomTree\<close>, \<open>Idoms\<close>, \<open>DomSets\<close> (\<open>core/controlflow.py\<close>): immediate
    dominators by iteration over a tree of parents, dominator sets and frontiers,
    post-dominators, each shown to be what its definition over paths says.
  \<^item> \<open>Bytecode\<close>, \<open>Decode\<close>, \<open>Comprehensions\<close> (\<open>core/bytecode.py\<close>): decoding, patching, jump
    targets, line numbers, the exception table; what the decoder promises (round trip, errors,
    layout); and which exception entries of inlined comprehensions the clean-up removes, joins
    and keeps, as steps on the table.
  \<^item> \<open>TraceState\<close>, \<open>TraceOps\<close>, \<open>TraceInv\<close>, \<open>TraceSafe\<close>, \<open>Flow\<close>, \<open>FlowProps\<close>, \<open>PrunePhis\<close>
    (\<open>core/byteflow.py\<close>): the trace state, one definition per opcode handler, the invariant
    every handler keeps, the runner over all states, the pruning of phi nodes.
  \<^item> \<open>DummyArray\<close>, \<open>Reshape\<close>, \<open>ArrayLayout\<close> (\<open>cudadrv/dummyarray.py\<close>): dimensions, slices,
    contiguity, extents and reshaping of array layouts.
  \<^item> \<open>IRNodes\<close> (\<open>core/ir.py\<close>): expressions, statements, blocks and the graph of the blocks.
  \<^item> \<open>Liveness\<close>, \<open>BitFlow\<close>, \<open>LiveProps\<close>, \<open>DeadMaps\<close> (\<open>core/analysis.py\<close>): use and definition
    maps, the live map on bit sets, dead maps. The two fixpoints of the live map share the
    locale \<open>bit_flow\<close>, interpreted on the two sweeps of the code.
  \<^item> \<open>PostProc\<close>, \<open>Lifetimes\<close>, \<open>Canonicalize\<close>, \<open>PostRun\<close> (\<open>core/postproc.py\<close>,
    \<open>core/transforms.py\<close>): inserting deletions, rewriting loops with several back edges,
    generator information, and the whole run of the post-processor.
  \<^item> \<open>Renaming\<close> (\<open>core/ir.py\<close>, \<open>core/ir_utils.py\<close>): versions of a name in a scope, and
    replacing a variable in a statement.
  \<^item> \<open>DomIntervals\<close>, \<open>SSA\<close> (\<open>core/ssa.py\<close>): the iterated frontiers, the intervals of the
    dominator tree, and the SSA reconstruction with all its passes. \<open>SSAReach\<close> defines which
    definition reaches a point; \<open>SSAWalk\<close> shows that the search finds it; \<open>SSAPass\<close>,
    \<open>SSAFix\<close>, \<open>SSABlocks\<close> and \<open>SSAViolator\<close> what the passes for one variable return;
    \<open>SSASem\<close> the record of a walk, \<open>SSASim\<close> and \<open>SSAWalks\<close> that renaming keeps it;
    \<open>SSAKeep\<close> and \<open>SSAOnce\<close> that the next pass finds what it expects, and single assignment;
    \<open>SSARun\<close> the theorems about the whole. \<open>Reconstruct\<close> (\<open>core/untyped_passes.py\<close>) is the
    compiler pass around it, with the table of definitions.
  \<^item> This theory: \<open>ByteCode\<close> as built from a code object, and the front end as a whole.

  \<^bold>\<open>Interaction.\<close> Casting rules are inserted into the type graph, whose callback fills the
  type manager; overload resolution and unification read the type manager. Bytes are decoded
  into instructions, which the flow analysis traces into a graph of states. The control flow
  graph eliminates its dead blocks first, and every later analysis (post-order, back edges,
  loops, dominators) works on the live graph that leaves. IR blocks give a graph through their
  jumps; lifetimes, canonicalization and SSA reconstruction read that graph. The compiler pass
  for SSA form runs the post-processor once more, on blocks an earlier run made canonical.

  \<^bold>\<open>Loops and fuel.\<close> Work lists are \<open>while_option\<close> or \<open>loopE\<close> loops, where running forever is
  \<open>None\<close>; each theorem about one says that the loop returns. \<open>unify_pairs\<close> takes the number
  of nested calls allowed as fuel, and its theorem shows that two are enough when no type has
  rules of its own. \<open>get_definition\<close> follows copies and has no bound: only what it returns
  is described.

  \<^bold>\<open>Parameters.\<close> The opcode tables of the interpreter's \<open>dis\<close> module are the record \<open>dis\<close>,
  its decoder of 3.13 and later an argument of \<open>unpack_opargs\<close>. Constants, globals and other
  Python objects within the IR are a type parameter. The registries of extension nodes, which
  other packages fill, are empty.

  \<^bold>\<open>Assumptions of the SSA theorems.\<close> \<open>ssa_input\<close> asks for blocks that end with their only
  terminator, all reachable from the first block, which no jump leads to; for statements over
  the variables of the scope, without deletions and phi nodes; and that the renaming reaches
  all variables a statement reads. The last excludes statements \<open>visit_vars_stmt\<close> does not
  list (\<open>StoreMap\<close>, \<open>EnterWith\<close>, raises with variable arguments).

  \<^bold>\<open>Not modelled.\<close> The interpreter (\<open>core/interpreter.py\<close>) and the identity of a function read
  live Python objects; type inference rests on the registries of typing templates;
  \<open>ControlFlowAnalysis\<close>, loop and with lifting, dead code elimination and the other helpers of
  \<open>core/ir_utils.py\<close> are left out. The lowering to MLIR (\<open>lowering/\<close>, \<open>mlir_lowering.py\<close>,
  \<open>descriptor.py\<close>) builds operations of the MLIR Python bindings, the driver modules call the
  CUDA driver, the implementations of NumPy functions are compiled for the GPU through the
  registries, and the generated bindings of CUDA types (\<open>_internal/\<close>) are declarations: none
  has a behaviour without those libraries. Locations, logging and warnings are left out.
\<close>

section \<open>From code bytes to blocks\<close>

text \<open>
  What the interpreter's code object holds, and the construction of \<open>ByteCode\<close> from it
  (\<open>_ByteCode.__init__\<close> and its subclasses in \<open>core/bytecode.py\<close>).
\<close>

record code_object =
  co_code :: "nat list"
  co_linestarts :: "(int \<times> int option) list"
  co_firstlineno :: int
  co_labels :: "int list"
  co_entries :: "eh_entry list"
  co_varnames :: "string list"
  co_cellvars :: nat
  co_freevars :: nat
  is_generator :: bool

definition make_bytecode ::
  "dis \<Rightarrow> (nat list \<Rightarrow> (int \<times> nat \<times> int option) list) \<Rightarrow> nat \<Rightarrow> code_object \<Rightarrow> code res" where
  "make_bytecode d unp py co =
     bindE (unpack_opargs d unp py (co_code co)) (\<lambda>raw.
     bindE (patched_opargs d raw) (\<lambda>patched.
       let table = compute_lineno (co_linestarts co) (co_firstlineno co) (bytecode_table d patched)
       in bindE (if 11 \<le> py then exception_entries py table (is_generator co) (co_entries co) else Inr [])
            (\<lambda>entries.
              Inr \<lparr>c_py = py, c_table = table, c_labels = make_labels (co_labels co), c_entries = entries,
                   c_varnames = co_varnames co, c_cellvars = co_cellvars co, c_freevars = co_freevars co\<rparr>)))"

text \<open>
  C16. The front end as a whole: for every non-empty code of 3.9 to 3.12 that decodes, the
  flow analysis returns, with the graph and the block infos or with an error it raises. It
  never runs forever, whatever the jumps and exception entries of the code are.
\<close>

theorem decoded_flow_returns:
  assumes "py \<le> 12" and "co_code co \<noteq> []" and "make_bytecode d unp py co = Inr bc"
  shows "\<exists>x. flow_run bc = Some x"
proof -
  obtain raw patched where raw: "unpack_opargs d unp py (co_code co) = Inr raw"
    and patched: "patched_opargs d raw = Inr patched"
    and t: "c_table bc = compute_lineno (co_linestarts co) (co_firstlineno co) (bytecode_table d patched)"
    using assms(3) by (auto simp: make_bytecode_def bindE_Inr_iff Let_def)
  have "forward_code bc"
    unfolding forward_code_def using decoded_code_forward[OF assms(1,2) raw patched t] by blast
  then show ?thesis by (rule flow_run_total)
qed

definition sample_object :: code_object where
  "sample_object =
     \<lparr>co_code = [110, 0, 140, 2], co_linestarts = [(0, Some 1)], co_firstlineno = 1, co_labels = [0, 2],
      co_entries = [], co_varnames = [''x''], co_cellvars = 0, co_freevars = 0, is_generator = False\<rparr>"

theorem decoded_flow_returns_witness:
  "\<exists>bc x. make_bytecode sample_dis (\<lambda>_. []) 11 sample_object = Inr bc \<and> dkeys (c_table bc) = [0, 2, 4]
     \<and> flow_run bc = Some x"
proof -
  have "map_sum id (dkeys \<circ> c_table) (make_bytecode sample_dis (\<lambda>_. []) 11 sample_object) = Inr [0, 2, 4]"
    by code_simp
  then obtain bc where bc: "make_bytecode sample_dis (\<lambda>_. []) 11 sample_object = Inr bc"
    and "dkeys (c_table bc) = [0, 2, 4]"
    by (cases "make_bytecode sample_dis (\<lambda>_. []) 11 sample_object") auto
  with decoded_flow_returns[OF _ _ bc] show ?thesis by (auto simp: sample_object_def)
qed

end
